(* ===== verification/Prelude.thy ===== *)
theory Prelude
  imports Main "HOL-Library.Word" "HOL-Library.Multiset" "HOL-Library.Signed_Division"
begin

section \<open>Prelude: shared types, collections and list lemmas\<close>

text \<open>
  What every component shares: the machine-integer types of a 64-bit build of the
  Racket run-time system (\<open>uintptr_t\<close> and \<open>intptr_t\<close> as in
  \<^verbatim>\<open>src/racket/src/racket/include/scheme.h\<close>), the development's fact collections and a few
  generic lemmas on lists and words.
\<close>

type_synonym uintptr = "64 word"
type_synonym u32 = "32 word"
type_synonym u16 = "16 word"
type_synonym u8 = "8 word"

named_theorems inv_simps \<open>equations that unfold a component's invariant\<close>
named_theorems frame_simps \<open>what an operation leaves unchanged\<close>

subsection \<open>Words\<close>

lemma unat_of_nat64: "n < 2 ^ 64 \<Longrightarrow> unat (of_nat n :: uintptr) = n"
  by (simp add: unat_of_nat)

lemma sint_small64:
  assumes "unat (c :: uintptr) < 2 ^ 63"
  shows "sint c = int (unat c)"
proof -
  have u: "int (unat c) = uint c" by simp
  have "int (unat c) < int (2 ^ 63)" using assms by (simp only: of_nat_less_iff)
  then have "uint c < 2 ^ 63" by (simp only: u of_nat_power of_nat_numeral)
  moreover have "- (2 ^ 63) \<le> uint c" by (rule order_trans[OF _ uint_ge_0]) simp
  ultimately have "signed_take_bit 63 (uint c) = uint c" by (intro signed_take_bit_int_eq_self)
  then have "sint c = uint c" by (simp add: sint_uint)
  then show ?thesis by (simp only: u)
qed

lemma word_of_int_sint64: "word_of_int (sint (c :: uintptr)) = c"
  by simp

end
