(* ===== verification/Avl.thy ===== *)
theory Avl
  imports Prelude
begin

section \<open>AVL nodes of the immutable hash tables (hash.c)\<close>

text \<open>
  The \<^verbatim>\<open>AVLNode\<close> structure of \<^verbatim>\<open>src/racket/src/racket/src/hash.c\<close> and its operations.
  A node carries a cached height, a hash code, a key that may be \<^verbatim>\<open>NULL\<close> and a value; with a
  \<^verbatim>\<open>NULL\<close> key the value is another tree. The pointer to the value is therefore a sum: no value
  yet, a Scheme value, or a subtree. Nodes are never changed after they are shared
  (\<^verbatim>\<open>avl_clone\<close> copies first), so trees are HOL values and the comparison of a node
  pointer with the old one is equality of trees; reading a field of \<^verbatim>\<open>NULL\<close> is the
  unspecified selector of \<open>Null\<close>.
\<close>

datatype ('k, 'v) avl =
    Null
  | AVLNode (avl_height: nat) (avl_code: uintptr) (avl_key: "'k option")
      (avl_val: "('k, 'v) slot") (avl_left: "('k, 'v) avl") (avl_right: "('k, 'v) avl")
and ('k, 'v) slot = NullVal | Value (slot_value: 'v) | Subtree (slot_tree: "('k, 'v) avl")

fun get_height :: "('k, 'v) avl \<Rightarrow> nat" where
  "get_height Null = 0"
| "get_height (AVLNode h c k v l r) = h"

fun fix_height :: "('k, 'v) avl \<Rightarrow> ('k, 'v) avl" where
  "fix_height Null = Null"
| "fix_height (AVLNode _ c k v l r) =
     (let h = get_height l;
          h = (if get_height r > h then get_height r else h)
      in AVLNode (h + 1) c k v l r)"

definition make_avl ::
  "('k, 'v) avl \<Rightarrow> uintptr \<Rightarrow> 'k option \<Rightarrow> ('k, 'v) slot \<Rightarrow> ('k, 'v) avl \<Rightarrow> ('k, 'v) avl" where
  "make_avl l c k v r = fix_height (AVLNode 0 c k v l r)"

definition get_balance :: "('k, 'v) avl \<Rightarrow> int" where
  "get_balance t = int (get_height (avl_left t)) - int (get_height (avl_right t))"

fun avl_find :: "uintptr \<Rightarrow> ('k, 'v) avl \<Rightarrow> ('k, 'v) avl" where
  "avl_find code Null = Null"
| "avl_find code (AVLNode h c k v l r) =
     (if c = code then AVLNode h c k v l r
      else if c > code then avl_find code l
      else avl_find code r)"

text \<open>Assignment to the fields \<^verbatim>\<open>left\<close> and \<^verbatim>\<open>right\<close> of a fresh clone.\<close>

fun set_left :: "('k, 'v) avl \<Rightarrow> ('k, 'v) avl \<Rightarrow> ('k, 'v) avl" where
  "set_left Null x = Null"
| "set_left (AVLNode h c k v l r) x = AVLNode h c k v x r"

fun set_right :: "('k, 'v) avl \<Rightarrow> ('k, 'v) avl \<Rightarrow> ('k, 'v) avl" where
  "set_right Null x = Null"
| "set_right (AVLNode h c k v l r) x = AVLNode h c k v l x"

definition check_rotate_right :: "('k, 'v) avl \<Rightarrow> ('k, 'v) avl" where
  "check_rotate_right t =
     (if get_balance t = 2 then
        (let left = avl_left t;
             left =
               (if get_balance left < 0 then
                  (let left_right = avl_right left;
                       left = fix_height (set_right left (avl_left left_right))
                   in set_left left_right left)
                else left);
             t = fix_height (set_left t (avl_right left))
         in fix_height (set_right left t))
      else t)"

definition check_rotate_left :: "('k, 'v) avl \<Rightarrow> ('k, 'v) avl" where
  "check_rotate_left t =
     (if get_balance t = -2 then
        (let right = avl_right t;
             right =
               (if get_balance right > 0 then
                  (let right_left = avl_left right;
                       right = fix_height (set_left right (avl_right right_left))
                   in set_right right_left right)
                else right);
             t = fix_height (set_right t (avl_left right))
         in fix_height (set_left right t))
      else t)"

fun avl_ins ::
  "uintptr \<Rightarrow> 'k option \<Rightarrow> ('k, 'v) slot \<Rightarrow> ('k, 'v) avl \<Rightarrow> ('k, 'v) avl" where
  "avl_ins code key val Null = make_avl Null code key val Null"
| "avl_ins code key val (AVLNode h c k v l r) =
     (if c > code then
        (let left = avl_ins code key val l
         in if left = l then AVLNode h c k v l r
            else check_rotate_right (fix_height (AVLNode h c k v left r)))
      else if c < code then
        (let right = avl_ins code key val r
         in if right = r then AVLNode h c k v l r
            else check_rotate_left (fix_height (AVLNode h c k v l right)))
      else AVLNode h c k v l r)"

text \<open>The loop \<^verbatim>\<open>for (lm = t->left; lm->right != NULL; lm = lm->right)\<close>.\<close>

fun avl_max_node :: "('k, 'v) avl \<Rightarrow> ('k, 'v) avl" where
  "avl_max_node Null = Null"
| "avl_max_node (AVLNode h c k v l r) =
     (if r = Null then AVLNode h c k v l r else avl_max_node r)"

fun avl_del :: "('k, 'v) avl \<Rightarrow> uintptr \<Rightarrow> ('k, 'v) avl" where
  "avl_del Null code = Null"
| "avl_del (AVLNode h c k v l r) code =
     (if code < c then
        (let new_left = avl_del l code
         in if new_left = l then AVLNode h c k v l r
            else check_rotate_left (fix_height (AVLNode h c k v new_left r)))
      else if code > c then
        (let new_right = avl_del r code
         in if new_right = r then AVLNode h c k v l r
            else check_rotate_right (fix_height (AVLNode h c k v l new_right)))
      else if l = Null then r
      else if r = Null then l
      else
        (let lm = avl_max_node l;
             new_left = avl_del l (avl_code lm);
             lm = fix_height (set_right (set_left lm new_left) r)
         in if get_balance lm = -2 then check_rotate_left lm
            else check_rotate_right lm))"

fun avl_replace ::
  "('k, 'v) avl \<Rightarrow> ('k, 'v) avl \<Rightarrow> ('k, 'v) avl \<Rightarrow> ('k, 'v) avl" where
  "avl_replace Null orig naya = (if Null = orig then naya else Null)"
| "avl_replace (AVLNode h c k v l r) orig naya =
     (if AVLNode h c k v l r = orig then naya
      else if c > avl_code orig then AVLNode h c k v (avl_replace l orig naya) r
      else AVLNode h c k v l (avl_replace r orig naya))"

text \<open>Writing \<^verbatim>\<open>key\<close> and \<^verbatim>\<open>val\<close> through the pointer that \<^verbatim>\<open>avl_find\<close> returned.\<close>

fun avl_assign ::
  "uintptr \<Rightarrow> 'k option \<Rightarrow> ('k, 'v) slot \<Rightarrow> ('k, 'v) avl \<Rightarrow> ('k, 'v) avl" where
  "avl_assign code key val Null = Null"
| "avl_assign code key val (AVLNode h c k v l r) =
     (if c = code then AVLNode h c key val l r
      else if c > code then AVLNode h c k v (avl_assign code key val l) r
      else AVLNode h c k v l (avl_assign code key val r))"

subsection \<open>The contents of a tree\<close>

fun avl_items :: "('k, 'v) avl \<Rightarrow> (uintptr \<times> 'k option \<times> ('k, 'v) slot) list" where
  "avl_items Null = []"
| "avl_items (AVLNode h c k v l r) = avl_items l @ (c, k, v) # avl_items r"

definition avl_codes :: "('k, 'v) avl \<Rightarrow> uintptr set" where
  "avl_codes t = fst ` set (avl_items t)"

lemma in_avl_codes: "(c, k, v) \<in> set (avl_items t) \<Longrightarrow> c \<in> avl_codes t"
  by (force simp: avl_codes_def)

lemma avl_codes_simps [simp]:
  "avl_codes Null = {}"
  "avl_codes (AVLNode h c k v l r) = insert c (avl_codes l \<union> avl_codes r)"
  by (auto simp: avl_codes_def)

fun avl_bst :: "('k, 'v) avl \<Rightarrow> bool" where
  "avl_bst Null = True"
| "avl_bst (AVLNode h c k v l r) =
     ((\<forall>x \<in> avl_codes l. x < c) \<and> (\<forall>x \<in> avl_codes r. c < x) \<and> avl_bst l \<and> avl_bst r)"

text \<open>Cached heights are right and siblings differ by at most one level.\<close>

fun avl_bal :: "('k, 'v) avl \<Rightarrow> bool" where
  "avl_bal Null = True"
| "avl_bal (AVLNode h c k v l r) =
     (h = max (get_height l) (get_height r) + 1 \<and>
      get_height l \<le> get_height r + 1 \<and> get_height r \<le> get_height l + 1 \<and>
      avl_bal l \<and> avl_bal r)"

lemma avl_items_fix_height [simp]: "avl_items (fix_height t) = avl_items t"
  by (cases t) (auto simp: Let_def)

lemma avl_codes_fix_height [simp]: "avl_codes (fix_height t) = avl_codes t"
  by (simp add: avl_codes_def)

lemma avl_bst_fix_height [simp]: "avl_bst (fix_height t) = avl_bst t"
  by (cases t) (auto simp: Let_def)

lemma fix_height_node:
  "fix_height (AVLNode h c k v l r) = AVLNode (max (get_height l) (get_height r) + 1) c k v l r"
  by (auto simp: Let_def max_def)

declare fix_height.simps(2) [simp del]
declare fix_height_node [simp]

lemma get_height_0 [simp]: "avl_bal t \<Longrightarrow> get_height t = 0 \<longleftrightarrow> t = Null"
  by (cases t) auto

lemma get_height_pos: "get_height t > 0 \<Longrightarrow> t \<noteq> Null"
  by auto

lemma make_avl_simp [simp]:
  "make_avl l c k v r = AVLNode (max (get_height l) (get_height r) + 1) c k v l r"
  by (simp add: make_avl_def)

subsection \<open>Rotations\<close>

lemma avl_bst_sorted: "avl_bst t \<longleftrightarrow> sorted_wrt (<) (map fst (avl_items t))"
  by (induction t rule: avl_items.induct)
     (fastforce simp: sorted_wrt_append avl_codes_def)+

lemma avl_bst_items: "avl_items s = avl_items t \<Longrightarrow> avl_bst t \<Longrightarrow> avl_bst s"
  by (simp add: avl_bst_sorted)

lemma avl_node_cases_pos:
  assumes "get_height t > 0"
  obtains h c k v l r where "t = AVLNode h c k v l r"
  using assms by (cases t) auto

lemma check_rotate_right_items:
  "avl_items (check_rotate_right (AVLNode h c k v l r)) = avl_items (AVLNode h c k v l r)"
proof (cases "get_balance (AVLNode h c k v l r) = 2")
  case True
  then have "get_height l > 0" by (simp add: get_balance_def)
  then obtain lh lc lk lv ll lr where l: "l = AVLNode lh lc lk lv ll lr"
    by (rule avl_node_cases_pos)
  show ?thesis
  proof (cases "get_balance l < 0")
    case neg: True
    then have "get_height lr > 0" by (simp add: l get_balance_def)
    then obtain a b d e f g where "lr = AVLNode a b d e f g"
      by (rule avl_node_cases_pos)
    with True neg l show ?thesis by (simp add: check_rotate_right_def Let_def)
  qed (use True l in \<open>simp add: check_rotate_right_def Let_def\<close>)
qed (simp add: check_rotate_right_def)

lemma check_rotate_left_items:
  "avl_items (check_rotate_left (AVLNode h c k v l r)) = avl_items (AVLNode h c k v l r)"
proof (cases "get_balance (AVLNode h c k v l r) = -2")
  case True
  then have "get_height r > 0" by (simp add: get_balance_def)
  then obtain rh rc rk rv rl rr where r: "r = AVLNode rh rc rk rv rl rr"
    by (rule avl_node_cases_pos)
  show ?thesis
  proof (cases "get_balance r > 0")
    case pos: True
    then have "get_height rl > 0" by (simp add: r get_balance_def)
    then obtain a b d e f g where "rl = AVLNode a b d e f g"
      by (rule avl_node_cases_pos)
    with True pos r show ?thesis by (simp add: check_rotate_left_def Let_def)
  qed (use True r in \<open>simp add: check_rotate_left_def Let_def\<close>)
qed (simp add: check_rotate_left_def)

text \<open>A rotation restores the balance of a node whose left side is at most two levels too
  high, and never makes the tree higher.\<close>

lemma check_rotate_right_bal:
  assumes bal: "avl_bal l" "avl_bal r"
    and le: "get_height l \<le> get_height r + 2" "get_height r \<le> get_height l + 1"
    and h: "h = max (get_height l) (get_height r) + 1"
  shows "avl_bal (check_rotate_right (AVLNode h c k v l r)) \<and>
         get_height (check_rotate_right (AVLNode h c k v l r)) \<le> h \<and>
         h \<le> get_height (check_rotate_right (AVLNode h c k v l r)) + 1 \<and>
         (get_height l \<le> get_height r + 1 \<longrightarrow>
            get_height (check_rotate_right (AVLNode h c k v l r)) = h)"
proof (cases "get_balance (AVLNode h c k v l r) = 2")
  case True
  then have hl: "get_height l = get_height r + 2" by (simp add: get_balance_def)
  then obtain lh lc lk lv ll lr where l: "l = AVLNode lh lc lk lv ll lr"
    by (auto intro: avl_node_cases_pos[of l])
  show ?thesis
  proof (cases "get_balance l < 0")
    case neg: True
    then have "get_height lr > 0" by (simp add: l get_balance_def)
    then obtain a b d e f g where "lr = AVLNode a b d e f g"
      by (rule avl_node_cases_pos)
    with True neg l hl bal h show ?thesis
      by (auto simp: check_rotate_right_def Let_def get_balance_def)
  next
    case False
    with True l hl bal h show ?thesis
      by (auto simp: check_rotate_right_def Let_def get_balance_def)
  qed
next
  case False
  with assms show ?thesis by (auto simp: check_rotate_right_def get_balance_def)
qed

lemma check_rotate_left_bal:
  assumes bal: "avl_bal l" "avl_bal r"
    and le: "get_height r \<le> get_height l + 2" "get_height l \<le> get_height r + 1"
    and h: "h = max (get_height l) (get_height r) + 1"
  shows "avl_bal (check_rotate_left (AVLNode h c k v l r)) \<and>
         get_height (check_rotate_left (AVLNode h c k v l r)) \<le> h \<and>
         h \<le> get_height (check_rotate_left (AVLNode h c k v l r)) + 1 \<and>
         (get_height r \<le> get_height l + 1 \<longrightarrow>
            get_height (check_rotate_left (AVLNode h c k v l r)) = h)"
proof (cases "get_balance (AVLNode h c k v l r) = -2")
  case True
  then have hr: "get_height r = get_height l + 2" by (simp add: get_balance_def)
  then obtain rh rc rk rv rl rr where r: "r = AVLNode rh rc rk rv rl rr"
    by (auto intro: avl_node_cases_pos[of r])
  show ?thesis
  proof (cases "get_balance r > 0")
    case pos: True
    then have "get_height rl > 0" by (simp add: r get_balance_def)
    then obtain a b d e f g where "rl = AVLNode a b d e f g"
      by (rule avl_node_cases_pos)
    with True pos r hr bal h show ?thesis
      by (auto simp: check_rotate_left_def Let_def get_balance_def)
  next
    case False
    with True r hr bal h show ?thesis
      by (auto simp: check_rotate_left_def Let_def get_balance_def)
  qed
next
  case False
  with assms show ?thesis by (auto simp: check_rotate_left_def get_balance_def)
qed

lemma check_rotate_right_codes:
  "avl_codes (check_rotate_right (AVLNode h c k v l r)) = avl_codes (AVLNode h c k v l r)"
  unfolding avl_codes_def by (simp only: check_rotate_right_items)

lemma check_rotate_left_codes:
  "avl_codes (check_rotate_left (AVLNode h c k v l r)) = avl_codes (AVLNode h c k v l r)"
  unfolding avl_codes_def by (simp only: check_rotate_left_items)

lemma check_rotate_right_bst:
  "avl_bst (check_rotate_right (AVLNode h c k v l r)) = avl_bst (AVLNode h c k v l r)"
  by (simp only: avl_bst_sorted check_rotate_right_items)

lemma check_rotate_left_bst:
  "avl_bst (check_rotate_left (AVLNode h c k v l r)) = avl_bst (AVLNode h c k v l r)"
  by (simp only: avl_bst_sorted check_rotate_left_items)

lemmas check_rotate_right_pres =
  check_rotate_right_items check_rotate_right_codes check_rotate_right_bst

lemmas check_rotate_left_pres =
  check_rotate_left_items check_rotate_left_codes check_rotate_left_bst

subsection \<open>Lookup, insertion, replacement, deletion\<close>

lemma avl_codes_mset: "avl_codes t = fst ` set_mset (mset (avl_items t))"
  by (simp add: avl_codes_def)

lemma avl_ins_items_subset:
  "set (avl_items (avl_ins c k v t)) \<subseteq> insert (c, k, v) (set (avl_items t))"
  by (induction c k v t rule: avl_ins.induct)
     (auto simp: Let_def check_rotate_right_items check_rotate_left_items)

lemma avl_find_in_items:
  "avl_find c t = AVLNode h d k v l r \<Longrightarrow> (d, k, v) \<in> set (avl_items t)"
  by (induction c t rule: avl_find.induct) (auto split: if_splits)

lemma avl_item_size: "(c, k, Subtree s) \<in> set (avl_items t) \<Longrightarrow> size s < size t"
  by (induction t rule: avl_items.induct) auto

lemma avl_find_none: "c \<notin> avl_codes t \<Longrightarrow> avl_find c t = Null"
  by (induction t rule: avl_find.induct) auto

lemma avl_find_some:
  "avl_bst t \<Longrightarrow> c \<in> avl_codes t \<Longrightarrow>
   \<exists>h k v l r. avl_find c t = AVLNode h c k v l r \<and> (c, k, v) \<in> set (avl_items t)"
  by (induction c t rule: avl_find.induct) (auto dest: less_asym)

lemma avl_find_eq_Null: "avl_bst t \<Longrightarrow> avl_find c t = Null \<longleftrightarrow> c \<notin> avl_codes t"
  using avl_find_some[of t c] avl_find_none[of c t] by auto

lemma avl_find_item:
  "avl_bst t \<Longrightarrow> (c, k, v) \<in> set (avl_items t) \<Longrightarrow>
   avl_key (avl_find c t) = k \<and> avl_val (avl_find c t) = v \<and> avl_find c t \<noteq> Null"
proof (induction c t rule: avl_find.induct)
  case (2 code h c k' v' l r)
  then have "(code, k, v) \<in> set (avl_items l) \<Longrightarrow> code < c"
    "(code, k, v) \<in> set (avl_items r) \<Longrightarrow> c < code"
    by (auto simp: avl_codes_def)
  with 2 show ?case by auto
qed simp

lemma avl_ins_present: "avl_bst t \<Longrightarrow> c \<in> avl_codes t \<Longrightarrow> avl_ins c k v t = t"
  by (induction c k v t rule: avl_ins.induct) (auto dest: less_asym)

lemma avl_ins_bal:
  "avl_bal t \<Longrightarrow>
   avl_bal (avl_ins c k v t) \<and> get_height t \<le> get_height (avl_ins c k v t) \<and>
   get_height (avl_ins c k v t) \<le> get_height t + 1"
proof (induction c k v t rule: avl_ins.induct)
  case (2 code key val h c k v l r)
  show ?case
  proof (cases "code < c")
    case True
    with 2 check_rotate_right_bal[of "avl_ins code key val l" r
        "max (get_height (avl_ins code key val l)) (get_height r) + 1" c k v]
    show ?thesis by (auto simp: Let_def max_def split: if_splits)
  next
    case False
    with 2 check_rotate_left_bal[of l "avl_ins code key val r"
        "max (get_height l) (get_height (avl_ins code key val r)) + 1" c k v]
    show ?thesis by (auto simp: Let_def max_def split: if_splits)
  qed
qed auto

lemma avl_ins_items:
  "avl_bal t \<Longrightarrow> avl_bst t \<Longrightarrow>
   avl_bst (avl_ins c k v t) \<and>
   mset (avl_items (avl_ins c k v t)) =
     (if c \<in> avl_codes t then mset (avl_items t) else add_mset (c, k, v) (mset (avl_items t)))"
proof (induction c k v t rule: avl_ins.induct)
  case (2 code key val h c k v l r)
  have bal: "avl_bal (avl_ins code key val l)" "avl_bal (avl_ins code key val r)"
    using 2 avl_ins_bal by auto
  show ?case
  proof (cases "code \<in> avl_codes (AVLNode h c k v l r)")
    case True
    then show ?thesis using avl_ins_present[OF 2(4) True] 2(4) by simp
  next
    case False
    then have ne: "code \<noteq> c" "code \<notin> avl_codes l" "code \<notin> avl_codes r" by auto
    show ?thesis
    proof (cases "code < c")
      case True
      with 2 ne bal show ?thesis
        by (auto simp: Let_def check_rotate_right_pres avl_codes_mset)
    next
      case False
      with 2 ne bal show ?thesis
        by (auto simp: Let_def check_rotate_left_pres avl_codes_mset)
    qed
  qed
qed auto

lemma avl_max_node_items:
  "t \<noteq> Null \<Longrightarrow> \<exists>h c k v l ys. avl_max_node t = AVLNode h c k v l Null \<and>
     avl_items t = ys @ [(c, k, v)]"
  by (induction t rule: avl_max_node.induct) (auto split: if_splits)

lemma avl_assign_simps:
  shows "get_height (avl_assign c k v t) = get_height t"
    and "avl_codes (avl_assign c k v t) = avl_codes t"
    and "avl_bal t \<Longrightarrow> avl_bal (avl_assign c k v t)"
    and "avl_bst t \<Longrightarrow> avl_bst (avl_assign c k v t)"
  by (induction c k v t rule: avl_assign.induct) auto

lemma avl_assign_absent: "c \<notin> avl_codes t \<Longrightarrow> avl_assign c k v t = t"
  by (induction c k v t rule: avl_assign.induct) auto

definition assign_item :: "uintptr \<Rightarrow> 'k option \<Rightarrow> ('k, 'v) slot \<Rightarrow>
    uintptr \<times> 'k option \<times> ('k, 'v) slot \<Rightarrow> uintptr \<times> 'k option \<times> ('k, 'v) slot" where
  "assign_item c k v x = (if fst x = c then (c, k, v) else x)"

lemma map_assign_item_absent:
  "c \<notin> avl_codes t \<Longrightarrow> map (assign_item c k v) (avl_items t) = avl_items t"
  by (rule map_idI) (auto simp: assign_item_def avl_codes_def)

lemma avl_assign_items:
  "avl_bst t \<Longrightarrow> avl_items (avl_assign c k v t) = map (assign_item c k v) (avl_items t)"
proof (induction c k v t rule: avl_assign.induct)
  case (2 code key val h c k v l r)
  then have "c \<le> code \<Longrightarrow> code \<notin> avl_codes l" "code \<le> c \<Longrightarrow> code \<notin> avl_codes r"
    by auto
  with 2 show ?case
    by (auto simp: map_assign_item_absent assign_item_def[of _ _ _ "(_, _)"])
qed simp

lemma avl_find_code: "avl_find c t = AVLNode h d k v l r \<Longrightarrow> d = c"
  by (induction c t rule: avl_find.induct) (auto split: if_splits)

lemma avl_find_bal: "avl_bal t \<Longrightarrow> avl_bal (avl_find c t)"
  by (induction c t rule: avl_find.induct) auto

lemma avl_replace_found:
  "avl_find c t = AVLNode h c k' v' l r \<Longrightarrow>
   avl_replace t (AVLNode h c k' v' l r) (AVLNode h c k v l r) = avl_assign c k v t"
proof (induction c t rule: avl_find.induct)
  case (2 code h' c' k2 v2 l' r')
  show ?case
  proof (cases "c' = code")
    case True
    with 2(3) show ?thesis by simp
  next
    case False
    then have ne: "AVLNode h' c' k2 v2 l' r' \<noteq> AVLNode h code k' v' l r" by blast
    show ?thesis
    proof (cases "code < c'")
      case True
      with 2(3) False have "avl_find code l' = AVLNode h code k' v' l r" by simp
      with 2(1) True False ne show ?thesis
        by (simp only: avl_replace.simps avl_assign.simps if_False if_True avl.sel simp_thms)
    next
      case ge: False
      with 2(3) False have "avl_find code r' = AVLNode h code k' v' l r" by simp
      with 2(2) ge False ne show ?thesis
        by (simp only: avl_replace.simps avl_assign.simps if_False if_True avl.sel simp_thms)
    qed
  qed
qed simp

lemma avl_replace_assign:
  assumes "avl_bst t" "avl_bal t" "c \<in> avl_codes t"
  shows "avl_replace t (avl_find c t)
      (make_avl (avl_left (avl_find c t)) (avl_code (avl_find c t)) k v (avl_right (avl_find c t))) =
    avl_assign c k v t"
proof -
  from avl_find_some[OF assms(1,3)] obtain h k' v' l r
    where f: "avl_find c t = AVLNode h c k' v' l r" by blast
  with avl_find_bal[OF assms(2), of c] have "h = max (get_height l) (get_height r) + 1" by simp
  with f avl_replace_found[OF f, of k v] show ?thesis by simp
qed

subsection \<open>Deletion\<close>

lemma filter_mset_absent:
  "c \<notin> avl_codes t \<Longrightarrow> filter_mset (\<lambda>x. fst x \<noteq> c) (mset (avl_items t)) = mset (avl_items t)"
  by (auto simp: avl_codes_def filter_mset_eq_conv)

lemma avl_del_absent: "c \<notin> avl_codes t \<Longrightarrow> avl_del t c = t"
  by (induction t c rule: avl_del.induct) auto

lemma shrink_left:
  fixes hl hl' hr h h' T :: nat
  assumes "hl' \<le> hl" "hl \<le> hl' + 1" "hl \<le> hr + 1" "hr \<le> hl + 1" "h = max hl hr + 1"
    and "h' = max hl' hr + 1" "T \<le> h'" "h' \<le> T + 1" "hr \<le> hl' + 1 \<longrightarrow> T = h'"
  shows "T \<le> h \<and> h \<le> T + 1"
  using assms by (cases "hr \<le> hl' + 1"; cases "hl \<le> hr"; cases "hl' \<le> hr") (simp_all add: max_def)

lemma avl_del_left:
  assumes "avl_bal (AVLNode h c k v l r)" "avl_bal l'"
    and "get_height l' \<le> get_height l" "get_height l \<le> get_height l' + 1"
  shows "avl_bal (check_rotate_left (fix_height (AVLNode h2 c2 k2 v2 l' r))) \<and>
    get_height (check_rotate_left (fix_height (AVLNode h2 c2 k2 v2 l' r))) \<le> h \<and>
    h \<le> get_height (check_rotate_left (fix_height (AVLNode h2 c2 k2 v2 l' r))) + 1"
proof -
  note R = check_rotate_left_bal[of l' r "max (get_height l') (get_height r) + 1" c2 k2 v2]
  have "get_height r \<le> get_height l' + 2" "get_height l' \<le> get_height r + 1"
    using assms by auto
  note R' = R[OF assms(2) _ this refl]
  show ?thesis
    using R' assms shrink_left[of "get_height l'" "get_height l" "get_height r" h]
    by (simp add: fix_height_node)
qed

lemma avl_del_right:
  assumes "avl_bal (AVLNode h c k v l r)" "avl_bal r'"
    and "get_height r' \<le> get_height r" "get_height r \<le> get_height r' + 1"
  shows "avl_bal (check_rotate_right (fix_height (AVLNode h2 c2 k2 v2 l r'))) \<and>
    get_height (check_rotate_right (fix_height (AVLNode h2 c2 k2 v2 l r'))) \<le> h \<and>
    h \<le> get_height (check_rotate_right (fix_height (AVLNode h2 c2 k2 v2 l r'))) + 1"
proof -
  note R = check_rotate_right_bal[of l r' "max (get_height l) (get_height r') + 1" c2 k2 v2]
  have "get_height l \<le> get_height r' + 2" "get_height r' \<le> get_height l + 1"
    using assms by auto
  note R' = R[OF _ assms(2) this refl]
  show ?thesis
    using R' assms shrink_left[of "get_height r'" "get_height r" "get_height l" h]
    by (simp add: fix_height_node max.commute)
qed

lemma rotate_right_noop: "get_balance t \<noteq> 2 \<Longrightarrow> check_rotate_right t = t"
  by (simp add: check_rotate_right_def)

lemma rotate_left_noop: "get_balance t \<noteq> -2 \<Longrightarrow> check_rotate_left t = t"
  by (simp add: check_rotate_left_def)

text \<open>When the left side has lost a level, only a left rotation can be due, so the final
  choice in \<open>avl_del\<close> is the left rotation.\<close>

lemma avl_del_join:
  assumes "avl_bal (AVLNode h c k v l r)" "avl_bal n"
    and "get_height n \<le> get_height l" "get_height l \<le> get_height n + 1"
    and lm: "lm = fix_height (AVLNode h2 c2 k2 v2 n r)"
  shows "(if get_balance lm = -2 then check_rotate_left lm else check_rotate_right lm) =
    check_rotate_left lm"
  using assms by (auto simp: rotate_right_noop rotate_left_noop get_balance_def)

lemma avl_del_bal:
  "avl_bal t \<Longrightarrow>
   avl_bal (avl_del t c) \<and> get_height (avl_del t c) \<le> get_height t \<and>
   get_height t \<le> get_height (avl_del t c) + 1"
proof (induction t c rule: avl_del.induct)
  case (2 h c k v l r code)
  consider (left) "code < c" | (right) "c < code" | (here) "code = c" by (meson linorder_neqE)
  then show ?case
  proof cases
    case left
    with 2 avl_del_left[OF 2(4), of "avl_del l code" h c k v]
    show ?thesis by (auto simp: Let_def)
  next
    case right
    with 2 avl_del_right[OF 2(4), of "avl_del r code" h c k v]
    show ?thesis by (auto simp: Let_def)
  next
    case here
    show ?thesis
    proof (cases "l = Null \<or> r = Null")
      case True
      with here 2 show ?thesis by auto
    next
      case False
      then obtain mh mc mk mv ml ys where m: "avl_max_node l = AVLNode mh mc mk mv ml Null"
        using avl_max_node_items[of l] by auto
      let ?n = "avl_del l mc"
      have n: "avl_bal ?n" "get_height ?n \<le> get_height l" "get_height l \<le> get_height ?n + 1"
        using 2(3)[OF _ _ _ _ refl] 2(4) here False m by auto
      have "avl_del (AVLNode h c k v l r) code =
          check_rotate_left (fix_height (AVLNode mh mc mk mv ?n r))"
        using here False m avl_del_join[OF 2(4) n, of _ mh mc mk mv]
        by (simp add: Let_def del: fix_height_node split: if_split_asm)
      then show ?thesis using avl_del_left[OF 2(4) n, of mh mc mk mv] by simp
    qed
  qed
qed auto

lemma avl_del_bst:
  "avl_bal t \<Longrightarrow> avl_bst t \<Longrightarrow>
   avl_bst (avl_del t c) \<and>
   mset (avl_items (avl_del t c)) = filter_mset (\<lambda>x. fst x \<noteq> c) (mset (avl_items t))"
proof (induction t c rule: avl_del.induct)
  case (2 h c k v l r code)
  consider (left) "code < c" | (right) "c < code" | (here) "code = c" by (meson linorder_neqE)
  then show ?case
  proof cases
    case left
    with 2 have "code \<notin> avl_codes r" by auto
    with left 2 avl_del_bal[of l code] show ?thesis
      by (auto simp: Let_def check_rotate_left_pres filter_mset_absent avl_codes_mset)
  next
    case right
    with 2 have "code \<notin> avl_codes l" by auto
    with right 2 avl_del_bal[of r code] show ?thesis
      by (auto simp: Let_def check_rotate_right_pres filter_mset_absent avl_codes_mset)
  next
    case here
    then have abs: "code \<notin> avl_codes l" "code \<notin> avl_codes r" using 2 by auto
    show ?thesis
    proof (cases "l = Null \<or> r = Null")
      case True
      with here abs 2 show ?thesis by (auto simp: filter_mset_absent)
    next
      case False
      then obtain mh mc mk mv ml ys where m: "avl_max_node l = AVLNode mh mc mk mv ml Null"
          "avl_items l = ys @ [(mc, mk, mv)]"
        using avl_max_node_items[of l] by auto
      let ?n = "avl_del l mc"
      have bl: "avl_bal l" "avl_bst l" using 2 by auto
      have lt: "\<forall>x \<in> set ys. fst x < mc" using bl(2) m(2) by (auto simp: avl_bst_sorted sorted_wrt_append)
      have n: "avl_bst ?n" "mset (avl_items ?n) = filter_mset (\<lambda>x. fst x \<noteq> mc) (mset (avl_items l))"
        using 2(3)[OF _ _ _ _ refl] 2(4,5) here False m by auto
      have ys: "mset (avl_items ?n) = mset ys"
        using n(2) lt m(2) by (auto simp: filter_mset_eq_conv)
      have nb: "avl_bal ?n" "get_height ?n \<le> get_height l" "get_height l \<le> get_height ?n + 1"
        using avl_del_bal[OF bl(1), of mc] by auto
      have ml: "mset (avl_items l) = add_mset (mc, mk, mv) (mset ys)" using m(2) by simp
      have cn: "avl_codes ?n = fst ` set ys" using ys by (simp add: avl_codes_mset)
      have mcl: "mc \<in> avl_codes l" "fst ` set ys \<subseteq> avl_codes l" using m(2) by (auto simp: avl_codes_def)
      have "avl_del (AVLNode h c k v l r) code =
          check_rotate_left (fix_height (AVLNode mh mc mk mv ?n r))"
        using here False m avl_del_join[OF 2(4) nb, of _ mh mc mk mv]
        by (simp add: Let_def del: fix_height_node split: if_split_asm)
      moreover have "avl_bst (AVLNode hh mc mk mv ?n r)" for hh
        using n(1) lt 2(5) mcl by (fastforce simp: cn)
      moreover have "filter_mset (\<lambda>x. fst x \<noteq> code) (mset (avl_items (AVLNode h c k v l r))) =
          mset (avl_items l) + mset (avl_items r)"
        using here abs by (simp add: filter_mset_absent)
      ultimately show ?thesis
        using 2(4) by (simp add: check_rotate_left_pres ys ml del: avl_del.simps)
    qed
  qed
qed auto

subsection \<open>Splitting the contents at one code\<close>

lemma avl_find_node:
  assumes "avl_bst t" "(c, k, v) \<in> set (avl_items t)"
  obtains h l r where "avl_find c t = AVLNode h c k v l r"
proof (cases "avl_find c t")
  case Null
  with avl_find_item[OF assms] show ?thesis by simp
next
  case (AVLNode h c' k' v' l r)
  with avl_find_item[OF assms] avl_find_code[OF AVLNode] that show ?thesis by simp
qed

lemma avl_bst_unique:
  "avl_bst t \<Longrightarrow> x \<in> set (avl_items t) \<Longrightarrow> y \<in> set (avl_items t) \<Longrightarrow> fst x = fst y \<Longrightarrow> x = y"
  using avl_find_item[of t "fst x" "fst (snd x)" "snd (snd x)"]
    avl_find_item[of t "fst y" "fst (snd y)" "snd (snd y)"]
  by (metis prod.collapse prod_eqI)

lemma avl_bst_distinct: "avl_bst t \<Longrightarrow> distinct (avl_items t)"
  by (simp add: avl_bst_sorted strict_sorted_iff distinct_map)

lemma avl_items_split:
  assumes "avl_bst t" "(c, k, v) \<in> set (avl_items t)"
  obtains N where "mset (avl_items t) = add_mset (c, k, v) N" "\<forall>x \<in># N. fst x \<noteq> c"
    "N = filter_mset (\<lambda>x. fst x \<noteq> c) (mset (avl_items t))"
proof -
  let ?N = "filter_mset (\<lambda>x. fst x \<noteq> c) (mset (avl_items t))"
  have "filter_mset (\<lambda>x. fst x = c) (mset (avl_items t)) = {#(c, k, v)#}"
  proof -
    have "filter (\<lambda>x. fst x = c) (avl_items t) = [(c, k, v)]"
    proof -
      let ?f = "filter (\<lambda>x. fst x = c) (avl_items t)"
      have "x = (c, k, v)" if "x \<in> set ?f" for x
      proof (rule avl_bst_unique[OF assms(1) _ assms(2)])
        show "x \<in> set (avl_items t)" using that by simp
        show "fst x = fst (c, k, v)" using that by simp
      qed
      moreover have "(c, k, v) \<in> set ?f" using assms(2) by simp
      ultimately have "set ?f = {(c, k, v)}" by blast
      moreover have "distinct ?f" using avl_bst_distinct[OF assms(1)] by simp
      ultimately have "length ?f = 1" using distinct_card[of ?f] by simp
      with \<open>set ?f = {(c, k, v)}\<close> show ?thesis by (cases ?f) auto
    qed
    then have "mset (filter (\<lambda>x. fst x = c) (avl_items t)) = mset [(c, k, v)]" by simp
    then show ?thesis by simp
  qed
  then have "mset (avl_items t) = add_mset (c, k, v) ?N"
    using multiset_partition[of "mset (avl_items t)" "\<lambda>x. fst x = c"] by simp
  moreover have "\<forall>x \<in># ?N. fst x \<noteq> c" by simp
  ultimately show ?thesis using that by blast
qed

lemma avl_assign_mset:
  assumes "avl_bst t" "mset (avl_items t) = add_mset (c, k0, v0) N" "\<forall>x \<in># N. fst x \<noteq> c"
  shows "mset (avl_items (avl_assign c k v t)) = add_mset (c, k, v) N"
proof -
  have "image_mset (assign_item c k v) N = N"
    using assms(3) by (intro multiset.map_ident_strong) (auto simp: assign_item_def)
  with assms show ?thesis by (simp add: avl_assign_items assign_item_def)
qed

lemma avl_height_items:
  "avl_bal t \<Longrightarrow> 2 ^ (get_height t div 2) \<le> length (avl_items t) + 1"
proof (induction t rule: avl_bal.induct)
  case (2 h c k v l r)
  let ?p = "2 ^ ((h - 2) div 2) :: nat"
  from 2(3) have h: "h - 2 \<le> get_height l" "h - 2 \<le> get_height r" by auto
  have "?p \<le> 2 ^ (get_height l div 2)" "?p \<le> 2 ^ (get_height r div 2)"
    using h by (auto intro!: power_increasing div_le_mono)
  moreover have "2 ^ (get_height l div 2) \<le> length (avl_items l) + 1"
    "2 ^ (get_height r div 2) \<le> length (avl_items r) + 1" using 2 by auto
  ultimately have "2 * ?p \<le> length (avl_items l) + 1 + (length (avl_items r) + 1)" by linarith
  moreover have "2 ^ (h div 2) \<le> 2 * ?p" by (cases "h < 2") (auto simp: power_eq_if le_div_geq not_less)
  ultimately show ?case by simp
qed simp

end
