(* ===== verification/Hash_Tree_Correct.thy ===== *)
theory Hash_Tree_Correct
  imports Hash_Tree
begin

section \<open>Immutable hash tables: contents, invariant, correctness\<close>

text \<open>
  The entries of a table, the invariant its operations keep, and what insertion, removal and
  lookup do to the entries. The locale \<open>hash_keys\<close> is the contract between the table and
  the key comparison it uses: an equivalence that the hash code respects.
\<close>

fun inner_entry :: "uintptr \<times> 'k option \<times> ('k, 'v) slot \<Rightarrow> ('k \<times> 'v) list" where
  "inner_entry (c, Some k, Value v) = [(k, v)]"
| "inner_entry _ = []"

definition inner_entries :: "('k, 'v) avl \<Rightarrow> ('k \<times> 'v) list" where
  "inner_entries s = concat (map inner_entry (avl_items s))"

fun item_entries :: "uintptr \<times> 'k option \<times> ('k, 'v) slot \<Rightarrow> ('k \<times> 'v) list" where
  "item_entries (c, Some k, Value v) = [(k, v)]"
| "item_entries (c, None, Subtree s) = inner_entries s"
| "item_entries _ = []"

definition entries :: "('k, 'v) avl \<Rightarrow> ('k \<times> 'v) list" where
  "entries t = concat (map item_entries (avl_items t))"

fun inner_item_ok ::
  "'k key_ops \<Rightarrow> nat \<Rightarrow> uintptr \<Rightarrow> uintptr \<times> 'k option \<times> ('k, 'v) slot \<Rightarrow> bool" where
  "inner_item_ok ops kind h (c, Some k, Value v) = (key_hash ops kind k = h \<and> unat c < 2 ^ 31)"
| "inner_item_ok ops kind h _ = False"

definition inner_ok :: "'k key_ops \<Rightarrow> nat \<Rightarrow> uintptr \<Rightarrow> ('k, 'v) avl \<Rightarrow> bool" where
  "inner_ok ops kind h s \<longleftrightarrow> avl_bst s \<and> avl_bal s \<and>
     (\<forall>x \<in> set (avl_items s). inner_item_ok ops kind h x) \<and>
     (\<forall>x \<in> set (avl_items s). \<forall>y \<in> set (avl_items s).
        key_same ops kind (the (fst (snd x))) (the (fst (snd y))) \<longrightarrow> x = y)"

fun item_ok :: "'k key_ops \<Rightarrow> nat \<Rightarrow> uintptr \<times> 'k option \<times> ('k, 'v) slot \<Rightarrow> bool" where
  "item_ok ops kind (c, Some k, Value v) = (key_hash ops kind k = c)"
| "item_ok ops kind (c, None, Subtree s) = (inner_ok ops kind c s \<and> 2 \<le> length (avl_items s))"
| "item_ok ops kind _ = False"

definition tree_ok :: "'k key_ops \<Rightarrow> nat \<Rightarrow> ('k, 'v) avl \<Rightarrow> bool" where
  "tree_ok ops kind t \<longleftrightarrow> avl_bst t \<and> avl_bal t \<and> (\<forall>x \<in> set (avl_items t). item_ok ops kind x)"

definition hash_tree_ok :: "'k key_ops \<Rightarrow> ('k, 'v) hash_tree \<Rightarrow> bool" where
  "hash_tree_ok ops t \<longleftrightarrow> tree_ok ops (ht_kind t) (ht_root t) \<and>
     ht_count t = int (length (entries (ht_root t)))"

subsection \<open>Entries as multisets\<close>

definition mentries :: "(uintptr \<times> 'k option \<times> ('k, 'v) slot) multiset \<Rightarrow> ('k \<times> 'v) multiset" where
  "mentries M = (\<Sum>x \<in># M. mset (item_entries x))"

definition minner :: "(uintptr \<times> 'k option \<times> ('k, 'v) slot) multiset \<Rightarrow> ('k \<times> 'v) multiset" where
  "minner M = (\<Sum>x \<in># M. mset (inner_entry x))"

lemma mset_concat_map: "mset (concat (map f xs)) = (\<Sum>x \<in># mset xs. mset (f x))"
  by (induction xs) auto

lemma mset_entries: "mset (entries t) = mentries (mset (avl_items t))"
  by (simp add: entries_def mentries_def mset_concat_map)

lemma mset_inner_entries: "mset (inner_entries t) = minner (mset (avl_items t))"
  by (simp add: inner_entries_def minner_def mset_concat_map)

lemma mentries_simps [simp]:
  "mentries {#} = {#}" "mentries (add_mset x M) = mset (item_entries x) + mentries M"
  by (simp_all add: mentries_def)

lemma minner_simps [simp]:
  "minner {#} = {#}" "minner (add_mset x M) = mset (inner_entry x) + minner M"
  by (simp_all add: minner_def)

lemma in_mentries: "e \<in># mentries M \<longleftrightarrow> (\<exists>x \<in># M. e \<in> set (item_entries x))"
  by (induction M) auto

lemma in_minner: "e \<in># minner M \<longleftrightarrow> (\<exists>x \<in># M. e \<in> set (inner_entry x))"
  by (induction M) auto

lemma inner_item_okE:
  assumes "inner_item_ok ops kind h x"
  obtains c k v where "x = (c, Some k, Value v)" "key_hash ops kind k = h" "unat c < 2 ^ 31"
  using assms by (cases "(ops, kind, h, x)" rule: inner_item_ok.cases) auto

lemma item_okE:
  assumes "item_ok ops kind x"
  obtains (single) c k v where "x = (c, Some k, Value v)" "key_hash ops kind k = c"
  | (multi) c s where "x = (c, None, Subtree s)" "inner_ok ops kind c s" "2 \<le> length (avl_items s)"
  using assms by (cases "(ops, kind, x)" rule: item_ok.cases) auto

lemma length_inner_entries:
  assumes "inner_ok ops kind h s"
  shows "length (inner_entries s) = length (avl_items s)"
proof -
  have "\<forall>x \<in> set xs. inner_item_ok ops kind h x \<Longrightarrow> length (concat (map inner_entry xs)) = length xs"
    for xs :: "(uintptr \<times> 'a option \<times> ('a, 'b) slot) list"
    by (induction xs) (auto elim: inner_item_okE)
  with assms show ?thesis by (simp add: inner_ok_def inner_entries_def)
qed

lemma inner_entry_hash:
  "inner_item_ok ops kind h x \<Longrightarrow> (k, v) \<in> set (inner_entry x) \<Longrightarrow> key_hash ops kind k = h"
  by (erule inner_item_okE) auto

lemma item_entries_hash:
  "item_ok ops kind x \<Longrightarrow> (k, v) \<in> set (item_entries x) \<Longrightarrow> key_hash ops kind k = fst x"
  by (erule item_okE) (auto simp: inner_entries_def inner_ok_def dest!: bspec dest: inner_entry_hash)

lemma items_le_entries:
  assumes "\<forall>x \<in> set (avl_items t). item_ok ops kind x"
  shows "length (avl_items t) \<le> length (entries t)"
proof -
  have one: "1 \<le> length (item_entries x)" if "item_ok ops kind x" for x
    using that by (cases rule: item_okE) (use length_inner_entries in \<open>fastforce+\<close>)
  have "\<forall>x \<in> set xs. item_ok ops kind x \<Longrightarrow> length xs \<le> length (concat (map item_entries xs))" for xs
    by (induction xs) (use one in fastforce)+
  with assms show ?thesis by (simp add: entries_def)
qed

subsection \<open>Fresh codes\<close>

lemma fresh_from_spec:
  assumes "avl_bst t"
  shows "fresh_from fuel i t \<le> i + fuel \<and> (\<forall>j. i \<le> j \<and> j < fresh_from fuel i t \<longrightarrow> of_nat j \<in> avl_codes t)
    \<and> (fresh_from fuel i t < i + fuel \<longrightarrow> of_nat (fresh_from fuel i t) \<notin> avl_codes t)"
  using assms
proof (induction fuel i t rule: fresh_from.induct)
  case (2 fuel i root)
  show ?case
  proof (cases "avl_find (of_nat i) root = Null")
    case True
    with 2 show ?thesis by (auto simp: avl_find_eq_Null)
  next
    case False
    with 2(1)[OF False 2(2)] 2(2) show ?thesis
      by (auto simp: avl_find_eq_Null) (metis Suc_leI le_neq_implies_less)+
  qed
qed auto

lemma card_avl_codes: "avl_bst t \<Longrightarrow> card (avl_codes t) = length (avl_items t)"
  using avl_bst_sorted[of t] distinct_card[of "map fst (avl_items t)"]
  by (simp add: strict_sorted_iff avl_codes_def)

lemma fresh_code_free:
  assumes "avl_bst t" "length (avl_items t) < 2 ^ 31"
  shows "fresh_code t \<notin> avl_codes t" "unat (fresh_code t) < 2 ^ 31"
proof -
  let ?n = "length (avl_items t)" and ?f = "fresh_from (length (avl_items t)) 0 t"
  from fresh_from_spec[OF assms(1), of ?n 0] have f: "?f \<le> ?n"
    "\<forall>j < ?f. (of_nat j :: uintptr) \<in> avl_codes t" "?f < ?n \<longrightarrow> of_nat ?f \<notin> avl_codes t" by auto
  have u: "unat (of_nat j :: uintptr) = j" if "j \<le> ?n" for j
    using that assms(2) by (intro unat_of_nat64) simp
  show "unat (fresh_code t) < 2 ^ 31"
    using u[OF f(1)] f(1) assms(2) by (simp add: fresh_code_def)
  show "fresh_code t \<notin> avl_codes t"
  proof
    assume "fresh_code t \<in> avl_codes t"
    with f have "(of_nat j :: uintptr) \<in> avl_codes t" if "j \<le> ?n" for j
      using that by (auto simp: fresh_code_def le_eq_less_or_eq)
    then have "of_nat ` {0..?n} \<subseteq> avl_codes t" by auto
    then have "card ((of_nat :: nat \<Rightarrow> uintptr) ` {0..?n}) \<le> ?n"
      using card_mono[of "avl_codes t"] card_avl_codes[OF assms(1)] by (simp add: avl_codes_def)
    moreover have "inj_on (of_nat :: nat \<Rightarrow> uintptr) {0..?n}"
      using u by (intro inj_onI) (metis atLeastAtMost_iff)
    ultimately show False by (simp add: card_image)
  qed
qed

subsection \<open>Searching an inner tree\<close>

lemma sint_inner:
  assumes "unat (c :: uintptr) < 2 ^ 31"
  shows "0 \<le> sint c" "word_of_int (sint c) = c"
proof -
  have "unat c < 2 ^ 63" using assms by (rule less_trans) simp
  then show "0 \<le> sint c" by (simp add: sint_small64)
qed simp

lemma search_nodes_found:
  assumes "\<forall>x \<in> set (avl_items t). inner_item_ok ops kind h x"
    and "search_nodes ops t key kind = code" "0 \<le> code"
  shows "\<exists>c k v. (c, Some k, Value v) \<in> set (avl_items t) \<and> key_same ops kind k key \<and>
    word_of_int code = c"
  using assms
proof (induction ops t key kind arbitrary: code rule: search_nodes.induct)
  case (2 ops h' c k v l r key kind)
  from 2(3) have "inner_item_ok ops kind h (c, k, v)" by simp
  then obtain k' v' where kv: "k = Some k'" "v = Value v'" "unat c < 2 ^ 31"
    by (auto elim: inner_item_okE)
  show ?case
  proof (cases "key_same ops kind k' key")
    case True
    with 2(4) kv have "code = sint c" by simp
    then have "word_of_int code = c" by simp
    with True kv show ?thesis by (intro exI[of _ c] exI[of _ k'] exI[of _ v']) simp
  next
    case False
    have ok: "\<forall>x \<in> set (avl_items l). inner_item_ok ops kind h x"
      "\<forall>x \<in> set (avl_items r). inner_item_ok ops kind h x" using 2(3) by auto
    show ?thesis
    proof (cases "l \<noteq> Null \<and> 0 \<le> search_nodes ops l key kind")
      case True
      with 2(4) kv False have "search_nodes ops l key kind = code" by simp
      from 2(1)[OF _ _ ok(1) this 2(5)] True False kv show ?thesis by auto
    next
      case nl: False
      with 2(4,5) kv False have r: "r \<noteq> Null" "search_nodes ops r key kind = code"
        by (auto simp: Let_def split: if_splits)
      have "\<not> (l \<noteq> Null \<and> 0 \<le> (if l \<noteq> Null then search_nodes ops l key kind else - 1))"
        using nl by auto
      from 2(2)[OF _ refl this r(1) ok(2) r(2) 2(5)] False kv show ?thesis by auto
    qed
  qed
qed auto

lemma search_nodes_missing:
  assumes "\<forall>x \<in> set (avl_items t). inner_item_ok ops kind h x"
    and "search_nodes ops t key kind < 0" "(c, Some k, v) \<in> set (avl_items t)"
  shows "\<not> key_same ops kind k key"
  using assms
proof (induction ops t key kind rule: search_nodes.induct)
  case (2 ops h' c' k' v' l r key kind)
  from 2(3) have "inner_item_ok ops kind h (c', k', v')" by simp
  then obtain k2 v2 where kv: "k' = Some k2" "v' = Value v2" "unat c' < 2 ^ 31"
    by (auto elim: inner_item_okE)
  with 2(4) sint_inner[OF kv(3)] have ns: "\<not> key_same ops kind k2 key" by auto
  have l: "l \<noteq> Null \<Longrightarrow> search_nodes ops l key kind < 0"
    and r: "r \<noteq> Null \<Longrightarrow> search_nodes ops r key kind < 0"
    using 2(4) kv ns by (auto simp: Let_def split: if_splits)
  have "l = Null \<or> r = Null \<or> l \<noteq> Null \<and> r \<noteq> Null" by blast
  from 2(5) kv consider "k = k2" | "(c, Some k, v) \<in> set (avl_items l)" | "(c, Some k, v) \<in> set (avl_items r)"
    by auto
  then show ?case
  proof cases
    case 1
    with ns show ?thesis by simp
  next
    case left: 2
    then have "l \<noteq> Null" by auto
    with 2(1) 2(3) kv ns l left show ?thesis by auto
  next
    case right: 3
    then have "r \<noteq> Null" by auto
    with 2(2) 2(3) kv ns l r right show ?thesis by (auto simp: not_le)
  qed
qed auto

lemma search_nodes_missing_item:
  assumes "\<forall>x \<in> set (avl_items t). inner_item_ok ops kind h x"
    and "search_nodes ops t key kind < 0" "x \<in> set (avl_items t)"
  shows "\<not> key_same ops kind (the (fst (snd x))) key"
proof -
  from assms(1,3) have "inner_item_ok ops kind h x" by blast
  then obtain c k v where "x = (c, Some k, Value v)" by (rule inner_item_okE)
  with search_nodes_missing[OF assms(1,2)] assms(3) show ?thesis by auto
qed

lemma search_nodes_eq_kind0: "search_nodes_eq ops t key = search_nodes ops t key 0"
proof (induction ops t key rule: search_nodes_eq.induct)
  case (2 ops h c k v l r key)
  then show ?case by (cases "l = Null"; cases "r = Null"; simp add: key_same_def Let_def)
qed simp

subsection \<open>The cases of \<open>hash_tree_set\<close>\<close>

definition ht_result ::
  "('k, 'v) hash_tree option \<Rightarrow> ('k, 'v) avl \<Rightarrow> int \<Rightarrow> ('k, 'v) hash_tree + ('k, 'v) avl" where
  "ht_result tree root delta = (case tree of
      Some t \<Rightarrow> Inl (t\<lparr>ht_count := ht_count t + delta, ht_root := root\<rparr>)
    | None \<Rightarrow> Inr root)"

definition ht_unchanged ::
  "('k, 'v) hash_tree option \<Rightarrow> ('k, 'v) avl \<Rightarrow> ('k, 'v) hash_tree + ('k, 'v) avl" where
  "ht_unchanged tree root = (case tree of Some t \<Rightarrow> Inl t | None \<Rightarrow> Inr root)"

lemma ht_result_None [simp]: "ht_result None root d = Inr root" "ht_unchanged None root = Inr root"
  by (simp_all add: ht_result_def ht_unchanged_def)

lemmas hts_unfold = hash_tree_set.simps ht_result_def[symmetric] ht_unchanged_def[symmetric] Let_def

lemma ins_found:
  assumes "avl_bst t" "avl_bal t" "c \<notin> avl_codes t"
  obtains h l r where "avl_find c (avl_ins c None NullVal t) = AVLNode h c None NullVal l r"
proof -
  from avl_ins_items[OF assms(2,1), of c None NullVal] assms(3)
  have "avl_bst (avl_ins c None NullVal t)"
    "(c, None, NullVal) \<in># mset (avl_items (avl_ins c None NullVal t))" by auto
  with avl_find_node that show thesis by (metis set_mset_mset)
qed

lemma hts_remove_absent:
  "h \<notin> avl_codes root \<Longrightarrow>
   hash_tree_set ops tree key None h root kind = ht_unchanged tree root"
  by (simp add: hts_unfold avl_find_none)

lemma hts_new:
  assumes "avl_bst root" "avl_bal root" "h \<notin> avl_codes root"
  shows "hash_tree_set ops tree key (Some v) h root kind =
    ht_result tree (avl_assign h (Some key) (Value v) (avl_ins h None NullVal root)) 1"
proof -
  from ins_found[OF assms] obtain a l r
    where f: "avl_find h (avl_ins h None NullVal root) = AVLNode a h None NullVal l r" .
  show ?thesis by (simp add: hts_unfold f)
qed

lemma hts_replace:
  assumes "avl_bst root" "avl_bal root" "avl_find h root = AVLNode a h k0 v0 l r"
  shows "avl_replace root (AVLNode a h k0 v0 l r) (make_avl l h k v r) = avl_assign h k v root"
  using avl_replace_assign[OF assms(1,2), of h k v] assms(3) avl_find_eq_Null[OF assms(1), of h]
  by simp

lemma hts_single:
  assumes ok: "avl_bst root" "avl_bal root" and item: "(h, Some k0, Value v0) \<in> set (avl_items root)"
  shows "key_same ops kind k0 key \<Longrightarrow>
      hash_tree_set ops tree key None h root kind = ht_result tree (avl_del root h) (-1)"
    and "\<not> key_same ops kind k0 key \<Longrightarrow>
      hash_tree_set ops tree key None h root kind = ht_unchanged tree root"
    and "key_same ops kind key k0 \<Longrightarrow>
      hash_tree_set ops tree key (Some v) h root kind =
        ht_result tree (avl_assign h (Some key) (Value v) root) 0"
    and "\<not> key_same ops kind key k0 \<Longrightarrow>
      hash_tree_set ops tree key (Some v) h root kind =
        ht_result tree (avl_assign h None (Subtree
          (make_avl Null 0 (Some key) (Value v) (make_avl Null 1 (Some k0) (Value v0) Null))) root) 1"
proof -
  from avl_find_node[OF ok(1) item] obtain a l r
    where f: "avl_find h root = AVLNode a h (Some k0) (Value v0) l r" .
  have "h \<in> avl_codes root" using item by (rule in_avl_codes)
  then have ins: "avl_ins h None NullVal root = root" by (rule avl_ins_present[OF ok(1)])
  note r = hts_replace[OF ok f]
  show "key_same ops kind k0 key \<Longrightarrow>
      hash_tree_set ops tree key None h root kind = ht_result tree (avl_del root h) (-1)"
    "\<not> key_same ops kind k0 key \<Longrightarrow>
      hash_tree_set ops tree key None h root kind = ht_unchanged tree root"
    by (simp_all add: hts_unfold f)
  show "key_same ops kind key k0 \<Longrightarrow>
      hash_tree_set ops tree key (Some v) h root kind =
        ht_result tree (avl_assign h (Some key) (Value v) root) 0"
    "\<not> key_same ops kind key k0 \<Longrightarrow>
      hash_tree_set ops tree key (Some v) h root kind =
        ht_result tree (avl_assign h None (Subtree
          (make_avl Null 0 (Some key) (Value v) (make_avl Null 1 (Some k0) (Value v0) Null))) root) 1"
    by (simp_all add: hts_unfold f ins r del: make_avl_simp)
qed

lemma hts_multi:
  assumes ok: "avl_bst root" "avl_bal root" and item: "(h, None, Subtree s) \<in> set (avl_items root)"
  shows "search_nodes ops s key kind < 0 \<Longrightarrow>
      hash_tree_set ops tree key None h root kind = ht_unchanged tree root"
    and "search_nodes ops s key kind < 0 \<Longrightarrow>
      hash_tree_set ops tree key (Some v) h root kind =
        ht_result tree (avl_assign h None
          (Subtree (projr (hash_tree_set ops None key (Some v) (fresh_code s) s kind))) root) 1"
    and "0 \<le> search_nodes ops s key kind \<Longrightarrow>
      hash_tree_set ops tree key (Some v) h root kind =
        ht_result tree (avl_assign h None
          (Subtree (projr (hash_tree_set ops None key (Some v)
             (word_of_int (search_nodes ops s key kind)) s kind))) root) 0"
    and "0 \<le> search_nodes ops s key kind \<Longrightarrow>
      s' = projr (hash_tree_set ops None key None (word_of_int (search_nodes ops s key kind)) s kind) \<Longrightarrow>
      hash_tree_set ops tree key None h root kind =
        ht_result tree
          (if avl_left s' = Null \<and> avl_right s' = Null
           then avl_assign h (avl_key s') (avl_val s') root
           else avl_assign h None (Subtree s') root) (-1)"
proof -
  from avl_find_node[OF ok(1) item] obtain a l r
    where f: "avl_find h root = AVLNode a h None (Subtree s) l r" .
  have "h \<in> avl_codes root" using item by (rule in_avl_codes)
  then have ins: "avl_ins h None NullVal root = root" by (rule avl_ins_present[OF ok(1)])
  note r = hts_replace[OF ok f]
  note u = trans[OF hash_tree_set.simps[of ops tree key _ h root kind]]
  show "search_nodes ops s key kind < 0 \<Longrightarrow>
      hash_tree_set ops tree key None h root kind = ht_unchanged tree root"
    by (rule u) (simp add: f Let_def ht_unchanged_def)
  show "search_nodes ops s key kind < 0 \<Longrightarrow>
      hash_tree_set ops tree key (Some v) h root kind =
        ht_result tree (avl_assign h None
          (Subtree (projr (hash_tree_set ops None key (Some v) (fresh_code s) s kind))) root) 1"
    by (rule u) (cases tree; simp add: f ins r Let_def ht_result_def del: make_avl_simp)
  show "0 \<le> search_nodes ops s key kind \<Longrightarrow>
      hash_tree_set ops tree key (Some v) h root kind =
        ht_result tree (avl_assign h None
          (Subtree (projr (hash_tree_set ops None key (Some v)
             (word_of_int (search_nodes ops s key kind)) s kind))) root) 0"
    by (rule u) (cases tree; simp add: f ins r Let_def ht_result_def del: make_avl_simp)
  assume n: "0 \<le> search_nodes ops s key kind"
    and s': "s' = projr (hash_tree_set ops None key None (word_of_int (search_nodes ops s key kind)) s kind)"
  show "hash_tree_set ops tree key None h root kind =
        ht_result tree
          (if avl_left s' = Null \<and> avl_right s' = Null
           then avl_assign h (avl_key s') (avl_val s') root
           else avl_assign h None (Subtree s') root) (-1)"
    by (rule u) (use n in \<open>cases tree; simp add: f r Let_def ht_result_def s'[symmetric] del: make_avl_simp\<close>)
qed

subsection \<open>Insertion and removal\<close>

definition set_spec ::
  "'k key_ops \<Rightarrow> nat \<Rightarrow> ('k, 'v) avl \<Rightarrow> 'k \<Rightarrow> 'v option \<Rightarrow> ('k, 'v) avl \<Rightarrow> int \<Rightarrow> bool" where
  "set_spec ops kind root key val root' d \<longleftrightarrow>
     tree_ok ops kind root' \<and>
     mset (entries root') =
       filter_mset (\<lambda>e. \<not> key_same ops kind (fst e) key) (mset (entries root)) +
       (case val of None \<Rightarrow> {#} | Some v \<Rightarrow> {#(key, v)#}) \<and>
     d = int (length (entries root')) - int (length (entries root))"

lemma tree_okI:
  assumes "avl_bst t'" "avl_bal t'" "mset (avl_items t') = add_mset x N"
    and "item_ok ops kind x" "\<forall>x \<in># N. item_ok ops kind x"
  shows "tree_ok ops kind t'"
  using assms by (metis tree_ok_def insert_iff set_mset_add_mset_insert set_mset_mset)

lemma set_spec_intro:
  assumes "tree_ok ops kind root'"
    and "mset (avl_items root) = M + N" "mset (avl_items root') = M' + N"
    and "filter_mset (\<lambda>e. \<not> key_same ops kind (fst e) key) (mentries N) = mentries N"
    and "mentries M' = filter_mset (\<lambda>e. \<not> key_same ops kind (fst e) key) (mentries M) +
       (case val of None \<Rightarrow> {#} | Some v \<Rightarrow> {#(key, v)#})"
    and "d = int (size (mentries M')) - int (size (mentries M))"
  shows "set_spec ops kind root key val root' d"
proof -
  have add: "mentries (A + B) = mentries A + mentries B"
    for A B :: "(uintptr \<times> 'a option \<times> ('a, 'b) slot) multiset"
    by (simp add: mentries_def)
  have "length (entries root) = size (mentries M + mentries N)"
    "length (entries root') = size (mentries M' + mentries N)"
    using assms(2,3) by (simp_all only: add flip: size_mset, simp_all only: mset_entries add)
  with assms show ?thesis by (simp add: set_spec_def mset_entries add)
qed

locale hash_keys =
  fixes ops :: "'k key_ops" and kind :: nat
  assumes same_refl: "key_same ops kind a a"
    and same_sym: "key_same ops kind a b \<Longrightarrow> key_same ops kind b a"
    and same_trans: "key_same ops kind a b \<Longrightarrow> key_same ops kind b c \<Longrightarrow> key_same ops kind a c"
    and same_hash: "key_same ops kind a b \<Longrightarrow> key_hash ops kind a = key_hash ops kind b"
begin

lemma filter_other:
  assumes "\<forall>x \<in># N. item_ok ops kind x \<and> fst x \<noteq> key_hash ops kind key"
  shows "filter_mset (\<lambda>e. \<not> key_same ops kind (fst e) key) (mentries N) = mentries N"
proof -
  have "\<not> key_same ops kind (fst e) key" if "e \<in># mentries N" for e
    using that assms item_entries_hash[of ops kind _ "fst e" "snd e"] same_hash[of "fst e" key]
    by (auto simp: in_mentries)
  then show ?thesis by (simp add: filter_mset_eq_conv)
qed

lemma inner_new:
  fixes s :: "('k, 'v) avl" and v :: 'v
  assumes ok: "inner_ok ops kind h s" and h: "key_hash ops kind key = h"
    and miss: "search_nodes ops s key kind < 0"
    and c: "c \<notin> avl_codes s" "unat c < 2 ^ 31"
  defines "s' \<equiv> projr (hash_tree_set ops None key (Some v) c s kind)"
  shows "mset (avl_items s') = add_mset (c, Some key, Value v) (mset (avl_items s))"
    and "inner_ok ops kind h s'"
proof -
  from ok have bb: "avl_bst s" "avl_bal s" by (auto simp: inner_ok_def)
  let ?i = "avl_ins c None NullVal s"
  from avl_ins_items[OF bb(2,1), of c None NullVal] c(1)
  have i: "avl_bst ?i" "mset (avl_items ?i) = add_mset (c, None, NullVal) (mset (avl_items s))" by auto
  have s': "s' = avl_assign c (Some key) (Value v) ?i"
    using hts_new[OF bb c(1), of ops None key v kind] by (simp add: s'_def)
  have "\<forall>x \<in># mset (avl_items s). fst x \<noteq> c" using c(1) by (auto simp: avl_codes_def)
  from avl_assign_mset[OF i(1,2) this] show m: "mset (avl_items s') =
      add_mset (c, Some key, Value v) (mset (avl_items s))" by (simp add: s')
  then have set: "set (avl_items s') = insert (c, Some key, Value v) (set (avl_items s))"
    by (metis set_mset_add_mset_insert set_mset_mset)
  have items: "\<forall>x \<in> set (avl_items s). inner_item_ok ops kind h x"
    using ok by (simp add: inner_ok_def)
  note ns = search_nodes_missing_item[OF items miss]
  then have ns': "\<not> key_same ops kind key (the (fst (snd x)))" if "x \<in> set (avl_items s)" for x
    using that same_sym by blast
  have "avl_bal s'" "avl_bst s'"
    using i(1) avl_ins_bal[OF bb(2)] by (simp_all add: s' avl_assign_simps)
  with set ok ns ns' c h show "inner_ok ops kind h s'"
    by (auto simp: inner_ok_def)
qed

end

context hash_keys
begin

lemma inner_upd:
  fixes s :: "('k, 'v) avl" and v :: 'v
  assumes ok: "inner_ok ops kind h s" and item: "(c, Some k0, Value v0) \<in> set (avl_items s)"
    and same: "key_same ops kind k0 key"
    and N: "mset (avl_items s) = add_mset (c, Some k0, Value v0) N" "\<forall>x \<in># N. fst x \<noteq> c"
  defines "s' \<equiv> projr (hash_tree_set ops None key (Some v) c s kind)"
  shows "mset (avl_items s') = add_mset (c, Some key, Value v) N" and "inner_ok ops kind h s'"
proof -
  from ok have bb: "avl_bst s" "avl_bal s" by (auto simp: inner_ok_def)
  have s': "s' = avl_assign c (Some key) (Value v) s"
    using hts_single(3)[OF bb item same_sym[OF same], of None v] by (simp add: s'_def)
  from avl_assign_mset[OF bb(1) N] show m: "mset (avl_items s') = add_mset (c, Some key, Value v) N"
    by (simp add: s')
  have set: "set (avl_items s') = insert (c, Some key, Value v) (set_mset N)"
    "set (avl_items s) = insert (c, Some k0, Value v0) (set_mset N)"
    using m N(1) by (metis set_mset_add_mset_insert set_mset_mset)+
  have ns: "\<not> key_same ops kind k0 (the (fst (snd x)))" if "x \<in># N" for x
  proof
    assume "key_same ops kind k0 (the (fst (snd x)))"
    then have "(c, Some k0, Value v0) = x" using ok that set(2) by (auto simp: inner_ok_def)
    with that N(2) show False by auto
  qed
  have ns1: "\<not> key_same ops kind key (the (fst (snd x)))" if "x \<in># N" for x
    using ns[OF that] same same_trans by blast
  have ns2: "\<not> key_same ops kind (the (fst (snd x))) key" if "x \<in># N" for x
    using ns1[OF that] same_sym by blast
  have "avl_bal s'" "avl_bst s'" using bb by (simp_all add: s' avl_assign_simps)
  with set ok ns1 ns2 same_hash[OF same] show "inner_ok ops kind h s'"
    by (auto simp: inner_ok_def)
qed

lemma inner_del:
  fixes s :: "('k, 'v) avl"
  assumes ok: "inner_ok ops kind h s" and item: "(c, Some k0, Value v0) \<in> set (avl_items s)"
    and same: "key_same ops kind k0 key"
    and N: "N = filter_mset (\<lambda>x. fst x \<noteq> c) (mset (avl_items s))"
  defines "s' \<equiv> projr (hash_tree_set ops None key None c s kind)"
  shows "mset (avl_items s') = N" and "inner_ok ops kind h s'"
proof -
  from ok have bb: "avl_bst s" "avl_bal s" by (auto simp: inner_ok_def)
  have s': "s' = avl_del s c"
    using hts_single(1)[OF bb item same, of None] by (simp add: s'_def)
  from avl_del_bst[OF bb(2,1), of c] show m: "mset (avl_items s') = N" by (simp add: s' N)
  then have "set (avl_items s') = set_mset N" by (metis set_mset_mset)
  then have "set (avl_items s') \<subseteq> set (avl_items s)" by (auto simp: N)
  moreover have "avl_bal s'" "avl_bst s'"
    using avl_del_bst[OF bb(2,1), of c] avl_del_bal[OF bb(2), of c] by (simp_all add: s')
  ultimately show "inner_ok ops kind h s'"
    using ok unfolding inner_ok_def by (meson subsetD)
qed

lemma filter_inner:
  assumes ok: "inner_ok ops kind h s"
    and N: "mset (avl_items s) = add_mset (c, Some k0, Value v0) N" "\<forall>x \<in># N. fst x \<noteq> c"
    and same: "key_same ops kind k0 key"
  shows "filter_mset (\<lambda>e. \<not> key_same ops kind (fst e) key) (minner (mset (avl_items s))) = minner N"
proof -
  have set: "set (avl_items s) = insert (c, Some k0, Value v0) (set_mset N)"
    using N(1) by (metis set_mset_add_mset_insert set_mset_mset)
  have "\<not> key_same ops kind (fst e) key" if "e \<in># minner N" for e
  proof
    assume s: "key_same ops kind (fst e) key"
    from that obtain x where x: "x \<in># N" "e \<in> set (inner_entry x)" by (auto simp: in_minner)
    with set ok have ix: "inner_item_ok ops kind h x" by (auto simp: inner_ok_def)
    then have "the (fst (snd x)) = fst e" using x(2) by (auto elim: inner_item_okE)
    with s same have "key_same ops kind (the (fst (snd x))) k0" using same_sym same_trans by metis
    then have "x = (c, Some k0, Value v0)" using ok x(1) set by (auto simp: inner_ok_def)
    with x(1) N(2) show False by auto
  qed
  with N(1) same show ?thesis by (simp add: filter_mset_eq_conv)
qed

lemma filter_inner_missing:
  assumes ok: "inner_ok ops kind h s" and miss: "search_nodes ops s key kind < 0"
  shows "filter_mset (\<lambda>e. \<not> key_same ops kind (fst e) key) (minner (mset (avl_items s))) =
    minner (mset (avl_items s))"
proof -
  have items: "\<forall>x \<in> set (avl_items s). inner_item_ok ops kind h x"
    using ok by (simp add: inner_ok_def)
  have "\<not> key_same ops kind (fst e) key" if "e \<in># minner (mset (avl_items s))" for e
  proof -
    from that obtain x where x: "x \<in> set (avl_items s)" "e \<in> set (inner_entry x)" by (auto simp: in_minner)
    with items have "inner_item_ok ops kind h x" by blast
    then have "the (fst (snd x)) = fst e" using x(2) by (auto elim: inner_item_okE)
    with search_nodes_missing_item[OF items miss x(1)] show ?thesis by simp
  qed
  then show ?thesis by (simp add: filter_mset_eq_conv)
qed

lemma inner_found:
  assumes ok: "inner_ok ops kind h s" and "0 \<le> search_nodes ops s key kind"
  obtains c k0 v0 N where "(c, Some k0, Value v0) \<in> set (avl_items s)" "key_same ops kind k0 key"
    "word_of_int (search_nodes ops s key kind) = c"
    "mset (avl_items s) = add_mset (c, Some k0, Value v0) N" "\<forall>x \<in># N. fst x \<noteq> c"
    "N = filter_mset (\<lambda>x. fst x \<noteq> c) (mset (avl_items s))"
proof -
  have "\<forall>x \<in> set (avl_items s). inner_item_ok ops kind h x" using ok by (simp add: inner_ok_def)
  from search_nodes_found[OF this refl assms(2)] obtain c k0 v0
    where f: "(c, Some k0, Value v0) \<in> set (avl_items s)" "key_same ops kind k0 key"
      "word_of_int (search_nodes ops s key kind) = c" by blast
  from ok have "avl_bst s" by (simp add: inner_ok_def)
  from avl_items_split[OF this f(1)] obtain N
    where N: "mset (avl_items s) = add_mset (c, Some k0, Value v0) N" "\<forall>x \<in># N. fst x \<noteq> c"
      "N = filter_mset (\<lambda>x. fst x \<noteq> c) (mset (avl_items s))" .
  show thesis by (rule that[OF f N])
qed

end

lemma tree_ok_split:
  assumes "tree_ok ops kind t" "(c, k, v) \<in> set (avl_items t)"
  obtains N where "mset (avl_items t) = add_mset (c, k, v) N" "\<forall>x \<in># N. fst x \<noteq> c"
    "N = filter_mset (\<lambda>x. fst x \<noteq> c) (mset (avl_items t))"
    "\<forall>x \<in># N. item_ok ops kind x" "item_ok ops kind (c, k, v)" "avl_bst t" "avl_bal t"
proof -
  have ok: "avl_bst t" "avl_bal t" "\<forall>x \<in> set (avl_items t). item_ok ops kind x"
    using assms(1) by (auto simp: tree_ok_def)
  from avl_items_split[OF ok(1) assms(2)] obtain N
    where N: "mset (avl_items t) = add_mset (c, k, v) N" "\<forall>x \<in># N. fst x \<noteq> c"
      "N = filter_mset (\<lambda>x. fst x \<noteq> c) (mset (avl_items t))" .
  have "\<forall>x \<in># N. item_ok ops kind x" using ok(3) by (simp add: N(3))
  from that[OF N this _ ok(1,2)] ok(3) assms(2) show thesis by blast
qed

lemma tree_ok_assign:
  assumes "avl_bst t" "avl_bal t" "mset (avl_items t) = add_mset (c, k, v) N"
    "\<forall>x \<in># N. fst x \<noteq> c" "\<forall>x \<in># N. item_ok ops kind x" "item_ok ops kind (c, k', v')"
  shows "tree_ok ops kind (avl_assign c k' v' t)"
    "mset (avl_items (avl_assign c k' v' t)) = {#(c, k', v')#} + N"
  using avl_assign_mset[OF assms(1,3,4), of k' v'] assms
  by (auto intro!: tree_okI[of _ "(c, k', v')" N] simp: avl_assign_simps)

context hash_keys
begin

lemma set_new:
  fixes root :: "('k, 'v) avl"
  assumes ok: "tree_ok ops kind root" and h: "h = key_hash ops kind key" "h \<notin> avl_codes root"
  shows "set_spec ops kind root key (Some v)
    (avl_assign h (Some key) (Value v) (avl_ins h None NullVal root)) 1"
    "set_spec ops kind root key None root 0"
proof -
  let ?N = "mset (avl_items root)" and ?i = "avl_ins h None NullVal root"
  have bb: "avl_bst root" "avl_bal root" "\<forall>x \<in># ?N. item_ok ops kind x"
    using ok by (auto simp: tree_ok_def)
  have ne: "\<forall>x \<in># ?N. fst x \<noteq> h" using h(2) by (auto simp: avl_codes_def)
  have i: "avl_bst ?i" "avl_bal ?i" "mset (avl_items ?i) = add_mset (h, None, NullVal) ?N"
    using avl_ins_items[OF bb(2,1), of h None NullVal] avl_ins_bal[OF bb(2)] h(2) by auto
  have f: "filter_mset (\<lambda>e. \<not> key_same ops kind (fst e) key) (mentries ?N) = mentries ?N"
    using bb(3) ne h(1) by (intro filter_other) auto
  note a = tree_ok_assign[OF i ne bb(3), of "Some key" "Value v"]
  show "set_spec ops kind root key (Some v) (avl_assign h (Some key) (Value v) ?i) 1"
    by (rule set_spec_intro[where M = "{#}", OF a(1) _ a(2) f]) (simp_all add: h(1))
  show "set_spec ops kind root key None root 0"
    by (rule set_spec_intro[where M = "{#}" and M' = "{#}", OF ok _ _ f]) simp_all
qed

lemma set_single:
  fixes root :: "('k, 'v) avl"
  assumes ok: "tree_ok ops kind root" and h: "h = key_hash ops kind key"
    and item: "(h, Some k0, Value v0) \<in> set (avl_items root)"
  shows "key_same ops kind k0 key \<Longrightarrow> set_spec ops kind root key None (avl_del root h) (-1)"
    "\<not> key_same ops kind k0 key \<Longrightarrow> set_spec ops kind root key None root 0"
    "key_same ops kind k0 key \<Longrightarrow>
      set_spec ops kind root key (Some v) (avl_assign h (Some key) (Value v) root) 0"
    "\<not> key_same ops kind k0 key \<Longrightarrow> set_spec ops kind root key (Some v)
      (avl_assign h None (Subtree
          (make_avl Null 0 (Some key) (Value v) (make_avl Null 1 (Some k0) (Value v0) Null))) root) 1"
proof -
  from tree_ok_split[OF ok item] obtain N
    where N: "mset (avl_items root) = add_mset (h, Some k0, Value v0) N" "\<forall>x \<in># N. fst x \<noteq> h"
      "N = filter_mset (\<lambda>x. fst x \<noteq> h) (mset (avl_items root))" "\<forall>x \<in># N. item_ok ops kind x"
      "item_ok ops kind (h, Some k0, Value v0)" and bb: "avl_bst root" "avl_bal root" .
  have f: "filter_mset (\<lambda>e. \<not> key_same ops kind (fst e) key) (mentries N) = mentries N"
    using N(2,4) h by (intro filter_other) auto
  have M: "mset (avl_items root) = {#(h, Some k0, Value v0)#} + N" using N(1) by simp
  note a = tree_ok_assign[OF bb N(1,2,4)]
  show "set_spec ops kind root key None (avl_del root h) (-1)" if "key_same ops kind k0 key"
  proof -
    have d: "mset (avl_items (avl_del root h)) = {#} + N"
      using avl_del_bst[OF bb(2,1), of h] N(3) by simp
    then have "set (avl_items (avl_del root h)) = set_mset N" by (metis add_0 set_mset_mset)
    then have "tree_ok ops kind (avl_del root h)"
      using avl_del_bst[OF bb(2,1), of h] avl_del_bal[OF bb(2), of h] N(4) by (auto simp: tree_ok_def)
    from set_spec_intro[OF this M d f] that show ?thesis by simp
  qed
  show "set_spec ops kind root key None root 0" if "\<not> key_same ops kind k0 key"
    using set_spec_intro[OF ok M M f] that by simp
  show "set_spec ops kind root key (Some v) (avl_assign h (Some key) (Value v) root) 0"
    if "key_same ops kind k0 key"
    by (rule set_spec_intro[OF a(1) M a(2) f]) (use that h in simp_all)
  let ?sn = "make_avl Null 0 (Some key) (Value v) (make_avl Null 1 (Some k0) (Value v0) Null)"
  show "set_spec ops kind root key (Some v) (avl_assign h None (Subtree ?sn) root) 1"
    if n: "\<not> key_same ops kind k0 key"
  proof -
    have n': "\<not> key_same ops kind key k0" using n same_sym by blast
    have "inner_ok ops kind h ?sn" using N(5) h n n' by (simp add: inner_ok_def)
    then have "item_ok ops kind (h, None, Subtree ?sn)" by simp
    note a = tree_ok_assign[OF bb N(1,2,4) this]
    show ?thesis
      by (rule set_spec_intro[OF a(1) M a(2) f]) (use n in \<open>simp_all add: inner_entries_def\<close>)
  qed
qed

lemma single_avl:
  assumes "avl_left s = Null" "avl_right s = Null" "s \<noteq> Null"
  shows "avl_items s = [(avl_code s, avl_key s, avl_val s)]"
  using assms by (cases s) auto

lemma item_entries_multi:
  "mentries {#(h, None, Subtree s)#} = minner (mset (avl_items s))"
  by (simp flip: mset_inner_entries)

lemma inner_ok_item:
  "inner_ok ops kind h s \<Longrightarrow> 2 \<le> size (mset (avl_items s)) \<Longrightarrow> item_ok ops kind (h, None, Subtree s)"
  by simp

lemma size_minner: "inner_ok ops kind h s \<Longrightarrow> size (minner (mset (avl_items s))) = size (mset (avl_items s))"
  using length_inner_entries[of ops kind h s] by (simp flip: mset_inner_entries)

lemma set_multi:
  fixes root :: "('k, 'v) avl"
  assumes ok: "tree_ok ops kind root" and h: "h = key_hash ops kind key"
    and item: "(h, None, Subtree s) \<in> set (avl_items root)"
  shows "search_nodes ops s key kind < 0 \<Longrightarrow> set_spec ops kind root key None root 0"
    and "search_nodes ops s key kind < 0 \<Longrightarrow> length (entries root) < 2 ^ 31 \<Longrightarrow>
      set_spec ops kind root key (Some v) (avl_assign h None
        (Subtree (projr (hash_tree_set ops None key (Some v) (fresh_code s) s kind))) root) 1"
    and "0 \<le> search_nodes ops s key kind \<Longrightarrow>
      set_spec ops kind root key (Some v) (avl_assign h None
        (Subtree (projr (hash_tree_set ops None key (Some v)
           (word_of_int (search_nodes ops s key kind)) s kind))) root) 0"
    and "0 \<le> search_nodes ops s key kind \<Longrightarrow>
      s' = projr (hash_tree_set ops None key None (word_of_int (search_nodes ops s key kind)) s kind) \<Longrightarrow>
      set_spec ops kind root key None
        (if avl_left s' = Null \<and> avl_right s' = Null
         then avl_assign h (avl_key s') (avl_val s') root
         else avl_assign h None (Subtree s') root) (-1)"
proof -
  from tree_ok_split[OF ok item] obtain N
    where N: "mset (avl_items root) = add_mset (h, None, Subtree s) N" "\<forall>x \<in># N. fst x \<noteq> h"
      "\<forall>x \<in># N. item_ok ops kind x" "item_ok ops kind (h, None, Subtree s)"
    and bb: "avl_bst root" "avl_bal root" .
  then have inn: "inner_ok ops kind h s" and two: "2 \<le> length (avl_items s)" by auto
  have f: "filter_mset (\<lambda>e. \<not> key_same ops kind (fst e) key) (mentries N) = mentries N"
    using N(2,3) h by (intro filter_other) auto
  have M: "mset (avl_items root) = {#(h, None, Subtree s)#} + N" using N(1) by simp
  note a = tree_ok_assign[OF bb N(1,2,3)]
  have sb: "avl_bst s" using inn by (simp add: inner_ok_def)
  show "set_spec ops kind root key None root 0" if miss: "search_nodes ops s key kind < 0"
    by (rule set_spec_intro[OF ok M M f])
      (simp_all only: item_entries_multi filter_inner_missing[OF inn miss] option.case add_0_right diff_self)
  show "set_spec ops kind root key (Some v) (avl_assign h None
      (Subtree (projr (hash_tree_set ops None key (Some v) (fresh_code s) s kind))) root) 1"
    if miss: "search_nodes ops s key kind < 0" and len: "length (entries root) < 2 ^ 31"
  proof -
    have "length (avl_items s) \<le> size (mset (entries root))"
      using size_minner[OF inn] by (simp only: mset_entries M) (simp flip: mset_inner_entries)
    with len have "length (avl_items s) < 2 ^ 31" by simp
    note new = inner_new[OF inn h[symmetric] miss fresh_code_free[OF sb this], of v]
    have it: "item_ok ops kind (h, None, Subtree
        (projr (hash_tree_set ops None key (Some v) (fresh_code s) s kind)))"
      using two by (intro inner_ok_item[OF new(2)]) (simp only: new(1), simp)
    show ?thesis
      by (rule set_spec_intro[OF a(1)[OF it] M a(2)[OF it] f])
        (simp_all only: item_entries_multi filter_inner_missing[OF inn miss] new(1) minner_simps
          inner_entry.simps option.case mset.simps size_union size_add_mset size_empty, simp_all)
  qed
  assume found: "0 \<le> search_nodes ops s key kind"
  from inner_found[OF inn found] obtain c k0 v0 K
    where k: "(c, Some k0, Value v0) \<in> set (avl_items s)" "key_same ops kind k0 key"
      and c: "word_of_int (search_nodes ops s key kind) = c"
      and K: "mset (avl_items s) = add_mset (c, Some k0, Value v0) K" "\<forall>x \<in># K. fst x \<noteq> c"
        "K = filter_mset (\<lambda>x. fst x \<noteq> c) (mset (avl_items s))" .
  note fi = filter_inner[OF inn K(1,2) k(2)]
  have "set_spec ops kind root key (Some v) (avl_assign h None
      (Subtree (projr (hash_tree_set ops None key (Some v) c s kind))) root) 0"
  proof -
    note upd = inner_upd[OF inn k K(1,2), of v]
    have it: "item_ok ops kind (h, None, Subtree
        (projr (hash_tree_set ops None key (Some v) c s kind)))"
      using two K(1) by (intro inner_ok_item[OF upd(2)]) (simp only: upd(1), metis size_mset size_add_mset)
    show ?thesis
      by (rule set_spec_intro[OF a(1)[OF it] M a(2)[OF it] f])
        (simp_all only: item_entries_multi fi, simp_all add: upd(1) K(1))
  qed
  then show "set_spec ops kind root key (Some v) (avl_assign h None
        (Subtree (projr (hash_tree_set ops None key (Some v)
           (word_of_int (search_nodes ops s key kind)) s kind))) root) 0" by (simp only: c)
  assume s': "s' = projr (hash_tree_set ops None key None (word_of_int (search_nodes ops s key kind)) s kind)"
  note del = inner_del[OF inn k K(3), folded s'[unfolded c]]
  have sK: "1 \<le> size K" using two K(1) by (metis One_nat_def Suc_1 Suc_le_mono size_add_mset size_mset)
  then have nn: "s' \<noteq> Null" using del(1) by auto
  show "set_spec ops kind root key None
        (if avl_left s' = Null \<and> avl_right s' = Null
         then avl_assign h (avl_key s') (avl_val s') root
         else avl_assign h None (Subtree s') root) (-1)"
  proof (cases "avl_left s' = Null \<and> avl_right s' = Null")
    case True
    then have i: "avl_items s' = [(avl_code s', avl_key s', avl_val s')]" using single_avl nn by blast
    with del(2) have "inner_item_ok ops kind h (avl_code s', avl_key s', avl_val s')"
      by (simp add: inner_ok_def)
    then obtain k2 v2 where kv: "avl_key s' = Some k2" "avl_val s' = Value v2" "key_hash ops kind k2 = h"
      by (auto elim: inner_item_okE)
    then have it: "item_ok ops kind (h, avl_key s', avl_val s')" by simp
    have K1: "K = {#(avl_code s', Some k2, Value v2)#}" using del(1) i kv by simp
    have "set_spec ops kind root key None (avl_assign h (avl_key s') (avl_val s') root) (-1)"
      by (rule set_spec_intro[OF a(1)[OF it] M a(2)[OF it] f])
        (simp_all only: item_entries_multi fi, simp_all add: kv K1 K(1))
    with True show ?thesis by simp
  next
    case False
    have "2 \<le> size (mset (avl_items s'))"
      using False nn by (cases s'; cases "avl_left s'"; cases "avl_right s'") auto
    note it = inner_ok_item[OF del(2) this]
    have "set_spec ops kind root key None (avl_assign h None (Subtree s') root) (-1)"
      by (rule set_spec_intro[OF a(1)[OF it] M a(2)[OF it] f])
        (simp_all only: item_entries_multi fi, simp_all add: del(1) K(1))
    then show ?thesis by (simp only: False if_False)
  qed
qed

text \<open>One step of the table: the new root meets \<open>set_spec\<close>.\<close>

lemma hash_tree_set_spec:
  fixes t :: "('k, 'v) hash_tree"
  assumes ok: "tree_ok ops kind (ht_root t)" and h: "h = key_hash ops kind key"
    and len: "length (entries (ht_root t)) < 2 ^ 31"
  shows "\<exists>root' d. hash_tree_set ops (Some t) key val h (ht_root t) kind =
      Inl (t\<lparr>ht_count := ht_count t + d, ht_root := root'\<rparr>) \<and>
      set_spec ops kind (ht_root t) key val root' d"
proof -
  let ?root = "ht_root t" and ?v = "the val"
  have bb: "avl_bst ?root" "avl_bal ?root" using ok by (auto simp: tree_ok_def)
  have un: "ht_unchanged (Some t) ?root = ht_result (Some t) ?root 0"
    by (simp add: ht_unchanged_def ht_result_def)
  have "\<exists>root' d. hash_tree_set ops (Some t) key val h ?root kind = ht_result (Some t) root' d \<and>
      set_spec ops kind ?root key val root' d"
  proof (cases "h \<in> avl_codes ?root")
    case False
    show ?thesis
      using hts_remove_absent[OF False, of ops "Some t" key kind] hts_new[OF bb False, of ops "Some t" key _ kind]
        set_new[OF ok h False] un
      by (cases val) auto
  next
    case True
    then obtain k w where item: "(h, k, w) \<in> set (avl_items ?root)" by (auto simp: avl_codes_def)
    then have "item_ok ops kind (h, k, w)" using ok by (auto simp: tree_ok_def)
    then show ?thesis
    proof (cases rule: item_okE)
      case (single c k0 w0)
      then have i: "(h, Some k0, Value w0) \<in> set (avl_items ?root)" using item by simp
      note s = set_single[OF ok h i] and e = hts_single[where ops = ops and key = key and kind = kind and tree = "Some t", OF bb i]
      show ?thesis
      proof (cases "key_same ops kind k0 key")
        case True
        then have "key_same ops kind key k0" by (rule same_sym)
        with True s(1,3) e(1,3) show ?thesis by (cases val) auto
      next
        case False
        then have "\<not> key_same ops kind key k0" using same_sym by blast
        with False s(2,4) e(2,4) un show ?thesis by (cases val) (auto simp del: make_avl_simp)
      qed
    next
      case (multi c s)
      then have i: "(h, None, Subtree s) \<in> set (avl_items ?root)" using item by simp
      note s = set_multi[OF ok h i] and e = hts_multi[where ops = ops and key = key and kind = kind and tree = "Some t", OF bb i]
      show ?thesis
      proof (cases "search_nodes ops s key kind < 0")
        case True
        with s(1,2) e(1,2) un len show ?thesis by (cases val) auto
      next
        case False
        then have "0 \<le> search_nodes ops s key kind" by simp
        note s' = s(3)[OF this] s(4)[OF this refl] and e' = e(3)[OF this] e(4)[OF this refl]
        show ?thesis
        proof (cases val)
          case None
          show ?thesis unfolding None e'(2) using s'(2) by blast
        next
          case (Some v)
          show ?thesis unfolding Some e'(1) using s'(1) by blast
        qed
      qed
    qed
  qed
  then show ?thesis by (auto simp: ht_result_def)
qed

end

subsection \<open>Lookup\<close>

lemma get_unfold:
  "scheme_hash_tree_get ops t key =
     (case avl_find (key_hash ops (ht_kind t) key) (ht_root t) of
        Null \<Rightarrow> None
      | AVLNode _ _ None v _ _ \<Rightarrow>
          (let savl = slot_tree v; code = search_nodes ops savl key (ht_kind t)
           in if code \<ge> 0 then Some (slot_value (avl_val (avl_find (word_of_int code) savl))) else None)
      | AVLNode _ _ (Some k) v _ _ \<Rightarrow>
          if (if ht_kind t = 0 then key_same ops (ht_kind t) k key else key_same ops (ht_kind t) key k)
          then Some (slot_value v) else None)"
  by (auto simp: scheme_hash_tree_get_def scheme_eq_hash_tree_get_def key_hash_def key_same_def Let_def
      search_nodes_eq_kind0 split: avl.splits option.splits)

context hash_keys
begin

lemma entry_item:
  assumes ok: "tree_ok ops kind root" and e: "(k, v) \<in> set (entries root)" "key_same ops kind k key"
  obtains x where "x \<in> set (avl_items root)" "(k, v) \<in> set (item_entries x)"
    "fst x = key_hash ops kind key" "item_ok ops kind x"
proof -
  from e(1) obtain x where x: "x \<in> set (avl_items root)" "(k, v) \<in> set (item_entries x)"
    by (auto simp: entries_def)
  with ok have "item_ok ops kind x" by (auto simp: tree_ok_def)
  with item_entries_hash[OF this x(2)] same_hash[OF e(2)] x that show thesis by simp
qed

lemma entry_in_inner:
  assumes "inner_ok ops kind h s" "(c, Some k, Value v) \<in> set (avl_items s)"
  shows "(k, v) \<in> set (inner_entries s)"
  using assms by (force simp: inner_entries_def)

lemma inner_entryE:
  assumes ok: "inner_ok ops kind h s" and e: "(k, v) \<in> set (inner_entries s)"
  obtains c where "(c, Some k, Value v) \<in> set (avl_items s)"
proof -
  from e obtain x where x: "x \<in> set (avl_items s)" "(k, v) \<in> set (inner_entry x)"
    by (auto simp: inner_entries_def)
  with ok have "inner_item_ok ops kind h x" by (auto simp: inner_ok_def)
  then show thesis using x that by (auto elim!: inner_item_okE)
qed

lemma get_Some:
  fixes t :: "('k, 'v) hash_tree"
  assumes kind: "ht_kind t = kind" and ok: "tree_ok ops kind (ht_root t)"
  shows "scheme_hash_tree_get ops t key = Some v \<longleftrightarrow>
    (\<exists>k. (k, v) \<in> set (entries (ht_root t)) \<and> key_same ops kind k key)"
proof -
  let ?root = "ht_root t" and ?h = "key_hash ops kind key"
  have bb: "avl_bst ?root" using ok by (simp add: tree_ok_def)
  have sym: "key_same ops kind a b = key_same ops kind b a" for a b using same_sym by blast
  show ?thesis
  proof (cases "?h \<in> avl_codes ?root")
    case False
    have "\<nexists>k. (k, v) \<in> set (entries ?root) \<and> key_same ops kind k key"
    proof clarify
      fix k assume "(k, v) \<in> set (entries ?root)" "key_same ops kind k key"
      from entry_item[OF ok this] obtain x where "x \<in> set (avl_items ?root)" "fst x = ?h" .
      with False show False unfolding avl_codes_def by (metis image_eqI)
    qed
    with False kind show ?thesis by (simp add: get_unfold avl_find_none)
  next
    case True
    then obtain k w where item: "(?h, k, w) \<in> set (avl_items ?root)" by (auto simp: avl_codes_def)
    have uniq: "x = (?h, k, w)" if "x \<in> set (avl_items ?root)" "fst x = ?h" for x
      using avl_bst_unique[OF bb that(1) item] that(2) by simp
    have ex: "(\<exists>k'. (k', v) \<in> set (entries ?root) \<and> key_same ops kind k' key) \<longleftrightarrow>
        (\<exists>k'. (k', v) \<in> set (item_entries (?h, k, w)) \<and> key_same ops kind k' key)"
    proof (intro iffI; elim exE conjE)
      fix k' assume e: "(k', v) \<in> set (entries ?root)" "key_same ops kind k' key"
      from entry_item[OF ok e] obtain x where x: "x \<in> set (avl_items ?root)"
        "(k', v) \<in> set (item_entries x)" "fst x = ?h" .
      with uniq[OF x(1,3)] e(2)
      show "\<exists>k'. (k', v) \<in> set (item_entries (?h, k, w)) \<and> key_same ops kind k' key" by auto
    next
      fix k' assume "(k', v) \<in> set (item_entries (?h, k, w))" "key_same ops kind k' key"
      with item show "\<exists>k'. (k', v) \<in> set (entries ?root) \<and> key_same ops kind k' key"
        by (auto simp: entries_def simp del: item_entries.simps)
    qed
    from avl_find_node[OF bb item] obtain a l r where f: "avl_find ?h ?root = AVLNode a ?h k w l r" .
    have "item_ok ops kind (?h, k, w)" using ok item by (auto simp: tree_ok_def)
    then show ?thesis
    proof (cases rule: item_okE)
      case (single c k0 w0)
      with f ex kind sym[of k0 key] show ?thesis by (auto simp: get_unfold)
    next
      case (multi c s)
      have items: "\<forall>x \<in> set (avl_items s). inner_item_ok ops kind c x"
        using multi(2) by (simp add: inner_ok_def)
      show ?thesis
      proof (cases "search_nodes ops s key kind < 0")
        case True
        have "\<nexists>k'. (k', v) \<in> set (inner_entries s) \<and> key_same ops kind k' key"
        proof clarify
          fix k' assume e: "(k', v) \<in> set (inner_entries s)" "key_same ops kind k' key"
          from inner_entryE[OF multi(2) e(1)] obtain c' where "(c', Some k', Value v) \<in> set (avl_items s)" .
          with search_nodes_missing[OF items True] e(2) show False by blast
        qed
        with True f ex kind multi show ?thesis by (simp add: get_unfold)
      next
        case False
        then have "0 \<le> search_nodes ops s key kind" by simp
        from inner_found[OF multi(2) this] obtain d k0 v0
          where d: "(d, Some k0, Value v0) \<in> set (avl_items s)" "key_same ops kind k0 key"
            "word_of_int (search_nodes ops s key kind) = d" by metis
        have sb: "avl_bst s" using multi(2) by (simp add: inner_ok_def)
        have get: "scheme_hash_tree_get ops t key = Some v0"
          using f kind multi False d(3) avl_find_item[OF sb d(1)] by (simp add: get_unfold)
        have "v' = v0" if "(k', v') \<in> set (inner_entries s)" "key_same ops kind k' key" for k' v'
        proof -
          from inner_entryE[OF multi(2) that(1)] obtain c' where c': "(c', Some k', Value v') \<in> set (avl_items s)" .
          have "key_same ops kind k' k0" using that(2) d(2) same_sym same_trans by blast
          then have "(c', Some k', Value v') = (d, Some k0, Value v0)"
            using multi(2) c' d(1) by (fastforce simp: inner_ok_def)
          then show ?thesis by simp
        qed
        then have "(\<exists>k'. (k', v) \<in> set (inner_entries s) \<and> key_same ops kind k' key) \<longleftrightarrow> v = v0"
          using entry_in_inner[OF multi(2) d(1)] d(2) by blast
        then show ?thesis using ex multi by (simp add: get eq_commute[of v0])
      qed
    qed
  qed
qed

lemma get_set:
  fixes t :: "('k, 'v) hash_tree"
  assumes kind: "ht_kind t = kind" and ok: "hash_tree_ok ops t"
    and len: "ht_count t < 2 ^ 31"
  shows "hash_tree_ok ops (scheme_hash_tree_set ops t key val)"
    and "scheme_hash_tree_get ops (scheme_hash_tree_set ops t key val) key' =
      (if key_same ops kind key key' then val else scheme_hash_tree_get ops t key')"
    and "ht_kind (scheme_hash_tree_set ops t key val) = ht_kind t"
proof -
  have tok: "tree_ok ops kind (ht_root t)" and cnt: "ht_count t = int (length (entries (ht_root t)))"
    using ok kind by (auto simp: hash_tree_ok_def)
  have len': "length (entries (ht_root t)) < 2 ^ 31" using len cnt by simp
  from hash_tree_set_spec[OF tok refl len', of key val] obtain root' d
    where s: "scheme_hash_tree_set ops t key val = t\<lparr>ht_count := ht_count t + d, ht_root := root'\<rparr>"
      and spec: "set_spec ops kind (ht_root t) key val root' d"
    by (auto simp: scheme_hash_tree_set_def kind)
  have tok': "tree_ok ops kind root'"
    and m: "mset (entries root') =
       filter_mset (\<lambda>e. \<not> key_same ops kind (fst e) key) (mset (entries (ht_root t))) +
       (case val of None \<Rightarrow> {#} | Some v \<Rightarrow> {#(key, v)#})"
    using spec by (auto simp: set_spec_def)
  show "hash_tree_ok ops (scheme_hash_tree_set ops t key val)"
    using spec cnt kind by (simp add: s hash_tree_ok_def set_spec_def)
  show "ht_kind (scheme_hash_tree_set ops t key val) = ht_kind t" by (simp add: s)
  have set: "set (entries root') = {e \<in> set (entries (ht_root t)). \<not> key_same ops kind (fst e) key} \<union>
      (case val of None \<Rightarrow> {} | Some v \<Rightarrow> {(key, v)})"
    using arg_cong[OF m, of set_mset] by (auto split: option.splits)
  have g2: "scheme_hash_tree_get ops (scheme_hash_tree_set ops t key val) key' = Some v \<longleftrightarrow>
      (\<exists>k. (k, v) \<in> set (entries root') \<and> key_same ops kind k key')" for v
    using get_Some[of "scheme_hash_tree_set ops t key val" key' v] tok' kind by (simp add: s)
  have "scheme_hash_tree_get ops (scheme_hash_tree_set ops t key val) key' = Some v \<longleftrightarrow>
      (if key_same ops kind key key' then val else scheme_hash_tree_get ops t key') = Some v" for v
  proof (cases "key_same ops kind key key'")
    case True
    then have "key_same ops kind k key' = key_same ops kind k key" for k
      using same_sym same_trans by blast
    with True show ?thesis by (auto simp: g2 set same_refl split: option.splits)
  next
    case False
    have "\<not> key_same ops kind k key" if "key_same ops kind k key'" for k
      using that False same_sym same_trans by blast
    with False show ?thesis
      by (auto simp: g2 set get_Some[OF kind tok] split: option.splits)
  qed
  then show "scheme_hash_tree_get ops (scheme_hash_tree_set ops t key val) key' =
      (if key_same ops kind key key' then val else scheme_hash_tree_get ops t key')"
    by (metis not_Some_eq)
qed

lemma make_ok: "hash_tree_ok ops (scheme_make_hash_tree k)"
  by (simp add: hash_tree_ok_def scheme_make_hash_tree_def tree_ok_def entries_def)

end

end
