(* ===== verification/Hash_Tree_Iter.thy ===== *)
theory Hash_Tree_Iter
  imports Hash_Tree_Correct
begin

section \<open>Iteration over immutable hash tables (hash.c)\<close>

text \<open>
  \<^verbatim>\<open>path_next\<close>, \<^verbatim>\<open>path_find\<close> and their callers. A position is a
  \<^verbatim>\<open>mzlonglong\<close> whose bits say where to turn: at a node with a key one bit chooses left (0)
  or here-and-right (1); at a node with an inner tree a second bit chooses the inner tree (01)
  or right (11). A position is an \<open>int\<close> in the range of 64 bits; a left shift keeps the low 64 bits
  (\<open>mzlonglong\<close>), so the positions of a tree that is too deep wrap around.
\<close>

definition mzlonglong :: "int \<Rightarrow> int" where
  "mzlonglong i = signed_take_bit 63 i"

function path_next :: "('k, 'v) avl \<Rightarrow> int \<Rightarrow> int" where
  "path_next Null path = -1"
| "path_next (AVLNode h c key val l r) path =
     (let sub = (\<lambda>p. case val of Subtree s \<Rightarrow> path_next s p | _ \<Rightarrow> -1);
          in_sub = (key = None \<and> odd path \<and> \<not> odd (path div 2));
          sub_next = (if in_sub then sub (path div 4) else -1)
      in if in_sub \<and> sub_next > 0 then mzlonglong (4 * sub_next) + 1
         else
           (let path = (if in_sub then 1 else if key = None \<and> odd path then path div 2 else path)
            in if odd path then
                 (let p = path_next r (path div 2)
                  in if key \<noteq> None then mzlonglong (2 * p) + 1 else mzlonglong (4 * p) + 3)
               else
                 (let p = path_next l (path div 2)
                  in if p > 0 then mzlonglong (2 * p)
                     else if key \<noteq> None then 1
                     else mzlonglong (4 * sub 0) + 1)))"
  by pat_completeness auto
termination by (relation "measure (\<lambda>(t, p). size t)") auto

fun path_find :: "('k, 'v) avl \<Rightarrow> int \<Rightarrow> ('k option \<times> ('k, 'v) slot) option" where
  "path_find Null path = None"
| "path_find (AVLNode h c key val l r) path =
     (if key = None \<and> odd path \<and> \<not> odd (path div 2) then
        (case val of Subtree s \<Rightarrow> path_find s (path div 4) | _ \<Rightarrow> None)
      else
        (let path = (if key = None \<and> odd path then path div 2 else path)
         in if odd path then
              (if path div 2 \<noteq> 0 then path_find r (path div 2) else Some (key, val))
            else path_find l (path div 2)))"

definition scheme_hash_tree_next :: "('k, 'v) hash_tree \<Rightarrow> int \<Rightarrow> int" where
  "scheme_hash_tree_next tree pos = path_next (ht_root tree) (if pos = -1 then 0 else pos)"

definition scheme_hash_tree_index :: "('k, 'v) hash_tree \<Rightarrow> int \<Rightarrow> ('k \<times> 'v) option" where
  "scheme_hash_tree_index tree pos =
     map_option (\<lambda>(k, v). (the k, slot_value v)) (path_find (ht_root tree) pos)"

text \<open>Conversion of a \<^verbatim>\<open>mzlonglong\<close> to the \<^verbatim>\<open>int\<close> loop variable of
  \<^verbatim>\<open>scheme_hash_tree_equal_rec\<close>.\<close>

definition to_int32 :: "int \<Rightarrow> int" where
  "to_int32 i = sint (word_of_int i :: 32 word)"

text \<open>
  The loop of \<^verbatim>\<open>scheme_hash_tree_equal_rec\<close>; \<open>fuel\<close> bounds the iterations and
  \<open>None\<close> is running out of it. \<open>trav1\<close> and \<open>get2\<close> stand for the traversal through a
  chaperone (\<^verbatim>\<open>scheme_chaperone_hash_traversal_get\<close>,
  \<^verbatim>\<open>scheme_chaperone_hash_get\<close>) when \<^verbatim>\<open>orig_t1\<close> or \<^verbatim>\<open>orig_t2\<close> is one.
\<close>

fun equal_rec_loop ::
  "'k key_ops \<Rightarrow> ('k \<Rightarrow> 'k \<times> 'v) option \<Rightarrow> ('k \<Rightarrow> 'v option) option \<Rightarrow> ('v \<Rightarrow> 'v \<Rightarrow> bool) \<Rightarrow>
   ('k, 'v) hash_tree \<Rightarrow> ('k, 'v) hash_tree \<Rightarrow> nat \<Rightarrow> int \<Rightarrow> bool option" where
  "equal_rec_loop ops trav1 get2 recur_equal t1 t2 0 i = None"
| "equal_rec_loop ops trav1 get2 recur_equal t1 t2 (Suc fuel) i =
     (if i = -1 then Some True
      else
        (let (k, v) = the (scheme_hash_tree_index t1 i);
             (k, v) = (case trav1 of Some trav \<Rightarrow> trav k | None \<Rightarrow> (k, v));
             v2 = (case get2 of Some get \<Rightarrow> get k | None \<Rightarrow> scheme_hash_tree_get ops t2 k)
         in case v2 of
              None \<Rightarrow> Some False
            | Some v2 \<Rightarrow>
                if \<not> recur_equal v v2 then Some False
                else equal_rec_loop ops trav1 get2 recur_equal t1 t2 fuel
                       (to_int32 (scheme_hash_tree_next t1 i))))"

definition scheme_hash_tree_equal_rec ::
  "'k key_ops \<Rightarrow> ('k \<Rightarrow> 'k \<times> 'v) option \<Rightarrow> ('k \<Rightarrow> 'v option) option \<Rightarrow> ('v \<Rightarrow> 'v \<Rightarrow> bool) \<Rightarrow>
   ('k, 'v) hash_tree \<Rightarrow> ('k, 'v) hash_tree \<Rightarrow> nat \<Rightarrow> bool option" where
  "scheme_hash_tree_equal_rec ops trav1 get2 recur_equal t1 t2 fuel =
     (if ht_count t1 \<noteq> ht_count t2 \<or> ht_kind t1 \<noteq> ht_kind t2 then Some False
      else equal_rec_loop ops trav1 get2 recur_equal t1 t2 fuel
             (to_int32 (scheme_hash_tree_next t1 (-1))))"

subsection \<open>All positions of a tree, in order\<close>

text \<open>The same function on unbounded positions. It is the one of the code as long as the positions of the tree fit 63 bits,
  which lemma \<open>path_next_wide\<close> shows below.\<close>

function wide_next :: "('k, 'v) avl \<Rightarrow> int \<Rightarrow> int" where
  "wide_next Null path = -1"
| "wide_next (AVLNode h c key val l r) path =
     (let sub = (\<lambda>p. case val of Subtree s \<Rightarrow> wide_next s p | _ \<Rightarrow> -1);
          in_sub = (key = None \<and> odd path \<and> \<not> odd (path div 2));
          sub_next = (if in_sub then sub (path div 4) else -1)
      in if in_sub \<and> sub_next > 0 then 4 * sub_next + 1
         else
           (let path = (if in_sub then 1 else if key = None \<and> odd path then path div 2 else path)
            in if odd path then
                 (let p = wide_next r (path div 2)
                  in if key \<noteq> None then 2 * p + 1 else 4 * p + 3)
               else
                 (let p = wide_next l (path div 2)
                  in if p > 0 then 2 * p
                     else if key \<noteq> None then 1
                     else 4 * sub 0 + 1)))"
  by pat_completeness auto
termination by (relation "measure (\<lambda>(t, p). size t)") auto

function positions :: "('k, 'v) avl \<Rightarrow> int list" where
  "positions Null = []"
| "positions (AVLNode h c key val l r) =
     (if key \<noteq> None then
        map (\<lambda>p. 2 * p) (positions l) @ [1] @ map (\<lambda>p. 2 * p + 1) (positions r)
      else
        map (\<lambda>p. 2 * p) (positions l) @
        map (\<lambda>p. 4 * p + 1) (case val of Subtree s \<Rightarrow> positions s | _ \<Rightarrow> []) @
        map (\<lambda>p. 4 * p + 3) (positions r))"
  by pat_completeness auto
termination by (relation "measure size") auto

lemma positions_pos: "p \<in> set (positions t) \<Longrightarrow> 0 < p"
  by (induction t arbitrary: p rule: positions.induct) (fastforce split: if_splits slot.splits)+

definition first_pos :: "int list \<Rightarrow> int" where
  "first_pos ps = (case ps of [] \<Rightarrow> -1 | p # _ \<Rightarrow> p)"

lemma first_pos_simps [simp]:
  "first_pos [] = -1" "first_pos (p # ps) = p"
  by (simp_all add: first_pos_def)

lemma first_pos_append: "first_pos (xs @ ys) = (if xs = [] then first_pos ys else first_pos xs)"
  by (cases xs) auto

lemma first_pos_map: "first_pos (map f xs) = (if xs = [] then -1 else f (first_pos xs))"
  by (cases xs) auto

lemma first_positions: "(0 < first_pos (positions t)) = (positions t \<noteq> [])"
  using positions_pos[of _ t] by (cases "positions t") auto

text \<open>Every inner tree is nonempty, all the way down; part of the table invariant.\<close>

inductive subs_nonempty :: "('k, 'v) avl \<Rightarrow> bool" where
  "subs_nonempty Null"
| "subs_nonempty l \<Longrightarrow> subs_nonempty r \<Longrightarrow>
   (\<And>s. key = None \<Longrightarrow> val = Subtree s \<Longrightarrow> s \<noteq> Null \<and> subs_nonempty s) \<Longrightarrow>
   (key = None \<Longrightarrow> \<exists>s. val = Subtree s) \<Longrightarrow>
   subs_nonempty (AVLNode h c key val l r)"

inductive_simps subs_nonempty_node: "subs_nonempty (AVLNode h c key val l r)"

lemma positions_nonempty: "subs_nonempty t \<Longrightarrow> t \<noteq> Null \<Longrightarrow> positions t \<noteq> []"
  by (induction t rule: positions.induct) (auto simp: subs_nonempty_node split: slot.splits)

lemma wide_next_0: "subs_nonempty t \<Longrightarrow> wide_next t 0 = first_pos (positions t)"
proof (induction t rule: positions.induct)
  case (2 h c key val l r)
  show ?case
  proof (cases "key = None")
    case True
    with 2(6) obtain s where s: "val = Subtree s" "s \<noteq> Null" "subs_nonempty s"
      unfolding subs_nonempty_node by blast
    with 2 True positions_nonempty[of s] show ?thesis
      by (auto simp: Let_def first_pos_append first_pos_map first_positions subs_nonempty_node)
  next
    case False
    with 2 show ?thesis
      by (auto simp: Let_def first_pos_append first_pos_map first_positions subs_nonempty_node)
  qed
qed simp

lemma map_append_split:
  assumes "map f as @ bs = xs @ p # ys"
  obtains (left) as1 a as2 where "as = as1 @ a # as2" "p = f a" "ys = map f as2 @ bs"
  | (right) xs' where "bs = xs' @ p # ys"
proof (cases "length xs < length as")
  case True
  then have "as = take (length xs) as @ as ! length xs # drop (Suc (length xs)) as"
    by (simp add: id_take_nth_drop)
  moreover have "p = (map f as @ bs) ! length xs" "ys = drop (Suc (length xs)) (map f as @ bs)"
    using assms by simp_all
  ultimately show thesis using True left by (simp add: nth_append drop_map)
next
  case False
  then have "bs = drop (length as) (xs @ p # ys)" using arg_cong[OF assms, of "drop (length as)"] by simp
  with False right[of "drop (length as) xs"] show thesis by simp
qed

lemma wide_next_step:
  assumes "subs_nonempty t" "positions t = xs @ p # ys"
  shows "wide_next t p = first_pos ys"
  using assms
proof (induction t arbitrary: xs p ys rule: positions.induct)
  case (2 h c key val l r)
  have sn: "subs_nonempty l" "subs_nonempty r" using 2(6) by (auto simp: subs_nonempty_node)
  show ?case
  proof (cases "key = None")
    case True
    with 2(6) obtain s where s: "val = Subtree s" "s \<noteq> Null" "subs_nonempty s"
      unfolding subs_nonempty_node by blast
    note ne = positions_nonempty[OF s(3,2)]
    from 2(7) True s have "map (\<lambda>p. 2 * p) (positions l) @
        (map (\<lambda>p. 4 * p + 1) (positions s) @ map (\<lambda>p. 4 * p + 3) (positions r)) = xs @ p # ys"
      by simp
    then show ?thesis
    proof (cases rule: map_append_split)
      case (left as1 a as2)
      then have "wide_next l a = first_pos as2" "0 < a"
        using 2(3)[OF _ sn(1), of as1 a as2] True positions_pos[of a l] by auto
      with left s True ne positions_pos[of _ l] show ?thesis
        by (cases as2) (auto simp: Let_def first_pos_append first_pos_map wide_next_0 first_positions)
    next
      case (right xs')
      then show ?thesis
      proof (cases rule: map_append_split)
        case (left as1 a as2)
        then have a: "wide_next s a = first_pos as2" "0 < a"
          using 2(4)[OF _ s(1,3), of as1 a as2] True positions_pos[of a s] by auto
        have "odd (4 * a + 1)" "\<not> odd ((4 * a + 1) div 2)" "(4 * a + 1) div 4 = a" by presburger+
        with left a s True positions_pos[of _ s] sn show ?thesis
          by (cases as2) (auto simp: Let_def first_pos_append first_pos_map wide_next_0)
      next
        case (right xs'')
        then have "map (\<lambda>p. 4 * p + 3) (positions r) @ [] = xs'' @ p # ys" by simp
        then show ?thesis
        proof (cases rule: map_append_split)
          case (left as1 a as2)
          then have a: "wide_next r a = first_pos as2" using 2(5)[OF _ sn(2), of as1 a as2] True by auto
          have "odd (4 * a + 3)" "odd ((4 * a + 3) div 2)" "(4 * a + 3) div 2 div 2 = a" by presburger+
          with left a True show ?thesis by (cases as2) (auto simp: Let_def)
        qed simp
      qed
    qed
  next
    case False
    then obtain kk where k: "key = Some kk" by blast
    with 2(7) have "map (\<lambda>p. 2 * p) (positions l) @ (1 # map (\<lambda>p. 2 * p + 1) (positions r)) = xs @ p # ys"
      by simp
    then show ?thesis
    proof (cases rule: map_append_split)
      case (left as1 a as2)
      then have "wide_next l a = first_pos as2" "0 < a"
        using 2(1)[OF False sn(1), of as1 a as2] positions_pos[of a l] by auto
      with left k positions_pos[of _ l] show ?thesis by (cases as2) (auto simp: Let_def)
    next
      case (right xs')
      show ?thesis
      proof (cases xs')
        case Nil
        with right have "p = 1" "ys = map (\<lambda>p. 2 * p + 1) (positions r)" by auto
        with k sn show ?thesis by (simp add: Let_def wide_next_0 first_pos_map)
      next
        case (Cons b xs'')
        with right have "map (\<lambda>p. 2 * p + 1) (positions r) @ [] = xs'' @ p # ys" by simp
        then show ?thesis
        proof (cases rule: map_append_split)
          case (left as1 a as2)
          then have "wide_next r a = first_pos as2" using 2(2)[OF False sn(2), of as1 a as2] by auto
          with left k show ?thesis by (cases as2) (auto simp: Let_def)
        qed simp
      qed
    qed
  qed
qed simp

subsection \<open>What the positions hold\<close>

function kvs :: "('k, 'v) avl \<Rightarrow> ('k option \<times> ('k, 'v) slot) list" where
  "kvs Null = []"
| "kvs (AVLNode h c key val l r) =
     kvs l @ (if key \<noteq> None then [(key, val)] else case val of Subtree s \<Rightarrow> kvs s | _ \<Rightarrow> []) @ kvs r"
  by pat_completeness auto
termination by (relation "measure size") auto

lemma path_find_positions: "map (path_find t) (positions t) = map Some (kvs t)"
proof (induction t rule: kvs.induct)
  case (2 h c key val l r)
  let ?t = "AVLNode h c key val l r"
  have l: "map (\<lambda>p. path_find ?t (2 * p)) (positions l) = map Some (kvs l)"
    using 2(1) by (simp add: Let_def)
  show ?case
  proof (cases "key = None")
    case True
    have o: "odd (4 * p + 3)" "odd ((4 * p + 3) div 2)" "(4 * p + 3) div 2 div 2 = p"
        "odd (4 * p + 1)" "\<not> odd ((4 * p + 1) div 2)" "(4 * p + 1) div 4 = p" for p :: int
      by presburger+
    have r: "map (\<lambda>p. path_find ?t (4 * p + 3)) (positions r) = map Some (kvs r)"
      unfolding 2(3)[symmetric] using True positions_pos[of _ r] by (auto simp: Let_def o)
    have s: "map (\<lambda>p. path_find ?t (4 * p + 1)) (case val of Subtree s \<Rightarrow> positions s | _ \<Rightarrow> []) =
        map Some (case val of Subtree s \<Rightarrow> kvs s | _ \<Rightarrow> [])"
      using True 2(2) by (cases val) (auto simp: Let_def o)
    from l r s True show ?thesis by (simp add: comp_def del: path_find.simps)
  next
    case False
    then obtain kk where k: "key = Some kk" by blast
    have r: "map (\<lambda>p. path_find ?t (2 * p + 1)) (positions r) = map Some (kvs r)"
      unfolding 2(3)[symmetric] using k positions_pos[of _ r] by (auto simp: Let_def)
    have o: "path_find ?t 1 = Some (key, val)" using k by simp
    from l r o k show ?thesis by (simp add: comp_def del: path_find.simps)
  qed
qed simp

definition kv_pair :: "'k option \<times> ('k, 'v) slot \<Rightarrow> 'k \<times> 'v" where
  "kv_pair = (\<lambda>(k, v). (the k, slot_value v))"

lemma inner_kvs:
  "\<forall>x \<in> set (avl_items s). inner_item_ok ops kind h x \<Longrightarrow> map kv_pair (kvs s) = inner_entries s"
proof (induction s rule: kvs.induct)
  case (2 h' c key val l r)
  then have "inner_item_ok ops kind h (c, key, val)" by simp
  with 2 show ?case by (auto simp: inner_entries_def kv_pair_def elim!: inner_item_okE)
qed (simp add: inner_entries_def)

lemma item_kvs:
  "\<forall>x \<in> set (avl_items t). item_ok ops kind x \<Longrightarrow> map kv_pair (kvs t) = entries t"
proof (induction t rule: kvs.induct)
  case (2 h' c key val l r)
  then have "item_ok ops kind (c, key, val)" by simp
  then show ?case
  proof (cases rule: item_okE)
    case (single c k v)
    with 2 show ?thesis by (auto simp: entries_def kv_pair_def)
  next
    case (multi c s)
    then have "map kv_pair (kvs s) = inner_entries s" by (intro inner_kvs[of s ops kind c]) (simp add: inner_ok_def)
    with multi 2 show ?thesis by (auto simp: entries_def)
  qed
qed (simp add: entries_def)

lemma inner_subs_nonempty:
  "\<forall>x \<in> set (avl_items s). inner_item_ok ops kind h x \<Longrightarrow> subs_nonempty s"
  by (induction s rule: avl_items.induct)
    (auto intro!: subs_nonempty.intros elim!: inner_item_okE)

lemma tree_subs_nonempty: "\<forall>x \<in> set (avl_items t). item_ok ops kind x \<Longrightarrow> subs_nonempty t"
proof (induction t rule: avl_items.induct)
  case (2 h c k v l r)
  then have "item_ok ops kind (c, k, v)" by simp
  then show ?case
  proof (cases rule: item_okE)
    case (single c k v)
    with 2 show ?thesis by (auto intro!: subs_nonempty.intros)
  next
    case (multi c s)
    then have "subs_nonempty s" "s \<noteq> Null"
      using inner_subs_nonempty by (auto simp: inner_ok_def)
    with multi 2 show ?thesis by (auto intro!: subs_nonempty.intros)
  qed
qed (simp add: subs_nonempty.intros)

subsection \<open>Bits of a position\<close>

function path_bits :: "('k, 'v) avl \<Rightarrow> nat" where
  "path_bits Null = 0"
| "path_bits (AVLNode h c key val l r) =
     (if key \<noteq> None then 1 + max (path_bits l) (path_bits r)
      else 2 + max (max (path_bits l) (path_bits r)) (case val of Subtree s \<Rightarrow> path_bits s | _ \<Rightarrow> 0))"
  by pat_completeness auto
termination by (relation "measure size") auto

lemma pow_bits_step:
  fixes p :: int
  assumes "p < 2 ^ m" "0 < p" "m \<le> n"
  shows "2 * p + 1 < 2 ^ (1 + n)" "4 * p + 3 < 2 ^ (2 + n)"
proof -
  have "(2::int) ^ m \<le> 2 ^ n" using assms(3) by simp
  with assms(1) have "p < 2 ^ n" by (rule less_le_trans)
  then have "p + 1 \<le> 2 ^ n" by simp
  then show "2 * p + 1 < 2 ^ (1 + n)" "4 * p + 3 < 2 ^ (2 + n)" by simp_all
qed

lemma positions_bound: "p \<in> set (positions t) \<Longrightarrow> p < 2 ^ path_bits t"
proof (induction t arbitrary: p rule: path_bits.induct)
  case (2 h c key val l r)
  show ?case
  proof (cases "key = None")
    case True
    let ?m = "max (max (path_bits l) (path_bits r)) (case val of Subtree s \<Rightarrow> path_bits s | _ \<Rightarrow> 0)"
    have step: "4 * q + 3 < 2 ^ (2 + ?m)"
      if "q < 2 ^ path_bits x" "0 < q" "path_bits x \<le> ?m" for q :: int and x :: "('a, 'b) avl"
      using pow_bits_step(2)[OF that] .
    from 2(6) True consider q where "q \<in> set (positions l)" "p = 2 * q"
      | q s where "val = Subtree s" "q \<in> set (positions s)" "p = 4 * q + 1"
      | q where "q \<in> set (positions r)" "p = 4 * q + 3"
      by (auto split: slot.splits)
    then have "p < 2 ^ (2 + ?m)"
    proof cases
      case (1 q)
      with step[of q l] 2(3)[of q] True positions_pos[of q l] show ?thesis by (simp add: le_max_iff_disj)
    next
      case (2 q s)
      with step[of q s] "2.IH"(5)[of s q] True positions_pos[of q s] show ?thesis by (simp add: le_max_iff_disj)
    next
      case (3 q)
      with step[of q r] 2(4)[of q] True positions_pos[of q r] show ?thesis by (simp add: le_max_iff_disj)
    qed
    with True show ?thesis by simp
  next
    case False
    let ?m = "max (path_bits l) (path_bits r)"
    from 2(6) False consider q where "q \<in> set (positions l)" "p = 2 * q" | "p = 1"
      | q where "q \<in> set (positions r)" "p = 2 * q + 1" by auto
    then have "p < 2 ^ (1 + ?m)"
    proof cases
      case (1 q)
      with pow_bits_step(1)[of q "path_bits l" ?m] 2(1)[of q] False positions_pos[of q l]
      show ?thesis by simp
    next
      case (3 q)
      with pow_bits_step(1)[of q "path_bits r" ?m] 2(2)[of q] False positions_pos[of q r]
      show ?thesis by simp
    next
      case 2
      have "(1::int) < 2 ^ Suc ?m" by (rule one_less_power) simp_all
      with 2 show ?thesis by simp
    qed
    with False show ?thesis by simp
  qed
qed simp

text \<open>No position wraps around in a tree whose positions fit 63 bits.\<close>

lemma mzlonglong_id: "- (2 ^ 63) \<le> i \<Longrightarrow> i < 2 ^ 63 \<Longrightarrow> mzlonglong i = i"
  unfolding mzlonglong_def by (rule signed_take_bit_int_eq_self)

definition short_pos :: "nat \<Rightarrow> int \<Rightarrow> bool" where
  "short_pos n p \<longleftrightarrow> p = -1 \<or> 0 < p \<and> p < 2 ^ n"

lemma short_pos_step:
  assumes "short_pos m p" "m \<le> n"
  shows "1 + n \<le> 63 \<Longrightarrow> mzlonglong (2 * p) = 2 * p" "2 + n \<le> 63 \<Longrightarrow> mzlonglong (4 * p) = 4 * p"
    "short_pos (1 + n) (2 * p + 1)" "short_pos (2 + n) (4 * p + 3)"
    "0 < p \<Longrightarrow> short_pos (1 + n) (2 * p)" "0 < p \<Longrightarrow> short_pos (2 + n) (4 * p + 1)"
    "0 < p \<Longrightarrow> short_pos (2 + n) (2 * p)"
proof -
  have b: "2 * p + 1 < 2 ^ (1 + n)" "4 * p + 3 < 2 ^ (2 + n)" if "0 < p"
    using assms that pow_bits_step[of p m n] by (auto simp: short_pos_def)
  have w: "(2 :: int) ^ k \<le> 2 ^ 63" if "k \<le> 63" for k :: nat using that by (intro power_increasing) simp_all
  show "mzlonglong (2 * p) = 2 * p" if "1 + n \<le> 63"
    using b(1) w[OF that] assms(1) by (intro mzlonglong_id) (auto simp: short_pos_def)
  show "mzlonglong (4 * p) = 4 * p" if "2 + n \<le> 63"
    using b(2) w[OF that] assms(1) by (intro mzlonglong_id) (auto simp: short_pos_def)
  show "short_pos (1 + n) (2 * p + 1)" "short_pos (2 + n) (4 * p + 3)"
    "0 < p \<Longrightarrow> short_pos (1 + n) (2 * p)" "0 < p \<Longrightarrow> short_pos (2 + n) (4 * p + 1)"
    "0 < p \<Longrightarrow> short_pos (2 + n) (2 * p)"
    using b assms(1) by (auto simp: short_pos_def)
qed

lemma path_next_wide:
  "subs_nonempty t \<Longrightarrow> path_bits t \<le> 63 \<Longrightarrow> path_next t p = wide_next t p \<and> short_pos (path_bits t) (wide_next t p)"
proof (induction t arbitrary: p rule: positions.induct)
  case (2 h c key val l r)
  have sn: "subs_nonempty l" "subs_nonempty r" using 2(6) by (auto simp: subs_nonempty_node)
  show ?case
  proof (cases "key = None")
    case True
    with 2(6) obtain s where s: "val = Subtree s" "s \<noteq> Null" "subs_nonempty s"
      unfolding subs_nonempty_node by blast
    let ?m = "max (max (path_bits l) (path_bits r)) (path_bits s)"
    have m: "2 + ?m \<le> 63" "1 + ?m \<le> 63" "path_bits (AVLNode h c key val l r) = 2 + ?m" using 2(7) True s(1) by simp_all
    have le: "path_bits l \<le> ?m" "path_bits r \<le> ?m" "path_bits s \<le> ?m" by simp_all
    have il: "path_next l q = wide_next l q" "short_pos (path_bits l) (wide_next l q)" for q
      using 2(3)[OF _ sn(1), of q] True m(1) by auto
    have ir: "path_next r q = wide_next r q" "short_pos (path_bits r) (wide_next r q)" for q
      using 2(5)[OF _ sn(2), of q] True m(1) by auto
    have iv: "path_next s q = wide_next s q" "short_pos (path_bits s) (wide_next s q)" for q
      using 2(4)[OF _ s(1,3), of q] True m(1) by auto
    have s0: "0 < wide_next s 0" using wide_next_0[OF s(3)] positions_nonempty[OF s(3,2)] first_positions[of s] by simp
    note w = short_pos_step(1,7)[OF il(2) le(1)] short_pos_step(2,4)[OF ir(2) le(2)] short_pos_step(2,6)[OF iv(2) le(3)]
    show ?thesis unfolding m(3) using True s(1) m(1,2) il(1) ir(1) iv(1) w s0 by (auto simp: Let_def)
  next
    case False
    let ?m = "max (path_bits l) (path_bits r)"
    have m: "1 + ?m \<le> 63" "path_bits (AVLNode h c key val l r) = 1 + ?m" using 2(7) False by simp_all
    have le: "path_bits l \<le> ?m" "path_bits r \<le> ?m" by simp_all
    have il: "path_next l q = wide_next l q" "short_pos (path_bits l) (wide_next l q)" for q
      using 2(1)[OF False sn(1), of q] m(1) by auto
    have ir: "path_next r q = wide_next r q" "short_pos (path_bits r) (wide_next r q)" for q
      using 2(2)[OF False sn(2), of q] m(1) by auto
    have one: "short_pos (1 + ?m) 1" using one_less_power[of "2 :: int" "1 + ?m"] by (simp add: short_pos_def)
    note w = short_pos_step(1,5)[OF il(2) le(1)] short_pos_step(1,3)[OF ir(2) le(2)]
    show ?thesis unfolding m(2) using False m(1) il(1) ir(1) w one by (auto simp: Let_def)
  qed
qed (simp add: short_pos_def)

subsection \<open>Iteration visits every entry once, in order\<close>

text \<open>The iteration protocol of the two operations: start at \<open>-1\<close>, stop at \<open>-1\<close>.\<close>

fun hash_tree_walk :: "nat \<Rightarrow> ('k, 'v) hash_tree \<Rightarrow> int \<Rightarrow> ('k \<times> 'v) option list" where
  "hash_tree_walk 0 tree i = []"
| "hash_tree_walk (Suc fuel) tree i =
     (let i = scheme_hash_tree_next tree i
      in if i = -1 then [] else scheme_hash_tree_index tree i # hash_tree_walk fuel tree i)"

lemma index_positions:
  assumes "tree_ok ops kind (ht_root t)"
  shows "map (scheme_hash_tree_index t) (positions (ht_root t)) = map Some (entries (ht_root t))"
proof -
  have "scheme_hash_tree_index t = map_option kv_pair \<circ> path_find (ht_root t)"
    by (simp add: fun_eq_iff scheme_hash_tree_index_def kv_pair_def)
  then have "map (scheme_hash_tree_index t) (positions (ht_root t)) =
      map (map_option kv_pair) (map (path_find (ht_root t)) (positions (ht_root t)))" by simp
  also have "\<dots> = map Some (map kv_pair (kvs (ht_root t)))" by (simp add: path_find_positions)
  also have "\<dots> = map Some (entries (ht_root t))"
    using assms item_kvs[of "ht_root t" ops kind] by (simp add: tree_ok_def)
  finally show ?thesis .
qed

lemma next_start:
  "tree_ok ops kind (ht_root t) \<Longrightarrow> path_bits (ht_root t) \<le> 63 \<Longrightarrow>
   scheme_hash_tree_next t (-1) = first_pos (positions (ht_root t))"
  by (simp add: scheme_hash_tree_next_def path_next_wide wide_next_0 tree_subs_nonempty[of _ ops kind] tree_ok_def)

lemma next_step:
  assumes "tree_ok ops kind (ht_root t)" "path_bits (ht_root t) \<le> 63" "positions (ht_root t) = xs @ p # ys"
  shows "scheme_hash_tree_next t p = first_pos ys"
proof -
  have "0 < p" using positions_pos[of p "ht_root t"] assms(3) by simp
  moreover have sn: "subs_nonempty (ht_root t)"
    using assms(1) tree_subs_nonempty[of "ht_root t" ops kind] by (simp add: tree_ok_def)
  ultimately show ?thesis using wide_next_step[OF sn assms(3)] path_next_wide[OF sn assms(2)]
    by (simp add: scheme_hash_tree_next_def)
qed

lemma walk_suffix:
  assumes ok: "tree_ok ops kind (ht_root t)" "path_bits (ht_root t) \<le> 63" and "positions (ht_root t) = xs @ p # ys"
    and "length ys < fuel"
  shows "hash_tree_walk fuel t p = map (scheme_hash_tree_index t) ys"
  using assms(3,4)
proof (induction fuel arbitrary: xs p ys)
  case (Suc fuel)
  show ?case
  proof (cases ys)
    case Nil
    with next_step[OF ok Suc(2)] show ?thesis by simp
  next
    case (Cons q zs)
    with Suc(2) have pos: "positions (ht_root t) = (xs @ [p]) @ q # zs" by simp
    then have "0 < q" using positions_pos[of q "ht_root t"] by simp
    with next_step[OF ok Suc(2)] Suc(1)[OF pos] Suc(3) Cons show ?thesis by simp
  qed
qed simp

lemma walk_entries:
  assumes ok: "tree_ok ops kind (ht_root t)" "path_bits (ht_root t) \<le> 63" and fuel: "length (entries (ht_root t)) < fuel"
  shows "hash_tree_walk fuel t (-1) = map Some (entries (ht_root t))"
proof -
  note ix = index_positions[OF ok(1)]
  have len: "length (positions (ht_root t)) = length (entries (ht_root t))"
    using arg_cong[OF ix, of length] by simp
  obtain f where f: "fuel = Suc f" using fuel by (cases fuel) auto
  show ?thesis
  proof (cases "positions (ht_root t)")
    case Nil
    with next_start[OF ok] len f show ?thesis by simp
  next
    case (Cons p ps)
    then have pos: "positions (ht_root t) = [] @ p # ps" by simp
    then have "0 < p" using positions_pos[of p "ht_root t"] by simp
    with next_start[OF ok] Cons walk_suffix[OF ok pos, of f] len fuel f ix show ?thesis by simp
  qed
qed

subsection \<open>Table equality\<close>

lemma to_int32_minus1 [simp]: "to_int32 (-1) = -1"
  by (simp add: to_int32_def)

lemma to_int32_id:
  assumes "0 \<le> i" "i < 2 ^ 31"
  shows "to_int32 i = i"
proof -
  have "take_bit 32 i = i" using assms by (intro take_bit_int_eq_self) auto
  moreover have "signed_take_bit 31 i = i"
    using assms by (intro signed_take_bit_int_eq_self) (auto intro: order_trans[of _ 0])
  ultimately show ?thesis by (simp add: to_int32_def sint_uint uint_word_of_int_eq)
qed

lemma equal_rec_loop_suffix:
  assumes ok: "tree_ok ops kind (ht_root t1)" and bits: "path_bits (ht_root t1) \<le> 31"
    and "positions (ht_root t1) = xs @ ys" "map (scheme_hash_tree_index t1) ys = map Some es"
    and "length ys < fuel"
  shows "equal_rec_loop ops None None recur_equal t1 t2 fuel (first_pos ys) =
    Some (\<forall>(k, v) \<in> set es. \<exists>v2. scheme_hash_tree_get ops t2 k = Some v2 \<and> recur_equal v v2)"
  using assms(3-5)
proof (induction fuel arbitrary: xs ys es)
  case (Suc fuel)
  show ?case
  proof (cases ys)
    case Nil
    with Suc show ?thesis by simp
  next
    case (Cons p zs)
    then obtain e es' where es: "es = e # es'" "scheme_hash_tree_index t1 p = Some e"
      "map (scheme_hash_tree_index t1) zs = map Some es'" using Suc(3) by auto
    obtain k v where e: "e = (k, v)" by (cases e)
    have bits63: "path_bits (ht_root t1) \<le> 63" using bits by simp
    from Suc(2) Cons have pos: "positions (ht_root t1) = xs @ p # zs" by simp
    have small: "0 < q \<and> q < 2 ^ 31" if "q \<in> set (positions (ht_root t1))" for q
    proof -
      have "(2::int) ^ path_bits (ht_root t1) \<le> 2 ^ 31" using bits by (intro power_increasing) auto
      with positions_bound[OF that] positions_pos[OF that] show ?thesis by linarith
    qed
    have p: "p \<noteq> -1" using small[of p] pos by auto
    have "to_int32 (first_pos zs) = first_pos zs"
    proof (cases zs)
      case (Cons q qs)
      with pos have "q \<in> set (positions (ht_root t1))" by simp
      with small[of q] Cons show ?thesis by (simp add: to_int32_id)
    qed simp
    with next_step[OF ok bits63 pos] have nx: "to_int32 (scheme_hash_tree_next t1 p) = first_pos zs" by simp
    have "positions (ht_root t1) = (xs @ [p]) @ zs" using pos by simp
    note IH = Suc(1)[OF this es(3)]
    have "length zs < fuel" using Suc(4) Cons by simp
    with IH p es e nx Cons show ?thesis by (auto split: option.splits)
  qed
qed simp

lemma equal_rec_start:
  assumes ok: "tree_ok ops kind (ht_root t1)" and bits: "path_bits (ht_root t1) \<le> 31"
    and cnt: "ht_count t1 = int (length (entries (ht_root t1)))"
  shows "equal_rec_loop ops None None recur_equal t1 t2 (Suc (nat (ht_count t1)))
      (to_int32 (scheme_hash_tree_next t1 (-1))) =
    Some (\<forall>(k, v) \<in> set (entries (ht_root t1)).
      \<exists>v2. scheme_hash_tree_get ops t2 k = Some v2 \<and> recur_equal v v2)"
proof -
  note ix = index_positions[OF ok]
  have bits63: "path_bits (ht_root t1) \<le> 63" using bits by simp
  have len: "length (positions (ht_root t1)) = length (entries (ht_root t1))"
    using arg_cong[OF ix, of length] by simp
  have "to_int32 (first_pos (positions (ht_root t1))) = first_pos (positions (ht_root t1))"
  proof (cases "positions (ht_root t1)")
    case (Cons p ps)
    then have p: "p \<in> set (positions (ht_root t1))" by simp
    have "(2::int) ^ path_bits (ht_root t1) \<le> 2 ^ 31" using bits by (intro power_increasing) auto
    with positions_bound[OF p] positions_pos[OF p] have "0 \<le> p" "p < 2 ^ 31" by linarith+
    with Cons show ?thesis by (simp only: first_pos_simps to_int32_id)
  qed simp
  with equal_rec_loop_suffix[OF ok bits _ ix, of "[]" "Suc (nat (ht_count t1))"] next_start[OF ok bits63] len cnt
  show ?thesis by simp
qed

end
