(* ===== verification/Scheme_Object.thy ===== *)
theory Scheme_Object
  imports Prelude
begin

unbundle bit_operations_syntax

section \<open>Scheme objects, \<open>eqv?\<close> and hash codes (bool.c, hash.c)\<close>

text \<open>
  Scheme values as the C code sees them: tagged fixnums, and heap objects with a header that
  holds the address, the \<^verbatim>\<open>keyex\<close> field of \<^verbatim>\<open>Scheme_Object\<close> and the hash bits of the
  collector's \<^verbatim>\<open>objhead\<close>. The header has the address, so in one heap two objects at
  the same address are the same model value: \<^verbatim>\<open>SAME_OBJ\<close> is equality. Floating-point
  numbers are their 64 bits. The build is the default one on a 64-bit Linux with the 3m
  collector: no single-precision floats; extended floats are left out.
\<close>

record header =
  address :: nat
  keyex :: u16
  gc_allocated :: bool
  hash_bits :: uintptr

text \<open>The parts of a rational are exact integers and the parts of a complex number are real
  numbers: the types say so.\<close>

datatype int_obj = Fixnum int | Bignum header bool "uintptr list"

datatype real_obj = Integer int_obj | Rational header int_obj int_obj | Double header uintptr

datatype obj =
    Real real_obj
  | Complex header real_obj real_obj
  | Char header u32
  | Char_String header "u32 list"
  | Byte_String header "u8 list"
  | Unix_Path header "u8 list"
  | Cpointer header uintptr uintptr
  | Flvector header "uintptr list"
  | Other nat header

fun int_type :: "int_obj \<Rightarrow> nat" where
  "int_type (Fixnum _) = 49"
| "int_type (Bignum _ _ _) = 50"

fun real_type :: "real_obj \<Rightarrow> nat" where
  "real_type (Integer i) = int_type i"
| "real_type (Rational _ _ _) = 51"
| "real_type (Double _ _) = 53"

fun scheme_type :: "obj \<Rightarrow> nat" where
  "scheme_type (Real r) = real_type r"
| "scheme_type (Complex _ _ _) = 54"
| "scheme_type (Char _ _) = 55"
| "scheme_type (Char_String _ _) = 57"
| "scheme_type (Byte_String _ _) = 58"
| "scheme_type (Unix_Path _ _) = 59"
| "scheme_type (Cpointer _ _ _) = 83"
| "scheme_type (Flvector _ _) = 171"
| "scheme_type (Other t _) = t"

subsection \<open>Doubles\<close>

definition dbl_neg :: "uintptr \<Rightarrow> bool" where
  "dbl_neg d \<longleftrightarrow> bit d 63"

definition dbl_exp :: "uintptr \<Rightarrow> nat" where
  "dbl_exp d = unat (take_bit 11 (drop_bit 52 d))"

definition dbl_frac :: "uintptr \<Rightarrow> nat" where
  "dbl_frac d = unat (take_bit 52 d)"

definition MZ_IS_NAN :: "uintptr \<Rightarrow> bool" where
  "MZ_IS_NAN d \<longleftrightarrow> dbl_exp d = 2047 \<and> dbl_frac d \<noteq> 0"

definition MZ_IS_INFINITY :: "uintptr \<Rightarrow> bool" where
  "MZ_IS_INFINITY d \<longleftrightarrow> dbl_exp d = 2047 \<and> dbl_frac d = 0"

definition dbl_zero :: "uintptr \<Rightarrow> bool" where
  "dbl_zero d \<longleftrightarrow> dbl_exp d = 0 \<and> dbl_frac d = 0"

text \<open>The \<^verbatim>\<open>==\<close> of C on doubles: no NaN equals anything, the two zeros are equal.\<close>

definition dbl_eq :: "uintptr \<Rightarrow> uintptr \<Rightarrow> bool" where
  "dbl_eq a b \<longleftrightarrow> \<not> MZ_IS_NAN a \<and> \<not> MZ_IS_NAN b \<and> (dbl_zero a \<and> dbl_zero b \<or> a = b)"

text \<open>\<open>(1 / d) < 0\<close>: the sign of a number whose quotient is not a zero or a NaN.\<close>

definition scheme_minus_zero_p :: "uintptr \<Rightarrow> bool" where
  "scheme_minus_zero_p d \<longleftrightarrow> dbl_neg d \<and> \<not> MZ_IS_NAN d \<and> \<not> MZ_IS_INFINITY d"

definition double_eqv :: "uintptr \<Rightarrow> uintptr \<Rightarrow> bool" where
  "double_eqv a b =
     (if \<not> dbl_eq a b then
        (if MZ_IS_NAN a then MZ_IS_NAN b else False)
      else if dbl_eq a 0 \<and> dbl_eq b 0 then scheme_minus_zero_p a = scheme_minus_zero_p b
      else True)"

text \<open>\<open>frexp\<close> of a finite double: the fraction, scaled by \<open>2 ^ 30\<close> and truncated as the
  conversion to an integer does, without its sign, and the exponent.\<close>

fun nbits :: "nat \<Rightarrow> nat" where
  "nbits n = (if n = 0 then 0 else Suc (nbits (n div 2)))"

declare nbits.simps [simp del]

definition dbl_frexp30 :: "uintptr \<Rightarrow> nat \<times> int" where
  "dbl_frexp30 d =
     (if dbl_zero d then (0, 0)
      else if dbl_exp d = 0 then
        (let n = nbits (dbl_frac d) in (dbl_frac d * 2 ^ 30 div 2 ^ n, int n - 1074))
      else ((2 ^ 52 + dbl_frac d) div 2 ^ 23, int (dbl_exp d) - 1022))"

text \<open>The conversion of a negative double to \<^verbatim>\<open>uintptr_t\<close> is not defined by C; the
  model wraps it, as x86-64 compilers do.\<close>

definition dbl_hash_val :: "uintptr \<Rightarrow> uintptr" where
  "dbl_hash_val d =
     (let (m, e) =
        (if MZ_IS_NAN d then (0, 1000)
         else if MZ_IS_INFINITY d \<and> \<not> dbl_neg d then (2 ^ 29, 1000)
         else if MZ_IS_INFINITY d \<and> dbl_neg d then (- (2 ^ 29), 1000)
         else if dbl_zero d \<and> scheme_minus_zero_p d then (0, 1000)
         else (case dbl_frexp30 d of (m, e) \<Rightarrow> (if dbl_neg d then - int m else int m, e)))
      in word_of_int m + word_of_int e)"

subsection \<open>\<open>eqv?\<close> and the cases of \<open>equal?\<close> that need no recursion\<close>

fun scheme_bignum_eq :: "int_obj \<Rightarrow> int_obj \<Rightarrow> bool" where
  "scheme_bignum_eq (Bignum _ pa da) (Bignum _ pb db) =
     (if length da = 0 \<and> length db = 0 then True
      else if length da = length db \<and> pa = pb then da = db
      else False)"
| "scheme_bignum_eq _ _ = False"

fun scheme_rational_eq :: "real_obj \<Rightarrow> real_obj \<Rightarrow> bool" where
  "scheme_rational_eq (Rational _ num_a denom_a) (Rational _ num_b denom_b) =
     (if (case (num_a, num_b) of
            (Fixnum i, Fixnum j) \<Rightarrow> i = j
          | (Bignum _ _ _, Bignum _ _ _) \<Rightarrow> scheme_bignum_eq num_a num_b
          | _ \<Rightarrow> False)
      then
        (case (denom_a, denom_b) of
           (Fixnum i, Fixnum j) \<Rightarrow> i = j
         | (Bignum _ _ _, Bignum _ _ _) \<Rightarrow> scheme_bignum_eq denom_a denom_b
         | _ \<Rightarrow> False)
      else False)"
| "scheme_rational_eq _ _ = False"

text \<open>\<open>is_eqv\<close> returns 1, 0, or -1 when \<open>eqv?\<close> does not look inside the objects;
  \<open>is_eqv_real\<close> has its cases for real numbers, the parts of a complex number among them.\<close>

definition is_eqv_real :: "real_obj \<Rightarrow> real_obj \<Rightarrow> int" where
  "is_eqv_real obj1 obj2 =
     (if obj1 = obj2 then 1
      else case (obj1, obj2) of
        (Double _ a, Double _ b) \<Rightarrow> of_bool (double_eqv a b)
      | (Integer (Bignum h1 p1 d1), Integer (Bignum h2 p2 d2)) \<Rightarrow>
          of_bool (scheme_bignum_eq (Bignum h1 p1 d1) (Bignum h2 p2 d2))
      | (Rational _ _ _, Rational _ _ _) \<Rightarrow> of_bool (scheme_rational_eq obj1 obj2)
      | _ \<Rightarrow> -1)"

definition is_eqv :: "obj \<Rightarrow> obj \<Rightarrow> int" where
  "is_eqv obj1 obj2 =
     (if obj1 = obj2 then 1
      else case (obj1, obj2) of
        (Real r1, Real r2) \<Rightarrow> is_eqv_real r1 r2
      | (Complex _ r1 i1, Complex _ r2 i2) \<Rightarrow>
          of_bool (is_eqv_real r1 r2 > 0 \<and> is_eqv_real i1 i2 > 0)
      | (Char _ c1, Char _ c2) \<Rightarrow> of_bool (c1 = c2)
      | _ \<Rightarrow> -1)"

definition scheme_eqv :: "obj \<Rightarrow> obj \<Rightarrow> bool" where
  "scheme_eqv obj1 obj2 \<longleftrightarrow> is_eqv obj1 obj2 > 0"

fun flvector_eqv :: "uintptr list \<Rightarrow> uintptr list \<Rightarrow> bool" where
  "flvector_eqv (a # as) (b # bs) = (if \<not> double_eqv a b then False else flvector_eqv as bs)"
| "flvector_eqv _ _ = True"

text \<open>The cases of extflonums, Windows paths and the channels of places are missing: these have no contents in the model,
  and \<open>is_equal\<close> has no result for them (\<open>outside_types\<close>).\<close>

definition is_fast_equal :: "obj \<Rightarrow> obj \<Rightarrow> bool \<Rightarrow> int" where
  "is_fast_equal obj1 obj2 for_chaperone =
     (let cmp = is_eqv obj1 obj2
      in if cmp > -1 then cmp
         else case (obj1, obj2) of
           (Flvector _ l1, Flvector _ l2) \<Rightarrow>
             (if length l1 = length l2 then of_bool (flvector_eqv l1 l2) else 0)
         | (Byte_String _ s1, Byte_String _ s2) \<Rightarrow>
             (if for_chaperone then -1 else of_bool (length s1 = length s2 \<and> s1 = s2))
         | (Unix_Path _ s1, Unix_Path _ s2) \<Rightarrow>
             (if for_chaperone then -1 else of_bool (length s1 = length s2 \<and> s1 = s2))
         | (Char_String _ s1, Char_String _ s2) \<Rightarrow>
             (if for_chaperone then -1 else of_bool (length s1 = length s2 \<and> s1 = s2))
         | (Cpointer _ v1 o1, Cpointer _ v2 o2) \<Rightarrow> of_bool (v1 + o1 = v2 + o2)
         | _ \<Rightarrow> -1)"

subsection \<open>Hash codes of numbers, characters and strings\<close>

definition MZ_MIX :: "uintptr \<Rightarrow> uintptr" where
  "MZ_MIX k = (let k = k + push_bit 10 k in k XOR drop_bit 6 k)"

text \<open>The string loops run from the last character to the first; a \<^verbatim>\<open>char\<close> is signed.
  The second component is \<^verbatim>\<open>*_done\<close>.\<close>

definition int_hash_key :: "int_obj \<Rightarrow> uintptr \<Rightarrow> uintptr" where
  "int_hash_key ob k0 =
     (let k = k0 + of_nat (int_type ob)
      in case ob of
        Fixnum i \<Rightarrow> k + MZ_MIX (word_of_int i)
      | Bignum _ _ ds \<Rightarrow> foldr (\<lambda>d k2. push_bit 3 k2 + k2 + d) ds k)"

definition real_hash_key :: "real_obj \<Rightarrow> uintptr \<Rightarrow> uintptr" where
  "real_hash_key ob k0 =
     (case ob of
        Integer i \<Rightarrow> int_hash_key i k0
      | Rational _ n d \<Rightarrow>
          int_hash_key d (MZ_MIX (k0 + of_nat (real_type ob) + int_hash_key n 0))
      | Double _ d \<Rightarrow> k0 + of_nat (real_type ob) + dbl_hash_val d)"

definition fast_equal_hash_key :: "obj \<Rightarrow> uintptr \<Rightarrow> bool \<Rightarrow> uintptr \<times> bool" where
  "fast_equal_hash_key ob k0 dn =
     (let k = k0 + of_nat (scheme_type ob)
      in case ob of
        Real r \<Rightarrow> (real_hash_key r k0, dn)
      | Complex _ r i \<Rightarrow> (real_hash_key i (MZ_MIX (k + real_hash_key r 0)), dn)
      | Cpointer _ v off \<Rightarrow> (push_bit 3 k + k + (v + off), dn)
      | Char _ c \<Rightarrow> (k + ucast c, dn)
      | Byte_String _ s \<Rightarrow> (foldr (\<lambda>c k. MZ_MIX (k + scast c)) s k, dn)
      | Unix_Path _ s \<Rightarrow> (foldr (\<lambda>c k. MZ_MIX (k + scast c)) s k, dn)
      | Char_String _ s \<Rightarrow> (foldr (\<lambda>c k. MZ_MIX (k + ucast c)) s k, dn)
      | _ \<Rightarrow> (0, False))"

subsection \<open>Address hash codes\<close>

text \<open>
  A moving collector cannot hash addresses: \<open>PTR_TO_LONG\<close> gives an object a code, from
  the counter \<open>keygen\<close>, when it is first asked for one, and keeps it in the object's
  header. It returns the code, the object and the counter. The header has 43 hash bits
  (\<open>LOG_APAGE_SIZE\<close> is 14).
\<close>

fun int_header :: "int_obj \<Rightarrow> header option" where
  "int_header (Fixnum _) = None"
| "int_header (Bignum h _ _) = Some h"

fun real_header :: "real_obj \<Rightarrow> header option" where
  "real_header (Integer i) = int_header i"
| "real_header (Rational h _ _) = Some h"
| "real_header (Double h _) = Some h"

fun obj_header :: "obj \<Rightarrow> header option" where
  "obj_header (Real r) = real_header r"
| "obj_header (Complex h _ _) = Some h"
| "obj_header (Char h _) = Some h"
| "obj_header (Char_String h _) = Some h"
| "obj_header (Byte_String h _) = Some h"
| "obj_header (Unix_Path h _) = Some h"
| "obj_header (Cpointer h _ _) = Some h"
| "obj_header (Flvector h _) = Some h"
| "obj_header (Other _ h) = Some h"

fun set_header :: "header \<Rightarrow> obj \<Rightarrow> obj" where
  "set_header h (Real (Integer (Fixnum i))) = Real (Integer (Fixnum i))"
| "set_header h (Real (Integer (Bignum _ p ds))) = Real (Integer (Bignum h p ds))"
| "set_header h (Real (Rational _ n d)) = Real (Rational h n d)"
| "set_header h (Real (Double _ d)) = Real (Double h d)"
| "set_header h (Complex _ r i) = Complex h r i"
| "set_header h (Char _ c) = Char h c"
| "set_header h (Char_String _ s) = Char_String h s"
| "set_header h (Byte_String _ s) = Byte_String h s"
| "set_header h (Unix_Path _ s) = Unix_Path h s"
| "set_header h (Cpointer _ v off) = Cpointer h v off"
| "set_header h (Flvector _ ds) = Flvector h ds"
| "set_header h (Other t _) = Other t h"

text \<open>A fixnum \<open>i\<close> is the tagged word \<open>2 * i + 1\<close>.\<close>

fun fixnum_word :: "obj \<Rightarrow> uintptr" where
  "fixnum_word (Real (Integer (Fixnum i))) = word_of_int (2 * i + 1)"
| "fixnum_word _ = 0"

definition PTR_TO_LONG :: "uintptr \<Rightarrow> obj \<Rightarrow> uintptr \<times> obj \<times> uintptr" where
  "PTR_TO_LONG keygen ob =
     (case obj_header ob of
        None \<Rightarrow> (drop_bit 1 (fixnum_word ob), ob, keygen)
      | Some hd0 \<Rightarrow>
        (let v0 = keyex hd0;
             (v, hd1, keygen1) =
               (if v0 AND 0xFFFC = 0 then
                  (let v1 = v0 OR ucast keygen;
                       (v2, hd2) =
                         (if gc_allocated hd0
                          then (v1 OR 4, hd0\<lparr>hash_bits := take_bit 43 (drop_bit 16 keygen)\<rparr>)
                          else (v1 AND NOT 4, hd0));
                       v3 = (if v2 = 0 then 0x1AD0 else v2)
                   in (v3, hd2\<lparr>keyex := v3\<rparr>, keygen + 8))
                else (v0, hd0, keygen));
             bits = (if v AND 4 \<noteq> 0 then hash_bits hd1 else of_nat (scheme_type ob))
         in (push_bit 13 bits OR take_bit 13 (ucast (drop_bit 3 v)), set_header hd1 ob, keygen1)))"

definition ptr_code :: "uintptr \<Rightarrow> obj \<Rightarrow> uintptr" where
  "ptr_code keygen ob = fst (PTR_TO_LONG keygen ob)"

fun SCHEME_INTP :: "obj \<Rightarrow> bool" where
  "SCHEME_INTP (Real (Integer (Fixnum _))) = True"
| "SCHEME_INTP _ = False"

fun SCHEME_NUMBERP :: "obj \<Rightarrow> bool" where
  "SCHEME_NUMBERP (Real _) = True"
| "SCHEME_NUMBERP (Complex _ _ _) = True"
| "SCHEME_NUMBERP _ = False"

fun SCHEME_CHARP :: "obj \<Rightarrow> bool" where
  "SCHEME_CHARP (Char _ _) = True"
| "SCHEME_CHARP _ = False"

text \<open>\<open>scheme_equal_hash_key\<close> of an object that \<open>fast_equal_hash_key\<close> handles; the slow path
  for the others is the parameter \<open>slow\<close>.\<close>

definition scheme_equal_hash_key :: "(obj \<Rightarrow> uintptr) \<Rightarrow> obj \<Rightarrow> uintptr" where
  "scheme_equal_hash_key slow ob =
     (case fast_equal_hash_key ob 0 True of (k, dn) \<Rightarrow> if dn then k else slow ob)"

definition scheme_eqv_hash_key :: "(obj \<Rightarrow> uintptr) \<Rightarrow> uintptr \<Rightarrow> obj \<Rightarrow> uintptr" where
  "scheme_eqv_hash_key slow keygen ob =
     (if \<not> SCHEME_INTP ob \<and> (SCHEME_NUMBERP ob \<or> SCHEME_CHARP ob)
      then scheme_equal_hash_key slow ob else ptr_code keygen ob)"

end
