(* ===== verification/Hash_Keys.thy ===== *)
theory Hash_Keys
  imports Scheme_Object Hash_Tree_Iter
begin

unbundle bit_operations_syntax

section \<open>The key comparisons of hash tables\<close>

text \<open>
  \<open>eq?\<close> and \<open>eqv?\<close> on the model's objects as the \<open>key_ops\<close> of hash tables; the
  interpretations of \<open>hash_keys\<close> say that each is an equivalence that its hash code
  respects.
\<close>

subsection \<open>Doubles\<close>

lemma dbl_eqI:
  assumes "dbl_frac a = dbl_frac b" "dbl_exp a = dbl_exp b" "dbl_neg a = dbl_neg b"
  shows "a = b"
proof (rule bit_word_eqI)
  fix n assume n: "n < LENGTH(64)"
  have f: "take_bit 52 a = take_bit 52 b" and e: "take_bit 11 (drop_bit 52 a) = take_bit 11 (drop_bit 52 b)"
    using assms(1,2) by (simp_all only: dbl_frac_def dbl_exp_def word_unat_eq_iff)
  consider "n < 52" | "52 \<le> n" "n < 63" | "n = 63" using n by force
  then show "bit a n = bit b n"
  proof cases
    case 1
    then show ?thesis using arg_cong[OF f, of "\<lambda>w. bit w n"] by (simp add: bit_take_bit_iff)
  next
    case 2
    then show ?thesis using arg_cong[OF e, of "\<lambda>w. bit w (n - 52)"]
      by (simp add: bit_take_bit_iff bit_drop_bit_eq) linarith
  next
    case 3
    then show ?thesis using assms(3) by (simp add: dbl_neg_def)
  qed
qed

lemma dbl_zero_fields: "dbl_exp 0 = 0" "dbl_frac 0 = 0"
  by (simp_all add: dbl_exp_def dbl_frac_def)

lemma minus_zero_zero: "dbl_zero a \<Longrightarrow> scheme_minus_zero_p a = dbl_neg a"
  by (simp add: dbl_zero_def scheme_minus_zero_p_def MZ_IS_NAN_def MZ_IS_INFINITY_def)

lemma dbl_eq_0: "dbl_eq a 0 \<longleftrightarrow> dbl_zero a"
proof -
  have "dbl_zero 0" "\<not> MZ_IS_NAN 0" by (simp_all add: dbl_zero_def MZ_IS_NAN_def dbl_zero_fields)
  moreover have "dbl_zero a \<Longrightarrow> \<not> MZ_IS_NAN a" by (simp add: dbl_zero_def MZ_IS_NAN_def)
  ultimately show ?thesis unfolding dbl_eq_def by blast
qed

lemma double_eqv_iff: "double_eqv a b \<longleftrightarrow> MZ_IS_NAN a \<and> MZ_IS_NAN b \<or> a = b"
proof (cases "dbl_zero a \<and> dbl_zero b")
  case True
  then have n: "\<not> MZ_IS_NAN a" "\<not> MZ_IS_NAN b" by (simp_all add: dbl_zero_def MZ_IS_NAN_def)
  with True have "dbl_eq a b" by (simp add: dbl_eq_def)
  with True have "double_eqv a b \<longleftrightarrow> dbl_neg a = dbl_neg b"
    by (simp add: double_eqv_def dbl_eq_0 minus_zero_zero)
  moreover have "dbl_neg a = dbl_neg b \<Longrightarrow> a = b"
    by (rule dbl_eqI) (use True in \<open>simp_all add: dbl_zero_def\<close>)
  ultimately show ?thesis using n by blast
next
  case False
  have "double_eqv a b \<longleftrightarrow> (if dbl_eq a b then True else MZ_IS_NAN a \<and> MZ_IS_NAN b)"
    using False by (auto simp: double_eqv_def dbl_eq_0)
  moreover have "dbl_eq a b \<longleftrightarrow> \<not> MZ_IS_NAN a \<and> \<not> MZ_IS_NAN b \<and> a = b"
    unfolding dbl_eq_def using False by blast
  ultimately show ?thesis by (cases "a = b"; simp)
qed

subsection \<open>\<open>eqv?\<close> is an equivalence\<close>

lemma bignum_eq_iff:
  "scheme_bignum_eq (Bignum h p ds) (Bignum h' p' ds') \<longleftrightarrow> ds = ds' \<and> (ds = [] \<or> p = p')"
  by auto

text \<open>What \<open>eqv?\<close> compares of a real number and of an object.\<close>

fun eqv_int :: "int_obj \<Rightarrow> int + bool \<times> uintptr list" where
  "eqv_int (Fixnum i) = Inl i"
| "eqv_int (Bignum _ p ds) = Inr (ds \<noteq> [] \<and> p, ds)"

lemma eqv_int_Inl [simp]: "eqv_int a = Inl i \<longleftrightarrow> a = Fixnum i" "Inl i = eqv_int a \<longleftrightarrow> a = Fixnum i"
  by (cases a; auto)+

datatype real_view = Int_View "int + bool \<times> uintptr list"
  | Rational_View "int + bool \<times> uintptr list" "int + bool \<times> uintptr list"
  | Double_View "uintptr option"

fun eqv_real :: "real_obj \<Rightarrow> real_view" where
  "eqv_real (Integer i) = Int_View (eqv_int i)"
| "eqv_real (Rational _ n d) = Rational_View (eqv_int n) (eqv_int d)"
| "eqv_real (Double _ d) = Double_View (if MZ_IS_NAN d then None else Some d)"

datatype obj_view = Real_View real_view | Complex_View real_view real_view | Char_View u32
  | Object_View obj

fun eqv_obj :: "obj \<Rightarrow> obj_view" where
  "eqv_obj (Real r) = Real_View (eqv_real r)"
| "eqv_obj (Complex _ r i) = Complex_View (eqv_real r) (eqv_real i)"
| "eqv_obj (Char _ c) = Char_View c"
| "eqv_obj ob = Object_View ob"

lemma rational_eq_iff:
  "scheme_rational_eq (Rational h n d) (Rational h' n' d') \<longleftrightarrow>
     eqv_int n = eqv_int n' \<and> eqv_int d = eqv_int d'"
  by (cases n; cases n'; cases d; cases d') auto

lemma is_eqv_real_iff: "is_eqv_real a b > 0 \<longleftrightarrow> eqv_real a = eqv_real b"
proof (cases a)
  case (Integer i)
  show ?thesis
  proof (cases b)
    case (Integer j)
    with \<open>a = Integer i\<close> show ?thesis by (cases i; cases j) (auto simp: is_eqv_real_def)
  qed (use Integer in \<open>simp_all add: is_eqv_real_def split: int_obj.splits\<close>)
next
  case (Rational h n d)
  then show ?thesis
    by (cases b) (auto simp: is_eqv_real_def rational_eq_iff simp del: scheme_rational_eq.simps)
next
  case (Double h d)
  then show ?thesis by (cases b) (auto simp: is_eqv_real_def double_eqv_iff)
qed

lemma scheme_eqv_iff: "scheme_eqv a b \<longleftrightarrow> eqv_obj a = eqv_obj b"
proof (cases "a = b")
  case True
  then show ?thesis by (simp add: scheme_eqv_def is_eqv_def)
next
  case False
  then show ?thesis
    by (cases a; cases b; simp add: scheme_eqv_def is_eqv_def is_eqv_real_iff)
qed

lemma int_hash_view: "eqv_int a = eqv_int b \<Longrightarrow> int_hash_key a k = int_hash_key b k"
  by (cases a; cases b) (simp_all add: int_hash_key_def)

lemma dbl_hash_nan: "MZ_IS_NAN a \<Longrightarrow> dbl_hash_val a = 1000"
  by (simp add: dbl_hash_val_def)

lemma dbl_hash_view:
  "(if MZ_IS_NAN a then None else Some a) = (if MZ_IS_NAN b then None else Some b) \<Longrightarrow>
   dbl_hash_val a = dbl_hash_val b"
  by (cases "MZ_IS_NAN a"; cases "MZ_IS_NAN b") (simp_all add: dbl_hash_nan)

lemma real_hash_view:
  assumes "eqv_real a = eqv_real b"
  shows "real_hash_key a k = real_hash_key b k"
proof (cases a)
  case (Integer i)
  with assms obtain j where b: "b = Integer j" and v: "eqv_int i = eqv_int j" by (cases b) auto
  from int_hash_view[OF v] show ?thesis by (simp add: Integer b real_hash_key_def)
next
  case (Rational h n d)
  with assms obtain h' n' d' where b: "b = Rational h' n' d'"
    and v: "eqv_int n = eqv_int n'" "eqv_int d = eqv_int d'" by (cases b) auto
  from int_hash_view[OF v(1)] int_hash_view[OF v(2)] show ?thesis
    by (simp add: Rational b real_hash_key_def)
next
  case (Double h d)
  with assms obtain h' d' where b: "b = Double h' d'"
    and v: "(if MZ_IS_NAN d then None else Some d) = (if MZ_IS_NAN d' then None else Some d')"
    by (cases b) simp_all
  from dbl_hash_view[OF v] show ?thesis by (simp add: Double b real_hash_key_def)
qed

lemma intp_view: "SCHEME_INTP (Real r) \<longleftrightarrow> (\<exists>i. eqv_real r = Int_View (Inl i))"
proof (cases r)
  case (Integer i)
  then show ?thesis by (cases i) auto
qed auto

lemma eqv_real_fix: "eqv_real r = Int_View (Inl i) \<longleftrightarrow> r = Integer (Fixnum i)"
  by (cases r) auto

lemma eqv_hash_num:
  "scheme_eqv_hash_key slow kg (Real r) =
     (if SCHEME_INTP (Real r) then ptr_code kg (Real r) else real_hash_key r 0)"
  "scheme_eqv_hash_key slow kg (Complex h r i) = real_hash_key i (MZ_MIX (54 + real_hash_key r 0))"
  "scheme_eqv_hash_key slow kg (Char h c) = 55 + ucast c"
  by (simp_all add: scheme_eqv_hash_key_def scheme_equal_hash_key_def fast_equal_hash_key_def Let_def)

lemma eqv_hash_view:
  assumes "eqv_obj a = eqv_obj b"
  shows "scheme_eqv_hash_key slow kg a = scheme_eqv_hash_key slow kg b"
proof (cases a)
  case (Real r)
  with assms obtain r' where b: "b = Real r'" and v: "eqv_real r = eqv_real r'" by (cases b) auto
  show ?thesis
  proof (cases "SCHEME_INTP (Real r)")
    case True
    then obtain i where "eqv_real r = Int_View (Inl i)" by (auto simp: intp_view)
    with v have "r = Integer (Fixnum i)" "r' = Integer (Fixnum i)" by (simp_all add: eqv_real_fix[symmetric])
    with Real b show ?thesis by simp
  next
    case False
    then have "\<not> SCHEME_INTP (Real r')" using v by (simp add: intp_view)
    with False Real b real_hash_view[OF v] show ?thesis by (simp add: eqv_hash_num)
  qed
next
  case (Complex h r i)
  with assms obtain h' r' i' where b: "b = Complex h' r' i'"
    and v: "eqv_real r = eqv_real r'" "eqv_real i = eqv_real i'" by (cases b) auto
  from real_hash_view[OF v(1)] real_hash_view[OF v(2)] show ?thesis
    by (simp add: Complex b eqv_hash_num)
next
  case (Char h c)
  with assms obtain h' where "b = Char h' c" by (cases b) auto
  with Char show ?thesis by (simp add: eqv_hash_num)
next
  case (Char_String h s)
  with assms show ?thesis by (cases b) simp_all
next
  case (Byte_String h s)
  with assms show ?thesis by (cases b) simp_all
next
  case (Unix_Path h s)
  with assms show ?thesis by (cases b) simp_all
next
  case (Cpointer h v f)
  with assms show ?thesis by (cases b) simp_all
next
  case (Flvector h s)
  with assms show ?thesis by (cases b) simp_all
next
  case (Other t h)
  with assms show ?thesis by (cases b) simp_all
qed

subsection \<open>The interpretations\<close>

text \<open>
  \<open>scheme_keys\<close> are the comparisons of tables on scheme objects, once \<open>PTR_TO_LONG\<close> has
  given each key its code. \<open>equal?\<close> and its hash code recur through data and are parameters here;
  \<open>Equal_Spec\<close> gives them for data in a heap.
\<close>

definition scheme_keys ::
  "(obj \<Rightarrow> obj \<Rightarrow> bool) \<Rightarrow> (obj \<Rightarrow> uintptr) \<Rightarrow> uintptr \<Rightarrow> obj key_ops" where
  "scheme_keys equal slow keygen =
     \<lparr>same_obj = (=), op_equal = equal, op_eqv = scheme_eqv, ptr_to_long = ptr_code keygen,
      equal_hash = scheme_equal_hash_key slow, eqv_hash = scheme_eqv_hash_key slow keygen\<rparr>"

interpretation eq_keys: hash_keys "scheme_keys equal slow kg" 0 for equal slow kg
  by unfold_locales (auto simp: key_same_def key_hash_def scheme_keys_def)

interpretation eqv_keys: hash_keys "scheme_keys equal slow kg" 2 for equal slow kg
proof (unfold_locales, goal_cases)
  case (4 a b)
  then have "eqv_obj a = eqv_obj b" by (simp add: key_same_def scheme_keys_def scheme_eqv_iff)
  from eqv_hash_view[OF this] show ?case by (simp add: key_hash_def scheme_keys_def)
qed (simp_all add: key_same_def scheme_keys_def scheme_eqv_iff)

end
