(* ===== verification/Key_Gen.thy ===== *)
theory Key_Gen
  imports Scheme_Object
begin

unbundle bit_operations_syntax

section \<open>Address hash codes: stability and distinctness\<close>

text \<open>
  What \<^verbatim>\<open>PTR_TO_LONG\<close> of hash.c promises its callers: an object's code does not change
  once it has been asked for, and two objects of the collector get different codes.
\<close>

lemma obj_header_set_header:
  "obj_header ob = Some h \<Longrightarrow> obj_header (set_header h' ob) = Some h'"
  by (cases "(h', ob)" rule: set_header.cases) auto

lemma set_header_twice:
  "set_header h (set_header h' ob) = set_header h ob"
  by (cases "(h, ob)" rule: set_header.cases) auto

lemma scheme_type_set_header: "scheme_type (set_header h ob) = scheme_type ob"
  by (cases "(h, ob)" rule: set_header.cases) auto

lemma set_own_header: "obj_header ob = Some h \<Longrightarrow> set_header h ob = ob"
  by (cases "(h, ob)" rule: set_header.cases) auto

lemma bit_consts16:
  "bit (0xFFFC :: u16) n \<longleftrightarrow> 2 \<le> n \<and> n < 16"
  "bit (0xFFF8 :: u16) n \<longleftrightarrow> 3 \<le> n \<and> n < 16"
  "bit (4 :: u16) n \<longleftrightarrow> n = 2"
  "bit (- 5 :: u16) n \<longleftrightarrow> n \<noteq> 2 \<and> n < 16"
  "bit (3 :: u16) n \<longleftrightarrow> n < 2"
proof -
  have e: "(0xFFFC :: u16) = push_bit 2 (mask 14)" "(0xFFF8 :: u16) = push_bit 3 (mask 13)"
    "(4 :: u16) = push_bit 2 1" "(3 :: u16) = mask 2"
    by (simp_all add: mask_eq_exp_minus_1 push_bit_eq_mult)
  show "bit (0xFFFC :: u16) n \<longleftrightarrow> 2 \<le> n \<and> n < 16" unfolding e
    by (auto simp: bit_push_bit_iff bit_mask_iff)
  show "bit (0xFFF8 :: u16) n \<longleftrightarrow> 3 \<le> n \<and> n < 16" unfolding e
    by (auto simp: bit_push_bit_iff bit_mask_iff)
  have b4: "bit (4 :: u16) n \<longleftrightarrow> n = 2" for n unfolding e
    by (simp only: bit_push_bit_iff bit_1_iff) auto
  show "bit (4 :: u16) n \<longleftrightarrow> n = 2" by (rule b4)
  have "(- 5 :: u16) = NOT 4" by simp
  then show "bit (- 5 :: u16) n \<longleftrightarrow> n \<noteq> 2 \<and> n < 16"
    by (simp only: bit_not_iff b4) auto
  show "bit (3 :: u16) n \<longleftrightarrow> n < 2" unfolding e
    by (auto simp: bit_mask_iff)
qed

lemma word16_eq_0: "(v :: u16) = 0 \<longleftrightarrow> (\<forall>n < 16. \<not> bit v n)"
proof
  assume "\<forall>n < 16. \<not> bit v n"
  then show "v = 0" by (intro bit_word_eqI) auto
qed simp

lemma and_eq_0_16: "(v :: u16) AND m = 0 \<longleftrightarrow> (\<forall>n < 16. bit m n \<longrightarrow> \<not> bit v n)"
  by (auto simp: word16_eq_0 bit_and_iff)

definition keygen_ok :: "uintptr \<Rightarrow> bool" where
  "keygen_ok keygen \<longleftrightarrow> keygen AND 7 = 4"

lemma keygen_low: "keygen_ok keygen \<Longrightarrow> n < 2 \<Longrightarrow> \<not> bit keygen n"
proof
  assume k: "keygen_ok keygen" "n < 2" "bit keygen n"
  have "(7 :: uintptr) = mask 3" "(4 :: uintptr) = push_bit 2 1"
    by (simp_all add: mask_eq_exp_minus_1 push_bit_eq_mult)
  with k(1) have "keygen AND mask 3 = push_bit 2 1" by (simp only: keygen_ok_def)
  from arg_cong[OF this, of "\<lambda>w. bit w n"] k(2,3) show False
    by (simp only: bit_and_iff bit_mask_iff bit_push_bit_iff bit_1_iff) auto
qed

text \<open>The new \<open>keyex\<close> that \<open>PTR_TO_LONG\<close> makes.\<close>

definition new_keyex :: "bool \<Rightarrow> u16 \<Rightarrow> uintptr \<Rightarrow> u16" where
  "new_keyex gc v0 keygen =
     (let v1 = v0 OR ucast keygen; v2 = (if gc then v1 OR 4 else v1 AND NOT 4)
      in if v2 = 0 then 0x1AD0 else v2)"

definition new_header :: "header \<Rightarrow> uintptr \<Rightarrow> header" where
  "new_header h keygen =
     (if gc_allocated h
      then h\<lparr>hash_bits := take_bit 43 (drop_bit 16 keygen), keyex := new_keyex True (keyex h) keygen\<rparr>
      else h\<lparr>keyex := new_keyex False (keyex h) keygen\<rparr>)"

definition code_of :: "header \<Rightarrow> nat \<Rightarrow> uintptr" where
  "code_of h t =
     push_bit 13 (if keyex h AND 4 \<noteq> 0 then hash_bits h else of_nat t) OR
     take_bit 13 (ucast (drop_bit 3 (keyex h)))"

lemma PTR_TO_LONG_header:
  assumes "obj_header ob = Some h"
  shows "PTR_TO_LONG keygen ob =
    (if keyex h AND 0xFFFC = 0
     then (code_of (new_header h keygen) (scheme_type ob), set_header (new_header h keygen) ob, keygen + 8)
     else (code_of h (scheme_type ob), ob, keygen))"
  using assms
  by (simp add: PTR_TO_LONG_def new_header_def new_keyex_def code_of_def Let_def set_own_header)

lemma new_keyex_set:
  assumes kg: "keygen_ok keygen"
    and c: "gc \<or> v0 AND 3 = 0 \<or> (ucast keygen :: u16) AND 0xFFF8 \<noteq> 0"
  shows "new_keyex gc v0 keygen AND 0xFFFC \<noteq> 0"
proof
  assume z: "new_keyex gc v0 keygen AND 0xFFFC = 0"
  show False
  proof (cases gc)
    case True
    then have "bit (v0 OR ucast keygen OR 4) 2" by (simp add: bit_or_iff bit_consts16)
    moreover from this have "v0 OR ucast keygen OR 4 \<noteq> 0" by force
    ultimately have "bit (new_keyex gc v0 keygen) 2" using True by (simp add: new_keyex_def or.assoc)
    with z show False by (auto simp: and_eq_0_16 bit_consts16)
  next
    case False
    let ?v = "(v0 OR ucast keygen) AND NOT 4 :: u16"
    show False
    proof (cases "?v = 0")
      case True
      with z False show False by (simp add: new_keyex_def)
    next
      case nz: False
      with z False have hi: "?v AND 0xFFFC = 0" by (simp add: new_keyex_def)
      have h: "\<not> bit (ucast keygen :: u16) n" if "3 \<le> n" "n < 16" for n
      proof -
        from hi that have "\<not> bit ?v n" by (simp only: and_eq_0_16 bit_consts16) auto
        with that show ?thesis by (simp only: bit_and_iff bit_or_iff bit_not_iff bit_consts16) auto
      qed
      then have "(ucast keygen :: u16) AND 0xFFF8 = 0"
        by (simp only: and_eq_0_16 bit_consts16) simp
      with c False have v3: "v0 AND 3 = 0" by simp
      from nz obtain n where n: "n < 16" "bit ?v n" by (auto simp: word16_eq_0)
      have "n < 2" using hi n by (simp only: and_eq_0_16 bit_consts16) force
      moreover from this v3 have "\<not> bit v0 n" by (simp only: and_eq_0_16 bit_consts16) auto
      ultimately show False using keygen_low[OF kg, of n] n(2) by (simp add: bit_and_iff bit_or_iff bit_ucast_iff)
    qed
  qed
qed

text \<open>The code of an object of the collector is the counter, 56 bits of it: it is distinct
  from those of the next \<open>2 ^ 56\<close> objects.\<close>

lemma code_of_new:
  assumes kg: "keygen_ok keygen" and gc: "gc_allocated h" and fresh: "keyex h AND 0xFFFC = 0"
  shows "code_of (new_header h keygen) t = take_bit 56 (drop_bit 3 keygen)"
proof (rule bit_word_eqI)
  fix n assume n: "n < LENGTH(64)"
  let ?k = "keyex h OR ucast keygen OR 4 :: u16"
  have b2: "bit ?k 2" by (simp only: bit_or_iff bit_consts16) simp
  then have nz: "?k \<noteq> 0" by force
  have key: "keyex (new_header h keygen) = ?k" "hash_bits (new_header h keygen) = take_bit 43 (drop_bit 16 keygen)"
    using gc nz by (simp_all add: new_header_def new_keyex_def or.assoc)
  have kb: "bit ?k m \<longleftrightarrow> bit keygen m" if "3 \<le> m" "m < 16" for m
  proof -
    have "\<not> bit (keyex h) m" using fresh that by (simp only: and_eq_0_16 bit_consts16) auto
    with that show ?thesis by (simp only: bit_or_iff bit_consts16 bit_ucast_iff) auto
  qed
  have "?k AND 4 \<noteq> 0" using b2 by (simp only: and_eq_0_16 bit_consts16) auto
  then have c: "code_of (new_header h keygen) t =
      push_bit 13 (take_bit 43 (drop_bit 16 keygen)) OR take_bit 13 (ucast (drop_bit 3 ?k))"
    by (simp add: code_of_def key)
  show "bit (code_of (new_header h keygen) t) n = bit (take_bit 56 (drop_bit 3 keygen)) n"
  proof (cases "n < 13")
    case True
    then have "bit (code_of (new_header h keygen) t) n = bit ?k (3 + n)"
      unfolding c by (simp only: bit_or_iff bit_push_bit_iff bit_take_bit_iff bit_ucast_iff bit_drop_bit_eq comp_def) auto
    with True kb[of "3 + n"] show ?thesis by (simp add: bit_take_bit_iff bit_drop_bit_eq)
  next
    case False
    then have "bit (code_of (new_header h keygen) t) n = (n - 13 < 43 \<and> bit keygen (16 + (n - 13)))"
      using n unfolding c
      by (simp only: bit_or_iff bit_push_bit_iff bit_take_bit_iff bit_ucast_iff bit_drop_bit_eq comp_def) auto
    with False show ?thesis by (auto simp: bit_take_bit_iff bit_drop_bit_eq)
  qed
qed

lemma keygen_step: "keygen_ok keygen \<Longrightarrow> keygen_ok (keygen + 8)"
proof -
  assume "keygen_ok keygen"
  then have "take_bit 3 keygen = 4" by (simp add: keygen_ok_def take_bit_eq_mask mask_eq_exp_minus_1)
  moreover have "unat (take_bit 3 w) = unat w mod 8" for w :: uintptr
    by (simp only: unsigned_take_bit_eq) (simp add: take_bit_eq_mod)
  moreover have "unat (keygen + 8) mod 8 = unat keygen mod 8"
    by (simp add: unat_word_ariths mod_mod_cancel)
  ultimately have "take_bit 3 (keygen + 8) = 4" by (metis word_unat_eq_iff)
  then show ?thesis by (simp add: keygen_ok_def take_bit_eq_mask mask_eq_exp_minus_1)
qed

lemma new_header_simps:
  "keyex (new_header h keygen) = new_keyex (gc_allocated h) (keyex h) keygen"
  by (simp add: new_header_def)

text \<open>What happens outside the collector's heap when the middle bits of the counter are clear: the
  new \<open>keyex\<close> is the old one, and the next value of the counter sets bit 3.\<close>

lemma keygen_low16:
  assumes kg: "keygen_ok keygen" and mid: "(ucast keygen :: u16) AND 0xFFF8 = 0"
  shows "(ucast keygen :: u16) = 4"
proof (rule bit_word_eqI)
  fix n assume n: "n < LENGTH(16)"
  consider "n < 2" | "n = 2" | "3 \<le> n" by linarith
  then show "bit (ucast keygen :: u16) n = bit (4 :: u16) n"
  proof cases
    case 1 then show ?thesis using keygen_low[OF kg 1] by (simp only: bit_consts16 bit_ucast_iff) simp
  next
    case 2
    have "(7 :: uintptr) = mask 3" "(4 :: uintptr) = push_bit 2 1"
      by (simp_all add: mask_eq_exp_minus_1 push_bit_eq_mult)
    with kg have "keygen AND mask 3 = push_bit 2 1" by (simp only: keygen_ok_def)
    from arg_cong[OF this, of "\<lambda>w. bit w 2"] 2 show ?thesis
      by (simp only: bit_and_iff bit_mask_iff bit_push_bit_iff bit_1_iff bit_consts16 bit_ucast_iff) simp
  next
    case 3
    have "\<not> bit (ucast keygen :: u16) n" using mid 3 n by (simp only: and_eq_0_16 bit_consts16) auto
    with 3 show ?thesis by (simp only: bit_consts16) simp
  qed
qed

lemma keyex_low_bits:
  assumes "v0 AND 0xFFFC = (0 :: u16)"
  shows "bit v0 n \<Longrightarrow> n < 2"
  using assms bit_imp_le_length[of v0 n] by (simp only: and_eq_0_16 bit_consts16) force

lemma new_keyex_lost:
  assumes v: "v0 AND 3 \<noteq> 0" "v0 AND 0xFFFC = 0"
    and kg: "keygen_ok keygen" "(ucast keygen :: u16) AND 0xFFF8 = 0"
  shows "new_keyex False v0 keygen = v0"
proof -
  have "(v0 OR 4) AND NOT 4 = v0"
  proof (rule bit_word_eqI)
    fix n show "bit ((v0 OR 4) AND NOT 4) n = bit v0 n"
      using keyex_low_bits[OF v(2), of n] bit_imp_le_length[of v0 n]
      by (simp only: bit_and_iff bit_or_iff bit_not_iff bit_consts16) auto
  qed
  moreover have "v0 \<noteq> 0" using v(1) by auto
  ultimately show ?thesis by (simp add: new_keyex_def keygen_low16[OF kg])
qed

lemma code_of_type:
  assumes "keyex h AND 0xFFFC = 0"
  shows "code_of h t = push_bit 13 (of_nat t)"
proof -
  have "keyex h AND 4 = 0" using keyex_low_bits[OF assms] by (simp only: and_eq_0_16 bit_consts16) force
  moreover have "drop_bit 3 (keyex h) = 0"
    using keyex_low_bits[OF assms] by (intro bit_word_eqI) (force simp: bit_drop_bit_eq)
  ultimately show ?thesis by (simp add: code_of_def)
qed

lemma code_of_next:
  assumes gc: "\<not> gc_allocated h" and v: "keyex h AND 0xFFFC = 0"
    and kg: "keygen_ok keygen" "(ucast keygen :: u16) AND 0xFFF8 = 0"
  shows "code_of (new_header h (keygen + 8)) t = push_bit 13 (of_nat t) OR 1"
proof -
  have b8: "bit (8 :: u16) n \<longleftrightarrow> n = 3" for n
  proof -
    have "(8 :: u16) = push_bit 3 1" by (simp add: push_bit_eq_mult)
    then show ?thesis by (simp only: bit_push_bit_iff bit_1_iff) auto
  qed
  have "(ucast (keygen + 8) :: u16) = ucast keygen + 8"
    by (intro word_unat_eq_iff[THEN iffD2]) (simp add: unsigned_ucast_eq take_bit_eq_mod unat_word_ariths mod_simps mod_mod_cancel)
  then have k: "(ucast (keygen + 8) :: u16) = 12" by (simp add: keygen_low16[OF kg])
  have e: "(12 :: u16) = 8 OR 4" by simp
  have x: "(keyex h OR 12) AND NOT 4 = keyex h OR 8"
  proof (rule bit_word_eqI)
    fix n show "bit ((keyex h OR 12) AND NOT 4) n = bit (keyex h OR 8) n"
      unfolding e using keyex_low_bits[OF v, of n] bit_imp_le_length[of "keyex h" n]
      by (simp only: bit_and_iff bit_or_iff bit_not_iff bit_consts16 b8) auto
  qed
  have "bit (keyex h OR 8) 3" by (simp add: bit_or_iff b8)
  then have "keyex h OR 8 \<noteq> 0" by force
  then have ke: "keyex (new_header h (keygen + 8)) = keyex h OR 8"
    using gc by (simp add: new_header_simps new_keyex_def k x[simplified])
  have n4: "(keyex h OR 8) AND 4 = 0"
    using keyex_low_bits[OF v, of 2] by (simp only: and_eq_0_16 bit_consts16 bit_or_iff b8) auto
  have "drop_bit 3 (keyex h OR 8) = 1"
  proof (rule bit_word_eqI)
    fix n show "bit (drop_bit 3 (keyex h OR 8)) n = bit (1 :: u16) n"
      using keyex_low_bits[OF v, of "3 + n"] by (simp only: bit_drop_bit_eq bit_or_iff b8 bit_1_iff comp_def) auto
  qed
  then show ?thesis by (simp add: code_of_def ke n4)
qed

end
