(* ===== verification/Hash_Table.thy ===== *)
theory Hash_Table
  imports Prelude
begin

unbundle bit_operations_syntax

section \<open>Mutable hash tables (hash.c)\<close>

text \<open>
  \<^verbatim>\<open>Scheme_Hash_Table\<close> of \<^verbatim>\<open>src/racket/src/racket/src/hash.c\<close>: open addressing with
  double hashing over two arrays. A removed key leaves the marker \<open>GONE\<close>;
  \<^verbatim>\<open>mcount\<close> counts the slots that are not empty, \<^verbatim>\<open>count\<close> those with a key. The
  key comparison and the two hash functions are the fields of \<open>table_ops\<close>:
  \<^verbatim>\<open>make_hash_indices\<close> and \<^verbatim>\<open>compare\<close> of the C structure.
\<close>

datatype 'k cell = Empty | GONE | Key (cell_key: 'k)

record 'k table_ops =
  has_indices :: bool
  has_compare :: bool
  tab_same :: "'k \<Rightarrow> 'k \<Rightarrow> bool"
  hash1 :: "'k \<Rightarrow> uintptr"
  hash2 :: "'k \<Rightarrow> uintptr"

record ('k, 'v) hash_table =
  tab_size :: nat
  tab_count :: nat
  tab_mcount :: nat
  tab_keys :: "'k cell list"
  tab_vals :: "'v option list"

subsection \<open>Hash indices\<close>

text \<open>The characters of a C string up to its terminator; \<^verbatim>\<open>char\<close> is signed.\<close>

definition c_chars :: "u8 list \<Rightarrow> u8 list" where
  "c_chars s = takeWhile (\<lambda>c. c \<noteq> 0) s"

definition string_hash_indices :: "u8 list \<Rightarrow> uintptr \<times> uintptr" where
  "string_hash_indices key =
     foldl (\<lambda>(h, h2) c. (h + (push_bit 5 h + h + scast c), h2 + scast c)) (0, 0) (c_chars key)"

definition string_ops :: "u8 list table_ops" where
  "string_ops = \<lparr>has_indices = True, has_compare = True, tab_same = (\<lambda>a b. c_chars a = c_chars b),
     hash1 = (\<lambda>k. fst (string_hash_indices k)), hash2 = (\<lambda>k. snd (string_hash_indices k))\<rparr>"

text \<open>A table without \<^verbatim>\<open>make_hash_indices\<close> hashes addresses.\<close>

definition address_ops :: "('k \<Rightarrow> uintptr) \<Rightarrow> 'k table_ops" where
  "address_ops ptr_to_long = \<lparr>has_indices = False, has_compare = False, tab_same = (=),
     hash1 = ptr_to_long, hash2 = (\<lambda>k. drop_bit 1 (ptr_to_long k))\<rparr>"

subsection \<open>The table operations\<close>

definition scheme_make_hash_table :: "('k, 'v) hash_table" where
  "scheme_make_hash_table =
     \<lparr>tab_size = 0, tab_count = 0, tab_mcount = 0, tab_keys = [], tab_vals = []\<rparr>"

definition scheme_clear_hash_table :: "('k, 'v) hash_table \<Rightarrow> ('k, 'v) hash_table" where
  "scheme_clear_hash_table ht =
     ht\<lparr>tab_size := 0, tab_count := 0, tab_keys := [], tab_vals := [], tab_mcount := 0\<rparr>"

text \<open>
  The probe loop: it ends at a slot with the key or at an empty slot, and remembers the first
  \<open>GONE\<close> slot when \<open>set > 1\<close>. A zero \<open>h2\<close> has not been computed yet. \<open>None\<close> is running
  out of fuel; the table always has an empty slot, which a probe of \<open>size\<close> steps meets.
\<close>

datatype probe = Hit uintptr | Miss (miss_at: uintptr) (miss_set: nat) (miss_useme: uintptr)

fun probe_loop ::
  "'k table_ops \<Rightarrow> 'k cell list \<Rightarrow> uintptr \<Rightarrow> 'k \<Rightarrow> nat \<Rightarrow> uintptr \<Rightarrow> uintptr \<Rightarrow> nat \<Rightarrow> uintptr \<Rightarrow>
   probe option" where
  "probe_loop ops keys msk key 0 h h2 st useme = None"
| "probe_loop ops keys msk key (Suc fuel) h h2 st useme =
     (let h2' = (if h2 = 0 then (hash2 ops key AND msk) OR 1 else h2); h' = (h + h2') AND msk
      in case keys ! unat h of
        Empty \<Rightarrow> Some (Miss h st useme)
      | GONE \<Rightarrow>
          (if st > 1 then probe_loop ops keys msk key fuel h' h2' 1 h
           else probe_loop ops keys msk key fuel h' h2' st useme)
      | Key tkey \<Rightarrow>
          (if tab_same ops tkey key then Some (Hit h)
           else probe_loop ops keys msk key fuel h' h2' st useme))"

definition probe_start :: "'k table_ops \<Rightarrow> uintptr \<Rightarrow> 'k \<Rightarrow> uintptr \<times> uintptr" where
  "probe_start ops msk key =
     (hash1 ops key AND msk,
      if has_indices ops \<and> has_compare ops then 0 else (hash2 ops key AND msk) OR 1)"

definition probe_key :: "'k table_ops \<Rightarrow> ('k, 'v) hash_table \<Rightarrow> 'k \<Rightarrow> nat \<Rightarrow> probe option" where
  "probe_key ops table key st =
     (let msk = of_nat (tab_size table) - 1; (h, h2) = probe_start ops msk key
      in probe_loop ops (tab_keys table) msk key (tab_size table) h h2 st 0)"

text \<open>What happens at a slot that has the key.\<close>

definition hit_set :: "('k, 'v) hash_table \<Rightarrow> uintptr \<Rightarrow> 'v option \<Rightarrow> ('k, 'v) hash_table" where
  "hit_set table h val =
     (let table = table\<lparr>tab_vals := (tab_vals table)[unat h := val]\<rparr>
      in if val = None then
           table\<lparr>tab_keys := (tab_keys table)[unat h := GONE], tab_count := tab_count table - 1\<rparr>
         else table)"

definition put_new :: "('k, 'v) hash_table \<Rightarrow> uintptr \<Rightarrow> 'k \<Rightarrow> 'v option \<Rightarrow> ('k, 'v) hash_table" where
  "put_new table h key val =
     table\<lparr>tab_count := tab_count table + 1, tab_keys := (tab_keys table)[unat h := Key key],
       tab_vals := (tab_vals table)[unat h := val]\<rparr>"

text \<open>\<^verbatim>\<open>mcount * FILL_FACTOR >= size\<close> with \<open>FILL_FACTOR\<close> 1.4, a product of doubles. Sizes are powers of
  two, so the two sides differ by at least a fifth: lemma \<open>fill_factor_rounding\<close> shows that the test gives the same answer
  for every product within a fifth of the exact one, and the double is within \<open>2 ^ -20\<close> of it for an \<^verbatim>\<open>mcount\<close> below \<open>2 ^ 31\<close>.\<close>

definition needs_rehash :: "('k, 'v) hash_table \<Rightarrow> bool" where
  "needs_rehash table \<longleftrightarrow> 7 * tab_mcount table \<ge> 5 * tab_size table"

text \<open>The new size is an \<^verbatim>\<open>int\<close>: doubling \<open>2 ^ 30\<close> slots overflows, which is \<open>None\<close>.\<close>

definition grown_size :: "('k, 'v) hash_table \<Rightarrow> nat" where
  "grown_size table =
     (if tab_count table * 2 \<ge> tab_mcount table then tab_size table * 2 else tab_size table)"

definition new_size :: "('k, 'v) hash_table \<Rightarrow> nat option" where
  "new_size table = (if grown_size table < 2 ^ 31 then Some (grown_size table) else None)"

text \<open>
  \<open>do_hash\<close> returns the value it returns in C and the table, or \<open>None\<close> when the size overflows. \<open>depth\<close> bounds the nesting of
  its two calls of itself (the rehash loop and \<^verbatim>\<open>goto rehash_key\<close>); neither of them
  rehashes again, so 2 is enough.
\<close>

fun do_hash ::
  "nat \<Rightarrow> 'k table_ops \<Rightarrow> ('k, 'v) hash_table \<Rightarrow> 'k \<Rightarrow> nat \<Rightarrow> 'v option \<Rightarrow>
   ('v option \<times> ('k, 'v) hash_table) option" where
  "do_hash 0 ops table key st val = None"
| "do_hash (Suc depth) ops table key st val =
     (case probe_key ops table key st of
        None \<Rightarrow> None
      | Some (Hit h) \<Rightarrow>
          (if st \<noteq> 0 then Some (val, hit_set table h val)
           else Some (tab_vals table ! unat h, table))
      | Some (Miss h st' useme) \<Rightarrow>
          (if st' = 0 \<or> val = None then Some (None, table)
           else if st' = 1 then Some (val, put_new table useme key val)
           else if needs_rehash table then
             (case new_size table of
                None \<Rightarrow> None
              | Some sz \<Rightarrow>
                  (let fresh = table\<lparr>tab_size := sz, tab_vals := replicate sz None,
                            tab_keys := replicate sz Empty, tab_count := 0, tab_mcount := 0\<rparr>
                   in case fold
                   (\<lambda>i tb. case tb of None \<Rightarrow> None | Some tb \<Rightarrow>
                      (case tab_keys table ! i of
                         Key k \<Rightarrow> map_option snd (do_hash depth ops tb k 2 (tab_vals table ! i))
                       | _ \<Rightarrow> Some tb))
                   [0..<tab_size table] (Some fresh) of
                   None \<Rightarrow> None
                 | Some tb \<Rightarrow> do_hash depth ops tb key 2 val))
           else
             Some (val, put_new (table\<lparr>tab_mcount := tab_mcount table + 1\<rparr>) h key val)))"

definition do_hash_set ::
  "'k table_ops \<Rightarrow> ('k, 'v) hash_table \<Rightarrow> 'k \<Rightarrow> 'v option \<Rightarrow>
   ('v option \<times> ('k, 'v) hash_table) option" where
  "do_hash_set ops table key val =
     (case probe_key ops table key 2 of
        None \<Rightarrow> None
      | Some (Hit h) \<Rightarrow> Some (val, hit_set table h val)
      | Some (Miss h st useme) \<Rightarrow>
          (if val = None then Some (None, table)
           else if st = 1 then Some (val, put_new table useme key val)
           else if needs_rehash table then do_hash 2 ops table key 2 val
           else Some (val, put_new (table\<lparr>tab_mcount := tab_mcount table + 1\<rparr>) h key val)))"

definition do_hash_get ::
  "'k table_ops \<Rightarrow> ('k, 'v) hash_table \<Rightarrow> 'k \<Rightarrow> 'v option option" where
  "do_hash_get ops table key =
     (case probe_key ops table key 0 of
        None \<Rightarrow> None
      | Some (Hit h) \<Rightarrow> Some (tab_vals table ! unat h)
      | Some (Miss _ _ _) \<Rightarrow> Some None)"

text \<open>The arrays of a new or cleared table are \<^verbatim>\<open>NULL\<close>: the empty list.\<close>

definition scheme_hash_set ::
  "'k table_ops \<Rightarrow> ('k, 'v) hash_table \<Rightarrow> 'k \<Rightarrow> 'v option \<Rightarrow> ('k, 'v) hash_table option" where
  "scheme_hash_set ops table key val =
     (let table =
        (if tab_vals table = [] then
           table\<lparr>tab_size := 8, tab_vals := replicate 8 None, tab_keys := replicate 8 Empty\<rparr>
         else table)
      in map_option snd
           (if has_indices ops then do_hash 2 ops table key 2 val
            else do_hash_set ops table key val))"

definition scheme_hash_get ::
  "'k table_ops \<Rightarrow> ('k, 'v) hash_table \<Rightarrow> 'k \<Rightarrow> 'v option option" where
  "scheme_hash_get ops table key =
     (if tab_vals table = [] then Some None
      else if has_indices ops then map_option fst (do_hash 2 ops table key 0 None)
      else do_hash_get ops table key)"

definition scheme_eq_hash_get ::
  "'k table_ops \<Rightarrow> ('k, 'v) hash_table \<Rightarrow> 'k \<Rightarrow> 'v option option" where
  "scheme_eq_hash_get ops table key =
     (if tab_vals table = [] then Some None else do_hash_get ops table key)"

text \<open>The loop of \<^verbatim>\<open>scheme_hash_table_equal_rec\<close> runs from the last slot to the first.
  Both arguments are tables themselves (\<^verbatim>\<open>orig_t1\<close> is \<^verbatim>\<open>t1\<close>).\<close>

fun table_equal_loop ::
  "'k table_ops \<Rightarrow> ('v \<Rightarrow> 'v \<Rightarrow> bool) \<Rightarrow> ('k, 'v) hash_table \<Rightarrow> ('k, 'v) hash_table \<Rightarrow> nat \<Rightarrow> bool option" where
  "table_equal_loop ops recur_equal t1 t2 0 = Some True"
| "table_equal_loop ops recur_equal t1 t2 (Suc i) =
     (case tab_vals t1 ! i of
        None \<Rightarrow> table_equal_loop ops recur_equal t1 t2 i
      | Some val1 \<Rightarrow>
          (case scheme_hash_get ops t2 (cell_key (tab_keys t1 ! i)) of
             None \<Rightarrow> None
           | Some None \<Rightarrow> Some False
           | Some (Some val2) \<Rightarrow>
               if \<not> recur_equal val1 val2 then Some False
               else table_equal_loop ops recur_equal t1 t2 i))"

definition scheme_hash_table_equal_rec ::
  "'k table_ops \<Rightarrow> ('v \<Rightarrow> 'v \<Rightarrow> bool) \<Rightarrow> ('k, 'v) hash_table \<Rightarrow> ('k, 'v) hash_table \<Rightarrow> bool option" where
  "scheme_hash_table_equal_rec ops recur_equal t1 t2 =
     (if tab_count t1 \<noteq> tab_count t2 then Some False
      else table_equal_loop ops recur_equal t1 t2 (tab_size t1))"

definition scheme_reset_hash_table :: "('k, 'v) hash_table \<Rightarrow> ('k, 'v) hash_table" where
  "scheme_reset_hash_table table =
     (let table =
        (if tab_size table \<le> 8 \<or> 14 * tab_count table > 10 * (tab_size table div 2) then table
         else table\<lparr>tab_size := tab_size table div 2\<rparr>)
      in table\<lparr>tab_vals := replicate (tab_size table) None, tab_keys := replicate (tab_size table) Empty,
           tab_count := 0, tab_mcount := 0\<rparr>)"

end
