(* ===== verification/Hash_Table_Correct.thy ===== *)
theory Hash_Table_Correct
  imports Hash_Table
begin

unbundle bit_operations_syntax

section \<open>Mutable hash tables: correctness\<close>

text \<open>
  A probe visits every slot once, because the step is odd and the sz a power of two. The
  invariant \<open>table_ok\<close> says where a key may be, and that some slot is empty; the operations
  keep it, and lookup after an update is as expected. The locale \<open>table_keys\<close> is the
  contract with the key comparison.
\<close>

subsection \<open>Probe positions\<close>

definition probe_step :: "'k table_ops \<Rightarrow> nat \<Rightarrow> 'k \<Rightarrow> nat" where
  "probe_step ops sz key = unat ((hash2 ops key AND (of_nat sz - 1)) OR 1)"

definition probe_pos :: "'k table_ops \<Rightarrow> nat \<Rightarrow> 'k \<Rightarrow> nat \<Rightarrow> nat" where
  "probe_pos ops sz key n = (unat (hash1 ops key) + n * probe_step ops sz key) mod sz"

definition size_ok :: "nat \<Rightarrow> bool" where
  "size_ok sz \<longleftrightarrow> (\<exists>k. 3 \<le> k \<and> k < 62 \<and> sz = 2 ^ k)"

lemma unat_and_mask:
  assumes "size_ok sz"
  shows "unat (w AND (of_nat sz - 1) :: uintptr) = unat w mod sz"
proof -
  from assms obtain k where k: "k < 62" "sz = 2 ^ k" by (auto simp: size_ok_def)
  have "w AND (of_nat sz - 1) = take_bit k w"
    by (simp add: k take_bit_eq_mask mask_eq_exp_minus_1)
  then show ?thesis by (simp only: unsigned_take_bit_eq) (simp add: take_bit_eq_mod k)
qed

lemma probe_step_odd: "odd (probe_step ops sz key)"
proof -
  have "bit (hash2 ops key AND (of_nat sz - 1) OR 1) 0" by (simp add: bit_or_iff)
  then have "bit (unat (hash2 ops key AND (of_nat sz - 1) OR 1)) 0" by (simp add: bit_unsigned_iff)
  then show ?thesis by (simp add: probe_step_def bit_0)
qed

lemma size_ok_pos: "size_ok sz \<Longrightarrow> 8 \<le> sz \<and> even sz"
proof -
  assume "size_ok sz"
  then obtain k where k: "3 \<le> k" "sz = 2 ^ k" by (auto simp: size_ok_def)
  then have "(2::nat) ^ 3 \<le> 2 ^ k" by (intro power_increasing) auto
  with k show ?thesis by simp
qed

lemma probe_pos_less: "size_ok sz \<Longrightarrow> probe_pos ops sz key n < sz"
  using size_ok_pos[of sz] by (simp add: probe_pos_def)

lemma probe_pos_inj:
  assumes "size_ok sz" "probe_pos ops sz key n = probe_pos ops sz key m" "n \<le> m" "m < sz"
  shows "n = m"
proof -
  let ?s = "probe_step ops sz key"
  from assms(1) obtain k where k: "sz = 2 ^ k" by (auto simp: size_ok_def)
  have "sz dvd (unat (hash1 ops key) + m * ?s) - (unat (hash1 ops key) + n * ?s)"
    using assms(2,3) by (intro mod_eq_dvd_iff_nat[THEN iffD1]) (simp_all add: probe_pos_def)
  also have "(unat (hash1 ops key) + m * ?s) - (unat (hash1 ops key) + n * ?s) = (m - n) * ?s"
    by (simp add: diff_mult_distrib)
  finally have "sz dvd (m - n) * ?s" .
  moreover have "coprime sz ?s" using probe_step_odd[of ops sz key] by (simp add: k)
  ultimately have "sz dvd m - n" by (simp add: coprime_dvd_mult_left_iff)
  with assms(3,4) show ?thesis by (auto dest: dvd_imp_le)
qed

lemma probe_pos_bij:
  assumes "size_ok sz"
  shows "bij_betw (probe_pos ops sz key) {..<sz} {..<sz}"
proof -
  have inj: "inj_on (probe_pos ops sz key) {..<sz}"
  proof (intro inj_onI)
    fix n m assume nm: "n \<in> {..<sz}" "m \<in> {..<sz}" "probe_pos ops sz key n = probe_pos ops sz key m"
    show "n = m"
    proof (cases "n \<le> m")
      case True
      with nm show ?thesis by (intro probe_pos_inj[OF assms nm(3)]) auto
    next
      case False
      with nm show ?thesis by (intro probe_pos_inj[OF assms nm(3)[symmetric], symmetric]) auto
    qed
  qed
  have "probe_pos ops sz key ` {..<sz} \<subseteq> {..<sz}" using probe_pos_less[OF assms] by auto
  with inj have "probe_pos ops sz key ` {..<sz} = {..<sz}"
    by (intro card_subset_eq) (simp_all add: card_image)
  with inj show ?thesis by (simp add: bij_betw_def)
qed

lemma probe_pos_Suc:
  "probe_pos ops sz key (Suc n) = (probe_pos ops sz key n + probe_step ops sz key) mod sz"
  by (simp add: probe_pos_def mod_simps algebra_simps)

lemma next_pos:
  assumes "size_ok sz" "unat h = probe_pos ops sz key n"
    and "h2 = (hash2 ops key AND (of_nat sz - 1)) OR 1"
  shows "unat ((h + h2) AND (of_nat sz - 1) :: uintptr) = probe_pos ops sz key (Suc n)"
proof -
  have s: "sz dvd 2 ^ 64"
  proof -
    from assms(1) obtain k where "k < 62" "sz = 2 ^ k" by (auto simp: size_ok_def)
    then have "sz dvd (2::nat) ^ 64" by (simp only:) (rule le_imp_power_dvd, simp)
    then show ?thesis .
  qed
  have "unat ((h + h2) AND (of_nat sz - 1)) = (unat h + unat h2) mod 2 ^ 64 mod sz"
    by (simp only: unat_and_mask[OF assms(1)] unat_word_ariths) simp
  also have "\<dots> = (unat h + unat h2) mod sz" using s by (rule mod_mod_cancel)
  finally show ?thesis by (simp add: assms(2,3) probe_pos_Suc probe_step_def)
qed

subsection \<open>The probe loop\<close>

definition stops :: "'k table_ops \<Rightarrow> 'k cell list \<Rightarrow> 'k \<Rightarrow> nat \<Rightarrow> bool" where
  "stops ops keys key i \<longleftrightarrow> (case keys ! i of Empty \<Rightarrow> True | GONE \<Rightarrow> False | Key k \<Rightarrow> tab_same ops k key)"

lemma probe_loop_run:
  assumes sz: "size_ok sz" and msk: "msk = of_nat sz - 1"
    and "unat h = probe_pos ops sz key n" "h2 = 0 \<or> h2 = (hash2 ops key AND msk) OR 1"
    and "\<exists>m \<ge> n. m < n + fuel \<and> stops ops keys key (probe_pos ops sz key m)"
  shows "\<exists>m \<ge> n. stops ops keys key (probe_pos ops sz key m) \<and>
    (\<forall>j. n \<le> j \<and> j < m \<longrightarrow> \<not> stops ops keys key (probe_pos ops sz key j)) \<and>
    (\<exists>r. probe_loop ops keys msk key fuel h h2 st useme = Some r \<and>
      (case r of
         Hit h' \<Rightarrow> unat h' = probe_pos ops sz key m \<and> keys ! unat h' \<noteq> Empty
       | Miss h' st' u \<Rightarrow> unat h' = probe_pos ops sz key m \<and> keys ! unat h' = Empty \<and>
           (st' = st \<and> u = useme \<or>
            st > 1 \<and> st' = 1 \<and> (\<exists>j. n \<le> j \<and> j < m \<and> unat u = probe_pos ops sz key j \<and> keys ! unat u = GONE))))"
  using assms(3-5)
proof (induction fuel arbitrary: h h2 n st useme)
  case (Suc fuel)
  let ?pos = "probe_pos ops sz key"
  let ?h2 = "if h2 = 0 then (hash2 ops key AND msk) OR 1 else h2"
  have h2: "?h2 = (hash2 ops key AND (of_nat sz - 1)) OR 1" using Suc(3) msk by auto
  have nx: "unat ((h + ?h2) AND msk) = ?pos (Suc n)"
    using next_pos[OF sz Suc(2) h2] by (simp only: msk)
  have next_h2: "?h2 = 0 \<or> ?h2 = (hash2 ops key AND msk) OR 1" using h2 msk by simp
  show ?case
  proof (cases "stops ops keys key (?pos n)")
    case True
    then show ?thesis
      by (intro exI[of _ n]) (use Suc(2) in \<open>auto simp: stops_def Let_def split: cell.splits\<close>)
  next
    case False
    from Suc(4) obtain m where m: "n \<le> m" "m < n + Suc fuel" "stops ops keys key (?pos m)" by blast
    with False have "m \<noteq> n" by auto
    with m have ex: "\<exists>m \<ge> Suc n. m < Suc n + fuel \<and> stops ops keys key (?pos m)"
      by (intro exI[of _ m]) auto
    have ind: "\<exists>m \<ge> n. stops ops keys key (?pos m) \<and>
      (\<forall>j. n \<le> j \<and> j < m \<longrightarrow> \<not> stops ops keys key (?pos j)) \<and>
      (\<exists>r. probe_loop ops keys msk key (Suc fuel) h h2 st useme = Some r \<and>
      (case r of
         Hit h' \<Rightarrow> unat h' = ?pos m \<and> keys ! unat h' \<noteq> Empty
       | Miss h' st' u \<Rightarrow> unat h' = ?pos m \<and> keys ! unat h' = Empty \<and>
           (st' = st \<and> u = useme \<or>
            st > 1 \<and> st' = 1 \<and> (\<exists>j. n \<le> j \<and> j < m \<and> unat u = ?pos j \<and> keys ! unat u = GONE))))"
      if run: "probe_loop ops keys msk key (Suc fuel) h h2 st useme =
          probe_loop ops keys msk key fuel ((h + ?h2) AND msk) ?h2 st2 u2"
        and st2: "st2 = st \<and> u2 = useme \<or> st > 1 \<and> st2 = 1 \<and> u2 = h \<and> keys ! unat h = GONE"
      for st2 u2
    proof -
      from Suc(1)[OF nx next_h2 ex, of st2 u2] obtain m r where m: "m \<ge> Suc n" "stops ops keys key (?pos m)"
        "\<forall>j. Suc n \<le> j \<and> j < m \<longrightarrow> \<not> stops ops keys key (?pos j)"
        and r: "probe_loop ops keys msk key fuel ((h + ?h2) AND msk) ?h2 st2 u2 = Some r"
        and c: "case r of
            Hit h' \<Rightarrow> unat h' = ?pos m \<and> keys ! unat h' \<noteq> Empty
          | Miss h' st' u \<Rightarrow> unat h' = ?pos m \<and> keys ! unat h' = Empty \<and>
              (st' = st2 \<and> u = u2 \<or>
               st2 > 1 \<and> st' = 1 \<and> (\<exists>j. Suc n \<le> j \<and> j < m \<and> unat u = ?pos j \<and> keys ! unat u = GONE))"
        by blast
      have before: "\<forall>j. n \<le> j \<and> j < m \<longrightarrow> \<not> stops ops keys key (?pos j)"
        using m(3) False by (metis le_eq_less_or_eq Suc_le_eq)
      have c': "case r of
            Hit h' \<Rightarrow> unat h' = ?pos m \<and> keys ! unat h' \<noteq> Empty
          | Miss h' st' u \<Rightarrow> unat h' = ?pos m \<and> keys ! unat h' = Empty \<and>
              (st' = st \<and> u = useme \<or>
               st > 1 \<and> st' = 1 \<and> (\<exists>j. n \<le> j \<and> j < m \<and> unat u = ?pos j \<and> keys ! unat u = GONE))"
      proof (cases r)
        case (Miss h' st' u)
        with c have "st' = st2 \<and> u = u2 \<or>
            st2 > 1 \<and> st' = 1 \<and> (\<exists>j. Suc n \<le> j \<and> j < m \<and> unat u = ?pos j \<and> keys ! unat u = GONE)"
          by simp
        then have "st' = st \<and> u = useme \<or>
            st > 1 \<and> st' = 1 \<and> (\<exists>j. n \<le> j \<and> j < m \<and> unat u = ?pos j \<and> keys ! unat u = GONE)"
        proof (elim disjE conjE exE)
          fix j assume j: "1 < st2" "st' = 1" "Suc n \<le> j" "j < m" "unat u = ?pos j" "keys ! unat u = GONE"
          then have "st2 = st" using st2 by auto
          with j show ?thesis by (intro disjI2) (auto intro!: exI[of _ j])
        next
          assume s: "st' = st2" "u = u2"
          from st2 show ?thesis
          proof
            assume "st2 = st \<and> u2 = useme"
            with s show ?thesis by simp
          next
            assume g: "st > 1 \<and> st2 = 1 \<and> u2 = h \<and> keys ! unat h = GONE"
            with s Suc(2) m(1) show ?thesis by (intro disjI2) (auto intro!: exI[of _ n])
          qed
        qed
        with c show ?thesis unfolding Miss probe.case by blast
      next
        case (Hit h')
        from c show ?thesis unfolding Hit probe.case by blast
      qed
      show ?thesis
        by (intro exI[of _ m] exI[of _ r] conjI) (use m before r run c' in simp_all)
    qed
    show ?thesis
    proof (cases "keys ! unat h")
      case Empty
      with False Suc(2) show ?thesis by (simp add: stops_def)
    next
      case GONE
      show ?thesis
      proof (cases "st > 1")
        case True
        show ?thesis by (rule ind[of 1 h]) (use GONE True in \<open>simp_all add: Let_def\<close>)
      next
        case f: False
        show ?thesis by (rule ind[of st useme]) (use GONE f in \<open>simp_all add: Let_def\<close>)
      qed
    next
      case (Key k)
      with False Suc(2) have "\<not> tab_same ops k key" by (simp add: stops_def)
      with Key show ?thesis by (intro ind[of st useme]) (simp_all add: Let_def)
    qed
  qed
qed auto

subsection \<open>The invariant\<close>

definition is_key :: "'k cell \<Rightarrow> bool" where
  "is_key c \<longleftrightarrow> (case c of Key _ \<Rightarrow> True | _ \<Rightarrow> False)"

lemma is_key_simps [simp]: "is_key (Key k)" "\<not> is_key Empty" "\<not> is_key GONE"
  by (simp_all add: is_key_def)

lemma is_keyE: "is_key c \<Longrightarrow> (\<And>k. c = Key k \<Longrightarrow> P) \<Longrightarrow> P"
  by (cases c) auto

text \<open>The slot \<open>i\<close> is on the probe path of \<open>key\<close>, and no slot before it is empty.\<close>

definition on_path :: "'k table_ops \<Rightarrow> 'k cell list \<Rightarrow> 'k \<Rightarrow> nat \<Rightarrow> bool" where
  "on_path ops keys key i \<longleftrightarrow>
     (\<exists>n. probe_pos ops (length keys) key n = i \<and>
        (\<forall>m < n. keys ! probe_pos ops (length keys) key m \<noteq> Empty))"

definition arrays_ok :: "'k table_ops \<Rightarrow> 'k cell list \<Rightarrow> 'v option list \<Rightarrow> bool" where
  "arrays_ok ops keys vals \<longleftrightarrow> size_ok (length keys) \<and> length vals = length keys \<and>
     (\<forall>i < length keys. vals ! i \<noteq> None \<longleftrightarrow> is_key (keys ! i)) \<and>
     (\<forall>i < length keys. \<forall>k. keys ! i = Key k \<longrightarrow> on_path ops keys k i) \<and>
     (\<forall>i < length keys. \<forall>j < length keys. \<forall>k k'.
        keys ! i = Key k \<longrightarrow> keys ! j = Key k' \<longrightarrow> tab_same ops k k' \<longrightarrow> i = j)"

definition table_ok :: "'k table_ops \<Rightarrow> ('k, 'v) hash_table \<Rightarrow> bool" where
  "table_ok ops t \<longleftrightarrow>
     (if tab_vals t = [] then tab_keys t = [] \<and> tab_size t = 0 \<and> tab_count t = 0 \<and> tab_mcount t = 0
      else arrays_ok ops (tab_keys t) (tab_vals t) \<and> tab_size t = length (tab_keys t) \<and>
        tab_count t = length (filter is_key (tab_keys t)) \<and>
        tab_mcount t = length (filter (\<lambda>c. c \<noteq> Empty) (tab_keys t)) \<and>
        7 * tab_mcount t < 5 * tab_size t + 7)"

text \<open>The table maps \<open>key\<close> to \<open>v\<close>.\<close>

definition holds :: "'k table_ops \<Rightarrow> ('k, 'v) hash_table \<Rightarrow> 'k \<Rightarrow> 'v \<Rightarrow> bool" where
  "holds ops t key v \<longleftrightarrow> (\<exists>i < length (tab_keys t). \<exists>k. tab_keys t ! i = Key k \<and>
     tab_same ops k key \<and> tab_vals t ! i = Some v)"

lemma length_filter_update:
  "i < length xs \<Longrightarrow>
   length (filter P (xs[i := x])) + of_bool (P (xs ! i)) = length (filter P xs) + of_bool (P x)"
proof (induction xs arbitrary: i)
  case (Cons y ys)
  then show ?case by (cases i) auto
qed simp

lemma on_path_mono:
  assumes "on_path ops keys key i" "length keys' = length keys"
    and "\<And>j. j < length keys \<Longrightarrow> keys ! j \<noteq> Empty \<Longrightarrow> keys' ! j \<noteq> Empty" "size_ok (length keys)"
  shows "on_path ops keys' key i"
proof -
  from assms(1) obtain n where n: "probe_pos ops (length keys) key n = i"
    "\<forall>m < n. keys ! probe_pos ops (length keys) key m \<noteq> Empty" unfolding on_path_def by blast
  have "\<forall>m < n. keys' ! probe_pos ops (length keys) key m \<noteq> Empty"
  proof (intro allI impI)
    fix m assume "m < n"
    with n(2) have "keys ! probe_pos ops (length keys) key m \<noteq> Empty" by blast
    from assms(3)[OF probe_pos_less[OF assms(4)] this]
    show "keys' ! probe_pos ops (length keys) key m \<noteq> Empty" .
  qed
  with n(1) show ?thesis unfolding on_path_def assms(2) by blast
qed

lemma keys_le_used: "length (filter is_key xs) \<le> length (filter (\<lambda>c. c \<noteq> Empty) xs)"
  by (induction xs) auto

lemma mcount_less:
  assumes "table_ok ops t" "tab_vals t \<noteq> []"
  shows "\<exists>i < length (tab_keys t). tab_keys t ! i = Empty"
proof (rule ccontr)
  assume "\<not> ?thesis"
  then have "filter (\<lambda>c. c \<noteq> Empty) (tab_keys t) = tab_keys t"
    by (auto simp: filter_id_conv in_set_conv_nth)
  with assms have "7 * length (tab_keys t) < 5 * length (tab_keys t) + 7" "size_ok (length (tab_keys t))"
    by (auto simp: table_ok_def arrays_ok_def)
  with size_ok_pos[of "length (tab_keys t)"] show False by linarith
qed

subsection \<open>Operations on the arrays\<close>

locale table_keys =
  fixes ops :: "'k table_ops"
  assumes tab_refl: "tab_same ops a a"
    and tab_sym: "tab_same ops a b \<Longrightarrow> tab_same ops b a"
    and tab_trans: "tab_same ops a b \<Longrightarrow> tab_same ops b c \<Longrightarrow> tab_same ops a c"
    and tab_hash1: "tab_same ops a b \<Longrightarrow> hash1 ops a = hash1 ops b"
    and tab_hash2: "tab_same ops a b \<Longrightarrow> hash2 ops a = hash2 ops b"
begin

lemma same_pos: "tab_same ops a b \<Longrightarrow> probe_pos ops sz a n = probe_pos ops sz b n"
  using tab_hash1[of a b] tab_hash2[of a b] by (simp add: probe_pos_def probe_step_def)

lemma find_cases:
  assumes ok: "arrays_ok ops (tab_keys t) (tab_vals t)" and size: "tab_size t = length (tab_keys t)"
    and empty: "\<exists>i < length (tab_keys t). tab_keys t ! i = Empty"
  obtains (hit) h k where "probe_key ops t key st = Some (Hit h)" "unat h < length (tab_keys t)"
      "tab_keys t ! unat h = Key k" "tab_same ops k key"
    | (miss) h st' u where "probe_key ops t key st = Some (Miss h st' u)" "unat h < length (tab_keys t)"
      "tab_keys t ! unat h = Empty" "on_path ops (tab_keys t) key (unat h)"
      "\<forall>i < length (tab_keys t). \<forall>k. tab_keys t ! i = Key k \<longrightarrow> \<not> tab_same ops k key"
      "st' = st \<or> st > 1 \<and> st' = 1 \<and> unat u < length (tab_keys t) \<and> tab_keys t ! unat u = GONE \<and>
         on_path ops (tab_keys t) key (unat u)"
proof -
  let ?keys = "tab_keys t" let ?n = "length (tab_keys t)"
  let ?pos = "probe_pos ops (length (tab_keys t)) key"
  have sok: "size_ok ?n" using ok by (simp add: arrays_ok_def)
  define msk :: uintptr where "msk = of_nat ?n - 1"
  obtain h0 h2 where start: "probe_start ops msk key = (h0, h2)" by fastforce
  then have h0: "unat h0 = ?pos 0" and h2: "h2 = 0 \<or> h2 = (hash2 ops key AND msk) OR 1"
    using unat_and_mask[OF sok, of "hash1 ops key"]
    by (auto simp: probe_start_def probe_pos_def msk_def split: if_splits)
  from empty obtain i where i: "i < ?n" "?keys ! i = Empty" by blast
  then obtain m0 where m0: "m0 < ?n" "?pos m0 = i"
    using bij_betw_imp_surj_on[OF probe_pos_bij[OF sok, of ops key]] by (metis imageE lessThan_iff)
  then have ex: "\<exists>m \<ge> 0. m < 0 + tab_size t \<and> stops ops ?keys key (?pos m)"
    by (intro exI[of _ m0]) (simp add: stops_def i size)
  from probe_loop_run[OF sok msk_def h0 h2 ex, of st 0] obtain m r
    where m: "stops ops ?keys key (?pos m)" "\<forall>j. j < m \<longrightarrow> \<not> stops ops ?keys key (?pos j)"
      and r: "probe_loop ops ?keys msk key (tab_size t) h0 h2 st 0 = Some r"
      and c: "case r of
         Hit h' \<Rightarrow> unat h' = ?pos m \<and> ?keys ! unat h' \<noteq> Empty
       | Miss h' st' u \<Rightarrow> unat h' = ?pos m \<and> ?keys ! unat h' = Empty \<and>
           (st' = st \<and> u = 0 \<or>
            st > 1 \<and> st' = 1 \<and> (\<exists>j. 0 \<le> j \<and> j < m \<and> unat u = ?pos j \<and> ?keys ! unat u = GONE))"
    by auto
  have before: "?keys ! ?pos j \<noteq> Empty" if "j < m" for j
    using m(2) that by (auto simp: stops_def)
  have probe: "probe_key ops t key st = Some r"
    using r start by (simp add: probe_key_def size msk_def[symmetric])
  show thesis
  proof (cases r)
    case (Hit h)
    with c have h: "unat h = ?pos m" "?keys ! unat h \<noteq> Empty" by auto
    with m(1) obtain k where k: "?keys ! unat h = Key k" "tab_same ops k key"
      by (auto simp: stops_def split: cell.splits)
    have "unat h < ?n" using h(1) probe_pos_less[OF sok] by simp
    from hit[OF probe[unfolded Hit] this k] show thesis .
  next
    case (Miss h st' u)
    with c have h: "unat h = ?pos m" "?keys ! unat h = Empty"
      and u: "st' = st \<or> st > 1 \<and> st' = 1 \<and> (\<exists>j. j < m \<and> unat u = ?pos j \<and> ?keys ! unat u = GONE)"
      by auto
    have path: "on_path ops ?keys key (unat h)"
      unfolding on_path_def by (intro exI[of _ m]) (simp add: h(1) before)
    have none: "\<not> tab_same ops k key" if k: "i < ?n" "?keys ! i = Key k" for i k
    proof
      assume same: "tab_same ops k key"
      from ok k have "on_path ops ?keys k i" unfolding arrays_ok_def by blast
      then obtain n where n: "?pos n = i" "\<forall>m < n. ?keys ! ?pos m \<noteq> Empty"
        unfolding on_path_def same_pos[OF same] by blast
      with k same have "stops ops ?keys key (?pos n)" by (simp add: stops_def)
      with m(2) have "m \<le> n" by (meson not_le)
      with n(2) h k n(1) show False by (cases "m = n") auto
    qed
    from u have u': "st' = st \<or> st > 1 \<and> st' = 1 \<and> unat u < ?n \<and> ?keys ! unat u = GONE \<and>
        on_path ops ?keys key (unat u)"
    proof (elim disjE conjE exE)
      fix j assume j: "1 < st" "st' = 1" "j < m" "unat u = ?pos j" "?keys ! unat u = GONE"
      have "on_path ops ?keys key (unat u)"
        unfolding on_path_def by (intro exI[of _ j]) (use j(3,4) before in simp)
      with j probe_pos_less[OF sok] show ?thesis by simp
    qed simp
    have less: "unat h < ?n" using h(1) probe_pos_less[OF sok] by simp
    show thesis
      by (rule miss[OF probe[unfolded Miss] less h(2) path]) (use none u' in blast)+
  qed
qed

text \<open>Putting a key in a slot on its path that has no key, and replacing or removing a value.\<close>

lemma put_arrays:
  assumes ok: "arrays_ok ops keys vals" and i: "i < length keys" "\<not> is_key (keys ! i)"
    and path: "on_path ops keys key i"
    and none: "\<forall>i < length keys. \<forall>k. keys ! i = Key k \<longrightarrow> \<not> tab_same ops k key"
  shows "arrays_ok ops (keys[i := Key key]) (vals[i := Some v])"
proof -
  have sok: "size_ok (length keys)" and len: "length vals = length keys" using ok by (auto simp: arrays_ok_def)
  have path': "on_path ops (keys[i := Key key]) k j" if "on_path ops keys k j" for k j
    by (rule on_path_mono[OF that _ _ sok]) (auto simp: nth_list_update i(1))
  show ?thesis unfolding arrays_ok_def
  proof (intro conjI allI impI)
    fix j k assume j: "j < length (keys[i := Key key])" "keys[i := Key key] ! j = Key k"
    show "on_path ops (keys[i := Key key]) k j"
    proof (cases "j = i")
      case True
      with j i path' path show ?thesis by simp
    next
      case False
      with j ok have "on_path ops keys k j" by (auto simp: arrays_ok_def)
      then show ?thesis by (rule path')
    qed
  next
    fix j j' k k'
    assume j: "j < length (keys[i := Key key])" "j' < length (keys[i := Key key])"
      "keys[i := Key key] ! j = Key k" "keys[i := Key key] ! j' = Key k'" "tab_same ops k k'"
    consider "j = i" "j' = i" | "j = i" "j' \<noteq> i" | "j \<noteq> i" "j' = i" | "j \<noteq> i" "j' \<noteq> i" by blast
    then show "j = j'"
    proof cases
      case 2
      with j i have "k = key" "keys ! j' = Key k'" by auto
      with j none tab_sym show ?thesis by auto
    next
      case 3
      with j i have "k' = key" "keys ! j = Key k" by auto
      with j none show ?thesis by auto
    next
      case 4
      with j ok show ?thesis unfolding arrays_ok_def by (metis length_list_update nth_list_update_neq)
    qed simp
  qed (use ok i len in \<open>auto simp: arrays_ok_def nth_list_update\<close>)
qed

lemma hit_arrays:
  assumes ok: "arrays_ok ops keys vals" and i: "i < length keys" "keys ! i = Key k"
  shows "arrays_ok ops keys (vals[i := Some v])" "arrays_ok ops (keys[i := GONE]) (vals[i := None])"
proof -
  have sok: "size_ok (length keys)" and len: "length vals = length keys" using ok by (auto simp: arrays_ok_def)
  show "arrays_ok ops keys (vals[i := Some v])"
    using ok i len by (auto simp: arrays_ok_def nth_list_update)
  have path': "on_path ops (keys[i := GONE]) k j" if "on_path ops keys k j" for k j
    by (rule on_path_mono[OF that _ _ sok]) (auto simp: nth_list_update i(1))
  have old: "j \<noteq> i" "keys ! j = Key k" if "keys[i := GONE] ! j = Key k" for j k
    using that i by (cases "j = i"; simp)+
  show "arrays_ok ops (keys[i := GONE]) (vals[i := None])" unfolding arrays_ok_def
  proof (intro conjI allI impI)
    fix j k assume j: "j < length (keys[i := GONE])" "keys[i := GONE] ! j = Key k"
    with ok old[OF j(2)] have "on_path ops keys k j" by (auto simp: arrays_ok_def)
    then show "on_path ops (keys[i := GONE]) k j" by (rule path')
  next
    fix j j' k k'
    assume j: "j < length (keys[i := GONE])" "j' < length (keys[i := GONE])"
      "keys[i := GONE] ! j = Key k" "keys[i := GONE] ! j' = Key k'" "tab_same ops k k'"
    with ok old(2)[OF j(3)] old(2)[OF j(4)] show "j = j'" unfolding arrays_ok_def by (metis length_list_update)
  qed (use ok i len in \<open>auto simp: arrays_ok_def nth_list_update\<close>)
qed

subsection \<open>Updates of a table\<close>

definition updated :: "('k, 'v) hash_table \<Rightarrow> 'k \<Rightarrow> 'v option \<Rightarrow> ('k, 'v) hash_table \<Rightarrow> bool" where
  "updated t key val t' \<longleftrightarrow> table_ok ops t' \<and> tab_vals t' \<noteq> [] \<and>
     (\<forall>key' v. holds ops t' key' v \<longleftrightarrow>
        (if tab_same ops key key' then val = Some v else holds ops t key' v))"

lemma table_okD:
  assumes "table_ok ops t" "tab_vals t \<noteq> []"
  shows "arrays_ok ops (tab_keys t) (tab_vals t)" "tab_size t = length (tab_keys t)"
    "tab_count t = length (filter is_key (tab_keys t))"
    "tab_mcount t = length (filter (\<lambda>c. c \<noteq> Empty) (tab_keys t))"
    "7 * tab_mcount t < 5 * tab_size t + 7" "size_ok (tab_size t)"
    "length (tab_vals t) = length (tab_keys t)"
  using assms by (auto simp: table_ok_def arrays_ok_def)

lemma put_new_updated:
  assumes ok: "table_ok ops t" "tab_vals t \<noteq> []"
    and i: "unat h < length (tab_keys t)" "\<not> is_key (tab_keys t ! unat h)"
    and path: "on_path ops (tab_keys t) key (unat h)"
    and none: "\<forall>i < length (tab_keys t). \<forall>k. tab_keys t ! i = Key k \<longrightarrow> \<not> tab_same ops k key"
    and mc: "mc = tab_mcount t + of_bool (tab_keys t ! unat h = Empty)" "7 * mc < 5 * tab_size t + 7"
  shows "updated t key (Some v) (put_new (t\<lparr>tab_mcount := mc\<rparr>) h key (Some v))"
proof -
  note d = table_okD[OF ok]
  let ?i = "unat h"
  define t' where "t' = put_new (t\<lparr>tab_mcount := mc\<rparr>) h key (Some v)"
  let ?t = t'
  have f: "tab_keys ?t = (tab_keys t)[?i := Key key]" "tab_vals ?t = (tab_vals t)[?i := Some v]"
    "tab_size ?t = tab_size t" "tab_count ?t = tab_count t + 1" "tab_mcount ?t = mc"
    by (simp_all add: put_new_def t'_def)
  have ar: "arrays_ok ops (tab_keys ?t) (tab_vals ?t)"
    unfolding f by (rule put_arrays[OF d(1) i path none])
  have ne: "tab_vals ?t \<noteq> []" unfolding f using ok(2) by simp
  have "length (filter is_key (tab_keys ?t)) = tab_count ?t"
    using length_filter_update[OF i(1), of is_key "Key key"] i(2) unfolding f d(3) by simp
  moreover have "length (filter (\<lambda>c. c \<noteq> Empty) (tab_keys ?t)) = tab_mcount ?t"
    using length_filter_update[OF i(1), of "\<lambda>c. c \<noteq> Empty" "Key key"]
    by (cases "tab_keys t ! ?i = Empty") (simp_all add: f mc(1) d(4))
  ultimately have tok: "table_ok ops ?t" using ar ne d(2) mc(2) f(3,5) by (simp add: table_ok_def f(1))
  have "holds ops ?t key' w \<longleftrightarrow> (if tab_same ops key key' then Some v = Some w else holds ops t key' w)"
    for key' w
  proof (cases "tab_same ops key key'")
    case True
    have "\<not> tab_same ops k key'" if "j < length (tab_keys t)" "tab_keys t ! j = Key k" for j k
      using none that True tab_sym tab_trans by blast
    with True i(1) d(7) show ?thesis unfolding holds_def f by (auto simp: nth_list_update split: if_splits)
  next
    case False
    with i d(7) show ?thesis unfolding holds_def f
      by (auto simp: nth_list_update split: if_splits) (metis is_key_simps(1))+
  qed
  with tok ne show ?thesis by (simp add: updated_def t'_def)
qed

lemma hit_set_updated:
  assumes ok: "table_ok ops t" "tab_vals t \<noteq> []"
    and i: "unat h < length (tab_keys t)" "tab_keys t ! unat h = Key k" "tab_same ops k key"
  shows "updated t key val (hit_set t h val)" "tab_mcount (hit_set t h val) = tab_mcount t"
    "tab_size (hit_set t h val) = tab_size t"
proof -
  note d = table_okD[OF ok]
  let ?i = "unat h"
  let ?t = "hit_set t h val"
  have f: "tab_keys ?t = (if val = None then (tab_keys t)[?i := GONE] else tab_keys t)"
    "tab_vals ?t = (tab_vals t)[?i := val]" "tab_size ?t = tab_size t" "tab_mcount ?t = tab_mcount t"
    "tab_count ?t = (if val = None then tab_count t - 1 else tab_count t)"
    by (simp_all add: hit_set_def Let_def)
  then show "tab_mcount ?t = tab_mcount t" "tab_size ?t = tab_size t" by simp_all
  have ar: "arrays_ok ops (tab_keys ?t) (tab_vals ?t)"
    unfolding f using hit_arrays[OF d(1) i(1,2)] by (cases val) auto
  have ne: "tab_vals ?t \<noteq> []" unfolding f using ok(2) by simp
  have "length (filter is_key (tab_keys ?t)) = tab_count ?t"
    using length_filter_update[OF i(1), of is_key GONE] unfolding f by (auto simp: i(2) d(3))
  moreover have "length (filter (\<lambda>c. c \<noteq> Empty) (tab_keys ?t)) = tab_mcount ?t"
    using length_filter_update[OF i(1), of "\<lambda>c. c \<noteq> Empty" GONE] unfolding f by (simp add: i(2) d(4))
  ultimately have tok: "table_ok ops ?t" using ar ne d(2,5) f(3,4) by (simp add: table_ok_def f(1))
  have uniq: "j = ?i" if "j < length (tab_keys t)" "tab_keys t ! j = Key k'" "tab_same ops k' key'"
    "tab_same ops key key'" for j k' key'
  proof -
    have "tab_same ops k' k" using that i(3) tab_sym tab_trans by blast
    with d(1) that(1,2) i(1,2) show ?thesis unfolding arrays_ok_def by blast
  qed
  have "holds ops ?t key' w \<longleftrightarrow> (if tab_same ops key key' then val = Some w else holds ops t key' w)"
    for key' w
  proof (cases "tab_same ops key key'")
    case True
    have k': "tab_same ops k key'" using i(3) True tab_trans by blast
    show ?thesis
    proof
      assume "holds ops ?t key' w"
      then obtain j k2 where j: "j < length (tab_keys t)" "tab_keys ?t ! j = Key k2" "tab_same ops k2 key'"
        "tab_vals ?t ! j = Some w" unfolding holds_def f(1) by (auto split: if_splits)
      have "tab_keys t ! j = Key k2"
        using j(2) i(1) unfolding f by (cases "j = ?i") (auto split: if_splits)
      from uniq[OF j(1) this j(3) True] j(4) i(1) d(7) True
      show "if tab_same ops key key' then val = Some w else holds ops t key' w" by (simp add: f)
    next
      assume "if tab_same ops key key' then val = Some w else holds ops t key' w"
      with True i k' d(7) show "holds ops ?t key' w" unfolding holds_def f
        by (intro exI[of _ ?i]) simp
    qed
  next
    case False
    have k': "\<not> tab_same ops k key'" using False i(3) tab_sym tab_trans by blast
    have "(\<exists>k2. tab_keys ?t ! j = Key k2 \<and> tab_same ops k2 key' \<and> tab_vals ?t ! j = Some w) \<longleftrightarrow>
        (\<exists>k2. tab_keys t ! j = Key k2 \<and> tab_same ops k2 key' \<and> tab_vals t ! j = Some w)" for j
    proof (cases "j = ?i")
      case True
      with i k' show ?thesis by (auto simp: f)
    next
      case False
      then show ?thesis by (simp add: f)
    qed
    with False show ?thesis by (simp add: holds_def f(1))
  qed
  with tok ne show "updated t key val ?t" by (simp add: updated_def)
qed

lemma unchanged_updated:
  assumes "table_ok ops t" "tab_vals t \<noteq> []"
    and "\<forall>i < length (tab_keys t). \<forall>k. tab_keys t ! i = Key k \<longrightarrow> \<not> tab_same ops k key"
  shows "updated t key None t"
proof -
  have "\<not> holds ops t key' v" if same: "tab_same ops key key'" for key' v
  proof
    assume "holds ops t key' v"
    then obtain i k where "i < length (tab_keys t)" "tab_keys t ! i = Key k" "tab_same ops k key'"
      unfolding holds_def by blast
    with assms(3) same tab_sym tab_trans show False by blast
  qed
  with assms(1,2) show ?thesis by (auto simp: updated_def)
qed

subsection \<open>\<open>do_hash\<close>\<close>

end

text \<open>Every product near the exact one gives the same answer as the test of \<open>needs_rehash\<close>.\<close>

lemma five_powers: "(5 * 2 ^ k) mod 7 \<noteq> (0 :: nat)"
proof (induction k)
  case (Suc k)
  have "y mod 7 \<noteq> 0 \<Longrightarrow> (2 * y) mod 7 \<noteq> 0" for y :: nat by presburger
  from this[OF Suc] show ?case by (simp add: ac_simps)
qed simp

lemma fill_factor_rounding:
  fixes x :: "'a :: linordered_field"
  assumes "size_ok (tab_size t)" "\<bar>x - 7 / 5 * of_nat (tab_mcount t)\<bar> < 1 / 5"
  shows "of_nat (tab_size t) \<le> x \<longleftrightarrow> needs_rehash t"
proof -
  let ?m = "of_nat (tab_mcount t) :: 'a" and ?s = "of_nat (tab_size t) :: 'a"
  have x: "7 * ?m - 1 < 5 * x" "5 * x < 7 * ?m + 1" using assms(2) by (simp_all add: abs_less_iff field_simps)
  obtain k where "tab_size t = 2 ^ k" using assms(1) by (auto simp: size_ok_def)
  then have "7 * tab_mcount t \<noteq> 5 * tab_size t" using five_powers[of k] by (metis mod_mult_self1_is_0)
  then consider "5 * tab_size t + 1 \<le> 7 * tab_mcount t" | "7 * tab_mcount t + 1 \<le> 5 * tab_size t" by linarith
  then show ?thesis
  proof cases
    case 1
    then have "(of_nat (5 * tab_size t + 1) :: 'a) \<le> of_nat (7 * tab_mcount t)" by (simp only: of_nat_le_iff)
    then have "5 * ?s + 1 \<le> 7 * ?m" by simp
    then have "?s \<le> x" using x by linarith
    then show ?thesis using 1 by (simp add: needs_rehash_def)
  next
    case 2
    then have "(of_nat (7 * tab_mcount t + 1) :: 'a) \<le> of_nat (5 * tab_size t)" by (simp only: of_nat_le_iff)
    then have "7 * ?m + 1 \<le> 5 * ?s" by simp
    then have "\<not> ?s \<le> x" using x by linarith
    then show ?thesis using 2 by (simp add: needs_rehash_def)
  qed
qed

context table_keys
begin

lemma do_hash_simple:
  assumes ok: "table_ok ops t" "tab_vals t \<noteq> []" and nr: "\<not> needs_rehash t"
  obtains t' where "do_hash (Suc depth) ops t key 2 val = Some (val, t')"
    "do_hash_set ops t key val = Some (val, t')" "updated t key val t'"
    "tab_size t' = tab_size t" "tab_mcount t' \<le> tab_mcount t + 1"
proof -
  note d = table_okD[OF ok]
  show thesis
  proof (cases rule: find_cases[OF d(1,2) mcount_less[OF ok], of key 2, case_names hit miss])
    case (hit h k)
    from that[OF _ _ hit_set_updated(1)[OF ok hit(2-4)]] hit_set_updated(2,3)[OF ok hit(2-4)] hit(1)
    show thesis by (simp add: do_hash_set_def)
  next
    case (miss h st' u)
    show thesis
    proof (cases val)
      case None
      have "updated t key val t" using unchanged_updated[OF ok miss(5)] None by simp
      from that[OF _ _ this] miss(1,6) None show thesis by (simp add: do_hash_set_def)
    next
      case (Some v)
      show thesis
      proof (cases "st' = 2")
        case True
        have mc: "7 * (tab_mcount t + of_bool (tab_keys t ! unat h = Empty)) < 5 * tab_size t + 7"
          using nr miss(3) by (simp add: needs_rehash_def)
        have nk: "\<not> is_key (tab_keys t ! unat h)" using miss(3) by simp
        from put_new_updated[OF ok miss(2) nk miss(4,5) refl mc]
        have u: "updated t key (Some v) (put_new (t\<lparr>tab_mcount := tab_mcount t + 1\<rparr>) h key (Some v))"
          using miss(3) by simp
        then have "updated t key val (put_new (t\<lparr>tab_mcount := tab_mcount t + 1\<rparr>) h key val)"
          using Some by simp
        from that[OF _ _ this] show thesis
          using miss(1) True Some nr by (simp add: do_hash_set_def put_new_def)
      next
        case False
        with miss(6) have g: "st' = 1" "unat u < length (tab_keys t)" "tab_keys t ! unat u = GONE"
          "on_path ops (tab_keys t) key (unat u)" by auto
        have nk: "\<not> is_key (tab_keys t ! unat u)" using g(3) by simp
        have "tab_mcount t = tab_mcount t + of_bool (tab_keys t ! unat u = Empty)" using g(3) by simp
        from put_new_updated[OF ok g(2) nk g(4) miss(5) this d(5)]
        have u: "updated t key (Some v) (put_new t u key (Some v))" by simp
        then have "updated t key val (put_new t u key val)" using Some by simp
        from that[OF _ _ this] show thesis
          using miss(1) g(1) Some by (simp add: do_hash_set_def put_new_def)
      qed
    qed
  qed
qed

text \<open>The table that the rehash loop has built from the first \<open>i\<close> slots.\<close>

definition rehashed :: "('k, 'v) hash_table \<Rightarrow> nat \<Rightarrow> nat \<Rightarrow> ('k, 'v) hash_table \<Rightarrow> bool" where
  "rehashed t sz i tb \<longleftrightarrow> table_ok ops tb \<and> tab_vals tb \<noteq> [] \<and> tab_size tb = sz \<and>
     tab_mcount tb \<le> length (filter is_key (take i (tab_keys t))) \<and>
     (\<forall>key v. holds ops tb key v \<longleftrightarrow> (\<exists>j < i. \<exists>k. tab_keys t ! j = Key k \<and>
        tab_same ops k key \<and> tab_vals t ! j = Some v))"

lemma fresh_rehashed:
  assumes "size_ok sz"
  shows "rehashed t sz 0 (t\<lparr>tab_size := sz, tab_vals := replicate sz None,
           tab_keys := replicate sz Empty, tab_count := 0, tab_mcount := 0\<rparr>)"
  using assms size_ok_pos[OF assms] by (auto simp: rehashed_def table_ok_def arrays_ok_def holds_def)

lemma rehash_loop:
  assumes ok: "table_ok ops t" "tab_vals t \<noteq> []" and sz: "size_ok sz"
    and room: "7 * tab_count t < 5 * sz" and "i \<le> tab_size t"
  shows "\<exists>tb. rehashed t sz i tb \<and>
    fold (\<lambda>i tb. case tb of None \<Rightarrow> None | Some tb \<Rightarrow>
           (case tab_keys t ! i of
              Key k \<Rightarrow> map_option snd (do_hash (Suc depth) ops tb k 2 (tab_vals t ! i))
            | _ \<Rightarrow> Some tb))
      [0..<i] (Some (t\<lparr>tab_size := sz, tab_vals := replicate sz None,
           tab_keys := replicate sz Empty, tab_count := 0, tab_mcount := 0\<rparr>)) = Some tb"
  using assms(5)
proof (induction i)
  case 0
  show ?case using fresh_rehashed[OF sz] by simp
next
  case (Suc i)
  note d = table_okD[OF ok]
  from Suc obtain tb where tb: "rehashed t sz i tb" and run: "fold (\<lambda>i tb. case tb of None \<Rightarrow> None | Some tb \<Rightarrow>
           (case tab_keys t ! i of
              Key k \<Rightarrow> map_option snd (do_hash (Suc depth) ops tb k 2 (tab_vals t ! i))
            | _ \<Rightarrow> Some tb))
      [0..<i] (Some (t\<lparr>tab_size := sz, tab_vals := replicate sz None,
           tab_keys := replicate sz Empty, tab_count := 0, tab_mcount := 0\<rparr>)) = Some tb" by auto
  have i: "i < length (tab_keys t)" using Suc(2) d(2) by simp
  have tk: "take (Suc i) (tab_keys t) = take i (tab_keys t) @ [tab_keys t ! i]"
    by (rule take_Suc_conv_app_nth[OF i])
  show ?case
  proof (cases "tab_keys t ! i")
    case (Key k)
    then obtain v where v: "tab_vals t ! i = Some v" using d(1) i by (auto simp: arrays_ok_def)
    have "length (filter is_key (take i (tab_keys t))) \<le> tab_count t"
      unfolding d(3) by (metis append_take_drop_id filter_append le_add1 length_append)
    then have nr: "\<not> needs_rehash tb" using tb room by (auto simp: rehashed_def needs_rehash_def)
    from tb have tok: "table_ok ops tb" "tab_vals tb \<noteq> []" by (auto simp: rehashed_def)
    from do_hash_simple[OF tok nr, of depth k "Some v"] obtain tb'
      where tb': "do_hash (Suc depth) ops tb k 2 (Some v) = Some (Some v, tb')" "updated tb k (Some v) tb'"
        "tab_size tb' = tab_size tb" "tab_mcount tb' \<le> tab_mcount tb + 1" by metis
    have "holds ops tb' key w \<longleftrightarrow> (\<exists>j < Suc i. \<exists>k. tab_keys t ! j = Key k \<and>
        tab_same ops k key \<and> tab_vals t ! j = Some w)" for key w
    proof (cases "tab_same ops k key")
      case True
      have "j = i" if j: "j < Suc i" "tab_keys t ! j = Key k'" "tab_same ops k' key" for j k'
      proof -
        have "tab_same ops k' k" using j(3) True tab_sym tab_trans by blast
        with d(1) j(1,2) i Key show ?thesis unfolding arrays_ok_def by (meson Suc_leI le_trans less_le_trans less_Suc_eq_le)
      qed
      then have "(\<exists>j < Suc i. \<exists>k. tab_keys t ! j = Key k \<and> tab_same ops k key \<and>
          tab_vals t ! j = Some w) \<longleftrightarrow> v = w"
        using Key v True by (metis lessI option.inject)
      with True tb'(2) show ?thesis unfolding updated_def by simp
    next
      case False
      with tb'(2) tb Key show ?thesis unfolding updated_def rehashed_def by (auto simp: less_Suc_eq)
    qed
    then have "rehashed t sz (Suc i) tb'"
      using tb tb' by (auto simp: rehashed_def updated_def tk Key)
    with run Key v tb'(1) show ?thesis by auto
  next
    case Empty
    then have "rehashed t sz (Suc i) tb" using tb by (auto simp: rehashed_def tk less_Suc_eq)
    with run Empty show ?thesis by auto
  next
    case GONE
    then have "rehashed t sz (Suc i) tb" using tb by (auto simp: rehashed_def tk less_Suc_eq)
    with run GONE show ?thesis by auto
  qed
qed

lemma new_size_ok:
  assumes ok: "table_ok ops t" "tab_vals t \<noteq> []" and "tab_size t < 2 ^ 30"
  shows "size_ok (grown_size t)" "7 * tab_count t < 5 * grown_size t" "new_size t = Some (grown_size t)"
proof -
  note d = table_okD[OF ok]
  from d(6) obtain k where k: "3 \<le> k" "tab_size t = 2 ^ k" by (auto simp: size_ok_def)
  show "new_size t = Some (grown_size t)" using assms(3) by (simp add: new_size_def grown_size_def)
  have "k < 30" using assms(3) k(2) power_less_imp_less_exp[of "2::nat" k 30] by simp
  with k d(6) show "size_ok (grown_size t)"
    by (auto simp: grown_size_def size_ok_def intro!: exI[of _ "Suc k"])
  have "tab_count t \<le> tab_mcount t" unfolding d(3,4) by (rule keys_le_used)
  with d(5) size_ok_pos[OF d(6)] show "7 * tab_count t < 5 * grown_size t"
    by (auto simp: grown_size_def)
qed

text \<open>An update keeps the size of the arrays, or rehashes.\<close>

definition grown :: "('k, 'v) hash_table \<Rightarrow> ('k, 'v) hash_table \<Rightarrow> bool" where
  "grown t t' \<longleftrightarrow> tab_size t' = tab_size t \<or> needs_rehash t \<and> tab_size t' = grown_size t"

lemma do_hash_2: "do_hash 2 ops t key st val = do_hash (Suc (Suc 0)) ops t key st val"
  by (simp only: numeral_2_eq_2)

lemma do_hash_correct:
  assumes ok: "table_ok ops t" "tab_vals t \<noteq> []" and small: "tab_size t < 2 ^ 30"
  shows "\<exists>t'. do_hash 2 ops t key 2 val = Some (val, t') \<and> updated t key val t' \<and> grown t t'"
proof (cases "needs_rehash t")
  case False
  from do_hash_simple[OF ok False, of "Suc 0" key val] show ?thesis unfolding do_hash_2 grown_def by auto
next
  case True
  note d = table_okD[OF ok] and ns = new_size_ok[OF ok small]
  show ?thesis
  proof (cases rule: find_cases[OF d(1,2) mcount_less[OF ok], of key 2, case_names hit miss])
    case (hit h k)
    with hit_set_updated(1,3)[OF ok hit(2-4)] show ?thesis by (simp add: do_hash_2 grown_def)
  next
    case (miss h st' u)
    show ?thesis
    proof (cases val)
      case None
      with unchanged_updated[OF ok miss(5)] miss(1) show ?thesis by (simp add: do_hash_2 grown_def)
    next
      case (Some v)
      show ?thesis
      proof (cases "st' = 2")
        case gone: False
        with miss(6) have g: "st' = 1" "unat u < length (tab_keys t)" "tab_keys t ! unat u = GONE"
          "on_path ops (tab_keys t) key (unat u)" by auto
        have nk: "\<not> is_key (tab_keys t ! unat u)" using g(3) by simp
        have "tab_mcount t = tab_mcount t + of_bool (tab_keys t ! unat u = Empty)" using g(3) by simp
        from put_new_updated[OF ok g(2) nk g(4) miss(5) this d(5)]
        have u: "updated t key (Some v) (put_new t u key (Some v))" by simp
        with miss(1) g(1) Some show ?thesis by (simp add: do_hash_2 grown_def put_new_def)
      next
        case two: True
        from rehash_loop[OF ok ns(1,2) order_refl, of 0] obtain tb
          where tb: "rehashed t (grown_size t) (tab_size t) tb"
            and run: "fold (\<lambda>i tb. case tb of None \<Rightarrow> None | Some tb \<Rightarrow>
               (case tab_keys t ! i of
                  Key k \<Rightarrow> map_option snd (do_hash (Suc 0) ops tb k 2 (tab_vals t ! i))
                | _ \<Rightarrow> Some tb))
             [0..<tab_size t] (Some (t\<lparr>tab_size := grown_size t, tab_vals := replicate (grown_size t) None,
               tab_keys := replicate (grown_size t) Empty, tab_count := 0, tab_mcount := 0\<rparr>)) = Some tb"
          by blast
        have tok: "table_ok ops tb" "tab_vals tb \<noteq> []" and tsz: "tab_size tb = grown_size t"
          and mc: "tab_mcount tb \<le> length (filter is_key (take (tab_size t) (tab_keys t)))"
          using tb by (auto simp: rehashed_def)
        have same: "holds ops tb key' w \<longleftrightarrow> holds ops t key' w" for key' w
          using tb unfolding rehashed_def holds_def d(2) by blast
        have "7 * tab_mcount tb < 5 * tab_size tb" using mc ns(2) by (simp add: d(2,3) tsz)
        then have nr: "\<not> needs_rehash tb" by (simp add: needs_rehash_def)
        from do_hash_simple[OF tok nr, of 0 key val] obtain t'
          where t': "do_hash (Suc 0) ops tb key 2 val = Some (val, t')" "updated tb key val t'"
            "tab_size t' = tab_size tb" by metis
        have "do_hash 2 ops t key 2 val = do_hash (Suc 0) ops tb key 2 val"
          using miss(1) two Some True run ns(3) unfolding do_hash_2
          by (subst do_hash.simps(2)) (simp add: Let_def del: do_hash.simps)
        with t' same tsz True show ?thesis by (simp add: updated_def grown_def)
      qed
    qed
  qed
qed

lemma do_hash_set_correct:
  assumes ok: "table_ok ops t" "tab_vals t \<noteq> []" and small: "tab_size t < 2 ^ 30"
  shows "\<exists>t'. do_hash_set ops t key val = Some (val, t') \<and> updated t key val t' \<and> grown t t'"
proof (cases "needs_rehash t")
  case False
  from do_hash_simple[OF ok False, of "Suc 0" key val] show ?thesis unfolding grown_def by blast
next
  case True
  from do_hash_correct[OF assms, of key val] obtain t'
    where t': "do_hash 2 ops t key 2 val = Some (val, t')" "updated t key val t'" "grown t t'" by blast
  have "do_hash_set ops t key val = do_hash 2 ops t key 2 val"
    unfolding do_hash_set_def do_hash_2 using True
    by (subst (1 2) do_hash.simps(2))
      (simp add: Let_def del: do_hash.simps split: option.splits probe.splits)
  with t' show ?thesis by auto
qed

lemma holds_unique: "table_ok ops t \<Longrightarrow> holds ops t key v \<Longrightarrow> holds ops t key w \<Longrightarrow> v = w"
proof -
  assume a: "table_ok ops t" "holds ops t key v" "holds ops t key w"
  then have ar: "arrays_ok ops (tab_keys t) (tab_vals t)"
    by (auto simp: table_ok_def holds_def split: if_splits)
  from a obtain i k j k' where i: "i < length (tab_keys t)" "tab_keys t ! i = Key k" "tab_same ops k key"
    "tab_vals t ! i = Some v" and j: "j < length (tab_keys t)" "tab_keys t ! j = Key k'" "tab_same ops k' key"
    "tab_vals t ! j = Some w" unfolding holds_def by blast
  have "tab_same ops k k'" using i(3) j(3) tab_sym tab_trans by blast
  with ar i j have "i = j" unfolding arrays_ok_def by blast
  with i j show "v = w" by simp
qed

lemma get_correct:
  assumes ok: "table_ok ops t" "tab_vals t \<noteq> []"
  shows "\<exists>r. do_hash (Suc depth) ops t key 0 None = Some (r, t) \<and> do_hash_get ops t key = Some r \<and>
    (\<forall>v. r = Some v \<longleftrightarrow> holds ops t key v)"
proof -
  note d = table_okD[OF ok]
  show ?thesis
  proof (cases rule: find_cases[OF d(1,2) mcount_less[OF ok], of key 0, case_names hit miss])
    case (hit h k)
    then obtain v where v: "tab_vals t ! unat h = Some v" using d(1) by (auto simp: arrays_ok_def)
    with hit have "holds ops t key v" unfolding holds_def by blast
    then have "\<forall>w. Some v = Some w \<longleftrightarrow> holds ops t key w"
      using holds_unique[OF ok(1)] by blast
    with hit(1) v show ?thesis by (intro exI[of _ "Some v"]) (simp add: do_hash_get_def)
  next
    case (miss h st' u)
    then have "\<not> holds ops t key v" for v unfolding holds_def by blast
    with miss show ?thesis by (auto simp: do_hash_get_def)
  qed
qed

lemma scheme_hash_get_holds:
  assumes ok: "table_ok ops t"
  shows "\<exists>r. scheme_hash_get ops t key = Some r \<and> (\<forall>v. r = Some v \<longleftrightarrow> holds ops t key v)"
proof (cases "tab_vals t = []")
  case True
  with ok show ?thesis by (simp add: scheme_hash_get_def table_ok_def holds_def)
next
  case False
  from get_correct[OF ok False, of "Suc 0" key] obtain r
    where "do_hash 2 ops t key 0 None = Some (r, t)" "do_hash_get ops t key = Some r"
      "\<forall>v. r = Some v \<longleftrightarrow> holds ops t key v" unfolding do_hash_2 by auto
  with False show ?thesis by (simp add: scheme_hash_get_def)
qed

lemma scheme_hash_set_updated:
  assumes ok: "table_ok ops t" and small: "tab_size t < 2 ^ 30"
  shows "\<exists>t'. scheme_hash_set ops t key val = Some t' \<and> updated t key val t' \<and>
    (if tab_vals t = [] then tab_size t' = 8 else grown t t')"
proof -
  define t0 where "t0 = (if tab_vals t = [] then
      t\<lparr>tab_size := 8, tab_vals := replicate 8 None, tab_keys := replicate 8 Empty\<rparr> else t)"
  have "size_ok 8" by (auto simp: size_ok_def intro!: exI[of _ 3])
  then have "table_ok ops (t\<lparr>tab_size := 8, tab_vals := replicate 8 None, tab_keys := replicate 8 Empty\<rparr>)"
    if "tab_vals t = []" using that ok by (auto simp: table_ok_def arrays_ok_def)
  moreover have "holds ops (t\<lparr>tab_size := 8, tab_vals := replicate 8 None, tab_keys := replicate 8 Empty\<rparr>) key v
      \<longleftrightarrow> holds ops t key v" if "tab_vals t = []" for key v
    using that ok by (auto simp: table_ok_def holds_def)
  ultimately have t0: "table_ok ops t0" "tab_vals t0 \<noteq> []" "tab_size t0 < 2 ^ 30"
    "\<And>key v. holds ops t0 key v \<longleftrightarrow> holds ops t key v"
    using ok small by (simp_all add: t0_def)
  from do_hash_correct[OF t0(1-3), of key val] do_hash_set_correct[OF t0(1-3), of key val]
  obtain t1 t2 where t: "do_hash 2 ops t0 key 2 val = Some (val, t1)" "updated t0 key val t1" "grown t0 t1"
    "do_hash_set ops t0 key val = Some (val, t2)" "updated t0 key val t2" "grown t0 t2" by blast
  have "updated t key val t' \<and> (if tab_vals t = [] then tab_size t' = 8 else grown t t')"
    if "updated t0 key val t'" "grown t0 t'" for t'
    using that t0(4) ok
    by (auto simp: updated_def grown_def needs_rehash_def t0_def table_ok_def split: if_splits)
  with t show ?thesis by (auto simp: scheme_hash_set_def t0_def[symmetric])
qed

text \<open>The contract of the two operations: an update succeeds, keeps the invariant, and lookup
  afterwards gives the new value for the same key and the old one for the others.\<close>

lemma hash_set_get:
  assumes ok: "table_ok ops t" and small: "tab_size t < 2 ^ 30"
  shows "\<exists>t'. scheme_hash_set ops t key val = Some t' \<and> table_ok ops t' \<and>
    (\<forall>key'. scheme_hash_get ops t' key' =
       (if tab_same ops key key' then Some val else scheme_hash_get ops t key'))"
proof -
  from scheme_hash_set_updated[OF assms, of key val] obtain t'
    where t': "scheme_hash_set ops t key val = Some t'" "updated t key val t'" by blast
  then have tok: "table_ok ops t'" by (simp add: updated_def)
  have "scheme_hash_get ops t' key' =
       (if tab_same ops key key' then Some val else scheme_hash_get ops t key')" for key'
  proof -
    from scheme_hash_get_holds[OF tok, of key'] scheme_hash_get_holds[OF ok, of key'] obtain r r'
      where r: "scheme_hash_get ops t' key' = Some r" "\<forall>v. r = Some v \<longleftrightarrow> holds ops t' key' v"
        "scheme_hash_get ops t key' = Some r'" "\<forall>v. r' = Some v \<longleftrightarrow> holds ops t key' v" by blast
    have "r = Some v \<longleftrightarrow> (if tab_same ops key key' then val else r') = Some v" for v
      using t'(2) r by (simp add: updated_def)
    then have "r = (if tab_same ops key key' then val else r')" by (metis not_Some_eq)
    with r show ?thesis by simp
  qed
  with t' tok show ?thesis by blast
qed

lemma table_equal_loop_spec:
  assumes ok: "table_ok ops t1" "tab_vals t1 \<noteq> []" "table_ok ops t2" and i: "i \<le> tab_size t1"
  shows "table_equal_loop ops recur_equal t1 t2 i =
    Some (\<forall>j < i. \<forall>k v. tab_keys t1 ! j = Key k \<and> tab_vals t1 ! j = Some v \<longrightarrow>
      (\<exists>w. holds ops t2 k w \<and> recur_equal v w))"
  using i
proof (induction i)
  case (Suc i)
  note d = table_okD[OF ok(1,2)]
  show ?case
  proof (cases "tab_vals t1 ! i")
    case None
    with Suc show ?thesis by (auto simp: less_Suc_eq)
  next
    case (Some v)
    have "i < length (tab_keys t1)" using Suc(2) d(2) by simp
    with d(1) Some have "is_key (tab_keys t1 ! i)" unfolding arrays_ok_def by blast
    then obtain k where k: "tab_keys t1 ! i = Key k" by (rule is_keyE)
    from scheme_hash_get_holds[OF ok(3), of k] obtain r where r: "scheme_hash_get ops t2 k = Some r"
      "\<forall>w. r = Some w \<longleftrightarrow> holds ops t2 k w" by blast
    show ?thesis
    proof (cases r)
      case None
      with r have "\<not> holds ops t2 k w" for w by auto
      with None r(1) k Some show ?thesis by auto
    next
      case r': (Some w)
      then have "holds ops t2 k w' \<longleftrightarrow> w' = w" for w' using r(2)[unfolded r'] by auto
      with r' r(1) k Some Suc show ?thesis by (auto simp: less_Suc_eq)
    qed
  qed
qed simp

lemma table_equal_spec:
  assumes ok: "table_ok ops t1" "table_ok ops t2"
  shows "scheme_hash_table_equal_rec ops recur_equal t1 t2 =
    Some (tab_count t1 = tab_count t2 \<and>
      (\<forall>key v. holds ops t1 key v \<longrightarrow> (\<exists>w. holds ops t2 key w \<and> recur_equal v w)))"
proof (cases "tab_vals t1 = []")
  case True
  with ok(1) show ?thesis by (auto simp: scheme_hash_table_equal_rec_def table_ok_def holds_def)
next
  case False
  note d = table_okD[OF ok(1) False]
  have resp: "holds ops t2 a w \<longleftrightarrow> holds ops t2 b w" if "tab_same ops a b" for a b w
    unfolding holds_def using that tab_sym tab_trans by meson
  have "(\<forall>j < tab_size t1. \<forall>k v. tab_keys t1 ! j = Key k \<and> tab_vals t1 ! j = Some v \<longrightarrow>
      (\<exists>w. holds ops t2 k w \<and> recur_equal v w)) \<longleftrightarrow>
    (\<forall>key v. holds ops t1 key v \<longrightarrow> (\<exists>w. holds ops t2 key w \<and> recur_equal v w))"
  proof (intro iffI allI impI)
    fix key v
    assume a: "\<forall>j < tab_size t1. \<forall>k v. tab_keys t1 ! j = Key k \<and> tab_vals t1 ! j = Some v \<longrightarrow>
      (\<exists>w. holds ops t2 k w \<and> recur_equal v w)" and "holds ops t1 key v"
    then obtain i k where i: "i < length (tab_keys t1)" "tab_keys t1 ! i = Key k" "tab_same ops k key"
      "tab_vals t1 ! i = Some v" unfolding holds_def by blast
    with a d(2) obtain w where "holds ops t2 k w" "recur_equal v w" by metis
    with resp[OF i(3)] show "\<exists>w. holds ops t2 key w \<and> recur_equal v w" by blast
  next
    fix j k v
    assume a: "\<forall>key v. holds ops t1 key v \<longrightarrow> (\<exists>w. holds ops t2 key w \<and> recur_equal v w)"
      and j: "j < tab_size t1" "tab_keys t1 ! j = Key k \<and> tab_vals t1 ! j = Some v"
    then have "holds ops t1 k v" unfolding holds_def using d(2) tab_refl by metis
    with a show "\<exists>w. holds ops t2 k w \<and> recur_equal v w" by blast
  qed
  with table_equal_loop_spec[OF ok(1) False ok(2) order_refl, of recur_equal] show ?thesis
    by (simp add: scheme_hash_table_equal_rec_def)
qed

lemma reset_ok:
  assumes "table_ok ops t"
  shows "table_ok ops (scheme_reset_hash_table t)" "\<not> holds ops (scheme_reset_hash_table t) key v"
proof -
  show "table_ok ops (scheme_reset_hash_table t)"
  proof (cases "tab_vals t = []")
    case False
    from table_okD(6)[OF assms False] obtain k where k: "3 \<le> k" "k < 62" "tab_size t = 2 ^ k"
      by (auto simp: size_ok_def)
    have half: "size_ok (tab_size t div 2)" if "\<not> tab_size t \<le> 8"
    proof -
      have "k \<noteq> 3" using that k(3) by auto
      with k have "3 \<le> k - 1" "k - 1 < 62" "tab_size t div 2 = 2 ^ (k - 1)"
        by (auto simp: power_diff)
      then show ?thesis unfolding size_ok_def by blast
    qed
    have "table_ok ops (t\<lparr>tab_size := n, tab_vals := replicate n None, tab_keys := replicate n Empty,
       tab_count := 0, tab_mcount := 0\<rparr>)" if "size_ok n" for n
      using that size_ok_pos[OF that] by (auto simp: table_ok_def arrays_ok_def)
    note mk = this
    have "t\<lparr>tab_size := tab_size t\<rparr> = t" by simp
    with mk[OF table_okD(6)[OF assms False]] mk[OF half] show ?thesis
      by (simp add: scheme_reset_hash_table_def Let_def)
  qed (use assms in \<open>auto simp: scheme_reset_hash_table_def table_ok_def\<close>)
  show "\<not> holds ops (scheme_reset_hash_table t) key v"
    by (auto simp: holds_def scheme_reset_hash_table_def Let_def)
qed

end

subsection \<open>The interpretations\<close>

interpretation string_table: table_keys string_ops
  by unfold_locales (auto simp: string_ops_def string_hash_indices_def)

interpretation address_table: table_keys "address_ops ptr" for ptr
  by unfold_locales (auto simp: address_ops_def)

subsection \<open>Properties\<close>

text \<open>C9. In a table keyed by address (\<open>eq?\<close>), an update succeeds for every size below
  \<open>2 ^ 30\<close> (the probes and the rehashing end; from there on doubling the size overflows the C \<^verbatim>\<open>int\<close> that holds it), keeps the invariant, and lookup then gives the
  new value for the key and the old one for every other key, through collisions, removals and
  reused slots.\<close>

theorem eq_table_set_get:
  assumes "table_ok (address_ops ptr) t" "tab_size t < 2 ^ 30"
  shows "\<exists>t'. scheme_hash_set (address_ops ptr) t key val = Some t' \<and> table_ok (address_ops ptr) t' \<and>
    (\<forall>key'. scheme_hash_get (address_ops ptr) t' key' =
       (if key = key' then Some val else scheme_hash_get (address_ops ptr) t key'))"
  using address_table.hash_set_get[OF assms, of key val] by (simp add: address_ops_def)

text \<open>C10. The same, below the same \<open>2 ^ 30\<close> slots, for tables keyed by C strings, which \<open>do_hash\<close> searches with a second hash
  code computed only after a collision.\<close>

theorem string_table_set_get:
  assumes "table_ok string_ops t" "tab_size t < 2 ^ 30"
  shows "\<exists>t'. scheme_hash_set string_ops t key val = Some t' \<and> table_ok string_ops t' \<and>
    (\<forall>key'. scheme_hash_get string_ops t' key' =
       (if c_chars key = c_chars key' then Some val else scheme_hash_get string_ops t key'))"
  using string_table.hash_set_get[OF assms, of key val] by (simp add: string_ops_def)

text \<open>The probe sequence of a key visits every slot of the table exactly once before it
  repeats.\<close>

theorem probe_permutation:
  assumes "size_ok sz"
  shows "bij_betw (probe_pos ops sz key) {..<sz} {..<sz}"
  by (rule probe_pos_bij[OF assms])

text \<open>Comparing two tables succeeds and holds when they have the same number of keys and
  the second has, for every key of the first, a value equal to the first's.\<close>

theorem table_equal_rec_spec:
  assumes "table_ok (address_ops ptr) t1" "table_ok (address_ops ptr) t2"
  shows "scheme_hash_table_equal_rec (address_ops ptr) recur_equal t1 t2 =
    Some (tab_count t1 = tab_count t2 \<and>
      (\<forall>key v. holds (address_ops ptr) t1 key v \<longrightarrow>
        (\<exists>w. holds (address_ops ptr) t2 key w \<and> recur_equal v w)))"
  by (rule address_table.table_equal_spec[OF assms])

text \<open>Two strings whose hash codes agree modulo 8, in a new table.\<close>

definition w_table :: "(u8 list, nat) hash_table" where
  "w_table = the (scheme_hash_set string_ops scheme_make_hash_table [97] (Some 1))"

lemma table_ok_make: "table_ok ops scheme_make_hash_table"
  by (simp add: table_ok_def scheme_make_hash_table_def)

lemma w_table_ok: "table_ok string_ops w_table"
  "scheme_hash_get string_ops w_table [97, 0, 3] = Some (Some 1)"
  using string_table.hash_set_get[OF table_ok_make, of "[97]" "Some (1::nat)"]
  by (auto simp: w_table_def scheme_make_hash_table_def string_ops_def c_chars_def)

theorem eq_table_set_get_witness:
  "\<exists>t'. scheme_hash_set (address_ops of_nat) scheme_make_hash_table (5::nat) (Some True) = Some t' \<and>
     scheme_hash_get (address_ops of_nat) t' 5 = Some (Some True) \<and>
     scheme_hash_get (address_ops of_nat) t' 13 = Some None"
proof -
  have "scheme_hash_get (address_ops of_nat) scheme_make_hash_table (13::nat) = Some (None :: bool option)"
    by (simp add: scheme_hash_get_def scheme_make_hash_table_def)
  with eq_table_set_get[OF table_ok_make, of of_nat "5::nat" "Some True"] show ?thesis
    by (force simp: scheme_make_hash_table_def)
qed

theorem string_table_set_get_witness:
  "\<exists>t'. scheme_hash_set string_ops w_table [105] (Some 2) = Some t' \<and>
     scheme_hash_get string_ops t' [105] = Some (Some 2) \<and>
     scheme_hash_get string_ops t' [97, 0, 3] = Some (Some 1)"
proof -
  define t0 :: "(u8 list, nat) hash_table" where "t0 = \<lparr>tab_size = 8, tab_count = 0, tab_mcount = 0,
    tab_keys = replicate 8 Empty, tab_vals = replicate 8 None\<rparr>"
  have "size_ok 8" by (auto simp: size_ok_def intro!: exI[of _ 3])
  then have t0: "table_ok string_ops t0" "tab_vals t0 \<noteq> []" "\<not> needs_rehash t0"
    by (simp_all add: t0_def table_ok_def arrays_ok_def needs_rehash_def)
  from string_table.do_hash_simple[OF t0, of "Suc 0" "[97]" "Some 1"] obtain t'
    where "do_hash 2 string_ops t0 [97] 2 (Some 1) = Some (Some 1, t')" "tab_size t' = 8"
    unfolding string_table.do_hash_2 by (metis (no_types) t0_def hash_table.select_convs(1))
  then have s: "tab_size w_table < 2 ^ 30"
    by (simp add: w_table_def scheme_hash_set_def scheme_make_hash_table_def t0_def string_ops_def)
  from string_table_set_get[OF w_table_ok(1) s, of "[105]" "Some 2"] w_table_ok(2) show ?thesis
    by (force simp: c_chars_def)
qed

theorem probe_permutation_witness: "bij_betw (probe_pos string_ops 8 [97]) {..<8} {..<8}"
  by (rule probe_permutation) (auto simp: size_ok_def intro!: exI[of _ 3])

theorem table_equal_rec_spec_witness:
  "scheme_hash_table_equal_rec (address_ops of_nat) (=)
     (scheme_make_hash_table :: (nat, nat) hash_table) scheme_make_hash_table = Some True"
  by (subst table_equal_rec_spec[OF table_ok_make table_ok_make])
    (auto simp: holds_def scheme_make_hash_table_def)

end
