(* ===== verification/Utf8.thy ===== *)
theory Utf8
  imports Prelude
begin

unbundle bit_operations_syntax

section \<open>UTF-8 and UTF-16 conversion (string.c)\<close>

text \<open>
  The decoder \<^verbatim>\<open>utf8_decode_x\<close>, the encoder \<^verbatim>\<open>utf8_encode_x\<close> and the UTF-16
  conversions of \<^verbatim>\<open>src/racket/src/racket/src/string.c\<close>, in the branch that is not for
  Windows. Buffers are lists; positions and the decoder's \<^verbatim>\<open>int\<close> variables are natural
  numbers (a partial character has at most 22 bits). What is stored at \<^verbatim>\<open>us[dstart]\<close>,
  \<^verbatim>\<open>us[dstart + 1]\<close> and so on is the list \<open>dec_out\<close>; when the caller gives a state,
  \<^verbatim>\<open>us\<close> is \<^verbatim>\<open>NULL\<close> and only the count matters.
\<close>

subsection \<open>The decoder\<close>

text \<open>What one byte does: continue a character, produce a code \<open>v\<close> (dropping the bytes of an
  unfinished character when \<open>reset\<close>), or fail. \<open>permissive\<close> is zero or the code for bad
  bytes.\<close>

datatype utf8_step =
    More nat nat nat
  | Produce (step_v: nat) (step_reset: bool) (step_nextbits: nat)
  | Enc_Fail

definition bad_sequence :: "nat \<Rightarrow> bool \<Rightarrow> nat \<Rightarrow> utf8_step" where
  "bad_sequence permissive reset nextbits =
     (if permissive \<noteq> 0 then Produce permissive reset nextbits else Enc_Fail)"

definition utf8_step :: "nat \<Rightarrow> nat \<Rightarrow> nat \<Rightarrow> nat \<Rightarrow> nat \<Rightarrow> utf8_step" where
  "utf8_step permissive sc state nextbits v =
     (if sc < 0x80 then
        (if state \<noteq> 0 then bad_sequence permissive True 0
         else Produce sc False nextbits)
      else if sc AND 0xC0 = 0x80 then
        (if state \<noteq> 0 then
           (if nextbits = 0 \<or> sc AND nextbits \<noteq> 0 then
              (let v = push_bit 6 v + (sc AND 0x3F); state = state - 1
               in if state \<noteq> 0 then More state 0 v
                  else if v \<ge> 0xD800 \<and> v \<le> 0xDFFF \<or> v > 0x10FFFF
                  then bad_sequence permissive True 0
                  else Produce v False 0)
            else bad_sequence permissive True 0)
         else bad_sequence permissive False nextbits)
      else if state \<noteq> 0 then bad_sequence permissive True nextbits
      else if sc AND 0xE0 = 0xC0 \<and> sc AND 0x1E \<noteq> 0 then More 1 nextbits (sc AND 0x1F)
      else if sc AND 0xE0 \<noteq> 0xC0 \<and> sc AND 0xF0 = 0xE0 then
        (let v = sc AND 0xF in More 2 (if v = 0 then 0x20 else nextbits) v)
      else if sc AND 0xE0 \<noteq> 0xC0 \<and> sc AND 0xF8 = 0xF0 \<and> sc AND 0x7 \<le> 4 then
        (let v = sc AND 0x7 in More 3 (if v = 0 then 0x30 else nextbits) v)
      else bad_sequence permissive False nextbits)"

text \<open>The units stored for the code \<open>v\<close>, and whether there is no room for them. For
  UTF-8 output the bytes of the character are copied, \<open>delta\<close> more than one.\<close>

definition put_units ::
  "u8 list \<Rightarrow> nat \<Rightarrow> bool \<Rightarrow> bool \<Rightarrow> nat \<Rightarrow> nat \<Rightarrow> nat \<Rightarrow> nat \<Rightarrow> u32 list option" where
  "put_units s dend compact utf16 v oki delta j =
     (if compact then
        (if utf16 then
           (if v > 0xFFFF then
              (if j + 1 \<ge> dend then None
               else Some [of_nat (0xD800 OR (drop_bit 10 (v - 0x10000) AND 0x3FF)),
                          of_nat (0xDC00 OR ((v - 0x10000) AND 0x3FF))])
            else Some [of_nat v])
         else if delta \<noteq> 0 then
           (if j + delta + 1 < dend then Some (map ucast (take (delta + 1) (drop oki s))) else None)
         else if v = 0xFFFD then
           (if j + 3 < dend then Some [0xEF, 0xBF, 0xBD] else None)
         else Some [of_nat (v mod 256)])
      else Some [of_nat v])"

record decoding =
  dec_oki :: nat
  dec_delta :: nat
  dec_j :: nat
  dec_state :: nat
  dec_init_doki :: nat
  dec_nextbits :: nat
  dec_v :: nat
  dec_out :: "u32 list"
  dec_fail :: int

text \<open>The main loop. The position \<^verbatim>\<open>i\<close> is \<open>oki + delta\<close>: \<open>oki\<close> is where the current
  character starts.\<close>

function utf8_loop ::
  "u8 list \<Rightarrow> nat \<Rightarrow> nat \<Rightarrow> bool \<Rightarrow> bool \<Rightarrow> nat \<Rightarrow> decoding \<Rightarrow> decoding" where
  "utf8_loop s end_s dend compact utf16 permissive d =
     (let oki = dec_oki d; i = oki + dec_delta d
      in if \<not> i < end_s then d
         else case utf8_step permissive (unat (s ! i)) (dec_state d) (dec_nextbits d) (dec_v d) of
           Enc_Fail \<Rightarrow> d\<lparr>dec_delta := 0, dec_state := 0, dec_fail := -2\<rparr>
         | More st nb v \<Rightarrow>
             utf8_loop s end_s dend compact utf16 permissive
               (d\<lparr>dec_delta := dec_delta d + 1, dec_state := st, dec_nextbits := nb, dec_v := v\<rparr>)
         | Produce v reset nb \<Rightarrow>
             (let delta = (if reset then 0 else dec_delta d);
                  j = (if reset then dec_j d + dec_init_doki d else dec_j d);
                  d = d\<lparr>dec_delta := delta, dec_j := j, dec_state := 0, dec_nextbits := nb, dec_v := v\<rparr>
              in case put_units s dend compact utf16 v oki delta j of
                   None \<Rightarrow> d
                 | Some us \<Rightarrow>
                     (let d = d\<lparr>dec_j := j + length us, dec_out := dec_out d @ us,
                                dec_oki := oki + delta + 1, dec_delta := 0, dec_init_doki := 0\<rparr>
                      in if dec_j d \<ge> dend then d
                         else utf8_loop s end_s dend compact utf16 permissive d)))"
  by pat_completeness auto
termination
  by (relation "measures [\<lambda>(s, e, de, c, u, p, d). e - dec_oki d,
        \<lambda>(s, e, de, c, u, p, d). e - (dec_oki d + dec_delta d)]")
    (auto simp: Let_def)

declare utf8_loop.simps [simp del]

text \<open>The packing of a state in an \<^verbatim>\<open>int\<close>.\<close>

definition unpack_state :: "nat \<Rightarrow> nat \<times> nat \<times> nat \<times> nat" where
  "unpack_state st = (st AND 0x7, drop_bit 3 st AND 0x7, push_bit 2 (drop_bit 6 st AND 0xF), drop_bit 10 st)"

definition pack_state :: "nat \<Rightarrow> nat \<Rightarrow> nat \<Rightarrow> nat \<Rightarrow> nat \<Rightarrow> nat \<Rightarrow> nat" where
  "pack_state state end_s oki init_doki nextbits v =
     (if state = 0 then 0
      else state OR push_bit 3 ((end_s - oki) + init_doki) OR push_bit 6 (drop_bit 2 nextbits) OR push_bit 10 v)"

text \<open>The result: the return value, \<^verbatim>\<open>*ipos\<close>, \<^verbatim>\<open>*jpos\<close>, what was stored and the new
  state.\<close>

record decoded =
  dec_return :: int
  dec_ipos :: nat
  dec_jpos :: nat
  dec_units :: "u32 list"
  dec_newstate :: nat

text \<open>A negative \<^verbatim>\<open>end\<close> (read up to the terminator) or \<^verbatim>\<open>dend\<close> is \<open>None\<close>.\<close>

definition utf8_decode_x ::
  "u8 list \<Rightarrow> nat \<Rightarrow> nat option \<Rightarrow> nat \<Rightarrow> nat option \<Rightarrow> bool \<Rightarrow> bool \<Rightarrow> nat option \<Rightarrow>
   bool \<Rightarrow> nat \<Rightarrow> decoded" where
  "utf8_decode_x s start end_opt dstart dend_opt compact utf16 state_opt might_continue permissive =
     (let (state, init_doki, nextbits, v) =
            (case state_opt of None \<Rightarrow> (0, 0, 0, 0) | Some st \<Rightarrow> unpack_state st);
          end_s = (case end_opt of None \<Rightarrow> length (takeWhile (\<lambda>c. c \<noteq> 0) s) | Some e \<Rightarrow> e);
          dend = (case dend_opt of None \<Rightarrow> 0x7FFFFFFF | Some e \<Rightarrow> e);
          d0 = \<lparr>dec_oki = start, dec_delta = 0, dec_j = dstart, dec_state = state,
                dec_init_doki = init_doki, dec_nextbits = nextbits, dec_v = v, dec_out = [],
                dec_fail = -3\<rparr>;
          d = (if dstart < dend then utf8_loop s end_s dend compact utf16 permissive d0 else d0);
          i = dec_oki d + dec_delta d
      in case state_opt of
           Some _ \<Rightarrow>
             \<lparr>dec_return = (if i < end_s then dec_fail d else int (dec_j d) - int dstart),
              dec_ipos = dec_oki d, dec_jpos = dec_j d, dec_units = dec_out d,
              dec_newstate = pack_state (dec_state d) end_s (dec_oki d) (dec_init_doki d)
                (dec_nextbits d) (dec_v d)\<rparr>
         | None \<Rightarrow>
             (if dec_state d \<noteq> 0 then
                (if might_continue \<or> permissive = 0 then
                   \<lparr>dec_return = -1, dec_ipos = dec_oki d, dec_jpos = dec_j d, dec_units = dec_out d,
                    dec_newstate = 0\<rparr>
                 else
                   (let n = min (end_s - dec_oki d) (dend - dec_j d);
                        fill = (if compact \<and> \<not> utf16 then permissive mod 256
                                else if compact then permissive mod 65536 else permissive)
                    in \<lparr>dec_return = (if dec_oki d + n < end_s then dec_fail d
                                      else int (dec_j d + n) - int dstart),
                        dec_ipos = dec_oki d + n, dec_jpos = dec_j d + n,
                        dec_units = dec_out d @ replicate n (of_nat fill), dec_newstate = 0\<rparr>))
              else
                \<lparr>dec_return = (if i < end_s then dec_fail d else int (dec_j d) - int dstart),
                 dec_ipos = dec_oki d, dec_jpos = dec_j d, dec_units = dec_out d, dec_newstate = 0\<rparr>))"

definition scheme_utf8_decode ::
  "u8 list \<Rightarrow> nat \<Rightarrow> nat option \<Rightarrow> nat \<Rightarrow> nat option \<Rightarrow> bool \<Rightarrow> nat \<Rightarrow> decoded" where
  "scheme_utf8_decode s start end_s dstart dend utf16 permissive =
     utf8_decode_x s start end_s dstart dend utf16 utf16 None False permissive"

definition scheme_utf8_decode_offset_prefix ::
  "u8 list \<Rightarrow> nat \<Rightarrow> nat option \<Rightarrow> nat \<Rightarrow> nat option \<Rightarrow> bool \<Rightarrow> nat \<Rightarrow> decoded" where
  "scheme_utf8_decode_offset_prefix s start end_s dstart dend utf16 permissive =
     utf8_decode_x s start end_s dstart dend utf16 utf16 None True permissive"

definition scheme_utf8_decode_as_prefix ::
  "u8 list \<Rightarrow> nat \<Rightarrow> nat option \<Rightarrow> nat \<Rightarrow> nat option \<Rightarrow> bool \<Rightarrow> nat \<Rightarrow> nat" where
  "scheme_utf8_decode_as_prefix s start end_s dstart dend utf16 permissive =
     dec_jpos (utf8_decode_x s start end_s dstart dend utf16 utf16 None True permissive) - dstart"

definition scheme_utf8_decode_all :: "u8 list \<Rightarrow> nat \<Rightarrow> nat \<Rightarrow> decoded" where
  "scheme_utf8_decode_all s len permissive =
     utf8_decode_x s 0 (Some len) 0 None False False None False permissive"

text \<open>The all-ASCII fast path, and the general one.\<close>

definition scheme_utf8_decode_prefix :: "u8 list \<Rightarrow> nat \<Rightarrow> nat \<Rightarrow> int \<times> u32 list" where
  "scheme_utf8_decode_prefix s len permissive =
     (if \<forall>c \<in> set (take len s). unat c < 128 then (int len, map ucast (take len s))
      else (let d = utf8_decode_x s 0 (Some len) 0 None False False None True permissive
            in (dec_return d, dec_units d)))"

text \<open>\<open>None\<close> is \<^verbatim>\<open>NULL\<close>. The first call counts (\<^verbatim>\<open>us\<close> is \<^verbatim>\<open>NULL\<close>), the second
  stores; the buffer is \<^verbatim>\<open>buf\<close> or a new one and is terminated.\<close>

definition scheme_utf8_decode_to_buffer_len :: "u8 list \<Rightarrow> nat \<Rightarrow> (u32 list \<times> nat) option" where
  "scheme_utf8_decode_to_buffer_len s len =
     (let ulen = dec_return (utf8_decode_x s 0 (Some len) 0 None False False None False 0)
      in if ulen < 0 then None
         else Some (dec_units (utf8_decode_x s 0 (Some len) 0 None False False None False 0) @ [0], nat ulen))"

definition scheme_utf8_decode_count ::
  "u8 list \<Rightarrow> nat \<Rightarrow> nat \<Rightarrow> nat option \<Rightarrow> bool \<Rightarrow> nat \<Rightarrow> nat \<times> nat" where
  "scheme_utf8_decode_count s start end_s state_opt might_continue permissive =
     (if (case state_opt of None \<Rightarrow> True | Some st \<Rightarrow> st = 0) \<and>
         (\<forall>c \<in> set (take (end_s - start) (drop start s)). unat c \<le> 127)
      then (end_s - start, (case state_opt of None \<Rightarrow> 0 | Some st \<Rightarrow> st))
      else (let d = utf8_decode_x s start (Some end_s) 0 None False False state_opt might_continue permissive
            in (dec_jpos d, dec_newstate d)))"

subsection \<open>The encoder\<close>

definition utf8_width :: "u32 \<Rightarrow> nat" where
  "utf8_width wc =
     (if wc < 0x80 then 1 else if wc < 0x800 then 2 else if wc < 0x10000 then 3
      else if wc < 0x200000 then 4 else if wc < 0x4000000 then 5 else 6)"

definition utf8_bytes :: "u32 \<Rightarrow> u8 list" where
  "utf8_bytes wc =
     (if wc < 0x80 then [ucast wc]
      else if wc < 0x800 then
        [ucast (0xC0 OR drop_bit 6 (wc AND 0x7C0)), ucast (0x80 OR (wc AND 0x3F))]
      else if wc < 0x10000 then
        [ucast (0xE0 OR drop_bit 12 (wc AND 0xF000)), ucast (0x80 OR drop_bit 6 (wc AND 0x0FC0)),
         ucast (0x80 OR (wc AND 0x3F))]
      else if wc < 0x200000 then
        [ucast (0xF0 OR drop_bit 18 (wc AND 0x1C0000)), ucast (0x80 OR drop_bit 12 (wc AND 0x03F000)),
         ucast (0x80 OR drop_bit 6 (wc AND 0x000FC0)), ucast (0x80 OR (wc AND 0x3F))]
      else if wc < 0x4000000 then
        [ucast (0xF8 OR drop_bit 24 (wc AND 0x3000000)), ucast (0x80 OR drop_bit 18 (wc AND 0x0FC0000)),
         ucast (0x80 OR drop_bit 12 (wc AND 0x003F000)), ucast (0x80 OR drop_bit 6 (wc AND 0x0000FC0)),
         ucast (0x80 OR (wc AND 0x3F))]
      else
        [ucast (0xFC OR drop_bit 30 (wc AND 0x40000000)), ucast (0x80 OR drop_bit 24 (wc AND 0x3F000000)),
         ucast (0x80 OR drop_bit 18 (wc AND 0x00FC0000)), ucast (0x80 OR drop_bit 12 (wc AND 0x0003F000)),
         ucast (0x80 OR drop_bit 6 (wc AND 0x00000FC0)), ucast (0x80 OR (wc AND 0x3F))])"

text \<open>Reading a character at \<open>i\<close>: its code and the position of its last unit; \<open>None\<close> when
  UTF-16 input ends in the middle of a surrogate pair and \<^verbatim>\<open>_opos\<close> is given. A lone
  surrogate at the end is otherwise read with the unit after the end (0 in the model).\<close>

definition unit_at :: "u32 list \<Rightarrow> nat \<Rightarrow> u32" where
  "unit_at us i = (if i < length us then us ! i else 0)"

definition surrogate_code :: "u32 \<Rightarrow> u32 \<Rightarrow> u32" where
  "surrogate_code hi lo = push_bit 10 (hi AND 0x3FF) + (lo AND 0x3FF) + 0x10000"

definition read_unit :: "u32 list \<Rightarrow> nat \<Rightarrow> bool \<Rightarrow> bool \<Rightarrow> nat \<Rightarrow> (u32 \<times> nat) option" where
  "read_unit us end_us opos utf16 i =
     (let wc = unit_at us i
      in if utf16 \<and> wc AND 0xF800 = 0xD800 then
           (if i + 1 = end_us \<and> opos then None
            else Some (surrogate_code wc (unit_at us (i + 1)), i + 1))
         else Some (wc, i))"

lemma read_unit_pos: "read_unit us e opos utf16 i = Some (wc, i') \<Longrightarrow> i \<le> i'"
  by (auto simp: read_unit_def Let_def split: if_splits)

text \<open>The counting loop returns the final \<^verbatim>\<open>i\<close> and \<^verbatim>\<open>j\<close>, and whether it stopped at a
  surrogate.\<close>

function count_loop :: "u32 list \<Rightarrow> nat \<Rightarrow> bool \<Rightarrow> bool \<Rightarrow> nat \<Rightarrow> nat \<Rightarrow> nat \<times> nat \<times> bool" where
  "count_loop us end_us opos utf16 i j =
     (if \<not> i < end_us then (i, j, False)
      else case read_unit us end_us opos utf16 i of
        None \<Rightarrow> (i, j, True)
      | Some (wc, i') \<Rightarrow> count_loop us end_us opos utf16 (i' + 1) (j + utf8_width wc))"
  by pat_completeness auto
termination
  by (relation "measure (\<lambda>(us, e, opos, u, i, j). e - i)") (auto dest: read_unit_pos)

declare count_loop.simps [simp del]

text \<open>The storing loop: the position where it stopped, \<^verbatim>\<open>done\<close>, the bytes stored, and
  whether it stopped at a surrogate.\<close>

function encode_loop ::
  "u32 list \<Rightarrow> nat \<Rightarrow> nat \<Rightarrow> bool \<Rightarrow> bool \<Rightarrow> nat \<Rightarrow> nat \<Rightarrow> nat \<Rightarrow> u8 list \<Rightarrow>
   nat \<times> nat \<times> nat \<times> u8 list \<times> bool" where
  "encode_loop us end_us dend opos utf16 i done j out =
     (if \<not> i < end_us then (i, done, j, out, False)
      else case read_unit us end_us opos utf16 i of
        None \<Rightarrow> (i, done, j, out, True)
      | Some (wc, i') \<Rightarrow>
          (if j + utf8_width wc > dend then (i', done, j, out, False)
           else encode_loop us end_us dend opos utf16 (i' + 1) i' (j + utf8_width wc)
                  (out @ utf8_bytes wc)))"
  by pat_completeness auto
termination
  by (relation "measure (\<lambda>(us, e, de, opos, u, i, dn, j, out). e - i)") (auto dest: read_unit_pos)

declare encode_loop.simps [simp del]

record encoded =
  enc_return :: int
  enc_ipos :: nat
  enc_opos :: nat
  enc_bytes :: "u8 list"

definition utf8_encode_x ::
  "u32 list \<Rightarrow> nat \<Rightarrow> nat \<Rightarrow> bool \<Rightarrow> nat \<Rightarrow> nat option \<Rightarrow> bool \<Rightarrow> bool \<Rightarrow> encoded" where
  "utf8_encode_x us start end_us has_s dstart dend_opt opos utf16 =
     (let dend = (case dend_opt of None \<Rightarrow> 0x7FFFFFFF | Some e \<Rightarrow> e)
      in if \<not> has_s then
           (case count_loop us end_us opos utf16 start 0 of
              (i, j, True) \<Rightarrow> \<lparr>enc_return = -1, enc_ipos = i, enc_opos = j, enc_bytes = []\<rparr>
            | (i, j, False) \<Rightarrow> \<lparr>enc_return = int j, enc_ipos = i, enc_opos = j + dstart, enc_bytes = []\<rparr>)
         else
           (case encode_loop us end_us dend opos utf16 start start dstart [] of
              (i, dn, j, out, True) \<Rightarrow> \<lparr>enc_return = -1, enc_ipos = i, enc_opos = j, enc_bytes = out\<rparr>
            | (i, dn, j, out, False) \<Rightarrow>
                \<lparr>enc_return = int j - int dstart, enc_ipos = dn, enc_opos = j, enc_bytes = out\<rparr>))"

definition scheme_utf8_encode :: "u32 list \<Rightarrow> nat \<Rightarrow> nat \<Rightarrow> bool \<Rightarrow> nat \<Rightarrow> bool \<Rightarrow> encoded" where
  "scheme_utf8_encode us start end_us has_s dstart utf16 =
     utf8_encode_x us start end_us has_s dstart None False utf16"

definition scheme_utf8_encode_all :: "u32 list \<Rightarrow> nat \<Rightarrow> bool \<Rightarrow> encoded" where
  "scheme_utf8_encode_all us len has_s = utf8_encode_x us 0 len has_s 0 None False False"

text \<open>The ASCII fast path of a string shorter than the given buffer, and the general one; the
  result is terminated.\<close>

definition scheme_utf8_encode_to_buffer_len :: "u32 list \<Rightarrow> nat \<Rightarrow> nat \<Rightarrow> u8 list \<times> nat" where
  "scheme_utf8_encode_to_buffer_len s len blen =
     (if len < blen \<and> (\<forall>c \<in> set (take len s). unat c \<le> 127)
      then (map ucast (take len s) @ [0], len)
      else (let slen = nat (enc_return (utf8_encode_x s 0 len False 0 None False False))
            in (enc_bytes (utf8_encode_x s 0 len True 0 None False False) @ [0], slen)))"

subsection \<open>UTF-16\<close>

definition utf16_units :: "u32 \<Rightarrow> u16 list" where
  "utf16_units v =
     (if v > 0xFFFF then
        (let v = v - 0x10000
         in [ucast (0xD800 OR (drop_bit 10 v AND 0x3FF)), ucast (0xDC00 OR (v AND 0x3FF))])
      else [ucast v])"

definition scheme_ucs4_to_utf16 :: "u32 list \<Rightarrow> nat \<Rightarrow> nat \<Rightarrow> u16 list \<times> nat" where
  "scheme_ucs4_to_utf16 text_s start end_s =
     (let out = concat (map utf16_units (take (end_s - start) (drop start text_s)))
      in (out, length out))"

text \<open>The decoding loop; a surrogate is read with the unit that follows it.\<close>

fun utf16_loop :: "u16 list \<Rightarrow> u32 list" where
  "utf16_loop [] = []"
| "utf16_loop [wc] =
     [if wc AND 0xF800 = 0xD800 then surrogate_code (ucast wc) 0 else ucast wc]"
| "utf16_loop (wc # lo # rest) =
     (if wc AND 0xF800 = 0xD800 then surrogate_code (ucast wc) (ucast lo) # utf16_loop rest
      else ucast wc # utf16_loop (lo # rest))"

definition scheme_utf16_to_ucs4 :: "u16 list \<Rightarrow> nat \<Rightarrow> nat \<Rightarrow> u32 list \<times> nat" where
  "scheme_utf16_to_ucs4 text_s start end_s =
     (let out = utf16_loop (take (end_s - start) (drop start text_s)) in (out, length out))"

end
