(* ===== verification/Utf8_Correct.thy ===== *)
theory Utf8_Correct
  imports Utf8
begin

unbundle bit_operations_syntax

section \<open>UTF-8: the decoder inverts the encoder\<close>

text \<open>
  \<open>char_bytes\<close> is the UTF-8 encoding in arithmetic. The encoder produces it for every
  Unicode scalar value; the strict decoder accepts exactly the concatenations of it and
  returns the values; the permissive decoder never fails.
\<close>

definition scalar :: "nat \<Rightarrow> bool" where
  "scalar n \<longleftrightarrow> n < 0x110000 \<and> \<not> (0xD800 \<le> n \<and> n \<le> 0xDFFF)"

definition char_bytes :: "nat \<Rightarrow> nat list" where
  "char_bytes n =
     (if n < 0x80 then [n]
      else if n < 0x800 then [192 + n div 64, 128 + n mod 64]
      else if n < 0x10000 then [224 + n div 4096, 128 + n div 64 mod 64, 128 + n mod 64]
      else [240 + n div 262144, 128 + n div 4096 mod 64, 128 + n div 64 mod 64, 128 + n mod 64])"

subsection \<open>Byte classes\<close>

lemma nat_and_bits:
  "n AND 0x3F = n mod 64" "n AND 0x1F = n mod 32" "n AND 0xF = n mod 16" "n AND 0x7 = n mod 8"
  for n :: nat
proof -
  have "n AND 0x3F = take_bit 6 n" "n AND 0x1F = take_bit 5 n" "n AND 0xF = take_bit 4 n" "n AND 0x7 = take_bit 3 n"
    by (simp_all add: take_bit_eq_mask mask_eq_exp_minus_1)
  then show "n AND 0x3F = n mod 64" "n AND 0x1F = n mod 32" "n AND 0xF = n mod 16" "n AND 0x7 = n mod 8"
    by (simp_all add: take_bit_eq_mod)
qed

lemma nat_and_field: "b AND push_bit k (mask m) = b div 2 ^ k mod 2 ^ m * 2 ^ k" for b :: nat
proof -
  have "b AND push_bit k (mask m) = push_bit k (take_bit m (drop_bit k b))"
    by (rule bit_eqI) (auto simp: bit_and_iff bit_push_bit_iff bit_mask_iff bit_take_bit_iff bit_drop_bit_eq)
  then show ?thesis by (simp add: push_bit_eq_mult take_bit_eq_mod drop_bit_eq_div)
qed

lemma byte_fields:
  "b AND 0xC0 = b div 64 mod 4 * 64" "b AND 0xE0 = b div 32 mod 8 * 32" "b AND 0xF0 = b div 16 mod 16 * 16"
  "b AND 0xF8 = b div 8 mod 32 * 8" "b AND 0x1E = b div 2 mod 16 * 2" "b AND 0x20 = b div 32 mod 2 * 32"
  "b AND 0x30 = b div 16 mod 4 * 16" for b :: nat
proof -
  have e: "(0xC0::nat) = push_bit 6 (mask 2)" "(0xE0::nat) = push_bit 5 (mask 3)"
    "(0xF0::nat) = push_bit 4 (mask 4)" "(0xF8::nat) = push_bit 3 (mask 5)" "(0x1E::nat) = push_bit 1 (mask 4)"
    "(0x20::nat) = push_bit 5 (mask 1)" "(0x30::nat) = push_bit 4 (mask 2)"
    by (simp_all add: mask_eq_exp_minus_1 push_bit_eq_mult)
  show "b AND 0xC0 = b div 64 mod 4 * 64" unfolding e(1) nat_and_field by simp
  show "b AND 0xE0 = b div 32 mod 8 * 32" unfolding e(2) nat_and_field by simp
  show "b AND 0xF0 = b div 16 mod 16 * 16" unfolding e(3) nat_and_field by simp
  show "b AND 0xF8 = b div 8 mod 32 * 8" unfolding e(4) nat_and_field by simp
  show "b AND 0x1E = b div 2 mod 16 * 2" unfolding e(5) nat_and_field by simp
  show "b AND 0x20 = b div 32 mod 2 * 32" unfolding e(6) nat_and_field by simp
  show "b AND 0x30 = b div 16 mod 4 * 16" unfolding e(7) nat_and_field by simp
qed

lemma mod_offset: "k \<le> b \<Longrightarrow> b < k + m \<Longrightarrow> m dvd k \<Longrightarrow> b mod m = b - k" for b :: nat
proof -
  assume a: "k \<le> b" "b < k + m" "m dvd k"
  then obtain q where q: "k = m * q" by auto
  have "b mod m = (m * q + (b - k)) mod m" using a(1) q by simp
  also have "\<dots> = (b - k) mod m" by simp
  finally show ?thesis using a by simp
qed

lemma byte_classes:
  fixes b :: nat
  assumes "b < 256"
  shows "b AND 0xC0 = 0x80 \<longleftrightarrow> 128 \<le> b \<and> b < 192"
    "b AND 0xE0 = 0xC0 \<longleftrightarrow> 192 \<le> b \<and> b < 224" "b AND 0xF0 = 0xE0 \<longleftrightarrow> 224 \<le> b \<and> b < 240"
    "b AND 0xF8 = 0xF0 \<longleftrightarrow> 240 \<le> b \<and> b < 248"
    "192 \<le> b \<Longrightarrow> b < 224 \<Longrightarrow> b AND 0x1E \<noteq> 0 \<longleftrightarrow> 194 \<le> b"
    "128 \<le> b \<Longrightarrow> b < 192 \<Longrightarrow> b AND 0x20 \<noteq> 0 \<longleftrightarrow> 160 \<le> b"
    "128 \<le> b \<Longrightarrow> b < 192 \<Longrightarrow> b AND 0x30 \<noteq> 0 \<longleftrightarrow> 144 \<le> b"
proof -
  have lt: "b div 64 < 4" "b div 32 < 8" "b div 16 < 16" "b div 8 < 32" using assms by auto
  have "b div 64 * 64 = 128 \<longleftrightarrow> 128 \<le> b \<and> b < 192" by auto
  then show "b AND 0xC0 = 0x80 \<longleftrightarrow> 128 \<le> b \<and> b < 192" using lt by (simp add: byte_fields)
  have "b div 32 * 32 = 192 \<longleftrightarrow> 192 \<le> b \<and> b < 224" by auto
  then show "b AND 0xE0 = 0xC0 \<longleftrightarrow> 192 \<le> b \<and> b < 224" using lt by (simp add: byte_fields)
  have "b div 16 * 16 = 224 \<longleftrightarrow> 224 \<le> b \<and> b < 240" by auto
  then show "b AND 0xF0 = 0xE0 \<longleftrightarrow> 224 \<le> b \<and> b < 240" using lt by (simp add: byte_fields)
  have "b div 8 * 8 = 240 \<longleftrightarrow> 240 \<le> b \<and> b < 248" by auto
  then show "b AND 0xF8 = 0xF0 \<longleftrightarrow> 240 \<le> b \<and> b < 248" using lt by (simp add: byte_fields)
  {
    assume r: "192 \<le> b" "b < 224"
    then have "b div 2 mod 16 = b div 2 - 96" by (intro mod_offset) auto
    with r show "b AND 0x1E \<noteq> 0 \<longleftrightarrow> 194 \<le> b" by (auto simp: byte_fields)
  }
  {
    assume r: "128 \<le> b" "b < 192"
    then have "b div 32 mod 2 = b div 32 - 4" by (intro mod_offset) auto
    with r show "b AND 0x20 \<noteq> 0 \<longleftrightarrow> 160 \<le> b" by (auto simp: byte_fields)
  }
  {
    assume r: "128 \<le> b" "b < 192"
    then have "b div 16 mod 4 = b div 16 - 8" by (intro mod_offset) auto
    with r show "b AND 0x30 \<noteq> 0 \<longleftrightarrow> 144 \<le> b" by (auto simp: byte_fields)
  }
qed

lemma not_scalar: "(n \<ge> 0xD800 \<and> n \<le> 0xDFFF \<or> n > 0x10FFFF) \<longleftrightarrow> \<not> scalar n"
  by (auto simp: scalar_def)

text \<open>The decoder's step by the class of the byte.\<close>

lemma step_ascii: "b < 128 \<Longrightarrow> utf8_step p b 0 nb v = Produce b False nb"
  by (simp add: utf8_step_def)

lemma step_lead2:
  "194 \<le> b \<Longrightarrow> b < 224 \<Longrightarrow> utf8_step p b 0 nb v = More 1 nb (b - 192)"
proof -
  assume b: "194 \<le> b" "b < 224"
  then have "b mod 32 = b - 192" by (intro mod_offset) simp_all
  with b byte_classes[of b] show ?thesis by (simp add: utf8_step_def nat_and_bits)
qed

lemma step_lead3:
  "224 \<le> b \<Longrightarrow> b < 240 \<Longrightarrow> utf8_step p b 0 nb v = More 2 (if b = 224 then 0x20 else nb) (b - 224)"
proof -
  assume b: "224 \<le> b" "b < 240"
  then have "b mod 16 = b - 224" by (intro mod_offset) simp_all
  with b byte_classes[of b] show ?thesis by (auto simp: utf8_step_def nat_and_bits Let_def)
qed

lemma step_lead4:
  "240 \<le> b \<Longrightarrow> b \<le> 244 \<Longrightarrow> utf8_step p b 0 nb v = More 3 (if b = 240 then 0x30 else nb) (b - 240)"
proof -
  assume b: "240 \<le> b" "b \<le> 244"
  then have "b mod 8 = b - 240" by (intro mod_offset) simp_all
  with b byte_classes[of b] show ?thesis by (auto simp: utf8_step_def nat_and_bits Let_def)
qed

lemma step_bad_lead:
  assumes "b < 256" "128 \<le> b \<and> b < 194 \<or> 244 < b"
  shows "utf8_step p b 0 nb v = bad_sequence p False nb"
proof -
  note c = byte_classes[OF assms(1)]
  consider "b < 192" "128 \<le> b" | "192 \<le> b" "b < 194" | "244 < b" "b < 248" | "248 \<le> b" using assms by linarith
  then show ?thesis
  proof cases
    case 3
    then have "b mod 8 = b - 240" by (intro mod_offset) simp_all
    with 3 have "4 < b mod 8" by simp
    with 3 c show ?thesis by (simp add: utf8_step_def nat_and_bits)
  qed (use c in \<open>simp_all add: utf8_step_def\<close>)
qed

lemma step_cont:
  assumes "128 \<le> b" "b < 192" "nb = 0 \<or> b AND nb \<noteq> 0"
  shows "1 < st \<Longrightarrow> utf8_step p b st nb v = More (st - 1) 0 (v * 64 + (b - 128))"
    and "scalar (v * 64 + (b - 128)) \<Longrightarrow> utf8_step p b 1 nb v = Produce (v * 64 + (b - 128)) False 0"
    and "\<not> scalar (v * 64 + (b - 128)) \<Longrightarrow> utf8_step p b 1 nb v = bad_sequence p True 0"
proof -
  have m: "b mod 64 = b - 128" using assms(1,2) by (intro mod_offset) simp_all
  have c: "b AND 0xC0 = 0x80" using assms byte_classes(1)[of b] by simp
  have v: "push_bit 6 v + (b AND 0x3F) = v * 64 + (b - 128)"
    by (simp add: nat_and_bits m push_bit_eq_mult)
  show "1 < st \<Longrightarrow> utf8_step p b st nb v = More (st - 1) 0 (v * 64 + (b - 128))"
    using assms by (simp add: utf8_step_def c v Let_def)
  show "scalar (v * 64 + (b - 128)) \<Longrightarrow> utf8_step p b 1 nb v = Produce (v * 64 + (b - 128)) False 0"
    using assms by (simp add: utf8_step_def c v Let_def not_scalar)
  show "\<not> scalar (v * 64 + (b - 128)) \<Longrightarrow> utf8_step p b 1 nb v = bad_sequence p True 0"
    using assms by (simp add: utf8_step_def c v Let_def not_scalar)
qed

lemma step_broken:
  assumes "b < 256" "st \<noteq> 0" "\<not> (128 \<le> b \<and> b < 192)"
  shows "\<exists>nb'. utf8_step p b st nb v = bad_sequence p True nb'"
  using assms byte_classes(1)[OF assms(1)] by (auto simp: utf8_step_def)

lemma step_missing:
  assumes "128 \<le> b" "b < 192" "st \<noteq> 0" "nb \<noteq> 0" "b AND nb = 0"
  shows "utf8_step p b st nb v = bad_sequence p True 0"
  using assms byte_classes(1)[of b] by (simp add: utf8_step_def)

subsection \<open>One turn of the loop\<close>

lemma loop_end: "\<not> dec_oki d + dec_delta d < e \<Longrightarrow> utf8_loop s e dend c u p d = d"
  by (simp add: utf8_loop.simps[of s e])

lemma loop_more:
  assumes "dec_oki d + dec_delta d < e"
    and "utf8_step p (unat (s ! (dec_oki d + dec_delta d))) (dec_state d) (dec_nextbits d) (dec_v d) = More st nb v"
  shows "utf8_loop s e dend c u p d = utf8_loop s e dend c u p
    (d\<lparr>dec_delta := dec_delta d + 1, dec_state := st, dec_nextbits := nb, dec_v := v\<rparr>)"
  using assms by (subst utf8_loop.simps) simp

lemma loop_produce:
  assumes "dec_oki d + dec_delta d < e"
    and "utf8_step p (unat (s ! (dec_oki d + dec_delta d))) (dec_state d) (dec_nextbits d) (dec_v d)
      = Produce v False nb"
  shows "\<exists>d'. dec_oki d' = dec_oki d + dec_delta d + 1 \<and> dec_delta d' = 0 \<and> dec_j d' = dec_j d + 1 \<and>
      dec_state d' = 0 \<and> dec_init_doki d' = 0 \<and> dec_nextbits d' = nb \<and> dec_fail d' = dec_fail d \<and>
      dec_out d' = dec_out d @ [of_nat v] \<and>
    utf8_loop s e dend False False p d =
      (if dec_j d + 1 \<ge> dend then d' else utf8_loop s e dend False False p d')"
proof -
  define d' where "d' = (d\<lparr>dec_delta := dec_delta d, dec_j := dec_j d, dec_state := 0, dec_nextbits := nb,
      dec_v := v\<rparr>)\<lparr>dec_j := dec_j d + 1, dec_out := dec_out d @ [of_nat v],
      dec_oki := dec_oki d + dec_delta d + 1, dec_delta := 0, dec_init_doki := 0\<rparr>"
  have "utf8_loop s e dend False False p d =
      (if dec_j d + 1 \<ge> dend then d' else utf8_loop s e dend False False p d')"
    using assms by (subst utf8_loop.simps) (simp add: put_units_def d'_def)
  then show ?thesis by (intro exI[of _ d']) (simp add: d'_def)
qed

lemma loop_fail:
  assumes "dec_oki d + dec_delta d < e"
    and "utf8_step p (unat (s ! (dec_oki d + dec_delta d))) (dec_state d) (dec_nextbits d) (dec_v d) = Enc_Fail"
  shows "utf8_loop s e dend c u p d = d\<lparr>dec_delta := 0, dec_state := 0, dec_fail := -2\<rparr>"
  using assms by (subst utf8_loop.simps) simp

text \<open>Between characters.\<close>

definition clean :: "decoding \<Rightarrow> bool" where
  "clean d \<longleftrightarrow> dec_delta d = 0 \<and> dec_state d = 0 \<and> dec_init_doki d = 0 \<and> dec_nextbits d = 0 \<and> dec_fail d = -3"

definition after_char :: "decoding \<Rightarrow> nat \<Rightarrow> nat \<Rightarrow> decoding \<Rightarrow> bool" where
  "after_char d n len d' \<longleftrightarrow> clean d' \<and> dec_oki d' = dec_oki d + len \<and> dec_j d' = dec_j d + 1 \<and>
     dec_out d' = dec_out d @ [of_nat n]"

definition bytes_at :: "u8 list \<Rightarrow> nat \<Rightarrow> nat list \<Rightarrow> bool" where
  "bytes_at s p bs \<longleftrightarrow> (\<forall>k < length bs. unat (s ! (p + k)) = bs ! k)"

lemma bytes_at_simps:
  "bytes_at s p []" "bytes_at s p (b # bs) \<longleftrightarrow> unat (s ! p) = b \<and> bytes_at s (Suc p) bs"
  by (auto simp: bytes_at_def less_Suc_eq_0_disj nth_Cons' gr0_conv_Suc)

lemma plus_Suc: "x + 2 = Suc (Suc x)" "x + 3 = Suc (Suc (Suc x))" "x + 4 = Suc (Suc (Suc (Suc x)))"
  by simp_all

lemma bytes_at_234:
  "bytes_at s p [a, b] \<longleftrightarrow> unat (s ! (p + 0)) = a \<and> unat (s ! (p + 1)) = b"
  "bytes_at s p [a, b, c] \<longleftrightarrow> unat (s ! (p + 0)) = a \<and> unat (s ! (p + 1)) = b \<and> unat (s ! (p + 2)) = c"
  "bytes_at s p [a, b, c, e] \<longleftrightarrow> unat (s ! (p + 0)) = a \<and> unat (s ! (p + 1)) = b \<and>
     unat (s ! (p + 2)) = c \<and> unat (s ! (p + 3)) = e"
  by (simp_all add: bytes_at_simps numeral_2_eq_2 numeral_3_eq_3)

lemma one_char1:
  assumes "clean d" "dec_oki d < e" "unat (s ! dec_oki d) = n" "n < 128"
  shows "\<exists>d'. after_char d n 1 d' \<and> utf8_loop s e dend False False p d =
    (if dec_j d + 1 \<ge> dend then d' else utf8_loop s e dend False False p d')"
proof -
  have "utf8_step p n 0 0 (dec_v d) = Produce n False 0" using assms(4) by (rule step_ascii)
  with assms loop_produce[of d e p s n 0 dend] obtain d' where "after_char d n 1 d'"
    "utf8_loop s e dend False False p d = (if dec_j d + 1 \<ge> dend then d' else utf8_loop s e dend False False p d')"
    by (auto simp: clean_def after_char_def)
  then show ?thesis by blast
qed

lemma one_char2:
  assumes d: "clean d" "dec_oki d + 1 < e" and b: "unat (s ! dec_oki d) = b0" "unat (s ! (dec_oki d + 1)) = b1"
    and r: "194 \<le> b0" "b0 < 224" "128 \<le> b1" "b1 < 192" and n: "n = (b0 - 192) * 64 + (b1 - 128)"
  shows "\<exists>d'. after_char d n 2 d' \<and> utf8_loop s e dend False False p d =
    (if dec_j d + 1 \<ge> dend then d' else utf8_loop s e dend False False p d')"
proof -
  let ?d1 = "d\<lparr>dec_delta := 1, dec_state := 1, dec_nextbits := 0, dec_v := b0 - 192\<rparr>"
  have 1: "utf8_loop s e dend False False p d = utf8_loop s e dend False False p ?d1"
    using loop_more[of d e p s 1 0 "b0 - 192" dend False False] d b step_lead2[OF r(1,2)] by (simp add: clean_def)
  have "(b0 - 192) * 64 + (b1 - 128) < 2048" using r by linarith
  then have "scalar ((b0 - 192) * 64 + (b1 - 128))" by (simp add: scalar_def)
  from step_cont(2)[OF r(3,4) _ this, of 0 p] n
  have "utf8_step p b1 1 0 (b0 - 192) = Produce n False 0" by simp
  with loop_produce[of ?d1 e p s n 0 dend] d b obtain d' where "after_char d n 2 d'"
    "utf8_loop s e dend False False p ?d1 = (if dec_j d + 1 \<ge> dend then d' else utf8_loop s e dend False False p d')"
    by (auto simp: clean_def after_char_def plus_Suc)
  with 1 show ?thesis by metis
qed

lemma one_char3:
  assumes d: "clean d" "dec_oki d + 2 < e"
    and b: "unat (s ! dec_oki d) = b0" "unat (s ! (dec_oki d + 1)) = b1" "unat (s ! (dec_oki d + 2)) = b2"
    and r: "224 \<le> b0" "b0 < 240" "128 \<le> b1" "b1 < 192" "128 \<le> b2" "b2 < 192" "b0 = 224 \<Longrightarrow> 160 \<le> b1"
    and n: "n = ((b0 - 224) * 64 + (b1 - 128)) * 64 + (b2 - 128)" "scalar n"
  shows "\<exists>d'. after_char d n 3 d' \<and> utf8_loop s e dend False False p d =
    (if dec_j d + 1 \<ge> dend then d' else utf8_loop s e dend False False p d')"
proof -
  let ?nb = "if b0 = 224 then 0x20 else 0 :: nat"
  let ?d1 = "d\<lparr>dec_delta := 1, dec_state := 2, dec_nextbits := ?nb, dec_v := b0 - 224\<rparr>"
  let ?v2 = "(b0 - 224) * 64 + (b1 - 128)"
  let ?d2 = "d\<lparr>dec_delta := 2, dec_state := 1, dec_nextbits := 0, dec_v := ?v2\<rparr>"
  have 1: "utf8_loop s e dend False False p d = utf8_loop s e dend False False p ?d1"
    using loop_more[of d e p s 2 ?nb "b0 - 224" dend False False] d b step_lead3[OF r(1,2)] by (simp add: clean_def)
  have "?nb = 0 \<or> b1 AND ?nb \<noteq> 0" using r byte_classes(6)[of b1] by auto
  from step_cont(1)[OF r(3,4) this, of 2 p "b0 - 224"]
  have "utf8_step p b1 2 ?nb (b0 - 224) = More 1 0 ?v2" by simp
  with loop_more[of ?d1 e p s 1 0 ?v2 dend False False] d b
  have 2: "utf8_loop s e dend False False p ?d1 = utf8_loop s e dend False False p ?d2"
    by (simp add: clean_def numeral_2_eq_2)
  from step_cont(2)[OF r(5,6), of 0 ?v2 p] n
  have "utf8_step p b2 1 0 ?v2 = Produce n False 0" by simp
  with loop_produce[of ?d2 e p s n 0 dend] d b obtain d' where "after_char d n 3 d'"
    "utf8_loop s e dend False False p ?d2 = (if dec_j d + 1 \<ge> dend then d' else utf8_loop s e dend False False p d')"
    by (auto simp: clean_def after_char_def plus_Suc)
  with 1 2 show ?thesis by metis
qed

lemma one_char4:
  assumes d: "clean d" "dec_oki d + 3 < e"
    and b: "unat (s ! dec_oki d) = b0" "unat (s ! (dec_oki d + 1)) = b1" "unat (s ! (dec_oki d + 2)) = b2"
      "unat (s ! (dec_oki d + 3)) = b3"
    and r: "240 \<le> b0" "b0 \<le> 244" "128 \<le> b1" "b1 < 192" "128 \<le> b2" "b2 < 192" "128 \<le> b3" "b3 < 192"
      "b0 = 240 \<Longrightarrow> 144 \<le> b1"
    and n: "n = (((b0 - 240) * 64 + (b1 - 128)) * 64 + (b2 - 128)) * 64 + (b3 - 128)" "scalar n"
  shows "\<exists>d'. after_char d n 4 d' \<and> utf8_loop s e dend False False p d =
    (if dec_j d + 1 \<ge> dend then d' else utf8_loop s e dend False False p d')"
proof -
  let ?nb = "if b0 = 240 then 0x30 else 0 :: nat"
  let ?d1 = "d\<lparr>dec_delta := 1, dec_state := 3, dec_nextbits := ?nb, dec_v := b0 - 240\<rparr>"
  let ?v2 = "(b0 - 240) * 64 + (b1 - 128)"
  let ?v3 = "?v2 * 64 + (b2 - 128)"
  let ?d2 = "d\<lparr>dec_delta := 2, dec_state := 2, dec_nextbits := 0, dec_v := ?v2\<rparr>"
  let ?d3 = "d\<lparr>dec_delta := 3, dec_state := 1, dec_nextbits := 0, dec_v := ?v3\<rparr>"
  have 1: "utf8_loop s e dend False False p d = utf8_loop s e dend False False p ?d1"
    using loop_more[of d e p s 3 ?nb "b0 - 240" dend False False] d b step_lead4[OF r(1,2)] by (simp add: clean_def)
  have "?nb = 0 \<or> b1 AND ?nb \<noteq> 0" using r byte_classes(7)[of b1] by auto
  from step_cont(1)[OF r(3,4) this, of 3 p "b0 - 240"]
  have "utf8_step p b1 3 ?nb (b0 - 240) = More 2 0 ?v2" by simp
  with loop_more[of ?d1 e p s 2 0 ?v2 dend False False] d b
  have 2: "utf8_loop s e dend False False p ?d1 = utf8_loop s e dend False False p ?d2"
    by (simp add: clean_def numeral_2_eq_2)
  from step_cont(1)[OF r(5,6), of 0 2 p ?v2]
  have "utf8_step p b2 2 0 ?v2 = More 1 0 ?v3" by simp
  with loop_more[of ?d2 e p s 1 0 ?v3 dend False False] d b
  have 3: "utf8_loop s e dend False False p ?d2 = utf8_loop s e dend False False p ?d3"
    by (simp add: clean_def numeral_3_eq_3 numeral_2_eq_2)
  from step_cont(2)[OF r(7,8), of 0 ?v3 p] n
  have "utf8_step p b3 1 0 ?v3 = Produce n False 0" by simp
  with loop_produce[of ?d3 e p s n 0 dend] d b obtain d' where "after_char d n 4 d'"
    "utf8_loop s e dend False False p ?d3 = (if dec_j d + 1 \<ge> dend then d' else utf8_loop s e dend False False p d')"
    by (auto simp: clean_def after_char_def plus_Suc)
  with 1 2 3 show ?thesis by metis
qed

subsection \<open>Characters\<close>

lemma div_split: "n = n div 64 * 64 + n mod 64" "n div 4096 = n div 64 div 64" "n div 262144 = n div 64 div 64 div 64"
  for n :: nat
  by (simp_all add: div_mult2_eq[symmetric])

lemma one_char:
  assumes d: "clean d" and n: "scalar n" and b: "bytes_at s (dec_oki d) (char_bytes n)"
    and e: "dec_oki d + length (char_bytes n) \<le> e"
  shows "\<exists>d'. after_char d n (length (char_bytes n)) d' \<and> utf8_loop s e dend False False p d =
    (if dec_j d + 1 \<ge> dend then d' else utf8_loop s e dend False False p d')"
proof -
  consider (1) "n < 0x80" | (2) "0x80 \<le> n" "n < 0x800" | (3) "0x800 \<le> n" "n < 0x10000" | (4) "0x10000 \<le> n" "n < 0x110000"
    using n unfolding scalar_def by linarith
  then show ?thesis
  proof cases
    case 1
    with b e have "unat (s ! dec_oki d) = n" "dec_oki d < e" by (simp_all add: char_bytes_def bytes_at_simps)
    with one_char1[OF d, of e s n dend p] 1 show ?thesis by (simp add: char_bytes_def)
  next
    case 2
    then have L: "char_bytes n = [192 + n div 64, 128 + n mod 64]" by (simp add: char_bytes_def)
    have r: "194 \<le> 192 + n div 64" "192 + n div 64 < 224" "128 + n mod 64 < 192" using 2 by auto
    from b L have bs: "unat (s ! dec_oki d) = 192 + n div 64" "unat (s ! (dec_oki d + 1)) = 128 + n mod 64"
      by (simp_all add: bytes_at_simps)
    have "\<exists>d'. after_char d n 2 d' \<and> utf8_loop s e dend False False p d =
        (if dec_j d + 1 \<ge> dend then d' else utf8_loop s e dend False False p d')"
      by (rule one_char2[OF d _ bs]) (use e L r in simp_all)
    with L show ?thesis by (simp add: numeral_2_eq_2)
  next
    case 3
    then have L: "char_bytes n = [224 + n div 4096, 128 + n div 64 mod 64, 128 + n mod 64]"
      by (simp add: char_bytes_def)
    have r: "224 + n div 4096 < 240" "224 + n div 4096 = 224 \<Longrightarrow> 160 \<le> 128 + n div 64 mod 64"
    proof -
      show "224 + n div 4096 < 240" using 3 by auto
      assume "224 + n div 4096 = 224"
      then have "n div 64 mod 64 = n div 64" "32 \<le> n div 64" using 3 by auto
      then show "160 \<le> 128 + n div 64 mod 64" by simp
    qed
    from b L have bs: "unat (s ! dec_oki d) = 224 + n div 4096" "unat (s ! (dec_oki d + 1)) = 128 + n div 64 mod 64"
      "unat (s ! (dec_oki d + 2)) = 128 + n mod 64" by (simp_all add: bytes_at_simps numeral_2_eq_2)
    have nn: "n = ((224 + n div 4096 - 224) * 64 + (128 + n div 64 mod 64 - 128)) * 64 + (128 + n mod 64 - 128)"
      using div_split(1)[of n] div_split(1)[of "n div 64"] div_split(2)[of n] by simp
    have "\<exists>d'. after_char d n 3 d' \<and> utf8_loop s e dend False False p d =
        (if dec_j d + 1 \<ge> dend then d' else utf8_loop s e dend False False p d')"
      by (rule one_char3[OF d _ bs _ _ _ _ _ _ _ nn n]) (use e L r in simp_all)
    with L show ?thesis by (simp add: numeral_3_eq_3)
  next
    case 4
    then have L: "char_bytes n = [240 + n div 262144, 128 + n div 4096 mod 64, 128 + n div 64 mod 64, 128 + n mod 64]"
      by (simp add: char_bytes_def)
    have r: "240 + n div 262144 \<le> 244" "240 + n div 262144 = 240 \<Longrightarrow> 144 \<le> 128 + n div 4096 mod 64"
    proof -
      show "240 + n div 262144 \<le> 244" using 4 by auto
      assume "240 + n div 262144 = 240"
      then have "n div 4096 mod 64 = n div 4096" "16 \<le> n div 4096" using 4 by auto
      then show "144 \<le> 128 + n div 4096 mod 64" by simp
    qed
    from b L have bs: "unat (s ! dec_oki d) = 240 + n div 262144"
      "unat (s ! (dec_oki d + 1)) = 128 + n div 4096 mod 64"
      "unat (s ! (dec_oki d + 2)) = 128 + n div 64 mod 64"
      "unat (s ! (dec_oki d + 3)) = 128 + n mod 64" by (simp_all add: bytes_at_simps numeral_2_eq_2 numeral_3_eq_3)
    have nn: "n = (((240 + n div 262144 - 240) * 64 + (128 + n div 4096 mod 64 - 128)) * 64
        + (128 + n div 64 mod 64 - 128)) * 64 + (128 + n mod 64 - 128)"
      using div_split(1)[of n] div_split(1)[of "n div 64"] div_split(1)[of "n div 64 div 64"] div_split(2,3)[of n]
      by simp
    have "\<exists>d'. after_char d n 4 d' \<and> utf8_loop s e dend False False p d =
        (if dec_j d + 1 \<ge> dend then d' else utf8_loop s e dend False False p d')"
      by (rule one_char4[OF d _ bs _ _ _ _ _ _ _ _ _ nn n]) (use e L r in simp_all)
    moreover have "length (char_bytes n) = 4" by (simp add: L)
    ultimately show ?thesis by metis
  qed
qed

lemma byte_less: "unat (b :: u8) < 256"
  by (rule order_less_le_trans[OF unsigned_less]) simp

lemma strict_fail: "bad_sequence 0 r nb = Enc_Fail"
  by (simp add: bad_sequence_def)

text \<open>What a turn of the strict decoder leaves when it does not produce a character: it is in
  the middle of one at the end of the input, or it fails.\<close>

definition strict_stop :: "nat \<Rightarrow> decoding \<Rightarrow> bool" where
  "strict_stop e r \<longleftrightarrow> dec_state r \<noteq> 0 \<or>
     dec_state r = 0 \<and> dec_fail r = -2 \<and> dec_oki r + dec_delta r < e"

lemma stop_end: "dec_state d \<noteq> 0 \<Longrightarrow> \<not> dec_oki d + dec_delta d < e \<Longrightarrow>
    strict_stop e (utf8_loop s e dend False False 0 d)"
  by (simp add: loop_end strict_stop_def)

lemma stop_fail:
  assumes "dec_oki d + dec_delta d < e"
    and "utf8_step 0 (unat (s ! (dec_oki d + dec_delta d))) (dec_state d) (dec_nextbits d) (dec_v d) = bad_sequence 0 r nb"
  shows "strict_stop e (utf8_loop s e dend False False 0 d)"
  using loop_fail[of d e 0 s dend False False] assms by (simp add: strict_fail strict_stop_def)

text \<open>A continuation byte that is wanted: either it continues, or the decoder stops.\<close>

lemma cont_or_stop:
  assumes st: "dec_state d \<noteq> 0"
    and no: "\<not> (dec_oki d + dec_delta d < e \<and> 128 \<le> unat (s ! (dec_oki d + dec_delta d)) \<and>
       unat (s ! (dec_oki d + dec_delta d)) < 192 \<and>
       (dec_nextbits d = 0 \<or> unat (s ! (dec_oki d + dec_delta d)) AND dec_nextbits d \<noteq> 0))"
  shows "strict_stop e (utf8_loop s e dend False False 0 d)"
proof (cases "dec_oki d + dec_delta d < e")
  case False
  with st show ?thesis by (rule stop_end)
next
  case True
  let ?b = "unat (s ! (dec_oki d + dec_delta d))"
  have b: "?b < 256" by (rule byte_less)
  show ?thesis
  proof (cases "128 \<le> ?b \<and> ?b < 192")
    case c: True
    with no True have "dec_nextbits d \<noteq> 0" "?b AND dec_nextbits d = 0" by auto
    with stop_fail[OF True step_missing[of ?b]] c st show ?thesis by blast
  next
    case False
    from step_broken[OF b st this] obtain nb'
      where "utf8_step 0 ?b (dec_state d) (dec_nextbits d) (dec_v d) = bad_sequence 0 True nb'" by blast
    from stop_fail[OF True this] show ?thesis .
  qed
qed


text \<open>The other direction: a turn either stops or has read one character.\<close>

lemma join64: "y < 64 \<Longrightarrow> (x * 64 + y) div 64 = x" "y < 64 \<Longrightarrow> (x * 64 + y) mod 64 = y" for x y :: nat
  by simp_all

lemma cont_join:
  "128 \<le> b \<Longrightarrow> b < 192 \<Longrightarrow> (x * 64 + (b - 128)) div 64 = x"
  "128 \<le> b \<Longrightarrow> b < 192 \<Longrightarrow> (x * 64 + (b - 128)) mod 64 = b - 128" for x b :: nat
  by (rule join64, simp)+

lemma char_bytes_digits:
  fixes x0 x1 x2 x3 :: nat
  shows "2 \<le> x0 \<Longrightarrow> x0 < 32 \<Longrightarrow> x1 < 64 \<Longrightarrow> char_bytes (x0 * 64 + x1) = [192 + x0, 128 + x1]"
    and "x0 < 16 \<Longrightarrow> x1 < 64 \<Longrightarrow> x2 < 64 \<Longrightarrow> x0 = 0 \<longrightarrow> 32 \<le> x1 \<Longrightarrow>
      char_bytes ((x0 * 64 + x1) * 64 + x2) = [224 + x0, 128 + x1, 128 + x2]"
    and "x0 < 8 \<Longrightarrow> x1 < 64 \<Longrightarrow> x2 < 64 \<Longrightarrow> x3 < 64 \<Longrightarrow> x0 = 0 \<longrightarrow> 16 \<le> x1 \<Longrightarrow>
      char_bytes (((x0 * 64 + x1) * 64 + x2) * 64 + x3) = [240 + x0, 128 + x1, 128 + x2, 128 + x3]"
proof -
  assume a: "2 \<le> x0" "x0 < 32" "x1 < 64"
  then have "128 \<le> x0 * 64 + x1" "x0 * 64 + x1 < 2048" by linarith+
  then show "char_bytes (x0 * 64 + x1) = [192 + x0, 128 + x1]"
    using join64[OF a(3), of x0] by (simp add: char_bytes_def)
next
  assume a: "x0 < 16" "x1 < 64" "x2 < 64" "x0 = 0 \<longrightarrow> 32 \<le> x1"
  have m: "32 \<le> x0 * 64 + x1" "x0 * 64 + x1 < 1024" using a by (cases "x0 = 0"; linarith)+
  define n where "n = (x0 * 64 + x1) * 64 + x2"
  have "32 * 64 \<le> (x0 * 64 + x1) * 64" "(x0 * 64 + x1) * 64 \<le> 1023 * 64" using m by simp_all
  then have n: "2048 \<le> n" "n < 65536" using a(3) unfolding n_def by simp_all
  have "n div 64 = x0 * 64 + x1" "n mod 64 = x2" unfolding n_def by (rule join64[OF a(3)])+
  then show "char_bytes ((x0 * 64 + x1) * 64 + x2) = [224 + x0, 128 + x1, 128 + x2]"
    using n join64[OF a(2), of x0] unfolding n_def[symmetric]
    by (simp add: char_bytes_def div_split(2))
next
  assume a: "x0 < 8" "x1 < 64" "x2 < 64" "x3 < 64" "x0 = 0 \<longrightarrow> 16 \<le> x1"
  have m: "16 \<le> x0 * 64 + x1" using a by (cases "x0 = 0"; linarith)
  define p where "p = (x0 * 64 + x1) * 64 + x2"
  define n where "n = p * 64 + x3"
  have "16 * 64 \<le> (x0 * 64 + x1) * 64" using m by simp
  then have "16 * 64 * 64 \<le> p * 64" unfolding p_def by simp
  then have n: "65536 \<le> n" unfolding n_def by simp
  have "n div 64 = p" "n mod 64 = x3" unfolding n_def by (rule join64[OF a(4)])+
  moreover have "p div 64 = x0 * 64 + x1" "p mod 64 = x2" unfolding p_def by (rule join64[OF a(3)])+
  ultimately show "char_bytes (((x0 * 64 + x1) * 64 + x2) * 64 + x3) = [240 + x0, 128 + x1, 128 + x2, 128 + x3]"
    using n join64[OF a(2), of x0] unfolding p_def[symmetric] unfolding n_def[symmetric]
    by (simp add: char_bytes_def div_split(2,3))
qed

lemma char_bytes_2:
  assumes "194 \<le> b0" "b0 < 224" "128 \<le> b1" "b1 < 192"
  shows "char_bytes ((b0 - 192) * 64 + (b1 - 128)) = [b0, b1] \<and> scalar ((b0 - 192) * 64 + (b1 - 128))"
proof -
  have "2 \<le> b0 - 192" "b0 - 192 < 32" "b1 - 128 < 64" using assms by linarith+
  from char_bytes_digits(1)[OF this] this assms show ?thesis by (auto simp: scalar_def)
qed

lemma char_bytes_3:
  assumes "224 \<le> b0" "b0 < 240" "128 \<le> b1" "b1 < 192" "128 \<le> b2" "b2 < 192" "b0 = 224 \<Longrightarrow> 160 \<le> b1"
  shows "char_bytes (((b0 - 224) * 64 + (b1 - 128)) * 64 + (b2 - 128)) = [b0, b1, b2]"
proof -
  have "b0 - 224 < 16" "b1 - 128 < 64" "b2 - 128 < 64" using assms by linarith+
  moreover have "b0 - 224 = 0 \<longrightarrow> 32 \<le> b1 - 128" using assms(1,7) by auto
  ultimately have "char_bytes (((b0 - 224) * 64 + (b1 - 128)) * 64 + (b2 - 128)) =
      [224 + (b0 - 224), 128 + (b1 - 128), 128 + (b2 - 128)]" by (rule char_bytes_digits(2))
  then show ?thesis using assms(1,3,5) by (simp only: le_add_diff_inverse)
qed

lemma char_bytes_4:
  assumes "240 \<le> b0" "b0 \<le> 244" "128 \<le> b1" "b1 < 192" "128 \<le> b2" "b2 < 192" "128 \<le> b3" "b3 < 192"
    "b0 = 240 \<Longrightarrow> 144 \<le> b1"
  shows "char_bytes ((((b0 - 240) * 64 + (b1 - 128)) * 64 + (b2 - 128)) * 64 + (b3 - 128)) = [b0, b1, b2, b3]"
proof -
  have "b0 - 240 < 8" "b1 - 128 < 64" "b2 - 128 < 64" "b3 - 128 < 64" using assms by linarith+
  moreover have "b0 - 240 = 0 \<longrightarrow> 16 \<le> b1 - 128" using assms(1,9) by auto
  ultimately have "char_bytes ((((b0 - 240) * 64 + (b1 - 128)) * 64 + (b2 - 128)) * 64 + (b3 - 128)) =
      [240 + (b0 - 240), 128 + (b1 - 128), 128 + (b2 - 128), 128 + (b3 - 128)]" by (rule char_bytes_digits(3))
  then show ?thesis using assms(1,3,5,7) by (simp only: le_add_diff_inverse)
qed

definition read_char :: "u8 list \<Rightarrow> nat \<Rightarrow> nat \<Rightarrow> decoding \<Rightarrow> bool" where
  "read_char s e dend d \<longleftrightarrow> (\<exists>n d'. scalar n \<and> bytes_at s (dec_oki d) (char_bytes n) \<and>
     dec_oki d + length (char_bytes n) \<le> e \<and> after_char d n (length (char_bytes n)) d' \<and>
     utf8_loop s e dend False False 0 d =
       (if dec_j d + 1 \<ge> dend then d' else utf8_loop s e dend False False 0 d'))"

lemma read_charI:
  assumes "clean d" "scalar n" "bytes_at s (dec_oki d) (char_bytes n)" "dec_oki d + length (char_bytes n) \<le> e"
  shows "read_char s e dend d"
  using one_char[OF assms, of dend 0] assms unfolding read_char_def by blast

lemma clean_turn:
  assumes d: "clean d" and e: "dec_oki d < e"
  shows "strict_stop e (utf8_loop s e dend False False 0 d) \<or> read_char s e dend d"
proof -
  let ?b = "\<lambda>k. unat (s ! (dec_oki d + k))"
  have zero: "dec_delta d = 0" "dec_state d = 0" "dec_nextbits d = 0" using d by (simp_all add: clean_def)
  have b0: "?b 0 < 256" by (rule byte_less)
  consider (ascii) "?b 0 < 128" | (bad) "128 \<le> ?b 0 \<and> ?b 0 < 194 \<or> 244 < ?b 0"
    | (two) "194 \<le> ?b 0" "?b 0 < 224" | (three) "224 \<le> ?b 0" "?b 0 < 240" | (four) "240 \<le> ?b 0" "?b 0 \<le> 244"
    by linarith
  then show ?thesis
  proof cases
    case ascii
    then have "scalar (?b 0)" "bytes_at s (dec_oki d) (char_bytes (?b 0))" "length (char_bytes (?b 0)) = 1"
      by (simp_all add: scalar_def char_bytes_def bytes_at_simps)
    with read_charI[OF d, of "?b 0"] e show ?thesis by simp
  next
    case bad
    from stop_fail[of d e s False 0] step_bad_lead[OF b0 bad] e zero show ?thesis by simp
  next
    case two
    let ?d1 = "d\<lparr>dec_delta := 1, dec_state := 1, dec_nextbits := 0, dec_v := ?b 0 - 192\<rparr>"
    have 1: "utf8_loop s e dend False False 0 d = utf8_loop s e dend False False 0 ?d1"
      using loop_more[of d e 0 s 1 0 "?b 0 - 192" dend False False] e zero step_lead2[OF two] by simp
    show ?thesis
    proof (cases "dec_oki d + 1 < e \<and> 128 \<le> ?b 1 \<and> ?b 1 < 192")
      case False
      have "strict_stop e (utf8_loop s e dend False False 0 ?d1)"
        by (rule cont_or_stop) (use False in auto)
      with 1 show ?thesis by simp
    next
      case True
      from char_bytes_2[OF two, of "?b 1"] True
      have cb: "char_bytes ((?b 0 - 192) * 64 + (?b 1 - 128)) = [?b 0, ?b 1]"
        and sc: "scalar ((?b 0 - 192) * 64 + (?b 1 - 128))" by blast+
      have "read_char s e dend d"
        by (rule read_charI[OF d sc]) (use True in \<open>simp_all only: cb bytes_at_234, simp_all\<close>)
      then show ?thesis ..
    qed
  next
    case three
    let ?nb = "if ?b 0 = 224 then 0x20 else 0 :: nat"
    let ?d1 = "d\<lparr>dec_delta := 1, dec_state := 2, dec_nextbits := ?nb, dec_v := ?b 0 - 224\<rparr>"
    let ?v2 = "(?b 0 - 224) * 64 + (?b 1 - 128)"
    let ?d2 = "d\<lparr>dec_delta := 2, dec_state := 1, dec_nextbits := 0, dec_v := ?v2\<rparr>"
    have 1: "utf8_loop s e dend False False 0 d = utf8_loop s e dend False False 0 ?d1"
      using loop_more[of d e 0 s 2 ?nb "?b 0 - 224" dend False False] e zero step_lead3[OF three] by simp
    show ?thesis
    proof (cases "dec_oki d + 1 < e \<and> 128 \<le> ?b 1 \<and> ?b 1 < 192 \<and> (?nb = 0 \<or> ?b 1 AND ?nb \<noteq> 0)")
      case False
      have "strict_stop e (utf8_loop s e dend False False 0 ?d1)"
        by (rule cont_or_stop) (use False in auto)
      with 1 show ?thesis by simp
    next
      case c1: True
      then have "utf8_step 0 (?b 1) 2 ?nb (?b 0 - 224) = More 1 0 ?v2"
        using step_cont(1)[of "?b 1" ?nb 2 0 "?b 0 - 224"] by simp
      with loop_more[of ?d1 e 0 s 1 0 ?v2 dend False False] c1
      have 2: "utf8_loop s e dend False False 0 d = utf8_loop s e dend False False 0 ?d2"
        by (simp add: 1 numeral_2_eq_2)
      show ?thesis
      proof (cases "dec_oki d + 2 < e \<and> 128 \<le> ?b 2 \<and> ?b 2 < 192")
        case False
        have "strict_stop e (utf8_loop s e dend False False 0 ?d2)"
          by (rule cont_or_stop) (use False in auto)
        with 2 show ?thesis by simp
      next
        case c2: True
        let ?n = "?v2 * 64 + (?b 2 - 128)"
        show ?thesis
        proof (cases "scalar ?n")
          case True
          have over: "?b 0 = 224 \<Longrightarrow> 160 \<le> ?b 1" using c1 byte_classes(6)[of "?b 1"] by auto
          have cb: "char_bytes ?n = [?b 0, ?b 1, ?b 2]"
            by (rule char_bytes_3) (use three c1 c2 over in auto)
          have "read_char s e dend d"
            by (rule read_charI[OF d True]) (use c2 in \<open>simp_all only: cb bytes_at_234, simp_all\<close>)
          then show ?thesis ..
        next
          case False
          from step_cont(3)[OF _ _ _ False, of 0 0] c2
          have "utf8_step 0 (?b 2) 1 0 ?v2 = bad_sequence 0 True 0" by simp
          with stop_fail[of ?d2 e s True 0 dend] c2 2 show ?thesis by simp
        qed
      qed
    qed
  next
    case four
    let ?nb = "if ?b 0 = 240 then 0x30 else 0 :: nat"
    let ?v2 = "(?b 0 - 240) * 64 + (?b 1 - 128)"
    let ?v3 = "?v2 * 64 + (?b 2 - 128)"
    let ?d1 = "d\<lparr>dec_delta := 1, dec_state := 3, dec_nextbits := ?nb, dec_v := ?b 0 - 240\<rparr>"
    let ?d2 = "d\<lparr>dec_delta := 2, dec_state := 2, dec_nextbits := 0, dec_v := ?v2\<rparr>"
    let ?d3 = "d\<lparr>dec_delta := 3, dec_state := 1, dec_nextbits := 0, dec_v := ?v3\<rparr>"
    have 1: "utf8_loop s e dend False False 0 d = utf8_loop s e dend False False 0 ?d1"
      using loop_more[of d e 0 s 3 ?nb "?b 0 - 240" dend False False] e zero step_lead4[OF four] by simp
    show ?thesis
    proof (cases "dec_oki d + 1 < e \<and> 128 \<le> ?b 1 \<and> ?b 1 < 192 \<and> (?nb = 0 \<or> ?b 1 AND ?nb \<noteq> 0)")
      case False
      have "strict_stop e (utf8_loop s e dend False False 0 ?d1)"
        by (rule cont_or_stop) (use False in auto)
      with 1 show ?thesis by simp
    next
      case c1: True
      then have "utf8_step 0 (?b 1) 3 ?nb (?b 0 - 240) = More 2 0 ?v2"
        using step_cont(1)[of "?b 1" ?nb 3 0 "?b 0 - 240"] by simp
      with loop_more[of ?d1 e 0 s 2 0 ?v2 dend False False] c1
      have 2: "utf8_loop s e dend False False 0 d = utf8_loop s e dend False False 0 ?d2"
        by (simp add: 1 numeral_2_eq_2)
      show ?thesis
      proof (cases "dec_oki d + 2 < e \<and> 128 \<le> ?b 2 \<and> ?b 2 < 192")
        case False
        have "strict_stop e (utf8_loop s e dend False False 0 ?d2)"
          by (rule cont_or_stop) (use False in auto)
        with 2 show ?thesis by simp
      next
        case c2: True
        then have "utf8_step 0 (?b 2) 2 0 ?v2 = More 1 0 ?v3"
          using step_cont(1)[of "?b 2" 0 2 0 ?v2] by simp
        with loop_more[of ?d2 e 0 s 1 0 ?v3 dend False False] c2
        have 3: "utf8_loop s e dend False False 0 d = utf8_loop s e dend False False 0 ?d3"
          by (simp add: 2 numeral_3_eq_3 numeral_2_eq_2)
        show ?thesis
        proof (cases "dec_oki d + 3 < e \<and> 128 \<le> ?b 3 \<and> ?b 3 < 192")
          case False
          have "strict_stop e (utf8_loop s e dend False False 0 ?d3)"
            by (rule cont_or_stop) (use False in auto)
          with 3 show ?thesis by simp
        next
          case c3: True
          let ?n = "?v3 * 64 + (?b 3 - 128)"
          show ?thesis
          proof (cases "scalar ?n")
            case True
            have over: "?b 0 = 240 \<Longrightarrow> 144 \<le> ?b 1" using c1 byte_classes(7)[of "?b 1"] by auto
            have cb: "char_bytes ?n = [?b 0, ?b 1, ?b 2, ?b 3]"
              by (rule char_bytes_4) (use four c1 c2 c3 over in auto)
            have "read_char s e dend d"
              by (rule read_charI[OF d True]) (use c3 in \<open>simp_all only: cb bytes_at_234, simp_all\<close>)
            then show ?thesis ..
          next
            case False
            from step_cont(3)[OF _ _ _ False, of 0 0] c3
            have "utf8_step 0 (?b 3) 1 0 ?v3 = bad_sequence 0 True 0" by simp
            with stop_fail[of ?d3 e s True 0 dend] c3 3 show ?thesis by simp
          qed
        qed
      qed
    qed
  qed
qed

subsection \<open>Whole strings\<close>

fun chars_at :: "u8 list \<Rightarrow> nat \<Rightarrow> nat \<Rightarrow> nat list \<Rightarrow> bool" where
  "chars_at s p e [] \<longleftrightarrow> p = e"
| "chars_at s p e (n # ns) \<longleftrightarrow> scalar n \<and> bytes_at s p (char_bytes n) \<and> chars_at s (p + length (char_bytes n)) e ns"

lemma chars_at_le: "chars_at s p e ns \<Longrightarrow> p \<le> e"
  by (induction ns arbitrary: p) fastforce+

lemma char_bytes_pos: "0 < length (char_bytes n)"
  by (simp add: char_bytes_def)

lemma bytes_at_drop:
  "p + length bs \<le> length s \<Longrightarrow> bytes_at s p bs \<longleftrightarrow> map unat (drop p s) = bs @ map unat (drop (p + length bs) s)"
proof (induction bs arbitrary: p)
  case (Cons b bs)
  then have "drop p s = s ! p # drop (Suc p) s" by (simp add: Cons_nth_drop_Suc)
  with Cons show ?case by (auto simp: bytes_at_simps)
qed (simp add: bytes_at_simps)

lemma chars_at_iff:
  "p \<le> length s \<Longrightarrow> chars_at s p (length s) ns \<longleftrightarrow>
    (\<forall>n \<in> set ns. scalar n) \<and> map unat (drop p s) = concat (map char_bytes ns)"
proof (induction ns arbitrary: p)
  case (Cons n ns)
  show ?case
  proof (cases "p + length (char_bytes n) \<le> length s")
    case True
    have tl: "xs = map unat (drop (p + length (char_bytes n)) s)" if "map unat (drop p s) = char_bytes n @ xs" for xs
      using arg_cong[OF that, of "drop (length (char_bytes n))"] by (simp add: drop_map add.commute)
    show ?thesis using Cons(1)[OF True] bytes_at_drop[OF True] tl[of "concat (map char_bytes ns)"] by auto
  next
    case False
    have "length (map unat (drop p s)) < length (char_bytes n)" using False Cons(2) by simp
    then have "map unat (drop p s) \<noteq> char_bytes n @ concat (map char_bytes ns)" by fastforce
    with False chars_at_le[of s "p + length (char_bytes n)" "length s" ns] show ?thesis by auto
  qed
qed (auto simp: le_eq_less_or_eq)

text \<open>What the loop leaves when it has read all of \<open>ns\<close>.\<close>

definition all_read :: "decoding \<Rightarrow> nat \<Rightarrow> nat list \<Rightarrow> decoding \<Rightarrow> bool" where
  "all_read d e ns r \<longleftrightarrow> clean r \<and> dec_oki r = e \<and> dec_j r = dec_j d + length ns \<and>
     dec_out r = dec_out d @ map of_nat ns"

lemma all_read_step: "after_char d n len d' \<Longrightarrow> all_read d' e ns r \<Longrightarrow> all_read d e (n # ns) r"
  by (auto simp: all_read_def after_char_def)

lemma loop_valid:
  assumes "clean d" "chars_at s (dec_oki d) e ns" "dec_j d + length ns \<le> dend"
  shows "all_read d e ns (utf8_loop s e dend False False p d)"
  using assms
proof (induction ns arbitrary: d)
  case Nil
  then show ?case by (simp add: loop_end all_read_def clean_def)
next
  case (Cons n ns)
  let ?len = "length (char_bytes n)"
  from Cons(3) have c: "scalar n" "bytes_at s (dec_oki d) (char_bytes n)" "chars_at s (dec_oki d + ?len) e ns"
    by simp_all
  have "dec_oki d + ?len \<le> e" using chars_at_le[OF c(3)] .
  from one_char[OF Cons(2) c(1,2) this, of dend p] obtain d' where d': "after_char d n ?len d'"
    "utf8_loop s e dend False False p d = (if dec_j d + 1 \<ge> dend then d' else utf8_loop s e dend False False p d')"
    by blast
  then have f: "clean d'" "dec_oki d' = dec_oki d + ?len" "dec_j d' = dec_j d + 1" by (simp_all add: after_char_def)
  show ?case
  proof (cases "dec_j d + 1 \<ge> dend")
    case True
    with Cons(4) have "ns = []" by (cases ns) auto
    with c(3) f have "all_read d' e ns d'" by (simp add: all_read_def)
    with all_read_step[OF d'(1)] d'(2) True show ?thesis by simp
  next
    case False
    have "all_read d' e ns (utf8_loop s e dend False False p d')"
      by (rule Cons(1)[OF f(1)]) (use c(3) f Cons(4) in simp_all)
    with all_read_step[OF d'(1)] d'(2) False show ?thesis by simp
  qed
qed

lemma loop_strict:
  assumes "clean d" "dec_oki d \<le> e" "dec_j d + (e - dec_oki d) \<le> dend"
  shows "strict_stop e (utf8_loop s e dend False False 0 d) \<or>
    (\<exists>ns. chars_at s (dec_oki d) e ns \<and> length ns \<le> e - dec_oki d)"
  using assms
proof (induction "e - dec_oki d" arbitrary: d rule: less_induct)
  case less
  show ?case
  proof (cases "dec_oki d < e")
    case False
    with less(3) have "chars_at s (dec_oki d) e []" by simp
    then show ?thesis by (intro disjI2 exI[of _ "[]"]) simp
  next
    case True
    from clean_turn[OF less(2) True] show ?thesis
    proof
      assume "read_char s e dend d"
      then obtain n d' where n: "scalar n" "bytes_at s (dec_oki d) (char_bytes n)"
        "dec_oki d + length (char_bytes n) \<le> e" "after_char d n (length (char_bytes n)) d'"
        and run: "utf8_loop s e dend False False 0 d =
          (if dec_j d + 1 \<ge> dend then d' else utf8_loop s e dend False False 0 d')"
        unfolding read_char_def by blast
      then have f: "clean d'" "dec_oki d' = dec_oki d + length (char_bytes n)" "dec_j d' = dec_j d + 1"
        by (simp_all add: after_char_def)
      note pos = char_bytes_pos[of n]
      show ?thesis
      proof (cases "dec_j d + 1 \<ge> dend")
        case full: True
        with less(4) True n(3) pos have "dec_oki d + length (char_bytes n) = e" by linarith
        with n have "chars_at s (dec_oki d) e [n]" by simp
        then show ?thesis using True by (intro disjI2 exI[of _ "[n]"]) simp
      next
        case False
        have "strict_stop e (utf8_loop s e dend False False 0 d') \<or>
            (\<exists>ns. chars_at s (dec_oki d') e ns \<and> length ns \<le> e - dec_oki d')"
        proof (rule less(1))
          show "e - dec_oki d' < e - dec_oki d" using f(2) n(3) pos True by linarith
          show "dec_j d' + (e - dec_oki d') \<le> dend" using f(2,3) n(3) pos less(4) by linarith
        qed (use f n(3) in simp_all)
        then show ?thesis
        proof
          assume "strict_stop e (utf8_loop s e dend False False 0 d')"
          with run False show ?thesis by simp
        next
          assume "\<exists>ns. chars_at s (dec_oki d') e ns \<and> length ns \<le> e - dec_oki d'"
          then obtain ns where ns: "chars_at s (dec_oki d') e ns" "length ns \<le> e - dec_oki d'" by blast
          with n f have "chars_at s (dec_oki d) e (n # ns)" by simp
          moreover have "length (n # ns) \<le> e - dec_oki d" using ns(2) f(2) n(3) pos by (simp only: list.size)
          ultimately show ?thesis by blast
        qed
      qed
    qed blast
  qed
qed

lemma decode_all_unfold:
  "utf8_decode_x s 0 (Some (length s)) 0 None False False None mc p =
    (let d = utf8_loop s (length s) 0x7FFFFFFF False False p
           \<lparr>dec_oki = 0, dec_delta = 0, dec_j = 0, dec_state = 0, dec_init_doki = 0, dec_nextbits = 0,
            dec_v = 0, dec_out = [], dec_fail = -3\<rparr>
     in if dec_state d \<noteq> 0 then
          (if mc \<or> p = 0 then
             \<lparr>dec_return = -1, dec_ipos = dec_oki d, dec_jpos = dec_j d, dec_units = dec_out d, dec_newstate = 0\<rparr>
           else
             (let n = min (length s - dec_oki d) (0x7FFFFFFF - dec_j d)
              in \<lparr>dec_return = (if dec_oki d + n < length s then dec_fail d else int (dec_j d + n)),
                  dec_ipos = dec_oki d + n, dec_jpos = dec_j d + n,
                  dec_units = dec_out d @ replicate n (of_nat p), dec_newstate = 0\<rparr>))
        else
          \<lparr>dec_return = (if dec_oki d + dec_delta d < length s then dec_fail d else int (dec_j d)),
           dec_ipos = dec_oki d, dec_jpos = dec_j d, dec_units = dec_out d, dec_newstate = 0\<rparr>)"
  by (simp add: utf8_decode_x_def Let_def)

lemma decode_valid:
  assumes "\<forall>n \<in> set ns. scalar n" "map unat s = concat (map char_bytes ns)" "length s \<le> 0x7FFFFFFF"
  shows "dec_return (utf8_decode_x s 0 (Some (length s)) 0 None False False None mc p) = int (length ns) \<and>
    dec_units (utf8_decode_x s 0 (Some (length s)) 0 None False False None mc p) = map of_nat ns"
proof -
  have ch: "chars_at s 0 (length s) ns" using assms(1,2) chars_at_iff[of 0 s ns] by simp
  have "length ns \<le> length (concat (map char_bytes ns))"
  proof (induction ns)
    case (Cons n ns)
    with char_bytes_pos[of n] show ?case by (simp del: length_greater_0_conv)
  qed simp
  with assms(2,3) have len: "length ns \<le> 0x7FFFFFFF" by (metis le_trans length_map)
  let ?d0 = "\<lparr>dec_oki = 0, dec_delta = 0, dec_j = 0, dec_state = 0, dec_init_doki = 0, dec_nextbits = 0,
            dec_v = 0, dec_out = [], dec_fail = -3\<rparr>"
  have "clean ?d0" by (simp add: clean_def)
  then have "all_read ?d0 (length s) ns (utf8_loop s (length s) 0x7FFFFFFF False False p ?d0)"
    using ch len by (intro loop_valid) simp_all
  then show ?thesis by (simp add: decode_all_unfold all_read_def clean_def Let_def)
qed

lemma decode_strict:
  assumes "length s \<le> 0x7FFFFFFF" "0 \<le> dec_return (utf8_decode_x s 0 (Some (length s)) 0 None False False None mc 0)"
  shows "\<exists>ns. (\<forall>n \<in> set ns. scalar n) \<and> map unat s = concat (map char_bytes ns)"
proof -
  let ?d0 = "\<lparr>dec_oki = 0, dec_delta = 0, dec_j = 0, dec_state = 0, dec_init_doki = 0, dec_nextbits = 0,
            dec_v = 0, dec_out = [], dec_fail = -3\<rparr>"
  have "clean ?d0" by (simp add: clean_def)
  then have "strict_stop (length s) (utf8_loop s (length s) 0x7FFFFFFF False False 0 ?d0) \<or>
      (\<exists>ns. chars_at s (dec_oki ?d0) (length s) ns \<and> length ns \<le> length s - dec_oki ?d0)"
    using assms(1) by (intro loop_strict) simp_all
  then have "strict_stop (length s) (utf8_loop s (length s) 0x7FFFFFFF False False 0 ?d0) \<or>
      (\<exists>ns. chars_at s 0 (length s) ns)" by auto
  moreover have "\<not> strict_stop (length s) (utf8_loop s (length s) 0x7FFFFFFF False False 0 ?d0)"
    using assms(2) by (auto simp: decode_all_unfold strict_stop_def Let_def split: if_splits)
  ultimately show ?thesis using chars_at_iff[of 0 s] by auto
qed

subsection \<open>The encoder\<close>

lemma or_field: "x < 2 ^ k \<Longrightarrow> (c * 2 ^ k) OR x = c * 2 ^ k + x" for x c :: nat
proof -
  assume x: "x < 2 ^ k"
  let ?y = "c * 2 ^ k + x"
  have "drop_bit k ?y = c" "take_bit k ?y = x"
    using x by (simp_all add: drop_bit_eq_div take_bit_eq_mod)
  moreover have "push_bit k (drop_bit k ?y) OR take_bit k ?y = ?y"
    by (rule bit_eqI) (auto simp: bit_or_iff bit_push_bit_iff bit_drop_bit_eq bit_take_bit_iff not_less)
  ultimately show ?thesis by (simp add: push_bit_eq_mult)
qed

lemma lead_fields:
  "x < 32 \<Longrightarrow> 0xC0 OR x = 192 + x" "x < 16 \<Longrightarrow> 0xE0 OR x = 224 + x" "x < 8 \<Longrightarrow> 0xF0 OR x = 240 + x"
  "x < 64 \<Longrightarrow> 0x80 OR x = 128 + x" for x :: nat
  using or_field[of x 5 6] or_field[of x 4 14] or_field[of x 3 30] or_field[of x 6 2] by simp_all

lemma shifted_fields:
  "drop_bit 6 (n AND 0x7C0) = n div 64 mod 32" "drop_bit 12 (n AND 0xF000) = n div 4096 mod 16"
  "drop_bit 6 (n AND 0xFC0) = n div 64 mod 64" "drop_bit 18 (n AND 0x1C0000) = n div 262144 mod 8"
  "drop_bit 12 (n AND 0x3F000) = n div 4096 mod 64" for n :: nat
proof -
  have e: "(0x7C0::nat) = push_bit 6 (mask 5)" "(0xF000::nat) = push_bit 12 (mask 4)" "(0xFC0::nat) = push_bit 6 (mask 6)"
    "(0x1C0000::nat) = push_bit 18 (mask 3)" "(0x3F000::nat) = push_bit 12 (mask 6)"
    by (simp_all add: mask_eq_exp_minus_1 push_bit_eq_mult)
  show "drop_bit 6 (n AND 0x7C0) = n div 64 mod 32" unfolding e(1) nat_and_field by (simp add: drop_bit_eq_div)
  show "drop_bit 12 (n AND 0xF000) = n div 4096 mod 16" unfolding e(2) nat_and_field by (simp add: drop_bit_eq_div)
  show "drop_bit 6 (n AND 0xFC0) = n div 64 mod 64" unfolding e(3) nat_and_field by (simp add: drop_bit_eq_div)
  show "drop_bit 18 (n AND 0x1C0000) = n div 262144 mod 8" unfolding e(4) nat_and_field by (simp add: drop_bit_eq_div)
  show "drop_bit 12 (n AND 0x3F000) = n div 4096 mod 64" unfolding e(5) nat_and_field by (simp add: drop_bit_eq_div)
qed

lemma unat_byte: "unat (ucast (w :: u32) :: u8) = unat w mod 256"
  by (simp add: unsigned_ucast_eq unsigned_take_bit_eq take_bit_eq_mod)

lemma unat_ops:
  "unat (a OR b) = unat a OR unat b" "unat (a AND b) = unat a AND unat b"
  "unat (drop_bit n a) = drop_bit n (unat a)" for a b :: u32
proof -
  have "take_bit 32 (unat a) = unat a" using unsigned_less[of a, where ?'a = nat] by (simp add: take_bit_nat_eq_self)
  then show "unat (drop_bit n a) = drop_bit n (unat a)" by (simp add: unsigned_drop_bit_eq)
qed (simp_all add: unsigned_or_eq unsigned_and_eq)

lemma utf8_bytes_char:
  assumes "unat wc < 0x110000"
  shows "map unat (utf8_bytes wc) = char_bytes (unat wc)"
proof -
  let ?n = "unat wc"
  have lt: "wc < 0x80 \<longleftrightarrow> ?n < 0x80" "wc < 0x800 \<longleftrightarrow> ?n < 0x800" "wc < 0x10000 \<longleftrightarrow> ?n < 0x10000"
    "wc < 0x200000" using assms by (simp_all add: word_less_nat_alt)
  have "?n div 262144 < 8" using assms by auto
  consider (1) "?n < 0x80" | (2) "0x80 \<le> ?n" "?n < 0x800" | (3) "0x800 \<le> ?n" "?n < 0x10000" | (4) "0x10000 \<le> ?n"
    by linarith
  then show ?thesis
  proof cases
    case 1
    then show ?thesis by (simp add: utf8_bytes_def char_bytes_def lt unat_byte)
  next
    case 2
    then have "?n div 64 < 32" by auto
    with 2 show ?thesis
      by (simp add: utf8_bytes_def char_bytes_def lt unat_byte unat_ops shifted_fields nat_and_bits
        lead_fields) (simp_all add: drop_bit_eq_div)?
  next
    case 3
    then have "?n div 4096 < 16" by auto
    with 3 show ?thesis
      by (simp add: utf8_bytes_def char_bytes_def lt unat_byte unat_ops shifted_fields nat_and_bits
        lead_fields) (simp_all add: drop_bit_eq_div)?
  next
    case 4
    with \<open>?n div 262144 < 8\<close> show ?thesis
      by (simp add: utf8_bytes_def char_bytes_def lt unat_byte unat_ops shifted_fields nat_and_bits
        lead_fields) (simp_all add: drop_bit_eq_div)?
  qed
qed

lemma length_utf8_bytes: "length (utf8_bytes wc) = utf8_width wc"
  by (simp add: utf8_bytes_def utf8_width_def)

lemma encode_loop_plain:
  assumes "i \<le> e" "e \<le> length us" "j + sum_list (map utf8_width (take (e - i) (drop i us))) \<le> dend"
  shows "\<exists>dn. encode_loop us e dend opos False i done0 j out =
    (e, dn, j + sum_list (map utf8_width (take (e - i) (drop i us))),
     out @ concat (map utf8_bytes (take (e - i) (drop i us))), False)"
  using assms
proof (induction "e - i" arbitrary: i j out done0)
  case 0
  then show ?case by (subst encode_loop.simps) simp
next
  case (Suc k)
  then have i: "i < e" "i < length us" by linarith+
  have t: "take (e - i) (drop i us) = us ! i # take (e - Suc i) (drop (Suc i) us)"
    using i Suc(2) by (simp add: Cons_nth_drop_Suc[symmetric] take_Cons')
  have "k = e - Suc i" using Suc(2) by simp
  from Suc(1)[OF this, of "j + utf8_width (us ! i)" i "out @ utf8_bytes (us ! i)"] Suc(4,5) i t
  show ?case by (subst encode_loop.simps) (auto simp: read_unit_def unit_at_def add.assoc)
qed

lemma count_loop_plain:
  assumes "i \<le> e" "e \<le> length us"
  shows "count_loop us e opos False i j = (e, j + sum_list (map utf8_width (take (e - i) (drop i us))), False)"
  using assms
proof (induction "e - i" arbitrary: i j)
  case 0
  then show ?case by (subst count_loop.simps) simp
next
  case (Suc k)
  then have i: "i < e" "i < length us" by linarith+
  have t: "take (e - i) (drop i us) = us ! i # take (e - Suc i) (drop (Suc i) us)"
    using i Suc(2) by (simp add: Cons_nth_drop_Suc[symmetric] take_Cons')
  have "k = e - Suc i" using Suc(2) by simp
  from Suc(1)[OF this, of "j + utf8_width (us ! i)"] Suc(4) i t
  show ?case by (subst count_loop.simps) (simp add: read_unit_def unit_at_def)
qed

lemma encode_all_bytes:
  assumes "sum_list (map utf8_width us) \<le> 0x7FFFFFFF"
  shows "enc_bytes (scheme_utf8_encode_all us (length us) True) = concat (map utf8_bytes us)"
    and "enc_return (scheme_utf8_encode_all us (length us) True) = int (sum_list (map utf8_width us))"
    and "enc_return (scheme_utf8_encode_all us (length us) False) = int (sum_list (map utf8_width us))"
proof -
  have "encode_loop us (length us) 0x7FFFFFFF False False 0 0 0 [] =
      (let r = encode_loop us (length us) 0x7FFFFFFF False False 0 0 0 []
       in (length us, fst (snd r), sum_list (map utf8_width us), concat (map utf8_bytes us), False))"
    using encode_loop_plain[of 0 "length us" us 0 "0x7FFFFFFF" False 0 "[]"] assms by auto
  then obtain dn where "encode_loop us (length us) 0x7FFFFFFF False False 0 0 0 [] =
      (length us, dn, sum_list (map utf8_width us), concat (map utf8_bytes us), False)" unfolding Let_def by blast
  then show "enc_bytes (scheme_utf8_encode_all us (length us) True) = concat (map utf8_bytes us)"
    "enc_return (scheme_utf8_encode_all us (length us) True) = int (sum_list (map utf8_width us))"
    by (simp_all add: scheme_utf8_encode_all_def utf8_encode_x_def)
  show "enc_return (scheme_utf8_encode_all us (length us) False) = int (sum_list (map utf8_width us))"
    using count_loop_plain[of 0 "length us" us False 0]
    by (simp add: scheme_utf8_encode_all_def utf8_encode_x_def)
qed

subsection \<open>The permissive decoder\<close>

lemma step_no_fail: "p \<noteq> 0 \<Longrightarrow> utf8_step p sc st nb v \<noteq> Enc_Fail"
  by (auto simp: utf8_step_def bad_sequence_def Let_def)

lemma step_more_state: "utf8_step p sc st nb v = More st' nb' v' \<Longrightarrow> st' \<noteq> 0"
  by (auto simp: utf8_step_def bad_sequence_def Let_def split: if_splits)

definition perm_inv :: "nat \<Rightarrow> decoding \<Rightarrow> bool" where
  "perm_inv e d \<longleftrightarrow> dec_j d = length (dec_out d) \<and> dec_j d \<le> dec_oki d \<and> dec_oki d \<le> e \<and>
     dec_init_doki d = 0 \<and> (dec_state d = 0 \<longrightarrow> dec_delta d = 0)"

lemma loop_permissive:
  assumes "perm_inv e d" "p \<noteq> 0" "e \<le> dend"
  shows "perm_inv e (utf8_loop s e dend False False p d) \<and>
    (dec_state (utf8_loop s e dend False False p d) = 0 \<longrightarrow> dec_oki (utf8_loop s e dend False False p d) = e)"
  using assms
proof (induction s e dend False False p d rule: utf8_loop.induct)
  case (1 s e dend p d)
  let ?i = "dec_oki d + dec_delta d"
  let ?step = "utf8_step p (unat (s ! ?i)) (dec_state d) (dec_nextbits d) (dec_v d)"
  show ?case
  proof (cases "?i < e")
    case False
    with 1(3) show ?thesis by (auto simp: loop_end perm_inv_def)
  next
    case True
    show ?thesis
    proof (cases ?step)
      case Enc_Fail
      with step_no_fail[OF 1(4)] show ?thesis by blast
    next
      case (More st nb v)
      have "perm_inv e (d\<lparr>dec_delta := dec_delta d + 1, dec_state := st, dec_nextbits := nb, dec_v := v\<rparr>)"
        using 1(3) step_more_state[OF More] by (simp add: perm_inv_def)
      from 1(1)[OF refl refl _ More this 1(4,5)] True loop_more[OF True More, of dend False False]
      show ?thesis by simp
    next
      case (Produce v reset nb)
      define delta where "delta = (if reset then 0 else dec_delta d)"
      define d1 where "d1 = d\<lparr>dec_delta := delta, dec_j := (if reset then dec_j d + dec_init_doki d else dec_j d),
          dec_state := 0, dec_nextbits := nb, dec_v := v\<rparr>"
      define d2 where "d2 = d1\<lparr>dec_j := dec_j d1 + 1, dec_out := dec_out d1 @ [of_nat v],
          dec_oki := dec_oki d + delta + 1, dec_delta := 0, dec_init_doki := 0\<rparr>"
      have inv: "perm_inv e d2"
        using 1(3) True by (auto simp: perm_inv_def d2_def d1_def delta_def)
      have run: "utf8_loop s e dend False False p d =
          (if dec_j d2 \<ge> dend then d2 else utf8_loop s e dend False False p d2)"
        using True Produce
        by (subst utf8_loop.simps) (simp add: put_units_def Let_def d2_def d1_def delta_def)
      show ?thesis
      proof (cases "dec_j d2 \<ge> dend")
        case full: True
        with inv 1(5) have "dec_oki d2 = e" by (simp add: perm_inv_def)
        with inv run full show ?thesis by simp
      next
        case False
        have put: "put_units s dend False False v (dec_oki d) (if reset then 0 else dec_delta d)
            (if reset then dec_j d + dec_init_doki d else dec_j d) = Some [of_nat v]"
          by (simp add: put_units_def)
        note ih = 1(2)[OF refl refl _ Produce refl refl refl put refl]
        have "perm_inv e (utf8_loop s e dend False False p d2) \<and>
          (dec_state (utf8_loop s e dend False False p d2) = 0 \<longrightarrow> dec_oki (utf8_loop s e dend False False p d2) = e)"
          using ih True False inv 1(4,5) unfolding d2_def d1_def delta_def by simp
        with run False show ?thesis by simp
      qed
    qed
  qed
qed

lemma decode_permissive:
  assumes "p \<noteq> 0" "length s \<le> 0x7FFFFFFF"
  shows "dec_return (utf8_decode_x s 0 (Some (length s)) 0 None False False None False p) =
      int (length (dec_units (utf8_decode_x s 0 (Some (length s)) 0 None False False None False p))) \<and>
    length (dec_units (utf8_decode_x s 0 (Some (length s)) 0 None False False None False p)) \<le> length s"
proof -
  define d where "d = utf8_loop s (length s) 0x7FFFFFFF False False p
           \<lparr>dec_oki = 0, dec_delta = 0, dec_j = 0, dec_state = 0, dec_init_doki = 0, dec_nextbits = 0,
            dec_v = 0, dec_out = [], dec_fail = -3\<rparr>"
  have "perm_inv (length s) d \<and> (dec_state d = 0 \<longrightarrow> dec_oki d = length s)"
    unfolding d_def by (rule loop_permissive) (use assms in \<open>simp_all add: perm_inv_def\<close>)
  with assms show ?thesis
    by (auto simp: decode_all_unfold d_def[symmetric] perm_inv_def Let_def min_def)
qed

end
