(* ===== verification/Utf8_Spec.thy ===== *)
theory Utf8_Spec
  imports Utf8_Correct
begin

unbundle bit_operations_syntax

section \<open>UTF-8 and UTF-16: properties\<close>

text \<open>
  What a Racket byte string and a Racket string promise each other: the abstract
  specification is \<open>valid_utf8\<close>, the relation between a byte sequence and the scalar values
  it encodes; the round trips, the agreement of the encoder's counting pass with its storing
  pass, exactly where the permissive decoder fails to resynchronize, and an input that it counts differently in chunks.
\<close>

definition valid_utf8 :: "u8 list \<Rightarrow> u32 list \<Rightarrow> bool" where
  "valid_utf8 s us \<longleftrightarrow>
     (\<forall>u \<in> set us. scalar (unat u)) \<and> map unat s = concat (map (\<lambda>u. char_bytes (unat u)) us)"

lemma of_nat_scalar: "scalar n \<Longrightarrow> unat (of_nat n :: u32) = n"
  by (simp add: scalar_def unat_of_nat)

lemma valid_utf8_iff:
  "valid_utf8 s us \<longleftrightarrow> (\<exists>ns. us = map of_nat ns \<and> (\<forall>n \<in> set ns. scalar n) \<and>
     map unat s = concat (map char_bytes ns))"
proof
  assume "valid_utf8 s us"
  then show "\<exists>ns. us = map of_nat ns \<and> (\<forall>n \<in> set ns. scalar n) \<and> map unat s = concat (map char_bytes ns)"
    by (intro exI[of _ "map unat us"]) (simp add: valid_utf8_def comp_def)
next
  assume "\<exists>ns. us = map of_nat ns \<and> (\<forall>n \<in> set ns. scalar n) \<and> map unat s = concat (map char_bytes ns)"
  then obtain ns where ns: "us = map of_nat ns" "\<forall>n \<in> set ns. scalar n" "map unat s = concat (map char_bytes ns)"
    by blast
  have "map (\<lambda>n. char_bytes (unat (of_nat n :: u32))) ns = map char_bytes ns"
    using ns(2) by (intro map_cong) (simp_all add: of_nat_scalar)
  then have "concat (map (\<lambda>n. char_bytes (unat (of_nat n :: u32))) ns) = concat (map char_bytes ns)"
    by (simp only:)
  with ns show "valid_utf8 s us" by (simp add: valid_utf8_def of_nat_scalar comp_def)
qed

lemma valid_decode:
  assumes "valid_utf8 s us" "length s \<le> 0x7FFFFFFF"
  shows "dec_return (utf8_decode_x s 0 (Some (length s)) 0 None False False None mc p) = int (length us) \<and>
    dec_units (utf8_decode_x s 0 (Some (length s)) 0 None False False None mc p) = us"
proof -
  from assms(1) obtain ns where "us = map of_nat ns" "\<forall>n \<in> set ns. scalar n"
    "map unat s = concat (map char_bytes ns)" unfolding valid_utf8_iff by blast
  with decode_valid[OF this(2,3) assms(2), of mc p] show ?thesis by simp
qed

lemma encode_valid:
  assumes "\<forall>u \<in> set us. scalar (unat u)"
  shows "valid_utf8 (concat (map utf8_bytes us)) us"
proof -
  have "map (\<lambda>u. map unat (utf8_bytes u)) us = map (\<lambda>u. char_bytes (unat u)) us"
    using assms by (intro map_cong) (simp_all add: utf8_bytes_char scalar_def)
  then have "concat (map (\<lambda>u. map unat (utf8_bytes u)) us) = concat (map (\<lambda>u. char_bytes (unat u)) us)"
    by (simp only:)
  with assms show ?thesis by (simp add: valid_utf8_def map_concat comp_def)
qed

text \<open>C11. The strict decoder refines the specification of UTF-8: it succeeds with the code
  points \<open>us\<close> exactly when the bytes are the UTF-8 encoding of \<open>us\<close>, all of them Unicode
  scalar values; overlong forms, surrogates and truncated characters are errors.\<close>

theorem utf8_decode_strict_spec:
  assumes "length s \<le> 0x7FFFFFFF"
  shows "(dec_return (scheme_utf8_decode_all s (length s) 0) \<ge> 0 \<and>
      dec_units (scheme_utf8_decode_all s (length s) 0) = us) \<longleftrightarrow> valid_utf8 s us"
proof
  assume ok: "dec_return (scheme_utf8_decode_all s (length s) 0) \<ge> 0 \<and>
      dec_units (scheme_utf8_decode_all s (length s) 0) = us"
  then obtain ns where ns: "\<forall>n \<in> set ns. scalar n" "map unat s = concat (map char_bytes ns)"
    using decode_strict[OF assms] by (auto simp: scheme_utf8_decode_all_def)
  from decode_valid[OF this assms] ok have "us = map of_nat ns" by (simp add: scheme_utf8_decode_all_def)
  with ns show "valid_utf8 s us" unfolding valid_utf8_iff by blast
next
  assume "valid_utf8 s us"
  from valid_decode[OF this assms]
  show "dec_return (scheme_utf8_decode_all s (length s) 0) \<ge> 0 \<and>
      dec_units (scheme_utf8_decode_all s (length s) 0) = us"
    by (simp add: scheme_utf8_decode_all_def)
qed

theorem utf8_decode_strict_spec_witness:
  "(dec_return (scheme_utf8_decode_all [0xC3, 0xA9, 0x41] 3 0) \<ge> 0 \<and>
    dec_units (scheme_utf8_decode_all [0xC3, 0xA9, 0x41] 3 0) = [0xE9, 0x41]) \<longleftrightarrow>
   valid_utf8 [0xC3, 0xA9, 0x41] [0xE9, 0x41]"
  using utf8_decode_strict_spec[of "[0xC3, 0xA9, 0x41]" "[0xE9, 0x41]"] by (simp add: numeral_3_eq_3)

text \<open>C12. Encoding a string of Unicode scalar values and decoding the bytes gives the string
  back, with any permissive code.\<close>

theorem utf8_roundtrip:
  assumes "\<forall>u \<in> set us. scalar (unat u)" "4 * length us \<le> 0x7FFFFFFF"
  defines "bs \<equiv> enc_bytes (scheme_utf8_encode_all us (length us) True)"
  shows "dec_units (scheme_utf8_decode_all bs (length bs) permissive) = us \<and>
    dec_return (scheme_utf8_decode_all bs (length bs) permissive) = int (length us)"
proof -
  have w: "sum_list (map utf8_width us) \<le> 4 * length us" using assms(1)
    by (induction us) (auto simp: utf8_width_def scalar_def word_less_nat_alt)
  with encode_all_bytes(1)[of us] assms(2) have bs: "bs = concat (map utf8_bytes us)"
    unfolding bs_def by simp
  have "length bs = sum_list (map utf8_width us)"
    by (simp add: bs length_concat comp_def length_utf8_bytes)
  with w assms(2) have "length bs \<le> 0x7FFFFFFF" by simp
  from valid_decode[OF _ this] encode_valid[OF assms(1)] bs
  show ?thesis by (simp add: scheme_utf8_decode_all_def)
qed

theorem utf8_roundtrip_witness:
  "let us = [0x41, 0x20AC]; bs = enc_bytes (scheme_utf8_encode_all us (length us) True)
   in dec_units (scheme_utf8_decode_all bs (length bs) 0) = us"
  using utf8_roundtrip[of "[0x41, 0x20AC]" 0] by (simp add: scalar_def Let_def)

text \<open>C13. With a permissive code the decoder never fails, whatever the bytes are: it returns the
  number of characters it stores, at most one for each byte.\<close>

theorem utf8_decode_permissive_total:
  assumes "permissive \<noteq> 0" "length s \<le> 0x7FFFFFFF"
  shows "dec_return (scheme_utf8_decode_all s (length s) permissive) =
      int (length (dec_units (scheme_utf8_decode_all s (length s) permissive))) \<and>
    length (dec_units (scheme_utf8_decode_all s (length s) permissive)) \<le> length s"
  using decode_permissive[OF assms] by (simp add: scheme_utf8_decode_all_def)

theorem utf8_decode_permissive_total_witness:
  "let s = [0xFF, 0x41, 0xE2]
   in length (dec_units (scheme_utf8_decode_all s (length s) 0xFFFD)) \<le> length s"
  using utf8_decode_permissive_total[of "0xFFFD" "[0xFF, 0x41, 0xE2]"] by (simp add: Let_def)

text \<open>The two passes of the encoder.\<close>

lemma encode_follows_count:
  assumes "count_loop us e opos u i j = (i', j', b)"
  shows "j \<le> j' \<and> (\<forall>k dn out. k + (j' - j) \<le> dend \<longrightarrow>
    (\<exists>dn' bs. encode_loop us e dend opos u i dn k out = (i', dn', k + (j' - j), out @ bs, b) \<and>
       length bs = j' - j))"
  using assms
proof (induction us e opos u i j arbitrary: i' j' b rule: count_loop.induct)
  case (1 us e opos u i j)
  show ?case
  proof (cases "i < e")
    case False
    with 1(2) show ?thesis by (subst encode_loop.simps) (simp add: count_loop.simps)
  next
    case True
    show ?thesis
    proof (cases "read_unit us e opos u i")
      case None
      with True 1(2) show ?thesis by (subst encode_loop.simps) (simp add: count_loop.simps)
    next
      case (Some r)
      obtain wc i2 where r: "r = (wc, i2)" by (cases r)
      with Some True 1(2) have c: "count_loop us e opos u (i2 + 1) (j + utf8_width wc) = (i', j', b)"
        by (subst (asm) count_loop.simps) simp
      from 1(1)[OF _ Some[unfolded r] refl c] True have le: "j + utf8_width wc \<le> j'"
        and run: "\<And>k dn out. k + (j' - (j + utf8_width wc)) \<le> dend \<Longrightarrow>
          \<exists>dn' bs. encode_loop us e dend opos u (i2 + 1) dn k out =
            (i', dn', k + (j' - (j + utf8_width wc)), out @ bs, b) \<and> length bs = j' - (j + utf8_width wc)"
        by blast+
      have "\<exists>dn' bs. encode_loop us e dend opos u i dn k out = (i', dn', k + (j' - j), out @ bs, b) \<and>
          length bs = j' - j" if fits: "k + (j' - j) \<le> dend" for k dn out
      proof -
        have "(k + utf8_width wc) + (j' - (j + utf8_width wc)) \<le> dend" using fits le by linarith
        from run[OF this, of i2 "out @ utf8_bytes wc"] obtain dn' bs where
          "encode_loop us e dend opos u (i2 + 1) i2 (k + utf8_width wc) (out @ utf8_bytes wc) =
            (i', dn', (k + utf8_width wc) + (j' - (j + utf8_width wc)), (out @ utf8_bytes wc) @ bs, b)"
          "length bs = j' - (j + utf8_width wc)" by blast
        with fits le True Some r show ?thesis
          by (subst encode_loop.simps)
            (auto simp: length_utf8_bytes intro!: exI[of _ dn'] exI[of _ "utf8_bytes wc @ bs"])
      qed
      with le show ?thesis by simp
    qed
  qed
qed

text \<open>The counting pass of the encoder agrees with its storing pass: a buffer with as much
  room as the count gives receives exactly that many bytes, for UCS-4 and UTF-16 input, also
  when the input stops in the middle of a surrogate pair.\<close>

theorem utf8_encode_two_passes:
  assumes "count_loop us e opos utf16 start 0 = (i, n, stopped)" "dstart + n \<le> dend"
  defines "r \<equiv> utf8_encode_x us start e True dstart (Some dend) opos utf16"
  shows "length (enc_bytes r) = n \<and> enc_opos r = dstart + n \<and>
    enc_return r = enc_return (utf8_encode_x us start e False dstart (Some dend) opos utf16)"
proof -
  from encode_follows_count[OF assms(1)] have fits: "\<forall>k dn out. k + (n - 0) \<le> dend \<longrightarrow>
    (\<exists>dn' bs. encode_loop us e dend opos utf16 start dn k out = (i, dn', k + (n - 0), out @ bs, stopped) \<and>
       length bs = n - 0)" by (rule conjunct2)
  have "dstart + (n - 0) \<le> dend" using assms(2) by simp
  from fits[rule_format, OF this, of start "[]"] obtain dn bs where
    "encode_loop us e dend opos utf16 start start dstart [] = (i, dn, dstart + n, [] @ bs, stopped)"
    "length bs = n" unfolding diff_zero by blast
  with assms(1) show ?thesis unfolding r_def by (cases stopped) (simp_all add: utf8_encode_x_def)
qed

theorem utf8_encode_two_passes_witness:
  "enc_opos (utf8_encode_x [0xD83D, 0xDE00, 0xD800] 0 3 True 2 (Some 10) True True) = 6"
proof -
  have "count_loop [0xD83D, 0xDE00, 0xD800] 3 True True 0 0 = (2, 4, True)"
    by (simp add: count_loop.simps read_unit_def unit_at_def surrogate_code_def utf8_width_def)
  from utf8_encode_two_passes[OF this, of 2 10] show ?thesis by simp
qed

text \<open>UTF-16: a character's units are read back as the character.\<close>

lemma and_low_take: "x AND 0x3FF = take_bit 10 x" for x :: "32 word"
  by (simp add: take_bit_eq_mask mask_eq_exp_minus_1)

lemma take_bit_small: "unat (x :: u32) < 2 ^ n \<Longrightarrow> take_bit n x = x"
  by (simp add: word_unat_eq_iff unsigned_take_bit_eq take_bit_nat_eq_self)

lemma ucast_16_32:
  assumes "unat (x :: u32) < 65536"
  shows "(ucast (ucast x :: u16) :: u32) = x"
proof -
  have "(ucast (ucast x :: u16) :: u32) = take_bit 16 x"
    by (rule bit_word_eqI) (auto simp: bit_simps)
  with take_bit_small[of x 16] assms show ?thesis by simp
qed

lemma surrogate_field:
  fixes x :: u32
  shows "(0xD800 OR (x AND 0x3FF)) AND 0x3FF = x AND 0x3FF"
    and "(0xDC00 OR (x AND 0x3FF)) AND 0x3FF = x AND 0x3FF"
    and "take_bit 16 (0xD800 OR (x AND 0x3FF)) = 0xD800 OR (x AND 0x3FF)"
    and "take_bit 16 (0xDC00 OR (x AND 0x3FF)) = 0xDC00 OR (x AND 0x3FF)"
    and "(0xD800 OR (x AND 0x3FF)) AND 0xF800 = 0xD800"
  by (simp_all add: bit.conj_disj_distrib2 and.assoc take_bit_eq_mask mask_eq_exp_minus_1)

lemma ucast_take: "(ucast (ucast x :: u16) :: u32) = take_bit 16 x" for x :: u32
    by (rule bit_word_eqI) (auto simp: bit_simps)

lemma ucast_surrogate: "((ucast (x :: u32)) :: u16) AND 0xF800 = 0xD800 \<longleftrightarrow> x AND 0xF800 = 0xD800"
proof -
  have "(ucast x :: u16) AND 0xF800 = ucast (x AND 0xF800)"
    by (simp add: unsigned_and_eq)
  moreover have "(ucast (ucast (x AND 0xF800) :: u16) :: u32) = x AND 0xF800"
    by (simp add: ucast_take take_bit_eq_mask mask_eq_exp_minus_1 and.assoc)
  moreover have "(ucast (0xD800 :: u16) :: u32) = 0xD800" by simp
  moreover have "(ucast (0xD800 :: u32) :: u16) = 0xD800" by simp
  ultimately show ?thesis by metis
qed

lemma field_div: "x AND 0xF800 = 0xD800 \<Longrightarrow> 0xD800 \<le> unat x mod 65536 \<and> unat x mod 65536 \<le> 0xDFFF" for x :: u32
proof -
  assume a: "x AND 0xF800 = 0xD800"
  have "take_bit 16 x = (x AND 0xF800) OR (x AND 0x7FF)"
    by (simp add: bit.conj_disj_distrib[symmetric] take_bit_eq_mask mask_eq_exp_minus_1)
  also have "\<dots> = 0xD800 + take_bit 11 x"
    unfolding a by (subst disjunctive_add_eq_or) (simp_all add: and.assoc take_bit_eq_mask mask_eq_exp_minus_1 and.left_commute[of "55296"] and.commute[of "55296"])
  finally have t: "take_bit 16 x = 0xD800 + take_bit 11 x" .
  have "unat (take_bit 11 x) < 2048" using take_bit_nat_less_exp[of 11 "unat x"] by (simp add: unsigned_take_bit_eq)
  then have "unat (0xD800 + take_bit 11 x) = 0xD800 + unat (take_bit 11 x)" by (subst unat_add_lem[THEN iffD1]) simp_all
  then have "unat (take_bit 16 x) = 0xD800 + unat (take_bit 11 x)" by (simp only: t)
  moreover have "unat (take_bit 16 x) = unat x mod 65536"
    by (simp add: take_bit_eq_mod unat_mod)
  ultimately show ?thesis using \<open>unat (take_bit 11 x) < 2048\<close> by linarith
qed

lemma utf16_loop_bmp:
  assumes "wc AND 0xF800 \<noteq> 0xD800"
  shows "utf16_loop (wc # rest) = ucast wc # utf16_loop rest"
  using assms by (cases rest) simp_all

lemma utf16_char:
  assumes "scalar (unat u)"
  shows "utf16_loop (utf16_units u @ rest) = u # utf16_loop rest"
proof (cases "u > 0xFFFF")
  case False
  then have le: "unat u \<le> 65535" by (simp add: word_le_nat_alt not_less)
  then have id: "(ucast (ucast u :: u16) :: u32) = u" by (intro ucast_16_32) simp
  from le field_div[of u] assms have "u AND 0xF800 \<noteq> 0xD800" by (auto simp: scalar_def)
  then have "(ucast u :: u16) AND 0xF800 \<noteq> 0xD800" by (simp add: ucast_surrogate)
  from utf16_loop_bmp[OF this] False id show ?thesis by (simp add: utf16_units_def)
next
  case True
  define v where "v = u - 0x10000"
  define hi where "hi = 0xD800 OR (drop_bit 10 v AND 0x3FF)"
  define lo where "lo = 0xDC00 OR (v AND 0x3FF)"
  have "unat v = unat u - 0x10000" using True unfolding v_def by (simp add: unat_sub_if' word_less_nat_alt)
  with assms True have "unat v < 0x100000" unfolding scalar_def by linarith
  then have "unat (drop_bit 10 v) < 2 ^ 10" by (simp add: drop_bit_eq_div unat_div)
  from take_bit_small[OF this] have top: "drop_bit 10 v AND 0x3FF = drop_bit 10 v" by (simp add: and_low_take)
  have units: "utf16_units u = [ucast hi, ucast lo]"
    using True by (simp add: utf16_units_def Let_def v_def hi_def lo_def)
  have "hi AND 0xF800 = 0xD800" by (simp only: hi_def surrogate_field)
  then have sur: "(ucast hi :: u16) AND 0xF800 = 0xD800" by (simp add: ucast_surrogate)
  have "(ucast (ucast hi :: u16) :: u32) = hi" "(ucast (ucast lo :: u16) :: u32) = lo"
    by (simp_all only: ucast_take hi_def lo_def surrogate_field)
  then have "surrogate_code (ucast (ucast hi :: u16)) (ucast (ucast lo :: u16)) =
      push_bit 10 (hi AND 0x3FF) + (lo AND 0x3FF) + 0x10000" by (simp only: surrogate_code_def)
  also have "\<dots> = push_bit 10 (drop_bit 10 v) + take_bit 10 v + 0x10000"
    by (simp only: hi_def lo_def surrogate_field) (simp only: and_low_take top[unfolded and_low_take])
  also have "\<dots> = u" by (simp only: bits_ident v_def diff_add_cancel)
  finally show ?thesis using sur units by simp
qed

lemma utf16_chars: "\<forall>u \<in> set us. scalar (unat u) \<Longrightarrow> utf16_loop (concat (map utf16_units us)) = us"
  by (induction us) (simp_all add: utf16_char)

text \<open>C14. Converting a string of Unicode scalar values to UTF-16 and back gives the string.\<close>

theorem utf16_roundtrip:
  assumes "\<forall>u \<in> set us. scalar (unat u)"
  shows "scheme_utf16_to_ucs4 (fst (scheme_ucs4_to_utf16 us 0 (length us))) 0
      (snd (scheme_ucs4_to_utf16 us 0 (length us))) = (us, length us)"
  using utf16_chars[OF assms] by (simp add: scheme_ucs4_to_utf16_def scheme_utf16_to_ucs4_def Let_def)

theorem utf16_roundtrip_witness:
  "let us = [0x1F600, 0x41]; r = scheme_ucs4_to_utf16 us 0 (length us)
   in scheme_utf16_to_ucs4 (fst r) 0 (snd r) = (us, length us)"
  using utf16_roundtrip[of "[0x1F600, 0x41]"] by (simp add: Let_def scalar_def)

text \<open>The state between bytes, when nothing is carried over from an earlier chunk.\<close>

definition at_byte :: "nat \<Rightarrow> nat \<Rightarrow> nat \<Rightarrow> nat \<Rightarrow> nat \<Rightarrow> nat \<Rightarrow> u32 list \<Rightarrow> decoding" where
  "at_byte oki delta j st nb v out = \<lparr>dec_oki = oki, dec_delta = delta, dec_j = j, dec_state = st, dec_init_doki = 0,
     dec_nextbits = nb, dec_v = v, dec_out = out, dec_fail = -3\<rparr>"

lemma at_byte_more:
  assumes "utf8_step p b st nb v = More st' nb' v'" "unat (s ! (oki + delta)) = b" "oki + delta < e"
  shows "utf8_loop s e dend False False p (at_byte oki delta j st nb v out) =
    utf8_loop s e dend False False p (at_byte oki (delta + 1) j st' nb' v' out)"
  using assms by (subst utf8_loop.simps) (simp add: at_byte_def)

lemma at_byte_produce:
  assumes "utf8_step p b st nb v = Produce v' reset nb'" "unat (s ! (oki + delta)) = b" "oki + delta < e" "j + 1 < dend"
  shows "utf8_loop s e dend False False p (at_byte oki delta j st nb v out) =
    utf8_loop s e dend False False p
      (at_byte (oki + (if reset then 0 else delta) + 1) 0 (j + 1) 0 nb' v' (out @ [of_nat v']))"
  using assms by (subst utf8_loop.simps) (simp add: at_byte_def put_units_def)

text \<open>The bits that the second byte must share with, after a lead byte that may begin an overlong form.\<close>

definition lead_nextbits :: "nat \<Rightarrow> nat" where
  "lead_nextbits b = (if b = 224 then 0x20 else if b = 240 then 0x30 else 0)"

lemma nextbits_missing:
  assumes "128 \<le> b" "b < 192"
  shows "(lead_nextbits lead \<noteq> 0 \<and> b AND lead_nextbits lead = 0) \<longleftrightarrow>
    b - 128 < (if lead = 224 then 32 else if lead = 240 then 16 else 0)"
proof -
  define m where "m = b - 128"
  have b: "b = 128 + m" "m < 64" using assms by (simp_all add: m_def)
  have f: "b AND 0x20 = b div 32 mod 2 * 32" "b AND 0x30 = b div 16 mod 4 * 16"
    using nat_and_field[of b 5 1] nat_and_field[of b 4 2] by (simp_all add: push_bit_eq_mult mask_eq_exp_minus_1)
  have d: "b div 32 = 4 + m div 32" "b div 16 = 8 + m div 16" by (simp_all add: b(1))
  have "(4 + q) mod 2 = q mod 2" "(8 + q) mod 4 = q mod 4" for q :: nat by presburger+
  then have "b div 32 mod 2 = m div 32 mod 2" "b div 16 mod 4 = m div 16 mod 4" unfolding d by simp_all
  moreover have "m div 32 mod 2 = m div 32" "m div 16 mod 4 = m div 16" using b(2) by simp_all
  ultimately show ?thesis
    unfolding m_def[symmetric] by (simp add: lead_nextbits_def f div_eq_0_iff)
qed

lemma lost_char_loop:
  assumes s: "unat (s ! 0) = lead" "unat (s ! 1) = 192 + n div 64" "unat (s ! 2) = 128 + n mod 64"
    and lead: "224 \<le> lead" "lead \<le> 244" and n: "128 \<le> n" "n < 2048" and p: "p \<noteq> 0"
  shows "\<exists>v. utf8_loop s 3 0x7FFFFFFF False False p (at_byte 0 0 0 0 0 0 []) =
    (if n mod 64 < (if lead = 224 then 32 else if lead = 240 then 16 else 0)
     then at_byte 3 0 3 0 0 v [of_nat p, of_nat p, of_nat p] else at_byte 3 0 2 0 0 v [of_nat p, of_nat n])"
proof -
  let ?loop = "utf8_loop s 3 0x7FFFFFFF False False p" and ?nb = "lead_nextbits lead"
  let ?b0 = "192 + n div 64" and ?b1 = "128 + n mod 64"
  have b: "194 \<le> ?b0" "?b0 < 224" "128 \<le> ?b1" "?b1 < 192" using n by auto
  have s0: "unat (s ! (0 + 0)) = lead" "unat (s ! (0 + 1)) = ?b0" "unat (s ! (1 + 0)) = ?b0" "unat (s ! (2 + 0)) = ?b1"
    "unat (s ! (1 + 1)) = ?b1"
    using s by (simp_all add: numeral_2_eq_2)
  obtain st v where more: "utf8_step p lead 0 0 0 = More st ?nb v" and st: "st \<noteq> 0"
    using lead step_lead3[of lead p 0 0] step_lead4[of lead p 0 0] by (cases "lead < 240") (auto simp: lead_nextbits_def)
  have broken: "utf8_step p ?b0 st ?nb v = Produce p True ?nb"
    using st b p byte_classes(1)[of ?b0] by (simp add: utf8_step_def bad_sequence_def)
  have "?loop (at_byte 0 0 0 0 0 0 []) = ?loop (at_byte 0 1 0 st ?nb v [])"
    using at_byte_more[OF more s0(1)] by simp
  also have "\<dots> = ?loop (at_byte 1 0 1 0 ?nb p [of_nat p])"
    using at_byte_produce[OF broken s0(2)] by simp
  also have "\<dots> = ?loop (at_byte 1 1 1 1 ?nb (n div 64) [of_nat p])"
    using at_byte_more[OF step_lead2[OF b(1,2), of p ?nb p] s0(3)] by simp
  finally have run: "?loop (at_byte 0 0 0 0 0 0 []) = ?loop (at_byte 1 1 1 1 ?nb (n div 64) [of_nat p])" .
  note s2 = s0(5)
  show ?thesis
  proof (cases "n mod 64 < (if lead = 224 then 32 else if lead = 240 then 16 else 0)")
    case True
    then have "?nb \<noteq> 0" "?b1 AND ?nb = 0" using nextbits_missing[OF b(3,4), of lead] by simp_all
    then have "utf8_step p ?b1 1 ?nb (n div 64) = Produce p True 0"
      using step_missing[OF b(3,4), of 1 ?nb p] p by (simp add: bad_sequence_def)
    from at_byte_produce[OF this s2] have "?loop (at_byte 1 1 1 1 ?nb (n div 64) [of_nat p]) =
      ?loop (at_byte 2 0 2 0 0 p [of_nat p, of_nat p])" by (simp add: numeral_2_eq_2)
    also have "?loop (at_byte 2 0 2 0 0 p [of_nat p, of_nat p]) = ?loop (at_byte 3 0 3 0 0 p [of_nat p, of_nat p, of_nat p])"
    proof -
      have "utf8_step p ?b1 0 0 p = Produce p False 0"
        using step_bad_lead[of ?b1 p 0 p] b p by (simp add: bad_sequence_def)
      from at_byte_produce[OF this s0(4)] show ?thesis by (simp add: numeral_3_eq_3)
    qed
    finally show ?thesis using True run by (simp add: loop_end at_byte_def)
  next
    case False
    then have "?nb = 0 \<or> ?b1 AND ?nb \<noteq> 0" using nextbits_missing[OF b(3,4), of lead] by auto
    moreover have v: "n div 64 * 64 + (?b1 - 128) = n" by simp
    moreover have "scalar n" using n by (simp add: scalar_def)
    ultimately have "utf8_step p ?b1 1 ?nb (n div 64) = Produce n False 0"
      using step_cont(2)[OF b(3,4), of ?nb "n div 64" p] by simp
    from at_byte_produce[OF this s2] have "?loop (at_byte 1 1 1 1 ?nb (n div 64) [of_nat p]) =
      ?loop (at_byte 3 0 2 0 0 n [of_nat p, of_nat n])" by (simp add: numeral_2_eq_2 numeral_3_eq_3)
    then show ?thesis using False run by (auto simp: loop_end at_byte_def)
  qed
qed

text \<open>C15. A permissive decoder does not always resynchronize after a bad byte. Let the lead byte of a character of three
  or four bytes stand directly before a character of two bytes. The lead byte is bad, and the decoder should go on with the
  two-byte character; it does so, except that the demand of the lead bytes \<^verbatim>\<open>E0\<close> and \<^verbatim>\<open>F0\<close> on their next byte (which
  rules out overlong forms) outlives them: when the last byte of the two-byte character does not meet it, the
  decoder reports three bad bytes.\<close>

theorem utf8_permissive_loses_char:
  assumes "map unat s = lead # char_bytes n" "224 \<le> lead" "lead \<le> 244" "128 \<le> n" "n < 2048" "p \<noteq> 0"
  shows "dec_units (scheme_utf8_decode_all s 3 p) =
    (if n mod 64 < (if lead = 224 then 32 else if lead = 240 then 16 else 0)
     then [of_nat p, of_nat p, of_nat p] else [of_nat p, of_nat n])"
proof -
  have m: "map unat s = [lead, 192 + n div 64, 128 + n mod 64]"
    using assms(1,4,5) by (simp add: char_bytes_def)
  have len: "length s = 3" using arg_cong[OF m, of length] by simp
  have "unat (s ! i) = map unat s ! i" if "i < 3" for i using that len by simp
  then have "unat (s ! 0) = lead" "unat (s ! 1) = 192 + n div 64" "unat (s ! 2) = 128 + n mod 64"
    unfolding m by simp_all
  from lost_char_loop[OF this assms(2-6)] show ?thesis
    using decode_all_unfold[of s False p]
    by (auto simp: scheme_utf8_decode_all_def len at_byte_def Let_def)
qed

theorem utf8_permissive_loses_char_witness:
  "dec_units (scheme_utf8_decode_all [0xE0, 0xC2, 0x80] 3 0xFFFD) = [0xFFFD, 0xFFFD, 0xFFFD] \<and>
   dec_units (scheme_utf8_decode_all [0xE0, 0xC3, 0xA9] 3 0xFFFD) = [0xFFFD, 0xE9]"
  using utf8_permissive_loses_char[where s = "[0xE0, 0xC2, 0x80]" and lead = 224 and n = 128 and p = 65533]
    utf8_permissive_loses_char[where s = "[0xE0, 0xC3, 0xA9]" and lead = 224 and n = 233 and p = 65533]
  by (simp add: char_bytes_def)

text \<open>Counting in two chunks with a state does not agree with counting at once when the
  border breaks a character: with a permissive code \<^verbatim>\<open>E2 | C3 A9\<close> counts three in two
  chunks and two at once.\<close>

theorem utf8_count_chunks:
  "snd (scheme_utf8_decode_count [0xE2] 0 1 (Some 0) True 0x3F) \<noteq> 0 \<and>
   fst (scheme_utf8_decode_count [0xE2] 0 1 (Some 0) True 0x3F) +
   fst (scheme_utf8_decode_count [0xC3, 0xA9] 0 2
     (Some (snd (scheme_utf8_decode_count [0xE2] 0 1 (Some 0) True 0x3F))) False 0x3F) = 3 \<and>
   fst (scheme_utf8_decode_count [0xE2, 0xC3, 0xA9] 0 3 (Some 0) False 0x3F) = 2"
  by (simp add: scheme_utf8_decode_count_def pack_state_def unpack_state_def utf8_decode_x_def
      utf8_loop.simps[unfolded Let_def] utf8_step_def bad_sequence_def put_units_def Let_def push_bit_eq_mult)

end
