(* ===== verification/Sema.thy ===== *)
theory Sema
  imports Prelude
begin

section \<open>Semaphores, channels and mailboxes (sema.c)\<close>

text \<open>
  \<^verbatim>\<open>src/racket/src/racket/src/sema.c\<close>. Threads, waiters
  (\<^verbatim>\<open>Scheme_Channel_Syncer\<close>) and sync operations (\<^verbatim>\<open>Syncing\<close>) are heap objects
  linked by pointers; the model keeps them in stores, functions from identifiers. A semaphore
  has one line of waiters, a channel has two (getters and putters); a line is a doubly linked
  list with a first and a last pointer. Sync operations have no negative acknowledgements and
  no accept procedures here (\<^verbatim>\<open>nackss\<close> and \<^verbatim>\<open>accepts\<close> are \<^verbatim>\<open>NULL\<close>).
\<close>

subsection \<open>State\<close>

text \<open>What a thread may wait for; \<open>Syncer\<close> and \<open>Val\<close> only occur in the array of a sync
  operation, a waiter that is in line and the value that a channel delivered.\<close>

datatype 'v evt =
    Sema_Evt nat
  | Channel nat
  | Channel_Put nat 'v
  | Never_Evt
  | Syncer nat
  | Val 'v

datatype place = Sema_Line nat | Get_Line nat | Put_Line nat

fun line_of :: "'v evt \<Rightarrow> place option" where
  "line_of (Sema_Evt t) = Some (Sema_Line t)"
| "line_of (Channel c) = Some (Get_Line c)"
| "line_of (Channel_Put c v) = Some (Put_Line c)"
| "line_of _ = None"

record 'v syncer =
  w_thread :: nat
  w_in_line :: bool
  w_picked :: bool
  w_prev :: "nat option"
  w_next :: "nat option"
  w_syncing :: "nat option"
  w_obj :: "'v evt"
  w_syncing_i :: nat

record line =
  l_first :: "nat option"
  l_last :: "nat option"

record 'v syncing =
  y_argv :: "'v evt list"
  y_result :: nat
  y_reposts :: "nat \<Rightarrow> bool"
  y_disable_break :: "nat option"

record 'v thread =
  t_killed :: bool
  t_user_suspended :: bool
  t_suspended :: bool
  t_main :: bool
  t_external_break :: bool
  t_suspend_break :: int
  t_break_enabled :: bool
  t_mbox_first :: "nat option"
  t_mbox_last :: "nat option"
  t_mbox_sema :: "nat option"
  t_running :: bool
  t_suspend_cleanup :: bool

record 'v raw_pair =
  p_car :: 'v
  p_cdr :: "nat option"

record 'v world =
  sema_value :: "nat \<Rightarrow> int"
  next_sema :: nat
  next_syncer :: nat
  next_syncing :: nat
  lines :: "place \<Rightarrow> line"
  syncers :: "nat \<Rightarrow> 'v syncer"
  syncings :: "nat \<Rightarrow> 'v syncing"
  threads :: "nat \<Rightarrow> 'v thread"
  raw_pairs :: "nat \<Rightarrow> 'v raw_pair"
  next_pair :: nat
  all_breaks_disabled :: bool

definition upd_syncer :: "nat \<Rightarrow> ('v syncer \<Rightarrow> 'v syncer) \<Rightarrow> 'v world \<Rightarrow> 'v world" where
  "upd_syncer w f s = s\<lparr>syncers := (syncers s)(w := f (syncers s w))\<rparr>"

definition upd_syncing :: "nat \<Rightarrow> ('v syncing \<Rightarrow> 'v syncing) \<Rightarrow> 'v world \<Rightarrow> 'v world" where
  "upd_syncing y f s = s\<lparr>syncings := (syncings s)(y := f (syncings s y))\<rparr>"

definition upd_thread :: "nat \<Rightarrow> ('v thread \<Rightarrow> 'v thread) \<Rightarrow> 'v world \<Rightarrow> 'v world" where
  "upd_thread p f s = s\<lparr>threads := (threads s)(p := f (threads s p))\<rparr>"

definition upd_value :: "nat \<Rightarrow> (int \<Rightarrow> int) \<Rightarrow> 'v world \<Rightarrow> 'v world" where
  "upd_value t f s = s\<lparr>sema_value := (sema_value s)(t := f (sema_value s t))\<rparr>"

definition set_line :: "place \<Rightarrow> line \<Rightarrow> 'v world \<Rightarrow> 'v world" where
  "set_line pl l s = s\<lparr>lines := (lines s)(pl := l)\<rparr>"

subsection \<open>Threads\<close>

text \<open>A suspended thread is out of the run queue, so its \<^verbatim>\<open>next\<close> is \<^verbatim>\<open>NULL\<close> like the
  main thread's.\<close>

definition pending_break :: "'v world \<Rightarrow> nat \<Rightarrow> bool" where
  "pending_break s p =
     (let th = threads s p
      in if t_killed th \<or> t_user_suspended th then True
         else if t_external_break th then
           (let suspended = (if t_main th \<or> t_suspended th then t_suspend_break th - 1
                             else t_suspend_break th)
            in if suspended = 0 \<and> \<not> all_breaks_disabled s then t_break_enabled th else False)
         else False)"

definition scheme_weak_resume_thread :: "nat \<Rightarrow> 'v world \<Rightarrow> 'v world" where
  "scheme_weak_resume_thread r s =
     (if \<not> t_user_suspended (threads s r) \<and> t_suspended (threads s r)
      then upd_thread r (\<lambda>th. th\<lparr>t_suspended := False\<rparr>) s else s)"

subsection \<open>Lines\<close>

definition get_into_line :: "'v evt \<Rightarrow> nat \<Rightarrow> 'v world \<Rightarrow> 'v world" where
  "get_into_line sema w s =
     (let s = upd_syncer w (\<lambda>x. x\<lparr>w_in_line := True, w_picked := False\<rparr>) s
      in case line_of sema of
           None \<Rightarrow> s
         | Some pl \<Rightarrow>
             (let last = l_last (lines s pl); first = l_first (lines s pl);
                  s = upd_syncer w (\<lambda>x. x\<lparr>w_prev := last\<rparr>) s
              in case last of
                   Some l \<Rightarrow>
                     set_line pl \<lparr>l_first = first, l_last = Some w\<rparr>
                       (upd_syncer w (\<lambda>x. x\<lparr>w_next := None\<rparr>)
                         (upd_syncer l (\<lambda>x. x\<lparr>w_next := Some w\<rparr>) s))
                 | None \<Rightarrow>
                     set_line pl \<lparr>l_first = Some w, l_last = Some w\<rparr>
                       (upd_syncer w (\<lambda>x. x\<lparr>w_next := None\<rparr>) s)))"

definition get_outof_line :: "'v evt \<Rightarrow> nat \<Rightarrow> 'v world \<Rightarrow> 'v world" where
  "get_outof_line sema w s =
     (if \<not> w_in_line (syncers s w) then s
      else
        (let s = upd_syncer w (\<lambda>x. x\<lparr>w_in_line := False\<rparr>) s
         in case line_of sema of
              None \<Rightarrow> s
            | Some pl \<Rightarrow>
                (let last = l_last (lines s pl); first = l_first (lines s pl);
                     prv = w_prev (syncers s w);
                     (s, first) =
                       (case prv of
                          Some p \<Rightarrow> (upd_syncer p (\<lambda>x. x\<lparr>w_next := w_next (syncers s w)\<rparr>) s, first)
                        | None \<Rightarrow> (s, w_next (syncers s w)));
                     (s, last) =
                       (case w_next (syncers s w) of
                          Some n \<Rightarrow> (upd_syncer n (\<lambda>x. x\<lparr>w_prev := w_prev (syncers s w)\<rparr>) s, last)
                        | None \<Rightarrow> (s, w_prev (syncers s w)))
                 in set_line pl \<lparr>l_first = first, l_last = last\<rparr> s)))"

text \<open>The waiters of a sync operation leave their lines (\<^verbatim>\<open>post_syncing_nacks\<close> in thread.c,
  without acknowledgements to post).\<close>

definition leave_if_syncer :: "'v evt \<Rightarrow> 'v world \<Rightarrow> 'v world" where
  "leave_if_syncer a s = (case a of Syncer w \<Rightarrow> get_outof_line (w_obj (syncers s w)) w s | _ \<Rightarrow> s)"

definition post_syncing_nacks :: "nat \<Rightarrow> 'v world \<Rightarrow> 'v world" where
  "post_syncing_nacks y s = fold leave_if_syncer (y_argv (syncings s y)) s"

text \<open>A sync operation is decided: \<^verbatim>\<open>syncing->result = i + 1\<close> and what follows it wherever
  the code does that.\<close>

definition select_syncing :: "nat \<Rightarrow> nat \<Rightarrow> 'v world \<Rightarrow> 'v world" where
  "select_syncing y i s =
     (let s = upd_syncing y (\<lambda>x. x\<lparr>y_result := i + 1\<rparr>) s;
          s = (case y_disable_break (syncings s y) of
                 None \<Rightarrow> s
               | Some p \<Rightarrow> upd_thread p (\<lambda>th. th\<lparr>t_suspend_break := t_suspend_break th + 1\<rparr>) s)
      in post_syncing_nacks y s)"

subsection \<open>Posting\<close>

definition waiter_free :: "'v world \<Rightarrow> nat \<Rightarrow> bool" where
  "waiter_free s w =
     ((case w_syncing (syncers s w) of None \<Rightarrow> True | Some y \<Rightarrow> y_result (syncings s y) = 0) \<and>
      \<not> pending_break s (w_thread (syncers s w)))"

definition take_first :: "nat \<Rightarrow> nat \<Rightarrow> 'v world \<Rightarrow> 'v world" where
  "take_first t w s =
     (case w_next (syncers s w) of
        None \<Rightarrow> set_line (Sema_Line t) \<lparr>l_first = None, l_last = None\<rparr> s
      | Some n \<Rightarrow>
          upd_syncer n (\<lambda>x. x\<lparr>w_prev := None\<rparr>)
            (set_line (Sema_Line t) \<lparr>l_first = Some n, l_last = l_last (lines s (Sema_Line t))\<rparr> s))"

text \<open>What a post does for the waiter \<open>w\<close>: the new state and \<^verbatim>\<open>consumed\<close>.\<close>

definition offer_post :: "nat \<Rightarrow> nat \<Rightarrow> 'v world \<Rightarrow> 'v world \<times> bool" where
  "offer_post t w s =
     (if waiter_free s w then
        (let (s, consumed) =
           (case w_syncing (syncers s w) of
              Some y \<Rightarrow>
                (let i = w_syncing_i (syncers s w); s = select_syncing y i s
                 in if \<not> y_reposts (syncings s y) i then (upd_value t (\<lambda>v. v - 1) s, True)
                    else (s, False))
            | None \<Rightarrow> (s, True))
         in (upd_syncer w (\<lambda>x. x\<lparr>w_picked := True\<rparr>) s, consumed))
      else (s, False))"

partial_function (option) did_post_sema :: "nat \<Rightarrow> 'v world \<Rightarrow> 'v world option" where
  "did_post_sema t s =
     (case l_first (lines s (Sema_Line t)) of
        None \<Rightarrow> Some s
      | Some w \<Rightarrow>
          (let (s1, consumed) = offer_post t w (take_first t w s);
               s2 = upd_syncer w (\<lambda>x. x\<lparr>w_in_line := False, w_prev := None, w_next := None\<rparr>) s1
           in if w_picked (syncers s2 w) then
                (let s3 = scheme_weak_resume_thread (w_thread (syncers s2 w)) s2
                 in if consumed then Some s3 else did_post_sema t s3)
              else did_post_sema t s2))"

text \<open>\<^verbatim>\<open>v\<close> is an \<^verbatim>\<open>int\<close>, the semaphore's value an \<^verbatim>\<open>intptr_t\<close>. The error is
  \<^verbatim>\<open>sema_overflow\<close>.\<close>

datatype sema_error = Sema_Overflow

definition scheme_post_sema :: "nat \<Rightarrow> 'v world \<Rightarrow> (sema_error + 'v world) option" where
  "scheme_post_sema t s =
     (if sema_value s t < 0 then Some (Inr s)
      else
        (let v = signed_take_bit 31 (sema_value s t + 1)
         in if v > sema_value s t then
              (let s = upd_value t (\<lambda>_. v) s
               in if l_first (lines s (Sema_Line t)) \<noteq> None then map_option Inr (did_post_sema t s)
                  else Some (Inr s))
            else Some (Inl Sema_Overflow)))"

partial_function (option) scheme_post_sema_all :: "nat \<Rightarrow> 'v world \<Rightarrow> (sema_error + 'v world) option" where
  "scheme_post_sema_all t s =
     (if l_first (lines s (Sema_Line t)) \<noteq> None then
        (case scheme_post_sema t s of
           None \<Rightarrow> None
         | Some (Inl e) \<Rightarrow> Some (Inl e)
         | Some (Inr s') \<Rightarrow> scheme_post_sema_all t s')
      else Some (Inr (upd_value t (\<lambda>_. -1) s)))"

definition scheme_try_plain_sema :: "nat \<Rightarrow> 'v world \<Rightarrow> bool \<times> 'v world" where
  "scheme_try_plain_sema t s =
     (if sema_value s t \<noteq> 0 then
        (True, if sema_value s t > 0 then upd_value t (\<lambda>v. v - 1) s else s)
      else (False, s))"

text \<open>The other places that take a semaphore's value check that it is positive.\<close>

definition dec_value :: "nat \<Rightarrow> 'v world \<Rightarrow> 'v world" where
  "dec_value t s = (if sema_value s t > 0 then upd_value t (\<lambda>v. v - 1) s else s)"

subsection \<open>Channels\<close>

text \<open>The rendezvous: a getter looks for a putter from \<open>w\<close> on, a putter for a getter. Waiters
  of the same sync operation are passed over; others leave the line, picked or not. \<open>pos\<close> is
  the place in the caller's own sync operation, \<open>None\<close> for a negative one. A waiter in a
  channel's line always has a sync operation.\<close>

definition put_val :: "'v evt \<Rightarrow> 'v" where
  "put_val e = (case e of Channel_Put c v \<Rightarrow> v)"

definition set_argv :: "nat \<Rightarrow> nat \<Rightarrow> 'v evt \<Rightarrow> 'v world \<Rightarrow> 'v world" where
  "set_argv y i e s = upd_syncing y (\<lambda>x. x\<lparr>y_argv := (y_argv x)[i := e]\<rparr>) s"

definition take_from_putter :: "nat option \<Rightarrow> nat option \<Rightarrow> nat \<Rightarrow> 'v world \<Rightarrow> 'v world" where
  "take_from_putter syncing pos w s =
     (let x = syncers s w; val = put_val (w_obj x);
          s = select_syncing (the (w_syncing x)) (w_syncing_i x)
                (upd_syncer w (\<lambda>x. x\<lparr>w_picked := True\<rparr>) s);
          s = (case (syncing, pos) of
                 (Some y, Some i) \<Rightarrow> set_argv y i (Val val) (select_syncing y i s)
               | _ \<Rightarrow> s)
      in scheme_weak_resume_thread (w_thread x) s)"

definition give_to_getter :: "'v \<Rightarrow> nat option \<Rightarrow> nat option \<Rightarrow> nat \<Rightarrow> 'v world \<Rightarrow> 'v world" where
  "give_to_getter val syncing pos w s =
     (let x = syncers s w; yw = the (w_syncing x);
          s = select_syncing yw (w_syncing_i x)
                (set_argv yw (w_syncing_i x) (Val val)
                  (upd_syncer w (\<lambda>x. x\<lparr>w_picked := True\<rparr>) s));
          s = (case (syncing, pos) of (Some y, Some i) \<Rightarrow> select_syncing y i s | _ \<Rightarrow> s)
      in scheme_weak_resume_thread (w_thread x) s)"

partial_function (option) try_get ::
  "nat option \<Rightarrow> nat option \<Rightarrow> nat option \<Rightarrow> 'v world \<Rightarrow> ('v option \<times> 'v world) option" where
  "try_get syncing pos at s =
     (case at of
        None \<Rightarrow> Some (None, s)
      | Some w \<Rightarrow>
          (if w_syncing (syncers s w) = syncing then try_get syncing pos (w_next (syncers s w)) s
           else
             (let chp = w_obj (syncers s w); picked = waiter_free s w;
                  s1 = (if picked then take_from_putter syncing pos w s else s);
                  nxt = w_next (syncers s1 w); s2 = get_outof_line chp w s1
              in if picked then Some (Some (put_val chp), s2) else try_get syncing pos nxt s2)))"

partial_function (option) try_put ::
  "nat \<Rightarrow> 'v \<Rightarrow> nat option \<Rightarrow> nat option \<Rightarrow> nat option \<Rightarrow> 'v world \<Rightarrow> (bool \<times> 'v world) option" where
  "try_put c val syncing pos at s =
     (case at of
        None \<Rightarrow> Some (False, s)
      | Some w \<Rightarrow>
          (if w_syncing (syncers s w) = syncing then
             try_put c val syncing pos (w_next (syncers s w)) s
           else
             (let picked = waiter_free s w;
                  s1 = (if picked then give_to_getter val syncing pos w s else s);
                  nxt = w_next (syncers s1 w); s2 = get_outof_line (Channel c) w s1
              in if picked then Some (True, s2) else try_put c val syncing pos nxt s2)))"

text \<open>The value is what \<^verbatim>\<open>*result\<close> receives.\<close>

definition try_channel ::
  "'v evt \<Rightarrow> nat option \<Rightarrow> nat option \<Rightarrow> 'v world \<Rightarrow> (bool \<times> 'v option \<times> 'v world) option" where
  "try_channel sema syncing pos s =
     (case sema of
        Channel c \<Rightarrow>
          map_option (\<lambda>(r, s). (r \<noteq> None, r, s)) (try_get syncing pos (l_first (lines s (Put_Line c))) s)
      | Channel_Put c v \<Rightarrow>
          map_option (\<lambda>(b, s). (b, None, s)) (try_put c v syncing pos (l_first (lines s (Get_Line c))) s)
      | _ \<Rightarrow> Some (False, None, s))"

subsection \<open>Waiting\<close>

text \<open>
  \<^verbatim>\<open>scheme_wait_semas_chs\<close> in its parts between two thread switches: a poll; making
  waiters and getting in line before the thread is suspended (\<open>wait_line_up\<close>); what happens
  when it is resumed (\<open>wait_resumed\<close>); and the second poll (\<open>wait_again\<close>). The events are
  polled in the order that starts at \<open>start_pos\<close>.
\<close>

definition poll_order :: "nat \<Rightarrow> nat \<Rightarrow> nat list" where
  "poll_order start_pos n = map (\<lambda>ii. (start_pos + ii) mod n) [0..<n]"

definition reposts_at :: "'v world \<Rightarrow> nat option \<Rightarrow> nat \<Rightarrow> bool" where
  "reposts_at s syncing i = (case syncing of None \<Rightarrow> False | Some y \<Rightarrow> y_reposts (syncings s y) i)"

definition poll_evt :: "nat option \<Rightarrow> nat \<Rightarrow> 'v evt \<Rightarrow> 'v world \<Rightarrow> (bool \<times> 'v world) option" where
  "poll_evt syncing i sema s =
     (case sema of
        Sema_Evt t \<Rightarrow>
          (if sema_value s t \<noteq> 0 then
             (let s1 = (if reposts_at s syncing i then s else dec_value t s)
              in Some (True, case syncing of
                   None \<Rightarrow> s1 | Some y \<Rightarrow> upd_syncing y (\<lambda>x. x\<lparr>y_result := i + 1\<rparr>) s1))
           else Some (False, s))
      | Never_Evt \<Rightarrow> Some (False, s)
      | Syncer w \<Rightarrow> Some (w_picked (syncers s w), s)
      | _ \<Rightarrow> map_option (\<lambda>(b, r, s). (b, s)) (try_channel sema syncing (Some i) s))"

text \<open>The second poll differs: a semaphore does not set the result of the sync operation.\<close>

definition repoll_evt :: "nat option \<Rightarrow> nat \<Rightarrow> 'v evt \<Rightarrow> 'v world \<Rightarrow> (bool \<times> 'v world) option" where
  "repoll_evt syncing i sema s =
     (case sema of
        Sema_Evt t \<Rightarrow>
          (if sema_value s t \<noteq> 0 then
             Some (True, if reposts_at s syncing i then s else dec_value t s)
           else Some (False, s))
      | Never_Evt \<Rightarrow> Some (False, s)
      | _ \<Rightarrow> map_option (\<lambda>(b, r, s). (b, s)) (try_channel sema syncing (Some i) s))"

fun poll_loop ::
  "(nat \<Rightarrow> 'v evt \<Rightarrow> 'v world \<Rightarrow> (bool \<times> 'v world) option) \<Rightarrow> 'v evt list \<Rightarrow> nat list \<Rightarrow> 'v world \<Rightarrow>
   (nat option \<times> 'v world) option" where
  "poll_loop poll semas [] s = Some (None, s)"
| "poll_loop poll semas (i # is) s =
     (case poll i (semas ! i) s of
        None \<Rightarrow> None
      | Some (True, s) \<Rightarrow> Some (Some i, s)
      | Some (False, s) \<Rightarrow> poll_loop poll semas is s)"

text \<open>Syncers get changed back to channels, and new waiters are made for the other events.\<close>

fun make_waiters ::
  "nat \<Rightarrow> nat option \<Rightarrow> nat \<Rightarrow> 'v evt list \<Rightarrow> 'v world \<Rightarrow> 'v evt list \<times> nat list \<times> 'v world" where
  "make_waiters p syncing i [] s = ([], [], s)"
| "make_waiters p syncing i (sema # semas) s =
     (case sema of
        Syncer w \<Rightarrow>
          (let (es, ws, s) = make_waiters p syncing (i + 1) semas s
           in (w_obj (syncers s w) # es, w # ws, s))
      | _ \<Rightarrow>
          (let w = next_syncer s;
               x = \<lparr>w_thread = p, w_in_line = False, w_picked = False, w_prev = None, w_next = None,
                    w_syncing = syncing, w_obj = sema, w_syncing_i = i\<rparr>;
               (es, ws, s) = make_waiters p syncing (i + 1) semas
                 (s\<lparr>syncers := (syncers s)(w := x), next_syncer := w + 1\<rparr>)
           in (sema # es, w # ws, s)))"

definition enter_lines :: "'v evt list \<Rightarrow> nat list \<Rightarrow> 'v world \<Rightarrow> 'v world" where
  "enter_lines semas ws s =
     fold (\<lambda>(e, w) s. if w_in_line (syncers s w) then s else get_into_line e w s) (zip semas ws) s"

definition leave_lines :: "'v evt list \<Rightarrow> nat list \<Rightarrow> 'v world \<Rightarrow> 'v world" where
  "leave_lines semas ws s =
     fold (\<lambda>(e, w) s. if w_in_line (syncers s w) then get_outof_line e w s else s) (zip semas ws) s"

definition suspend_self :: "nat \<Rightarrow> 'v world \<Rightarrow> 'v world" where
  "suspend_self p s =
     (if t_main (threads s p)
      then upd_thread p (\<lambda>th. th\<lparr>t_suspend_break := t_suspend_break th + 1\<rparr>) s
      else upd_thread p (\<lambda>th. th\<lparr>t_suspended := True\<rparr>) s)"

definition wait_line_up :: "nat \<Rightarrow> 'v evt list \<Rightarrow> nat list \<Rightarrow> 'v world \<Rightarrow> 'v world" where
  "wait_line_up p semas ws s = suspend_self p (enter_lines semas ws s)"

text \<open>Without a sync operation the thread takes the value itself; someone may have been
  faster. The result is \<^verbatim>\<open>out_of_a_line\<close> and the index.\<close>

definition evt_value :: "'v world \<Rightarrow> 'v evt \<Rightarrow> int" where
  "evt_value s e = (case e of Sema_Evt t \<Rightarrow> sema_value s t | _ \<Rightarrow> 0)"

definition dec_evt :: "'v evt \<Rightarrow> 'v world \<Rightarrow> 'v world" where
  "dec_evt e s = (case e of Sema_Evt t \<Rightarrow> dec_value t s | _ \<Rightarrow> s)"

fun take_posts ::
  "'v evt list \<Rightarrow> nat list \<Rightarrow> nat list \<Rightarrow> bool \<Rightarrow> 'v world \<Rightarrow> bool \<times> nat option \<times> 'v world" where
  "take_posts semas ws [] out s = (out, None, s)"
| "take_posts semas ws (i # is) out s =
     (if w_picked (syncers s (ws ! i)) then
        (if evt_value s (semas ! i) \<noteq> 0 then (True, Some i, dec_evt (semas ! i) s)
         else take_posts semas ws is True s)
      else take_posts semas ws is out s)"

fun repost_others ::
  "'v evt list \<Rightarrow> nat list \<Rightarrow> nat option \<Rightarrow> nat list \<Rightarrow> 'v world \<Rightarrow> (sema_error + 'v world) option" where
  "repost_others semas ws i [] s = Some (Inr s)"
| "repost_others semas ws i (j # js) s =
     (if Some j \<noteq> i \<and> w_picked (syncers s (ws ! j)) \<and> evt_value s (semas ! j) \<noteq> 0 then
        (case semas ! j of
           Sema_Evt t \<Rightarrow>
             (case scheme_post_sema t (dec_value t s) of
                None \<Rightarrow> None
              | Some (Inl e) \<Rightarrow> Some (Inl e)
              | Some (Inr s) \<Rightarrow> repost_others semas ws i js s)
         | _ \<Rightarrow> repost_others semas ws i js s)
      else repost_others semas ws i js s)"

datatype resumed = Done nat | Dies | Blocks | Again

definition wait_resumed ::
  "nat \<Rightarrow> 'v evt list \<Rightarrow> nat list \<Rightarrow> nat option \<Rightarrow> nat \<Rightarrow> 'v world \<Rightarrow>
   (sema_error + resumed \<times> 'v world) option" where
  "wait_resumed p semas ws syncing start_pos s =
     (let n = length semas;
          s = (if t_main (threads s p)
               then upd_thread p (\<lambda>th. th\<lparr>t_suspend_break := t_suspend_break th - 1\<rparr>) s else s);
          (out, i, s) =
            (case syncing of
               None \<Rightarrow> take_posts semas ws (poll_order start_pos n) False s
             | Some y \<Rightarrow>
                 (if y_result (syncings s y) \<noteq> 0 then (True, Some (y_result (syncings s y) - 1), s)
                  else (False, None, s)))
      in if \<not> out then Some (Inr (Blocks, leave_lines semas ws s))
         else
           (let th = threads s p;
                dead = (t_killed th \<or> t_user_suspended th \<and> \<not> t_suspend_cleanup th);
                i = (if dead then None else i);
                go = (\<lambda>s. if dead then (Dies, leave_lines semas ws s)
                          else case i of
                            Some i \<Rightarrow> (Done (i + 1), leave_lines semas ws s)
                          | None \<Rightarrow> (Again, s))
            in if syncing = None then
                 map_option (map_sum id go) (repost_others semas ws i [0..<n] s)
               else Some (Inr (go s))))"

text \<open>The second poll, after which a thread without a sync operation gets one (fair mode) and
  gets in line again: the result is \<open>Inl\<close> with the return value, or the sync operation.\<close>

definition fair_mode :: "'v evt list \<Rightarrow> nat list \<Rightarrow> 'v world \<Rightarrow> nat \<times> 'v world" where
  "fair_mode semas ws s =
     (let y = next_syncing s;
          s = leave_lines semas ws
                (s\<lparr>syncings := (syncings s)(y := \<lparr>y_argv = [], y_result = 0, y_reposts = (\<lambda>_. False),
                     y_disable_break = None\<rparr>), next_syncing := y + 1\<rparr>)
      in (y, fold (\<lambda>w. upd_syncer w (\<lambda>x. x\<lparr>w_syncing := Some y\<rparr>)) ws s))"

definition wait_again ::
  "'v evt list \<Rightarrow> nat list \<Rightarrow> nat option \<Rightarrow> nat \<Rightarrow> 'v world \<Rightarrow> ((nat + nat) \<times> 'v world) option" where
  "wait_again semas ws syncing start_pos s =
     (case poll_loop (repoll_evt syncing) semas (poll_order start_pos (length semas)) s of
        None \<Rightarrow> None
      | Some (Some i, s) \<Rightarrow> Some (Inl (i + 1), leave_lines semas ws s)
      | Some (None, s) \<Rightarrow>
          (case syncing of
             Some y \<Rightarrow> Some (Inr y, s)
           | None \<Rightarrow> (let (y, s) = fair_mode semas ws s in Some (Inr y, s))))"

text \<open>The start of a wait: the value returned at once, or the events and waiters in line.\<close>

definition wait_begin ::
  "nat \<Rightarrow> 'v evt list \<Rightarrow> nat option \<Rightarrow> nat \<Rightarrow> 'v world \<Rightarrow>
   ((nat + 'v evt list \<times> nat list) \<times> 'v world) option" where
  "wait_begin p semas syncing start_pos s =
     (case poll_loop (poll_evt syncing) semas (poll_order start_pos (length semas)) s of
        None \<Rightarrow> None
      | Some (Some i, s) \<Rightarrow> Some (Inl (i + 1), s)
      | Some (None, s) \<Rightarrow>
          (let (semas, ws, s) = make_waiters p syncing 0 semas s
           in Some (Inr (semas, ws), wait_line_up p semas ws s)))"

subsection \<open>Mailboxes\<close>

definition new_sema :: "int \<Rightarrow> 'v world \<Rightarrow> nat \<times> 'v world" where
  "new_sema v s =
     (let t = next_sema s
      in (t, set_line (Sema_Line t) \<lparr>l_first = None, l_last = None\<rparr>
               (upd_value t (\<lambda>_. v) (s\<lparr>next_sema := t + 1\<rparr>))))"

definition make_mbox_sema :: "nat \<Rightarrow> 'v world \<Rightarrow> 'v world" where
  "make_mbox_sema p s =
     (if t_mbox_sema (threads s p) = None then
        (let (t, s) = new_sema 0 s in upd_thread p (\<lambda>th. th\<lparr>t_mbox_sema := Some t\<rparr>) s)
      else s)"

definition mbox_sema :: "'v world \<Rightarrow> nat \<Rightarrow> nat" where
  "mbox_sema s p = the (t_mbox_sema (threads s p))"

definition scheme_make_raw_pair :: "'v \<Rightarrow> nat option \<Rightarrow> 'v world \<Rightarrow> nat \<times> 'v world" where
  "scheme_make_raw_pair a d s =
     (let n = next_pair s
      in (n, s\<lparr>raw_pairs := (raw_pairs s)(n := \<lparr>p_car = a, p_cdr = d\<rparr>), next_pair := n + 1\<rparr>))"

definition set_cdr :: "nat \<Rightarrow> nat option \<Rightarrow> 'v world \<Rightarrow> 'v world" where
  "set_cdr n d s = s\<lparr>raw_pairs := (raw_pairs s)(n := (raw_pairs s n)\<lparr>p_cdr := d\<rparr>)\<rparr>"

text \<open>The messages of a thread are a list of raw pairs, with a pointer to the first and one to the last. The
  part of \<^verbatim>\<open>mbox_push\<close> before its post.\<close>

definition mbox_append :: "nat \<Rightarrow> 'v \<Rightarrow> 'v world \<Rightarrow> 'v world" where
  "mbox_append p v s =
     (let (n, s) = scheme_make_raw_pair v None s
      in make_mbox_sema p
           (if t_mbox_first (threads s p) \<noteq> None then
              upd_thread p (\<lambda>th. th\<lparr>t_mbox_last := Some n\<rparr>)
                (set_cdr (the (t_mbox_last (threads s p))) (Some n) s)
            else upd_thread p (\<lambda>th. th\<lparr>t_mbox_first := Some n, t_mbox_last := Some n\<rparr>) s))"

definition mbox_push :: "nat \<Rightarrow> 'v \<Rightarrow> 'v world \<Rightarrow> (sema_error + 'v world) option" where
  "mbox_push p v s = (let s = mbox_append p v s in scheme_post_sema (mbox_sema s p) s)"

definition mbox_cons :: "nat \<Rightarrow> 'v \<Rightarrow> 'v world \<Rightarrow> 'v world" where
  "mbox_cons p v s =
     (let (n, s) = scheme_make_raw_pair v (t_mbox_first (threads s p)) s;
          s = (if t_mbox_first (threads s p) = None
               then upd_thread p (\<lambda>th. th\<lparr>t_mbox_last := Some n\<rparr>) s else s)
      in upd_thread p (\<lambda>th. th\<lparr>t_mbox_first := Some n\<rparr>) s)"

text \<open>The count goes up once for each batch of 257 messages. After a batch the code may let other threads run
  (\<^verbatim>\<open>SCHEME_USE_FUEL\<close>); the model goes on at once.\<close>

fun mbox_push_front_loop :: "nat \<Rightarrow> int \<Rightarrow> 'v list \<Rightarrow> 'v world \<Rightarrow> (sema_error + 'v world) option" where
  "mbox_push_front_loop p cnt [] s = Some (Inr s)"
| "mbox_push_front_loop p cnt (x # xs) s =
     (let s = mbox_cons p x s; cnt = cnt + 1
      in if xs = [] \<or> cnt = 256 then
           (case scheme_post_sema (mbox_sema s p) (upd_value (mbox_sema s p) (\<lambda>v. v + cnt) s) of
              None \<Rightarrow> None
            | Some (Inl e) \<Rightarrow> Some (Inl e)
            | Some (Inr s) \<Rightarrow> mbox_push_front_loop p (-1) xs s)
         else mbox_push_front_loop p cnt xs s)"

definition mbox_push_front :: "nat \<Rightarrow> 'v list \<Rightarrow> 'v world \<Rightarrow> (sema_error + 'v world) option" where
  "mbox_push_front p lst s = mbox_push_front_loop p (-1) lst (make_mbox_sema p s)"

text \<open>Popping an empty mailbox would read a null pointer.\<close>

definition mbox_pop :: "nat \<Rightarrow> bool \<Rightarrow> 'v world \<Rightarrow> 'v \<times> 'v world" where
  "mbox_pop p dec s =
     (case t_mbox_first (threads s p) of
        None \<Rightarrow> undefined
      | Some n \<Rightarrow>
          (let r = p_car (raw_pairs s n);
               s = upd_thread p (\<lambda>th. th\<lparr>t_mbox_first := p_cdr (raw_pairs s n)\<rparr>) s;
               s = (if t_mbox_first (threads s p) = None
                    then upd_thread p (\<lambda>th. th\<lparr>t_mbox_last := None\<rparr>) s else s)
           in (r, if dec then snd (scheme_try_plain_sema (mbox_sema s p) s) else s)))"

text \<open>\<open>thread-send\<close> with an optional failure thunk, which may be \<open>#f\<close>.\<close>

datatype 'v fail_thunk = No_Thunk | Thunk_False | Thunk 'v
datatype 'v sent = Sent | Send_False | Send_Call 'v | Send_Error | Send_Overflow

definition thread_send ::
  "nat \<Rightarrow> 'v \<Rightarrow> 'v fail_thunk \<Rightarrow> 'v world \<Rightarrow> ('v sent \<times> 'v world) option" where
  "thread_send p v thunk s =
     (if t_running (threads s p) \<and> \<not> t_killed (threads s p) then
        (case mbox_push p v s of
           None \<Rightarrow> None
         | Some (Inl e) \<Rightarrow>
             Some (Send_Overflow, mbox_append p v s)
         | Some (Inr s) \<Rightarrow> Some (Sent, s))
      else Some (case thunk of No_Thunk \<Rightarrow> Send_Error | Thunk_False \<Rightarrow> Send_False
                 | Thunk f \<Rightarrow> Send_Call f, s))"

text \<open>A receiver with an empty mailbox waits for the semaphore and then pops.\<close>

definition thread_try_receive :: "nat \<Rightarrow> 'v world \<Rightarrow> 'v option \<times> 'v world" where
  "thread_try_receive p s =
     (if t_mbox_first (threads s p) \<noteq> None then (let (v, s) = mbox_pop p True s in (Some v, s))
      else (None, s))"

definition thread_receive ::
  "nat \<Rightarrow> 'v world \<Rightarrow> (('v + 'v evt list \<times> nat list) \<times> 'v world) option" where
  "thread_receive p s =
     (if t_mbox_first (threads s p) \<noteq> None then (let (v, s) = mbox_pop p True s in Some (Inl v, s))
      else
        (let s = make_mbox_sema p s
         in case scheme_try_plain_sema (mbox_sema s p) s of
              (True, s) \<Rightarrow> (let (v, s) = mbox_pop p False s in Some (Inl v, s))
            | (False, s) \<Rightarrow>
                (case wait_begin p [Sema_Evt (mbox_sema s p)] None 0 s of
                   None \<Rightarrow> None
                 | Some (Inl i, s) \<Rightarrow> (let (v, s) = mbox_pop p False s in Some (Inl v, s))
                 | Some (Inr sw, s) \<Rightarrow> Some (Inr sw, s))))"

definition thread_rewind_receive :: "nat \<Rightarrow> 'v list \<Rightarrow> 'v world \<Rightarrow> (sema_error + 'v world) option" where
  "thread_rewind_receive p lst s = mbox_push_front p lst s"

end
