(* ===== verification/Sema_Correct.thy ===== *)
theory Sema_Correct
  imports Sema
begin

section \<open>Lines of waiters are queues\<close>

text \<open>
  The abstraction of the doubly linked lines to lists of waiters: \<open>lined s L\<close> holds when
  every line \<open>pl\<close> is linked in the order \<open>L pl\<close> and a waiter says that it is in line exactly
  when it is in the line of its event. Getting in line appends, getting out of line removes,
  a post takes the first; each keeps the abstraction.
\<close>

fun links :: "(nat \<Rightarrow> 'v syncer) \<Rightarrow> nat option \<Rightarrow> nat list \<Rightarrow> nat option \<Rightarrow> bool" where
  "links h p [] n \<longleftrightarrow> True"
| "links h p (w # ws) n \<longleftrightarrow> w_prev (h w) = p \<and>
     w_next (h w) = (case ws of [] \<Rightarrow> n | v # _ \<Rightarrow> Some v) \<and> links h (Some w) ws n"

definition first_of :: "nat option \<Rightarrow> nat list \<Rightarrow> nat option" where
  "first_of n ws = (case ws of [] \<Rightarrow> n | w # _ \<Rightarrow> Some w)"

definition last_of :: "nat option \<Rightarrow> nat list \<Rightarrow> nat option" where
  "last_of p ws = (if ws = [] then p else Some (last ws))"

definition dll :: "(nat \<Rightarrow> 'v syncer) \<Rightarrow> line \<Rightarrow> nat list \<Rightarrow> bool" where
  "dll h l ws \<longleftrightarrow> distinct ws \<and> l_first l = first_of None ws \<and> l_last l = last_of None ws \<and>
     links h None ws None"

definition linedx :: "nat set \<Rightarrow> 'v world \<Rightarrow> (place \<Rightarrow> nat list) \<Rightarrow> bool" where
  "linedx X s L \<longleftrightarrow> (\<forall>pl. dll (syncers s) (lines s pl) (L pl)) \<and>
     (\<forall>w pl. w \<in> set (L pl) \<longleftrightarrow>
       w \<notin> X \<and> w_in_line (syncers s w) \<and> line_of (w_obj (syncers s w)) = Some pl)"

text \<open>\<open>X\<close> are waiters in the middle of leaving.\<close>

abbreviation lined :: "'v world \<Rightarrow> (place \<Rightarrow> nat list) \<Rightarrow> bool" where
  "lined \<equiv> linedx {}"

lemma first_of_simps [simp]: "first_of n [] = n" "first_of n (w # ws) = Some w"
  "first_of n (xs @ ys) = first_of (first_of n ys) xs"
  by (simp_all add: first_of_def split: list.splits)

lemma last_of_simps [simp]: "last_of p [] = p" "last_of p (w # ws) = last_of (Some w) ws"
  "last_of p (xs @ ys) = last_of (last_of p xs) ys"
  by (simp_all add: last_of_def)

lemma links_append:
  "links h p (xs @ ys) n \<longleftrightarrow> links h p xs (first_of n ys) \<and> links h (last_of p xs) ys n"
  by (induction xs arbitrary: p) (auto simp: first_of_def split: list.splits)

lemma links_frame:
  assumes "\<forall>w \<in> set ws. w_prev (h' w) = w_prev (h w) \<and> w_next (h' w) = w_next (h w)"
  shows "links h' p ws n = links h p ws n"
  using assms by (induction ws arbitrary: p) auto

lemma links_snoc:
  assumes "links h p ws n" "ws \<noteq> []" "distinct ws"
  shows "links (h(last ws := (h (last ws))\<lparr>w_next := m\<rparr>)) p ws m"
  using assms
proof (induction ws arbitrary: p)
  case (Cons w ws)
  show ?case
  proof (cases ws)
    case Nil
    with Cons show ?thesis by simp
  next
    case (Cons v vs)
    with Cons.prems Cons.IH[of "Some w"] show ?thesis by auto
  qed
qed simp

lemma links_hd:
  assumes "links h p ws n" "distinct ws" "ws \<noteq> []"
  shows "links (h(hd ws := (h (hd ws))\<lparr>w_prev := q\<rparr>)) q ws n"
proof (cases ws)
  case (Cons w vs)
  have "links (h(w := (h w)\<lparr>w_prev := q\<rparr>)) (Some w) vs n = links h (Some w) vs n"
    using assms Cons by (intro links_frame) auto
  with assms Cons show ?thesis by simp
qed (use assms in simp)

lemma first_of_None: "first_of None ws = None \<longleftrightarrow> ws = []"
  by (simp add: first_of_def split: list.splits)

lemma last_of_None: "last_of None ws = None \<longleftrightarrow> ws = []"
  by (simp add: last_of_def)

lemma links_cong: "links h p ws n \<Longrightarrow> (\<And>w. w \<in> set ws \<Longrightarrow> w_prev (h' w) = w_prev (h w) \<and> w_next (h' w) = w_next (h w))
    \<Longrightarrow> links h' p ws n"
  using links_frame[of ws h' h p n] by blast

text \<open>Frame: a line is not touched by updates of other waiters or of other fields.\<close>

lemma dll_frame:
  assumes "dll h l ws" "\<And>w. w \<in> set ws \<Longrightarrow> w_prev (h' w) = w_prev (h w) \<and> w_next (h' w) = w_next (h w)"
  shows "dll h' l ws"
  using assms links_cong[of h None ws None h'] by (simp add: dll_def)

lemmas upd_defs = upd_syncer_def upd_syncing_def upd_thread_def upd_value_def set_line_def

lemma dll_append:
  assumes "dll h l ws" "w \<notin> set ws"
    and "\<And>v. v \<in> set ws \<Longrightarrow> w_prev (h' v) = w_prev (h v)"
    and "\<And>v. v \<in> set ws \<Longrightarrow> w_next (h' v) = (if Some v = l_last l then Some w else w_next (h v))"
    and "w_prev (h' w) = l_last l" "w_next (h' w) = None"
    and "l_first l' = (if l_last l = None then Some w else l_first l)" "l_last l' = Some w"
  shows "dll h' l' (ws @ [w])"
proof (cases "ws = []")
  case True
  with assms show ?thesis by (simp add: dll_def)
next
  case False
  have d: "distinct ws" "links h None ws None" "l_last l = Some (last ws)" "l_first l = first_of None ws"
    using assms(1) False by (simp_all add: dll_def last_of_def)
  have "links (h(last ws := (h (last ws))\<lparr>w_next := Some w\<rparr>)) None ws (Some w)"
    by (rule links_snoc[OF d(2) False d(1)])
  then have "links h' None ws (Some w)"
    by (rule links_cong) (use assms(3,4) d(3) in auto)
  moreover have "first_of (Some w) ws = first_of None ws" using False by (cases ws) simp_all
  ultimately show ?thesis using assms d False
    by (simp add: dll_def links_append last_of_def)
qed

lemma dll_remove:
  assumes "dll h l (xs @ w # ys)"
    and "\<And>v. v \<in> set (xs @ ys) \<Longrightarrow> w_prev (h' v) = (if Some v = w_next (h w) then w_prev (h w) else w_prev (h v))"
    and "\<And>v. v \<in> set (xs @ ys) \<Longrightarrow> w_next (h' v) = (if Some v = w_prev (h w) then w_next (h w) else w_next (h v))"
    and "l_first l' = (if w_prev (h w) = None then w_next (h w) else l_first l)"
    and "l_last l' = (if w_next (h w) = None then w_prev (h w) else l_last l)"
  shows "dll h' l' (xs @ ys)"
proof -
  from assms(1) have d: "distinct xs" "distinct ys" "set xs \<inter> set ys = {}" "w \<notin> set xs" "w \<notin> set ys"
    and l: "l_first l = first_of (Some w) xs" "l_last l = last_of (Some w) ys"
    and k: "links h None xs (Some w)" "w_prev (h w) = last_of None xs" "w_next (h w) = first_of None ys"
      "links h (Some w) ys None"
    by (auto simp: dll_def links_append first_of_def split: list.splits)
  have nl: "xs \<noteq> [] \<Longrightarrow> last xs \<notin> set ys" using d(3) last_in_set[of xs] by blast
  have nh: "ys \<noteq> [] \<Longrightarrow> hd ys \<notin> set xs" using d(3) hd_in_set[of ys] by blast
  have xs: "links h' None xs (first_of None ys)"
  proof (cases "xs = []")
    case False
    with k(2) have p: "w_prev (h w) = Some (last xs)" by (simp add: last_of_def)
    have "links (h(last xs := (h (last xs))\<lparr>w_next := first_of None ys\<rparr>)) None xs (first_of None ys)"
      by (rule links_snoc[OF k(1) False d(1)])
    then show ?thesis
      by (rule links_cong) (use assms(2,3) p k(3) d(3) nl nh False in \<open>auto simp: first_of_def split: list.splits\<close>)
  qed simp
  have ys: "links h' (last_of None xs) ys None"
  proof (cases "ys = []")
    case False
    with k(3) have n: "w_next (h w) = Some (hd ys)" by (cases ys) simp_all
    have "links (h(hd ys := (h (hd ys))\<lparr>w_prev := last_of None xs\<rparr>)) (last_of None xs) ys None"
      by (rule links_hd[OF k(4) d(2) False])
    then show ?thesis
      by (rule links_cong) (use assms(2,3) n k(2) d(3) nh nl False in \<open>auto simp: last_of_def split: if_splits\<close>)
  qed simp
  have f: "l_first l' = first_of (first_of None ys) xs"
    using assms(4) l(1) k(2,3) by (cases xs) (auto simp: last_of_def)
  have e: "l_last l' = last_of (last_of None xs) ys"
    using assms(5) l(2) k(2,3) by (cases ys) (auto simp: last_of_def)
  show ?thesis using d xs ys f e by (auto simp: dll_def links_append)
qed

subsection \<open>Getting in and out of line\<close>

lemma lined_dll: "linedx X s L \<Longrightarrow> dll (syncers s) (lines s pl) (L pl)"
  by (simp add: linedx_def)

lemma lined_in: "linedx X s L \<Longrightarrow> w \<in> set (L pl) \<longleftrightarrow> w \<notin> X \<and> w_in_line (syncers s w) \<and> line_of (w_obj (syncers s w)) = Some pl"
  by (simp add: linedx_def)

lemma lined_last_in: "linedx X s L \<Longrightarrow> l_last (lines s pl) = Some v \<Longrightarrow> v \<in> set (L pl)"
  by (drule lined_dll[of _ _ _ pl]) (auto simp: dll_def last_of_def split: if_splits)

lemma lined_disjoint: "linedx X s L \<Longrightarrow> w \<in> set (L pl) \<Longrightarrow> w \<in> set (L pl') \<Longrightarrow> pl' = pl"
  by (simp add: linedx_def)

lemma into_line_syncers:
  assumes "line_of sema = Some pl" "l_last (lines s pl) \<noteq> Some w"
  shows "syncers (get_into_line sema w s) v =
    (if v = w then (syncers s w)\<lparr>w_in_line := True, w_picked := False, w_prev := l_last (lines s pl), w_next := None\<rparr>
     else if Some v = l_last (lines s pl) then (syncers s v)\<lparr>w_next := Some w\<rparr> else syncers s v)"
  using assms by (auto simp: get_into_line_def Let_def upd_defs split: option.splits)

lemma into_line_lines:
  assumes "line_of sema = Some pl"
  shows "lines (get_into_line sema w s) = (lines s)(pl :=
    \<lparr>l_first = (if l_last (lines s pl) = None then Some w else l_first (lines s pl)), l_last = Some w\<rparr>)"
  using assms by (auto simp: get_into_line_def Let_def upd_defs split: option.splits)

lemma lined_into:
  assumes "linedx X s L" "\<not> w_in_line (syncers s w)" "w \<notin> X" "w_obj (syncers s w) = sema" "line_of sema = Some pl"
  shows "linedx X (get_into_line sema w s) (L(pl := L pl @ [w]))"
proof -
  let ?s = "get_into_line sema w s"
  have w: "w \<notin> set (L q)" for q using assms(1,2) by (simp add: lined_in)
  then have lst: "l_last (lines s q) \<noteq> Some w" for q using lined_last_in[OF assms(1), of q w] by blast
  note sy = into_line_syncers[OF assms(5) lst, of _] and ln = into_line_lines[OF assms(5), of w s]
  have "dll (syncers ?s) (lines ?s q) ((L(pl := L pl @ [w])) q)" for q
  proof (cases "q = pl")
    case True
    have "dll (syncers ?s) (lines ?s pl) (L pl @ [w])"
      by (rule dll_append[OF lined_dll[OF assms(1), of pl] w]) (use w in \<open>auto simp: sy ln\<close>)
    with True show ?thesis by simp
  next
    case False
    have "dll (syncers ?s) (lines s q) (L q)"
    proof (rule dll_frame[OF lined_dll[OF assms(1), of q]])
      fix v assume v: "v \<in> set (L q)"
      then have "v \<noteq> w" using w by blast
      moreover have "l_last (lines s pl) \<noteq> Some v"
        using lined_last_in[OF assms(1), of pl v] lined_disjoint[OF assms(1) v] False by blast
      ultimately show "w_prev (syncers ?s v) = w_prev (syncers s v) \<and> w_next (syncers ?s v) = w_next (syncers s v)"
        by (auto simp: sy)
    qed
    with False show ?thesis by (simp add: ln)
  qed
  moreover have "v \<in> set ((L(pl := L pl @ [w])) q) \<longleftrightarrow>
      v \<notin> X \<and> w_in_line (syncers ?s v) \<and> line_of (w_obj (syncers ?s v)) = Some q" for v q
    using lined_in[OF assms(1), of v q] assms(2-5) by (auto simp: sy)
  ultimately show ?thesis by (simp only: linedx_def) blast
qed

lemma outof_line_syncers:
  assumes "line_of sema = Some pl" "w_in_line (syncers s w)" "w_prev (syncers s w) \<noteq> Some w" "w_next (syncers s w) \<noteq> Some w"
  shows "w_prev (syncers (get_outof_line sema w s) v) =
      (if v \<noteq> w \<and> Some v = w_next (syncers s w) then w_prev (syncers s w) else w_prev (syncers s v))"
    and "w_next (syncers (get_outof_line sema w s) v) =
      (if v \<noteq> w \<and> Some v = w_prev (syncers s w) then w_next (syncers s w) else w_next (syncers s v))"
    and "w_in_line (syncers (get_outof_line sema w s) v) = (v \<noteq> w \<and> w_in_line (syncers s v))"
    and "w_obj (syncers (get_outof_line sema w s) v) = w_obj (syncers s v)"
    and "lines (get_outof_line sema w s) = (lines s)(pl :=
      \<lparr>l_first = (if w_prev (syncers s w) = None then w_next (syncers s w) else l_first (lines s pl)),
       l_last = (if w_next (syncers s w) = None then w_prev (syncers s w) else l_last (lines s pl))\<rparr>)"
  using assms by (auto simp: get_outof_line_def Let_def upd_defs split: option.splits)

lemma lined_split:
  assumes "linedx X s L" "w \<in> set (L pl)"
  obtains xs ys where "L pl = xs @ w # ys" "w \<notin> set xs" "w \<notin> set ys"
    "w_prev (syncers s w) = last_of None xs" "w_next (syncers s w) = first_of None ys"
proof -
  from split_list[OF assms(2)] obtain xs ys where l: "L pl = xs @ w # ys" by blast
  have "dll (syncers s) (lines s pl) (xs @ w # ys)" using lined_dll[OF assms(1), of pl] l by simp
  then have "w \<notin> set xs" "w \<notin> set ys" "w_prev (syncers s w) = last_of None xs"
    "w_next (syncers s w) = first_of None ys"
    by (auto simp: dll_def links_append first_of_def split: list.splits)
  with l that show ?thesis by blast
qed

lemma last_of_in: "last_of None xs = Some v \<Longrightarrow> v \<in> set xs"
  by (auto simp: last_of_def split: if_splits)

lemma first_of_in: "first_of None xs = Some v \<Longrightarrow> v \<in> set xs"
  by (auto simp: first_of_def split: list.splits)

lemma lined_neighbours:
  assumes "linedx X s L" "w \<in> set (L pl)"
  shows "w_prev (syncers s w) \<noteq> Some w" "w_next (syncers s w) \<noteq> Some w"
    "w_prev (syncers s w) = Some v \<Longrightarrow> v \<in> set (L pl)" "w_next (syncers s w) = Some v \<Longrightarrow> v \<in> set (L pl)"
  using lined_split[OF assms] last_of_in first_of_in by (metis Un_iff list.set_intros(2) set_append)+

lemma lined_outof:
  assumes "linedx X s L" "w_in_line (syncers s w)" "w_obj (syncers s w) = sema" "line_of sema = Some pl" "w \<notin> X"
  shows "linedx X (get_outof_line sema w s) (L(pl := remove1 w (L pl)))"
proof -
  let ?s = "get_outof_line sema w s"
  have w: "w \<in> set (L pl)" using assms by (simp add: lined_in)
  obtain xs ys where l: "L pl = xs @ w # ys" "w \<notin> set xs" "w \<notin> set ys" by (rule lined_split[OF assms(1) w])
  then have r: "remove1 w (L pl) = xs @ ys" by (simp add: remove1_append)
  note sy = outof_line_syncers[OF assms(4,2) lined_neighbours(1,2)[OF assms(1) w]]
  have "dll (syncers ?s) (lines ?s q) ((L(pl := remove1 w (L pl))) q)" for q
  proof (cases "q = pl")
    case True
    have "dll (syncers ?s) (lines ?s pl) (xs @ ys)"
      by (rule dll_remove[OF lined_dll[OF assms(1), of pl, unfolded l(1)]]) (use l in \<open>auto simp: sy\<close>)
    with True r show ?thesis by simp
  next
    case False
    have "dll (syncers ?s) (lines s q) (L q)"
    proof (rule dll_frame[OF lined_dll[OF assms(1), of q]])
      fix v assume v: "v \<in> set (L q)"
      with False have "v \<notin> set (L pl)" using lined_disjoint[OF assms(1) v] by blast
      with lined_neighbours(3,4)[OF assms(1) w, of v]
      show "w_prev (syncers ?s v) = w_prev (syncers s v) \<and> w_next (syncers ?s v) = w_next (syncers s v)"
        by (auto simp: sy)
    qed
    with False show ?thesis by (simp add: sy)
  qed
  moreover have "v \<in> set ((L(pl := remove1 w (L pl))) q) \<longleftrightarrow>
      v \<notin> X \<and> w_in_line (syncers ?s v) \<and> line_of (w_obj (syncers ?s v)) = Some q" for v q
    using lined_in[OF assms(1), of v q] assms(2-5) r l by (auto simp: sy)
  ultimately show ?thesis by (simp only: linedx_def) blast
qed

lemma lined_cong:
  assumes "linedx X s L" "lines s' = lines s"
    and "\<And>v. w_prev (syncers s' v) = w_prev (syncers s v)" "\<And>v. w_next (syncers s' v) = w_next (syncers s v)"
    and "\<And>v. w_in_line (syncers s' v) = w_in_line (syncers s v)" "\<And>v. w_obj (syncers s' v) = w_obj (syncers s v)"
  shows "linedx X s' L"
proof -
  have "dll (syncers s') (lines s' q) (L q)" for q
    unfolding assms(2) by (rule dll_frame[OF lined_dll[OF assms(1), of q]]) (simp add: assms(3,4))
  then show ?thesis using lined_in[OF assms(1)] assms(5,6) by (simp add: linedx_def)
qed

subsection \<open>Posting\<close>

lemma take_first_syncers:
  assumes "w_next (syncers s w) \<noteq> Some w"
  shows "syncers (take_first t w s) v =
    (if Some v = w_next (syncers s w) then (syncers s v)\<lparr>w_prev := None\<rparr> else syncers s v)"
    and "lines (take_first t w s) = (lines s)(Sema_Line t := \<lparr>l_first = w_next (syncers s w),
      l_last = (if w_next (syncers s w) = None then None else l_last (lines s (Sema_Line t)))\<rparr>)"
  using assms by (auto simp: take_first_def upd_defs split: option.splits)

lemma lined_take_first:
  assumes "linedx X s L" "L (Sema_Line t) = w # ws"
  shows "linedx (insert w X) (take_first t w s) (L(Sema_Line t := ws))"
proof -
  let ?pl = "Sema_Line t" and ?s = "take_first t w s"
  have w: "w \<in> set (L ?pl)" using assms(2) by simp
  note nb = lined_neighbours[OF assms(1) w]
  note sy = take_first_syncers[OF nb(2), of t]
  have d: "dll (syncers s) (lines s ?pl) ([] @ w # ws)" using lined_dll[OF assms(1), of ?pl] assms(2) by simp
  then have prv: "w_prev (syncers s w) = None" "w \<notin> set ws" "l_last (lines s ?pl) = last_of (Some w) ws"
    "w_next (syncers s w) = first_of None ws"
    by (auto simp: dll_def first_of_def split: list.splits)
  have "dll (syncers ?s) (lines ?s q) ((L(?pl := ws)) q)" for q
  proof (cases "q = ?pl")
    case True
    have "dll (syncers ?s) (lines ?s ?pl) ([] @ ws)"
      by (rule dll_remove[OF d]) (use prv in \<open>auto simp: sy\<close>)
    with True show ?thesis by simp
  next
    case False
    have "dll (syncers ?s) (lines s q) (L q)"
    proof (rule dll_frame[OF lined_dll[OF assms(1), of q]])
      fix v assume v: "v \<in> set (L q)"
      with False have "v \<notin> set (L ?pl)" using lined_disjoint[OF assms(1) v] by blast
      with nb(4)[of v] show "w_prev (syncers ?s v) = w_prev (syncers s v) \<and> w_next (syncers ?s v) = w_next (syncers s v)"
        by (auto simp: sy)
    qed
    with False show ?thesis by (simp add: sy)
  qed
  moreover have "v \<in> set ((L(?pl := ws)) q) \<longleftrightarrow>
      v \<notin> insert w X \<and> w_in_line (syncers ?s v) \<and> line_of (w_obj (syncers ?s v)) = Some q" for v q
    using lined_in[OF assms(1), of v q] assms(2) prv(2) lined_in[OF assms(1), of w ?pl] by (auto simp: sy)
  ultimately show ?thesis by (simp only: linedx_def) blast
qed

definition off_line :: "nat \<Rightarrow> 'v world \<Rightarrow> 'v world" where
  "off_line w s = upd_syncer w (\<lambda>x. x\<lparr>w_in_line := False, w_prev := None, w_next := None\<rparr>) s"

lemma lined_off:
  assumes "linedx (insert w X) s L" "w \<notin> X"
  shows "linedx X (off_line w s) L"
proof -
  have out: "w \<notin> set (L q)" for q using lined_in[OF assms(1)] by blast
  have "dll (syncers (off_line w s)) (lines s q) (L q)" for q
    by (rule dll_frame[OF lined_dll[OF assms(1), of q]])
      (use out in \<open>auto simp: off_line_def upd_defs\<close>)
  then show ?thesis using lined_in[OF assms(1)] assms(2)
    by (auto simp: linedx_def off_line_def upd_defs)
qed

text \<open>What neither line operation changes.\<close>

definition same_but_lines :: "'v world \<Rightarrow> 'v world \<Rightarrow> bool" where
  "same_but_lines s s' \<longleftrightarrow> sema_value s' = sema_value s \<and> syncings s' = syncings s \<and> threads s' = threads s \<and>
     all_breaks_disabled s' = all_breaks_disabled s \<and>
     (\<forall>w. w_thread (syncers s' w) = w_thread (syncers s w) \<and> w_picked (syncers s' w) = w_picked (syncers s w) \<and>
        w_syncing (syncers s' w) = w_syncing (syncers s w) \<and> w_obj (syncers s' w) = w_obj (syncers s w) \<and>
        w_syncing_i (syncers s' w) = w_syncing_i (syncers s w))"

lemma same_refl: "same_but_lines s s"
  by (simp add: same_but_lines_def)

lemma same_trans: "same_but_lines s s' \<Longrightarrow> same_but_lines s' s'' \<Longrightarrow> same_but_lines s s''"
  by (simp add: same_but_lines_def)

lemma same_outof: "same_but_lines s (get_outof_line sema w s)"
  by (auto simp: same_but_lines_def get_outof_line_def Let_def upd_defs split: option.splits)

lemma same_leave: "same_but_lines s (leave_if_syncer a s)"
  using same_outof by (auto simp: leave_if_syncer_def same_refl split: evt.splits)

lemma same_take_first: "same_but_lines s (take_first t w s)"
  by (auto simp: same_but_lines_def take_first_def upd_defs split: option.splits)

lemma same_off: "same_but_lines s (off_line w s)"
  by (simp add: same_but_lines_def off_line_def upd_defs)

lemma same_waiter_free:
  assumes "same_but_lines s s'"
  shows "waiter_free s' w = waiter_free s w"
proof -
  have "pending_break s' p = pending_break s p" for p
    using assms unfolding pending_break_def same_but_lines_def by (simp only:)
  then show ?thesis using assms unfolding waiter_free_def same_but_lines_def by (simp only:)
qed

text \<open>The waiters in the arrays of sync operations wait for channels.\<close>

definition on_channels :: "'v world \<Rightarrow> nat \<Rightarrow> bool" where
  "on_channels s w \<longleftrightarrow> (\<forall>t. line_of (w_obj (syncers s w)) \<noteq> Some (Sema_Line t))"

definition argv_ok :: "'v world \<Rightarrow> bool" where
  "argv_ok s \<longleftrightarrow> (\<forall>y w. Syncer w \<in> set (y_argv (syncings s y)) \<longrightarrow> on_channels s w)"

lemma lined_leave:
  assumes "linedx X s L" "\<And>w. a = Syncer w \<Longrightarrow> on_channels s w \<and> w \<notin> X"
  shows "\<exists>L'. linedx X (leave_if_syncer a s) L' \<and> (\<forall>t. L' (Sema_Line t) = L (Sema_Line t)) \<and>
    (\<forall>q. set (L' q) \<subseteq> set (L q))"
proof (cases "\<exists>w. a = Syncer w \<and> w_in_line (syncers s w)")
  case False
  then have "\<exists>w. a = Syncer w \<Longrightarrow> leave_if_syncer a s = s" by (auto simp: leave_if_syncer_def get_outof_line_def)
  moreover have "\<nexists>w. a = Syncer w \<Longrightarrow> leave_if_syncer a s = s"
    by (auto simp: leave_if_syncer_def split: evt.splits)
  ultimately have "leave_if_syncer a s = s" by blast
  then show ?thesis using assms(1) by auto
next
  case True
  then obtain w where a: "a = Syncer w" and i: "w_in_line (syncers s w)" by blast
  show ?thesis
  proof (cases "line_of (w_obj (syncers s w))")
    case None
    then have "leave_if_syncer a s = upd_syncer w (\<lambda>x. x\<lparr>w_in_line := False\<rparr>) s"
      using i by (simp add: a leave_if_syncer_def get_outof_line_def upd_defs)
    moreover have "linedx X (upd_syncer w (\<lambda>x. x\<lparr>w_in_line := False\<rparr>) s) L"
    proof -
      have "dll (syncers (upd_syncer w (\<lambda>x. x\<lparr>w_in_line := False\<rparr>) s)) (lines s q) (L q)" for q
        by (rule dll_frame[OF lined_dll[OF assms(1), of q]]) (simp add: upd_defs)
      then show ?thesis using lined_in[OF assms(1)] None by (auto simp: linedx_def upd_defs)
    qed
    ultimately show ?thesis by auto
  next
    case (Some pl)
    with assms(2)[OF a] have "Sema_Line t \<noteq> pl" for t by (auto simp: on_channels_def)
    then have "(L(pl := remove1 w (L pl))) (Sema_Line t) = L (Sema_Line t)" for t by simp
    moreover have "set ((L(pl := remove1 w (L pl))) q) \<subseteq> set (L q)" for q by (simp add: set_remove1_subset)
    ultimately show ?thesis using lined_outof[OF assms(1) i refl Some] assms(2)[OF a] a
      by (intro exI[of _ "L(pl := remove1 w (L pl))"]) (simp add: leave_if_syncer_def)
  qed
qed

lemma lined_nacks:
  assumes "linedx X s L" "\<And>w. Syncer w \<in> set as \<Longrightarrow> on_channels s w \<and> w \<notin> X"
  shows "\<exists>L'. linedx X (fold leave_if_syncer as s) L' \<and> (\<forall>t. L' (Sema_Line t) = L (Sema_Line t)) \<and>
    (\<forall>q. set (L' q) \<subseteq> set (L q)) \<and> same_but_lines s (fold leave_if_syncer as s)"
  using assms
proof (induction as arbitrary: s L)
  case Nil
  then show ?case using same_refl by (auto intro!: exI[of _ L])
next
  case (Cons a as)
  let ?s = "leave_if_syncer a s"
  from lined_leave[OF Cons.prems(1), of a] Cons.prems(2) obtain L1
    where L1: "linedx X ?s L1" "\<forall>t. L1 (Sema_Line t) = L (Sema_Line t)" "\<forall>q. set (L1 q) \<subseteq> set (L q)" by auto
  have "on_channels ?s w = on_channels s w" for w
    using same_leave[of s a] by (simp add: on_channels_def same_but_lines_def)
  with Cons.prems(2) have "\<And>w. Syncer w \<in> set as \<Longrightarrow> on_channels ?s w \<and> w \<notin> X" by simp
  from Cons.IH[OF L1(1) this] obtain L2 where "linedx X (fold leave_if_syncer as ?s) L2"
    "\<forall>t. L2 (Sema_Line t) = L1 (Sema_Line t)" "\<forall>q. set (L2 q) \<subseteq> set (L1 q)" "same_but_lines ?s (fold leave_if_syncer as ?s)" by blast
  moreover from this(3) L1(3) have "\<forall>q. set (L2 q) \<subseteq> set (L q)" by (meson subset_trans)
  ultimately show ?case using L1(2) same_trans[OF same_leave, of a s "fold leave_if_syncer as ?s"]
    by (auto intro!: exI[of _ L2])
qed

definition wf_world :: "'v world \<Rightarrow> (place \<Rightarrow> nat list) \<Rightarrow> bool" where
  "wf_world s L \<longleftrightarrow> lined s L \<and> argv_ok s \<and> (\<forall>pl. \<forall>w \<in> set (L pl). \<not> w_picked (syncers s w))"

lemma argv_ok_same: "same_but_lines s s' \<Longrightarrow> argv_ok s' = argv_ok s"
  by (simp add: argv_ok_def on_channels_def same_but_lines_def)

lemma argv_ok_cong:
  assumes "syncings s' = syncings s" "\<And>w. w_obj (syncers s' w) = w_obj (syncers s w)"
  shows "argv_ok s' = argv_ok s"
  using assms by (simp add: argv_ok_def on_channels_def)

lemma line_first: "linedx X s L \<Longrightarrow> l_first (lines s pl) = first_of None (L pl)"
  by (drule lined_dll[of _ _ _ pl]) (simp add: dll_def)

lemma wf_drop:
  assumes "wf_world s L" "L (Sema_Line t) = w # ws"
  shows "wf_world (off_line w (take_first t w s)) (L(Sema_Line t := ws))"
    and "same_but_lines s (off_line w (take_first t w s))"
proof -
  have lx: "linedx {} s L" using assms(1) by (simp add: wf_world_def)
  show same: "same_but_lines s (off_line w (take_first t w s))"
    by (rule same_trans[OF same_take_first same_off])
  then have pk: "\<And>v. w_picked (syncers (off_line w (take_first t w s)) v) = w_picked (syncers s v)"
    by (simp add: same_but_lines_def)
  have "set ws \<subseteq> set (L (Sema_Line t))" using assms(2) by auto
  then have "set ((L(Sema_Line t := ws)) q) \<subseteq> set (L q)" for q by simp
  then have "\<forall>q. \<forall>v \<in> set ((L(Sema_Line t := ws)) q). \<not> w_picked (syncers s v)"
    using assms(1) unfolding wf_world_def by blast
  with lined_off[OF lined_take_first[OF lx assms(2)]] assms(1) argv_ok_same[OF same]
  show "wf_world (off_line w (take_first t w s)) (L(Sema_Line t := ws))"
    by (simp add: wf_world_def pk)
qed

lemma wf_unpicked: "wf_world s L \<Longrightarrow> w \<in> set (L pl) \<Longrightarrow> \<not> w_picked (syncers s w)"
  by (simp add: wf_world_def)

lemma did_post_skip:
  assumes "wf_world s L" "L (Sema_Line t) = w # ws" "\<not> waiter_free s w"
  shows "did_post_sema t s = did_post_sema t (off_line w (take_first t w s))"
proof -
  have "l_first (lines s (Sema_Line t)) = Some w"
    using line_first[of "{}" s L "Sema_Line t"] assms(1,2) by (simp add: wf_world_def)
  moreover have "offer_post t w (take_first t w s) = (take_first t w s, False)"
    using assms(3) same_waiter_free[OF same_take_first[of s t w], of w] by (simp add: offer_post_def)
  moreover have "\<not> w_picked (syncers (off_line w (take_first t w s)) w)"
    using wf_unpicked[OF assms(1), of w "Sema_Line t"] assms(2) wf_drop(2)[OF assms(1,2)]
    by (simp add: same_but_lines_def)
  ultimately show ?thesis
    by (subst did_post_sema.simps) (simp add: off_line_def)
qed

lemma did_post_skips:
  assumes "wf_world s L" "L (Sema_Line t) = skipped @ ws" "\<forall>v \<in> set skipped. \<not> waiter_free s v"
  shows "\<exists>s'. did_post_sema t s = did_post_sema t s' \<and> wf_world s' (L(Sema_Line t := ws)) \<and> same_but_lines s s'"
  using assms
proof (induction skipped arbitrary: s L)
  case Nil
  then show ?case by (auto intro!: exI[of _ s] simp: same_refl fun_upd_idem)
next
  case (Cons v vs)
  let ?s = "off_line v (take_first t v s)"
  have l: "L (Sema_Line t) = v # (vs @ ws)" using Cons.prems(2) by simp
  note d = wf_drop[OF Cons.prems(1) l]
  have "\<forall>x \<in> set vs. \<not> waiter_free ?s x"
    using Cons.prems(3) same_waiter_free[OF d(2)] by simp
  from Cons.IH[OF d(1) fun_upd_same this] obtain s' where s': "did_post_sema t ?s = did_post_sema t s'"
    "wf_world s' (L(Sema_Line t := ws))" "same_but_lines ?s s'" unfolding fun_upd_upd by blast
  have "\<not> waiter_free s v" using Cons.prems(3) by simp
  from did_post_skip[OF Cons.prems(1) l this] have "did_post_sema t s = did_post_sema t s'" by (simp only: s'(1))
  with s'(2) same_trans[OF d(2) s'(3)] show ?case by blast
qed

text \<open>The thread of a waiter that can be picked is not suspended by the user, so it runs again.\<close>

lemma free_resumed:
  assumes "\<not> t_user_suspended (threads s p)"
  shows "\<not> t_suspended (threads (scheme_weak_resume_thread p s) p)"
  using assms by (simp add: scheme_weak_resume_thread_def upd_defs)

lemma waiter_free_user: "waiter_free s w \<Longrightarrow> \<not> t_user_suspended (threads s (w_thread (syncers s w)))"
  by (auto simp: waiter_free_def pending_break_def Let_def)

lemma resume_frame:
  "syncers (scheme_weak_resume_thread p s) = syncers s" "lines (scheme_weak_resume_thread p s) = lines s"
  "sema_value (scheme_weak_resume_thread p s) = sema_value s" "syncings (scheme_weak_resume_thread p s) = syncings s"
  by (simp_all add: scheme_weak_resume_thread_def upd_defs)

lemma lined_resume: "linedx X (scheme_weak_resume_thread p s) L = linedx X s L"
  by (simp add: linedx_def resume_frame)

text \<open>The flags of threads that posting does not touch.\<close>

definition thread_flags :: "'v world \<Rightarrow> nat \<Rightarrow> bool \<times> bool \<times> bool \<times> bool" where
  "thread_flags s p = (let th = threads s p in (t_killed th, t_user_suspended th, t_main th, t_suspend_cleanup th))"

lemma flags_resume: "thread_flags (scheme_weak_resume_thread p s) q = thread_flags s q"
  by (simp add: thread_flags_def Let_def scheme_weak_resume_thread_def upd_defs)

lemma flags_cong: "threads s' q = threads s q \<Longrightarrow> thread_flags s' q = thread_flags s q"
  by (simp add: thread_flags_def)

lemma did_post_plain:
  assumes "wf_world s L" "L (Sema_Line t) = w # ws" "waiter_free s w" "w_syncing (syncers s w) = None"
  shows "\<exists>s'. did_post_sema t s = Some s' \<and> wf_world s' (L(Sema_Line t := ws)) \<and> w_picked (syncers s' w) \<and>
    \<not> w_in_line (syncers s' w) \<and> \<not> t_suspended (threads s' (w_thread (syncers s w))) \<and>
    sema_value s' = sema_value s \<and> syncings s' = syncings s \<and> thread_flags s' = thread_flags s"
proof -
  let ?s1 = "take_first t w s" and ?p = "w_thread (syncers s w)"
  define s2 where "s2 = off_line w (upd_syncer w (\<lambda>x. x\<lparr>w_picked := True\<rparr>) ?s1)"
  have same: "same_but_lines s ?s1" by (rule same_take_first)
  have same2: "same_but_lines s (off_line w ?s1)" by (rule wf_drop(2)[OF assms(1,2)])
  have first: "l_first (lines s (Sema_Line t)) = Some w"
    using line_first[of "{}" s L "Sema_Line t"] assms(1,2) by (simp add: wf_world_def)
  have "offer_post t w ?s1 = (upd_syncer w (\<lambda>x. x\<lparr>w_picked := True\<rparr>) ?s1, True)"
    using assms(3,4) same same_waiter_free[OF same] by (simp add: offer_post_def same_but_lines_def)
  moreover have "upd_syncer w (\<lambda>x. x\<lparr>w_in_line := False, w_prev := None, w_next := None\<rparr>)
      (upd_syncer w (\<lambda>x. x\<lparr>w_picked := True\<rparr>) ?s1) = s2"
    by (simp add: s2_def off_line_def upd_defs)
  moreover have p: "w_picked (syncers s2 w)" "w_thread (syncers s2 w) = ?p"
    using same by (simp_all add: s2_def off_line_def upd_defs same_but_lines_def)
  ultimately have run: "did_post_sema t s = Some (scheme_weak_resume_thread ?p s2)"
    by (subst did_post_sema.simps) (simp add: first)
  have wf: "wf_world (off_line w ?s1) (L(Sema_Line t := ws))" by (rule wf_drop(1)[OF assms(1,2)])
  then have lx: "lined (off_line w ?s1) (L(Sema_Line t := ws))" by (simp add: wf_world_def)
  have out: "w \<notin> set ((L(Sema_Line t := ws)) q)" for q
    using lined_in[OF lx, of w q] by (simp add: off_line_def upd_defs)
  have l2: "lined s2 (L(Sema_Line t := ws))"
    by (rule lined_cong[OF lx]) (simp_all add: s2_def off_line_def upd_defs)
  have "argv_ok s2" using assms(1) argv_ok_cong[of s2 s] same
    by (simp add: wf_world_def s2_def off_line_def upd_defs same_but_lines_def)
  moreover have "\<not> w_picked (syncers s2 v)" if "v \<in> set ((L(Sema_Line t := ws)) q)" for v q
  proof -
    have "v \<noteq> w" using out that by blast
    then have "syncers s2 v = syncers (off_line w ?s1) v" by (simp add: s2_def off_line_def upd_defs)
    with wf_unpicked[OF wf that] show ?thesis by simp
  qed
  ultimately have "wf_world (scheme_weak_resume_thread ?p s2) (L(Sema_Line t := ws))"
    using l2 argv_ok_cong[of "scheme_weak_resume_thread ?p s2" s2]
    by (simp add: wf_world_def lined_resume resume_frame)
  moreover have "\<not> t_user_suspended (threads s2 ?p)"
    using waiter_free_user[OF assms(3)] same by (simp add: s2_def off_line_def upd_defs same_but_lines_def)
  moreover have "thread_flags (scheme_weak_resume_thread ?p s2) = thread_flags s"
  proof (rule ext)
    fix q
    have "threads s2 = threads s" using same by (simp add: s2_def off_line_def upd_defs same_but_lines_def)
    then show "thread_flags (scheme_weak_resume_thread ?p s2) q = thread_flags s q"
      unfolding flags_resume by (simp only: thread_flags_def)
  qed
  ultimately show ?thesis using run p same free_resumed[of s2 ?p]
    by (auto simp: resume_frame s2_def upd_defs same_but_lines_def off_line_def)
qed

text \<open>What deciding a sync operation leaves unchanged.\<close>

definition after_select :: "nat \<Rightarrow> nat \<Rightarrow> 'v world \<Rightarrow> 'v world \<Rightarrow> bool" where
  "after_select y i s s' \<longleftrightarrow> sema_value s' = sema_value s \<and>
     syncings s' = (syncings s)(y := (syncings s y)\<lparr>y_result := i + 1\<rparr>) \<and>
     (\<forall>p. thread_flags s' p = thread_flags s p \<and> t_suspended (threads s' p) = t_suspended (threads s p)) \<and>
     (\<forall>w. w_thread (syncers s' w) = w_thread (syncers s w) \<and> w_picked (syncers s' w) = w_picked (syncers s w) \<and>
        w_syncing (syncers s' w) = w_syncing (syncers s w) \<and> w_obj (syncers s' w) = w_obj (syncers s w) \<and>
        w_syncing_i (syncers s' w) = w_syncing_i (syncers s w))"

lemma select_lined:
  assumes "linedx X s L" "argv_ok s" "\<And>w. w \<in> X \<Longrightarrow> \<not> on_channels s w"
  shows "\<exists>L'. linedx X (select_syncing y i s) L' \<and> (\<forall>t. L' (Sema_Line t) = L (Sema_Line t)) \<and>
    (\<forall>q. set (L' q) \<subseteq> set (L q)) \<and> after_select y i s (select_syncing y i s)"
proof -
  define s1 where "s1 = upd_syncing y (\<lambda>x. x\<lparr>y_result := i + 1\<rparr>) s"
  define s2 where "s2 = (case y_disable_break (syncings s1 y) of None \<Rightarrow> s1
      | Some p \<Rightarrow> upd_thread p (\<lambda>th. th\<lparr>t_suspend_break := t_suspend_break th + 1\<rparr>) s1)"
  have sel: "select_syncing y i s = fold leave_if_syncer (y_argv (syncings s y)) s2"
    by (simp add: select_syncing_def post_syncing_nacks_def s1_def s2_def upd_defs split: option.split)
  have f: "syncers s2 = syncers s" "lines s2 = lines s" "sema_value s2 = sema_value s"
    "syncings s2 = (syncings s)(y := (syncings s y)\<lparr>y_result := i + 1\<rparr>)"
    "thread_flags s2 p = thread_flags s p"
    "t_suspended (threads s2 p) = t_suspended (threads s p)" for p
    by (simp_all add: s2_def s1_def upd_defs thread_flags_def Let_def split: option.split)
  have l2: "linedx X s2 L" by (rule lined_cong[OF assms(1)]) (simp_all add: f)
  have "on_channels s2 w \<and> w \<notin> X" if "Syncer w \<in> set (y_argv (syncings s y))" for w
  proof -
    have "on_channels s w" using assms(2) that by (auto simp: argv_ok_def)
    with assms(3)[of w] show ?thesis by (auto simp: on_channels_def f)
  qed
  from lined_nacks[OF l2 this] obtain L' where "linedx X (select_syncing y i s) L'"
    "\<forall>t. L' (Sema_Line t) = L (Sema_Line t)" "\<forall>q. set (L' q) \<subseteq> set (L q)" "same_but_lines s2 (select_syncing y i s)"
    unfolding sel by blast
  then show ?thesis
    by (intro exI[of _ L']) (simp add: same_but_lines_def after_select_def f flags_cong[of _ _ s2])
qed

lemma did_post_syncing:
  assumes "wf_world s L" "L (Sema_Line t) = w # ws" "waiter_free s w" "w_syncing (syncers s w) = Some y"
    and "\<not> y_reposts (syncings s y) (w_syncing_i (syncers s w))"
  shows "\<exists>s' L'. did_post_sema t s = Some s' \<and> wf_world s' L' \<and> L' (Sema_Line t) = ws \<and>
    w_picked (syncers s' w) \<and> \<not> w_in_line (syncers s' w) \<and>
    \<not> t_suspended (threads s' (w_thread (syncers s w))) \<and>
    y_result (syncings s' y) = w_syncing_i (syncers s w) + 1 \<and>
    sema_value s' = (sema_value s)(t := sema_value s t - 1) \<and> thread_flags s' = thread_flags s"
proof -
  let ?s1 = "take_first t w s" and ?p = "w_thread (syncers s w)" and ?i = "w_syncing_i (syncers s w)"
  let ?s2 = "select_syncing y ?i ?s1"
  define s3 where "s3 = off_line w (upd_syncer w (\<lambda>x. x\<lparr>w_picked := True\<rparr>) (upd_value t (\<lambda>v. v - 1) ?s2))"
  have same: "same_but_lines s ?s1" by (rule same_take_first)
  have lx: "lined s L" "argv_ok s" using assms(1) by (simp_all add: wf_world_def)
  have w: "w \<in> set (L (Sema_Line t))" using assms(2) by simp
  have "\<not> on_channels ?s1 v" if "v \<in> {w}" for v
    using that lined_in[OF lx(1), of w "Sema_Line t"] w same by (auto simp: on_channels_def same_but_lines_def)
  from select_lined[OF lined_take_first[OF lx(1) assms(2)] _ this, of y ?i] lx(2) argv_ok_same[OF same]
  obtain L' where L': "linedx {w} ?s2 L'" "L' (Sema_Line t) = ws"
      "\<forall>q. set (L' q) \<subseteq> set ((L(Sema_Line t := ws)) q)" and af: "after_select y ?i ?s1 ?s2"
    by fastforce
  have first: "l_first (lines s (Sema_Line t)) = Some w"
    using line_first[OF lx(1), of "Sema_Line t"] assms(2) by simp
  have "offer_post t w ?s1 = (upd_syncer w (\<lambda>x. x\<lparr>w_picked := True\<rparr>) (upd_value t (\<lambda>v. v - 1) ?s2), True)"
    using assms(3-5) same same_waiter_free[OF same] af
    by (simp add: offer_post_def same_but_lines_def after_select_def)
  moreover have p: "w_picked (syncers s3 w)" "w_thread (syncers s3 w) = ?p"
    using same af by (simp_all add: s3_def off_line_def upd_defs same_but_lines_def after_select_def)
  ultimately have run: "did_post_sema t s = Some (scheme_weak_resume_thread ?p s3)"
    by (subst did_post_sema.simps) (simp add: first s3_def off_line_def)
  have l3: "lined s3 L'"
    by (rule lined_cong[OF lined_off[OF L'(1)]]) (simp_all add: s3_def off_line_def upd_defs)
  have "argv_ok s3" using lx(2) same af
    by (simp add: argv_ok_def on_channels_def s3_def off_line_def upd_defs same_but_lines_def after_select_def)
  moreover have "\<not> w_picked (syncers s3 v)" if "v \<in> set (L' q)" for v q
  proof -
    have "v \<noteq> w" using lined_in[OF L'(1), of v q] that by simp
    moreover have "v \<in> set ((L(Sema_Line t := ws)) q)" using that L'(3) by blast
    then have "v \<in> set (L q)" using assms(2) by (cases "q = Sema_Line t") auto
    ultimately show ?thesis using wf_unpicked[OF assms(1)] same af
      by (simp add: s3_def off_line_def upd_defs same_but_lines_def after_select_def)
  qed
  ultimately have "wf_world (scheme_weak_resume_thread ?p s3) L'"
    using l3 argv_ok_cong[of "scheme_weak_resume_thread ?p s3" s3]
    by (simp add: wf_world_def lined_resume resume_frame)
  moreover have fl: "thread_flags s3 = thread_flags s"
    using af same flags_cong[of ?s1 _ s]
    by (auto simp: after_select_def same_but_lines_def s3_def off_line_def upd_defs thread_flags_def intro!: ext)
  have "\<not> t_user_suspended (threads s3 ?p)"
    using waiter_free_user[OF assms(3)] fun_cong[OF fl, of ?p] by (simp add: thread_flags_def Let_def)
  moreover have "thread_flags (scheme_weak_resume_thread ?p s3) = thread_flags s"
    using fl by (auto simp: flags_resume intro!: ext)
  ultimately show ?thesis using run p same af L'(2) free_resumed[of s3 ?p]
    by (intro exI[of _ "scheme_weak_resume_thread ?p s3"] exI[of _ L'])
      (simp add: resume_frame s3_def upd_defs same_but_lines_def off_line_def after_select_def)
qed

end
