(* ===== verification/Sema_Spec.thy ===== *)
theory Sema_Spec
  imports Sema_Correct
begin

section \<open>Semaphores, channels and mailboxes: properties\<close>

text \<open>
  What \<^verbatim>\<open>sema.c\<close> promises: lines are queues, a post goes to the first waiter that can
  take it, a waiting thread that is offered a post returns, a mailbox is a queue whose
  semaphore counts its messages, however its pairs are linked.
\<close>

text \<open>C16. The pointer operations on a line refine a queue of waiters: getting in line appends at
  the end, getting out of line removes the waiter wherever it is, and no other line changes.\<close>

theorem line_is_queue:
  assumes "lined s L" "\<not> w_in_line (syncers s w)" "line_of (w_obj (syncers s w)) = Some pl"
  shows "lined (get_into_line (w_obj (syncers s w)) w s) (L(pl := L pl @ [w])) \<and>
    (\<forall>q. \<forall>v \<in> set (L q). lined (get_outof_line (w_obj (syncers s v)) v s) (L(q := remove1 v (L q))))"
proof -
  have "lined (get_outof_line (w_obj (syncers s v)) v s) (L(q := remove1 v (L q)))" if "v \<in> set (L q)" for v q
    using lined_outof[OF assms(1), of v _ q] lined_in[OF assms(1), of v q] that by simp
  with lined_into[OF assms(1,2) _ refl assms(3)] show ?thesis by simp
qed

text \<open>A world with one thread and no waiters.\<close>

definition thread0 :: "nat thread" where
  "thread0 = \<lparr>t_killed = False, t_user_suspended = False, t_suspended = False, t_main = False,
     t_external_break = False, t_suspend_break = 0, t_break_enabled = True, t_mbox_first = None, t_mbox_last = None, t_mbox_sema = None,
     t_running = True, t_suspend_cleanup = False\<rparr>"

definition world0 :: "nat world" where
  "world0 = \<lparr>sema_value = (\<lambda>_. 0), next_sema = 1, next_syncer = 1, next_syncing = 1,
     lines = (\<lambda>_. \<lparr>l_first = None, l_last = None\<rparr>),
     syncers = (\<lambda>_. \<lparr>w_thread = 0, w_in_line = False, w_picked = False, w_prev = None, w_next = None,
       w_syncing = None, w_obj = Sema_Evt 0, w_syncing_i = 0\<rparr>),
     syncings = (\<lambda>_. \<lparr>y_argv = [], y_result = 0, y_reposts = (\<lambda>_. False), y_disable_break = None\<rparr>),
     threads = (\<lambda>_. thread0), raw_pairs = (\<lambda>_. \<lparr>p_car = 0, p_cdr = None\<rparr>), next_pair = 0, all_breaks_disabled = False\<rparr>"

lemma world0_wf: "wf_world world0 (\<lambda>_. [])"
  by (simp add: wf_world_def linedx_def dll_def world0_def argv_ok_def)

theorem line_is_queue_witness:
  "lined (get_into_line (w_obj (syncers world0 5)) 5 world0) ((\<lambda>_. [])(Sema_Line 0 := [] @ [5]))"
  using line_is_queue[of world0 "\<lambda>_. []" 5 "Sema_Line 0"] world0_wf
  by (simp add: wf_world_def world0_def)

text \<open>The value that a post stores.\<close>

lemma next_value:
  fixes v :: int
  assumes "0 \<le> v"
  shows "(signed_take_bit 31 (v + 1) > v) = (v < 2 ^ 31 - 1)" and "v < 2 ^ 31 - 1 \<Longrightarrow> signed_take_bit 31 (v + 1) = v + 1"
proof -
  show e: "v < 2 ^ 31 - 1 \<Longrightarrow> signed_take_bit 31 (v + 1) = v + 1"
    using assms by (intro signed_take_bit_int_eq_self) simp_all
  have "signed_take_bit 31 (v + 1) < 2 ^ 31" by (rule signed_take_bit_int_less_exp)
  with e show "(signed_take_bit 31 (v + 1) > v) = (v < 2 ^ 31 - 1)" by (cases "v < 2 ^ 31 - 1") simp_all
qed

text \<open>C17. A post is offered to the waiters in the order of the line: those that cannot take it
  (their sync operation is decided, their thread is killed, suspended or about to break) leave
  the line, and the first that can is picked and its thread resumed. Without a sync operation
  the semaphore keeps the post for it to fetch; with one the post is consumed and the
  operation is decided.\<close>

theorem post_goes_to_first:
  assumes "wf_world s L" "L (Sema_Line t) = skipped @ w # rest"
    and "\<forall>v \<in> set skipped. \<not> waiter_free s v" "waiter_free s w"
    and "\<And>y. w_syncing (syncers s w) = Some y \<Longrightarrow> \<not> y_reposts (syncings s y) (w_syncing_i (syncers s w))"
    and "0 \<le> sema_value s t" "sema_value s t < 2 ^ 31 - 1"
  shows "\<exists>s' L'. scheme_post_sema t s = Some (Inr s') \<and> wf_world s' L' \<and> L' (Sema_Line t) = rest \<and>
    w_picked (syncers s' w) \<and> \<not> w_in_line (syncers s' w) \<and>
    \<not> t_suspended (threads s' (w_thread (syncers s w))) \<and> thread_flags s' = thread_flags s \<and>
    (case w_syncing (syncers s w) of
       None \<Rightarrow> sema_value s' t = sema_value s t + 1
     | Some y \<Rightarrow> sema_value s' t = sema_value s t \<and> y_result (syncings s' y) = w_syncing_i (syncers s w) + 1)"
proof -
  define s1 where "s1 = upd_value t (\<lambda>_. sema_value s t + 1) s"
  have f: "syncers s1 = syncers s" "lines s1 = lines s" "syncings s1 = syncings s" "threads s1 = threads s"
    "all_breaks_disabled s1 = all_breaks_disabled s" "sema_value s1 = (sema_value s)(t := sema_value s t + 1)"
    by (simp_all add: s1_def upd_value_def)
  have free: "waiter_free s1 v = waiter_free s v" for v
    unfolding waiter_free_def pending_break_def by (simp only: f)
  have lx: "lined s L" using assms(1) by (simp add: wf_world_def)
  have "l_first (lines s (Sema_Line t)) \<noteq> None"
    using line_first[OF lx, of "Sema_Line t"] assms(2) by (cases skipped) simp_all
  then have post: "scheme_post_sema t s = map_option Inr (did_post_sema t s1)"
    using assms(6,7) next_value[OF assms(6)] by (simp add: scheme_post_sema_def s1_def upd_value_def)
  have wf1: "wf_world s1 L" using assms(1) by (simp add: wf_world_def linedx_def argv_ok_def on_channels_def f)
  have "\<forall>v \<in> set skipped. \<not> waiter_free s1 v" using assms(3) by (simp add: free)
  from did_post_skips[OF wf1 assms(2) this] obtain s2 where s2: "did_post_sema t s1 = did_post_sema t s2"
    "wf_world s2 (L(Sema_Line t := w # rest))" "same_but_lines s1 s2" by blast
  have free2: "waiter_free s2 w" using same_waiter_free[OF s2(3), of w] assms(4) by (simp add: free)
  have i2: "w_syncing (syncers s2 w) = w_syncing (syncers s w)" "w_thread (syncers s2 w) = w_thread (syncers s w)"
    "w_syncing_i (syncers s2 w) = w_syncing_i (syncers s w)" "syncings s2 = syncings s"
    "sema_value s2 = (sema_value s)(t := sema_value s t + 1)"
    using s2(3) by (simp_all add: same_but_lines_def f)
  have fl2: "thread_flags s2 = thread_flags s"
    using s2(3) by (auto simp: same_but_lines_def f intro!: ext flags_cong)
  show ?thesis
  proof (cases "w_syncing (syncers s w)")
    case None
    with did_post_plain[OF s2(2) fun_upd_same free2] fl2 i2 post s2(1) show ?thesis by fastforce
  next
    case (Some y)
    with did_post_syncing[OF s2(2) fun_upd_same free2, of y] fl2 i2 post s2(1) assms(5) show ?thesis by fastforce
  qed
qed

text \<open>Posting fails with the overflow error exactly when the count has reached the largest
  \<^verbatim>\<open>int\<close>, although counts are \<^verbatim>\<open>intptr_t\<close> and \<^verbatim>\<open>make-semaphore\<close> accepts larger
  ones.\<close>

theorem post_overflow:
  assumes "sema_value s t < 2 ^ 63"
  shows "scheme_post_sema t s = Some (Inl Sema_Overflow) \<longleftrightarrow> 2 ^ 31 - 1 \<le> sema_value s t"
proof (cases "0 \<le> sema_value s t")
  case True
  then show ?thesis using next_value(1)[OF True] by (auto simp: scheme_post_sema_def Let_def)
qed (auto simp: scheme_post_sema_def)

theorem post_overflow_witness:
  "scheme_post_sema 3 (world0\<lparr>sema_value := (\<lambda>_. 2 ^ 40)\<rparr>) = Some (Inl Sema_Overflow)"
  using post_overflow[of "world0\<lparr>sema_value := (\<lambda>_. 2 ^ 40)\<rparr>" 3] by simp

text \<open>A thread that waits for one semaphore whose count is zero.\<close>

definition fresh_waiter :: "'v world \<Rightarrow> bool" where
  "fresh_waiter s \<longleftrightarrow> \<not> w_in_line (syncers s (next_syncer s)) \<and>
     (\<forall>y. Syncer (next_syncer s) \<notin> set (y_argv (syncings s y)))"

definition waiter_for :: "nat \<Rightarrow> nat option \<Rightarrow> nat \<Rightarrow> 'v syncer" where
  "waiter_for p syncing t = \<lparr>w_thread = p, w_in_line = False, w_picked = False, w_prev = None, w_next = None,
     w_syncing = syncing, w_obj = Sema_Evt t, w_syncing_i = 0\<rparr>"

lemma wf_new_waiter:
  assumes "wf_world s L" "fresh_waiter s"
  shows "wf_world (s\<lparr>syncers := (syncers s)(next_syncer s := waiter_for p syncing t), next_syncer := n\<rparr>) L"
proof -
  let ?w = "next_syncer s" and ?x = "waiter_for p syncing t"
  have lx: "lined s L" using assms(1) by (simp add: wf_world_def)
  have out: "?w \<notin> set (L q)" for q using lined_in[OF lx, of ?w q] assms(2) by (simp add: fresh_waiter_def)
  have "dll ((syncers s)(?w := ?x)) (lines s q) (L q)" for q
    by (rule dll_frame[OF lined_dll[OF lx, of q]]) (use out in auto)
  moreover have "v \<in> set (L q) \<longleftrightarrow> w_in_line (((syncers s)(?w := ?x)) v) \<and>
      line_of (w_obj (((syncers s)(?w := ?x)) v)) = Some q" for v q
    using lined_in[OF lx, of v q] out[of q] by (auto simp: waiter_for_def)
  moreover have "\<not> w_picked (((syncers s)(?w := ?x)) v)" if "v \<in> set (L q)" for v q
    using wf_unpicked[OF assms(1) that] out[of q] that by (auto simp: waiter_for_def)
  ultimately show ?thesis using assms
    by (auto simp: wf_world_def linedx_def argv_ok_def on_channels_def fresh_waiter_def)
qed

lemma wf_into:
  assumes "wf_world s L" "\<not> w_in_line (syncers s w)" "w_obj (syncers s w) = sema" "line_of sema = Some pl"
  shows "wf_world (get_into_line sema w s) (L(pl := L pl @ [w]))"
proof -
  have lx: "lined s L" using assms(1) by (simp add: wf_world_def)
  have out: "w \<notin> set (L q)" for q using lined_in[OF lx, of w q] assms(2) by simp
  then have "l_last (lines s pl) \<noteq> Some w" using lined_last_in[OF lx, of pl w] by blast
  note sy = into_line_syncers[OF assms(4) this]
  have "\<not> w_picked (syncers (get_into_line sema w s) v)" if "v \<in> set ((L(pl := L pl @ [w])) q)" for v q
  proof (cases "v = w")
    case False
    with that have "v \<in> set (L q)" by (cases "q = pl") auto
    with wf_unpicked[OF assms(1)] False show ?thesis by (simp add: sy)
  qed (simp add: sy)
  moreover have "syncings (get_into_line sema w s) = syncings s"
    by (simp add: get_into_line_def Let_def upd_defs split: option.split)
  then have "argv_ok (get_into_line sema w s) = argv_ok s" by (intro argv_ok_cong) (simp_all add: sy)
  ultimately show ?thesis using lined_into[OF lx assms(2) _ assms(3,4)] assms(1) by (simp add: wf_world_def)
qed

lemma wf_suspend: "wf_world (suspend_self p s) L = wf_world s L"
  by (simp add: wf_world_def linedx_def argv_ok_def on_channels_def suspend_self_def upd_defs)

lemma into_line_frame:
  "sema_value (get_into_line e w s) = sema_value s" "threads (get_into_line e w s) = threads s"
  "syncings (get_into_line e w s) = syncings s" "next_syncer (get_into_line e w s) = next_syncer s"
  "all_breaks_disabled (get_into_line e w s) = all_breaks_disabled s"
  by (simp_all add: get_into_line_def Let_def upd_defs split: option.split)

lemma wait_begin_one:
  assumes "sema_value s t = 0"
  shows "wait_begin p [Sema_Evt t] syncing 0 s =
    Some (Inr ([Sema_Evt t], [next_syncer s]), suspend_self p (get_into_line (Sema_Evt t) (next_syncer s)
      (s\<lparr>syncers := (syncers s)(next_syncer s := waiter_for p syncing t), next_syncer := next_syncer s + 1\<rparr>)))"
  using assms
  by (simp add: wait_begin_def poll_order_def poll_evt_def wait_line_up_def enter_lines_def Let_def waiter_for_def)

text \<open>C18. No post is lost on a waiting thread: when a thread has begun to wait for a semaphore with
  count zero and no one else in line, the next post resumes it, and the resumed thread returns
  from the wait and leaves the count at zero, whether or not the wait is part of a sync
  operation.\<close>

theorem waiting_thread_gets_post:
  assumes "wf_world s L" "fresh_waiter s" "L (Sema_Line t) = []" "sema_value s t = 0"
    and "\<not> t_killed (threads s p)" "\<not> t_user_suspended (threads s p)" "\<not> t_main (threads s p)"
      "\<not> t_external_break (threads s p)"
    and "\<And>y. syncing = Some y \<Longrightarrow> y_result (syncings s y) = 0 \<and> \<not> y_reposts (syncings s y) 0"
  shows "\<exists>es ws s1 s2 s3. wait_begin p [Sema_Evt t] syncing 0 s = Some (Inr (es, ws), s1) \<and>
    t_suspended (threads s1 p) \<and> scheme_post_sema t s1 = Some (Inr s2) \<and> \<not> t_suspended (threads s2 p) \<and>
    wait_resumed p es ws syncing 0 s2 = Some (Inr (Done 1, s3)) \<and> sema_value s3 t = 0"
proof -
  let ?w = "next_syncer s"
  define s0 where "s0 = s\<lparr>syncers := (syncers s)(?w := waiter_for p syncing t), next_syncer := ?w + 1\<rparr>"
  define s1 where "s1 = suspend_self p (get_into_line (Sema_Evt t) ?w s0)"
  have start: "wait_begin p [Sema_Evt t] syncing 0 s = Some (Inr ([Sema_Evt t], [?w]), s1)"
    using wait_begin_one[OF assms(4)] by (simp add: s0_def s1_def)
  have w0: "syncers s0 ?w = waiter_for p syncing t" by (simp add: s0_def)
  have "wf_world s0 L" unfolding s0_def by (rule wf_new_waiter[OF assms(1,2)])
  then have wf1: "wf_world s1 (L(Sema_Line t := [?w]))"
    using wf_into[of s0 L ?w "Sema_Evt t" "Sema_Line t"] assms(3)
    by (simp add: s1_def wf_suspend w0 waiter_for_def)
  have "l_last (lines s0 (Sema_Line t)) \<noteq> Some ?w"
    using assms(1,3) by (simp add: s0_def wf_world_def linedx_def dll_def)
  then have x1: "w_syncing (syncers s1 ?w) = syncing" "w_thread (syncers s1 ?w) = p" "w_syncing_i (syncers s1 ?w) = 0"
    by (simp_all add: s1_def suspend_self_def upd_defs into_line_syncers w0 waiter_for_def)
  have y1: "syncings s1 = syncings s" "sema_value s1 = sema_value s"
    by (simp_all add: s1_def s0_def suspend_self_def upd_defs into_line_frame)
  have th1: "threads s1 p = (threads s p)\<lparr>t_suspended := True\<rparr>"
    using assms(7) by (simp add: s1_def s0_def suspend_self_def upd_defs into_line_frame)
  have free: "waiter_free s1 ?w"
    using assms(5,6,8,9) by (auto simp: waiter_free_def pending_break_def x1 th1 y1 Let_def split: option.split)
  from post_goes_to_first[OF wf1, of t "[]" ?w "[]"] free assms(4,9) obtain s2 where
    post: "scheme_post_sema t s1 = Some (Inr s2)" and picked: "w_picked (syncers s2 ?w)"
    and out: "\<not> w_in_line (syncers s2 ?w)" "\<not> t_suspended (threads s2 p)"
    and fl: "thread_flags s2 = thread_flags s1"
    and got: "case syncing of None \<Rightarrow> sema_value s2 t = 1 | Some y \<Rightarrow> sema_value s2 t = 0 \<and> y_result (syncings s2 y) = 1"
    by (auto simp: x1 y1 split: option.splits)
  have th2: "\<not> t_killed (threads s2 p)" "\<not> t_user_suspended (threads s2 p)" "\<not> t_main (threads s2 p)"
    using fun_cong[OF fl, of p] assms(5-7) th1 by (simp_all add: thread_flags_def Let_def)
  have "\<exists>s3. wait_resumed p [Sema_Evt t] [?w] syncing 0 s2 = Some (Inr (Done 1, s3)) \<and> sema_value s3 t = 0"
  proof (cases syncing)
    case None
    with got picked out th2 show ?thesis
      by (simp add: wait_resumed_def poll_order_def evt_value_def dec_evt_def dec_value_def leave_lines_def upd_defs)
  next
    case (Some y)
    with got out th2 show ?thesis by (simp add: wait_resumed_def leave_lines_def)
  qed
  then show ?thesis using start post out(2) th1 by (auto intro!: exI[of _ "[Sema_Evt t]"] exI[of _ "[?w]"])
qed

theorem waiting_thread_gets_post_witness:
  "\<exists>es ws s1 s2 s3. wait_begin 2 [Sema_Evt 0] (Some 7) 0 world0 = Some (Inr (es, ws), s1) \<and>
    t_suspended (threads s1 2) \<and> scheme_post_sema 0 s1 = Some (Inr s2) \<and> \<not> t_suspended (threads s2 2) \<and>
    wait_resumed 2 es ws (Some 7) 0 s2 = Some (Inr (Done 1, s3)) \<and> sema_value s3 0 = 0"
  by (rule waiting_thread_gets_post[OF world0_wf]) (simp_all add: world0_def thread0_def fresh_waiter_def)

theorem post_goes_to_first_witness:
  "\<exists>s'. scheme_post_sema 0 (get_into_line (Sema_Evt 0) 5 world0) = Some (Inr s') \<and>
     w_picked (syncers s' 5) \<and> sema_value s' 0 = 1"
proof -
  let ?s = "get_into_line (Sema_Evt 0) 5 world0"
  have wf: "wf_world ?s ((\<lambda>_. [])(Sema_Line 0 := [] @ [5]))"
    by (rule wf_into[OF world0_wf]) (simp_all add: world0_def)
  have w: "syncers ?s 5 = (syncers world0 5)\<lparr>w_in_line := True\<rparr>"
    by (simp add: into_line_syncers world0_def)
  then have i: "w_syncing (syncers ?s 5) = None" "w_thread (syncers ?s 5) = 0"
    by (simp_all add: world0_def)
  have "waiter_free ?s 5"
    by (simp add: waiter_free_def pending_break_def i into_line_frame) (simp add: world0_def thread0_def)
  moreover have "sema_value ?s 0 = 0" by (simp add: into_line_frame) (simp add: world0_def)
  ultimately show ?thesis using post_goes_to_first[OF wf, of 0 "[]" 5 "[]"] i by (simp split: option.splits) blast
qed

text \<open>The mailbox as a queue: the events of its owner and of senders.\<close>

datatype 'v mbox_event = Sends 'v | Receives 'v | Rewinds "'v list"

inductive mbox_run :: "nat \<Rightarrow> 'v world \<Rightarrow> 'v mbox_event list \<Rightarrow> 'v world \<Rightarrow> bool" for p where
  start: "mbox_run p s [] s"
| send: "mbox_run p s evs s1 \<Longrightarrow> thread_send p v thunk s1 = Some (Sent, s2) \<Longrightarrow> mbox_run p s (evs @ [Sends v]) s2"
| try_receive: "mbox_run p s evs s1 \<Longrightarrow> thread_try_receive p s1 = (Some v, s2) \<Longrightarrow>
    mbox_run p s (evs @ [Receives v]) s2"
| receive: "mbox_run p s evs s1 \<Longrightarrow> thread_receive p s1 = Some (Inl v, s2) \<Longrightarrow>
    mbox_run p s (evs @ [Receives v]) s2"
| rewind: "mbox_run p s evs s1 \<Longrightarrow> thread_rewind_receive p vs s1 = Some (Inr s2) \<Longrightarrow>
    mbox_run p s (evs @ [Rewinds vs]) s2"

fun queue_event :: "'v mbox_event \<Rightarrow> 'v list option \<Rightarrow> 'v list option" where
  "queue_event (Sends v) (Some q) = Some (q @ [v])"
| "queue_event (Receives v) (Some (w # q)) = (if w = v then Some q else None)"
| "queue_event (Rewinds vs) (Some q) = Some (rev vs @ q)"
| "queue_event _ _ = None"

text \<open>The pairs at the given addresses are linked from the first pointer on and the last pointer is the address of
  the last of them; \<open>q\<close> are the messages in them.\<close>

fun pair_chain :: "(nat \<Rightarrow> 'v raw_pair) \<Rightarrow> nat option \<Rightarrow> nat list \<Rightarrow> bool" where
  "pair_chain g f [] = (f = None)"
| "pair_chain g f (n # ns) = (f = Some n \<and> pair_chain g (p_cdr (g n)) ns)"

definition mbox_pairs :: "'v world \<Rightarrow> nat option \<Rightarrow> nat option \<Rightarrow> 'v list \<Rightarrow> nat list \<Rightarrow> bool" where
  "mbox_pairs s f l q ns \<longleftrightarrow>
     pair_chain (raw_pairs s) f ns \<and> l = (if ns = [] then None else Some (last ns)) \<and>
     distinct ns \<and> (\<forall>n \<in> set ns. n < next_pair s) \<and> map (\<lambda>n. p_car (raw_pairs s n)) ns = q"

definition mbox_holds :: "'v world \<Rightarrow> nat \<Rightarrow> 'v list \<Rightarrow> bool" where
  "mbox_holds s p q \<longleftrightarrow> (\<exists>ns. mbox_pairs s (t_mbox_first (threads s p)) (t_mbox_last (threads s p)) q ns)"

definition mbox_inv :: "nat \<Rightarrow> 'v list \<Rightarrow> 'v world \<Rightarrow> bool" where
  "mbox_inv p q s \<longleftrightarrow>
     mbox_holds s p q \<and>
     (case t_mbox_sema (threads s p) of
        None \<Rightarrow> q = []
      | Some t \<Rightarrow> l_first (lines s (Sema_Line t)) = None \<and> sema_value s t = int (length q))"

lemma pair_chain_cong:
  "(\<And>n. n \<in> set ns \<Longrightarrow> g' n = g n) \<Longrightarrow> pair_chain g f ns \<Longrightarrow> pair_chain g' f ns"
  by (induction ns arbitrary: f) auto

lemma pair_chain_snoc:
  assumes "pair_chain g f ns" "distinct ns" "ns \<noteq> []" "b \<notin> set ns" "p_cdr (g b) = None"
  shows "pair_chain (g(last ns := (g (last ns))\<lparr>p_cdr := Some b\<rparr>)) f (ns @ [b])"
  using assms
proof (induction ns arbitrary: f)
  case (Cons a ns)
  show ?case
  proof (cases "ns = []")
    case True
    with Cons.prems show ?thesis by auto
  next
    case False
    with Cons.prems have "last ns \<noteq> a" by auto
    with False Cons.IH[of "p_cdr (g a)"] Cons.prems show ?thesis by simp
  qed
qed simp

lemma mbox_pairs_snoc:
  assumes "mbox_pairs s f l q ns" "scheme_make_raw_pair v None s = (n, s1)"
  shows "f = None \<Longrightarrow> mbox_pairs s1 (Some n) (Some n) (q @ [v]) (ns @ [n])"
    and "f \<noteq> None \<Longrightarrow> mbox_pairs (set_cdr (the l) (Some n) s1) f (Some n) (q @ [v]) (ns @ [n])"
proof -
  have n: "n = next_pair s" "raw_pairs s1 = (raw_pairs s)(n := \<lparr>p_car = v, p_cdr = None\<rparr>)" "next_pair s1 = n + 1"
    using assms(2) by (auto simp: scheme_make_raw_pair_def Let_def)
  have new0: "n \<notin> set ns" using assms(1) by (auto simp: mbox_pairs_def n(1))
  then have same: "\<And>m. m \<in> set ns \<Longrightarrow> raw_pairs s1 m = raw_pairs s m" by (auto simp: n(2))
  have lt: "\<forall>m \<in> set ns. m < next_pair s1" using assms(1) by (auto simp: mbox_pairs_def n)
  have cars: "map (\<lambda>m. p_car (raw_pairs s1 m)) ns = q"
    using assms(1) same by (auto simp: mbox_pairs_def intro: map_cong)
  show "mbox_pairs s1 (Some n) (Some n) (q @ [v]) (ns @ [n])" if "f = None"
  proof -
    have "ns = []" using assms(1) that by (cases ns) (auto simp: mbox_pairs_def)
    with cars show ?thesis by (auto simp: mbox_pairs_def n)
  qed
  show "mbox_pairs (set_cdr (the l) (Some n) s1) f (Some n) (q @ [v]) (ns @ [n])" if "f \<noteq> None"
  proof -
    have ne: "ns \<noteq> []" using assms(1) that by (cases ns) (auto simp: mbox_pairs_def)
    then have l: "the l = last ns" using assms(1) by (simp add: mbox_pairs_def)
    have "pair_chain (raw_pairs s1) f ns"
      by (rule pair_chain_cong[OF same]) (use assms(1) in \<open>simp_all add: mbox_pairs_def\<close>)
    from pair_chain_snoc[OF this _ ne new0] assms(1)
    have "pair_chain (raw_pairs (set_cdr (the l) (Some n) s1)) f (ns @ [n])"
      unfolding l by (simp add: mbox_pairs_def set_cdr_def n(2))
    moreover have "map (\<lambda>m. p_car (raw_pairs (set_cdr (the l) (Some n) s1) m)) ns = q"
    proof -
      have "(\<lambda>m. p_car (raw_pairs (set_cdr (the l) (Some n) s1) m)) = (\<lambda>m. p_car (raw_pairs s1 m))"
        by (simp add: set_cdr_def fun_eq_iff)
      with cars show ?thesis by simp
    qed
    moreover have "last ns \<noteq> n" using new0 ne by (metis last_in_set)
    ultimately show ?thesis using assms(1) ne lt new0 by (auto simp: mbox_pairs_def set_cdr_def l n)
  qed
qed

lemma mbox_pairs_cons:
  assumes "mbox_pairs s f l q ns" "scheme_make_raw_pair v f s = (n, s1)"
  shows "mbox_pairs s1 (Some n) (if f = None then Some n else l) (v # q) (n # ns)"
proof -
  have n: "n = next_pair s" "raw_pairs s1 = (raw_pairs s)(n := \<lparr>p_car = v, p_cdr = f\<rparr>)" "next_pair s1 = n + 1"
    using assms(2) by (auto simp: scheme_make_raw_pair_def Let_def)
  have new: "n \<notin> set ns" using assms(1) by (auto simp: mbox_pairs_def n(1))
  then have same: "\<And>m. m \<in> set ns \<Longrightarrow> raw_pairs s1 m = raw_pairs s m" by (auto simp: n(2))
  have "pair_chain (raw_pairs s1) f ns"
    by (rule pair_chain_cong[OF same]) (use assms(1) in \<open>simp_all add: mbox_pairs_def\<close>)
  moreover have "f = None \<longleftrightarrow> ns = []" using assms(1) by (cases ns) (auto simp: mbox_pairs_def)
  moreover have "map (\<lambda>m. p_car (raw_pairs s1 m)) ns = q"
    using assms(1) same by (auto simp: mbox_pairs_def intro: map_cong)
  ultimately show ?thesis using assms(1) new by (auto simp: mbox_pairs_def n)
qed

lemma mbox_holds_frame:
  assumes "raw_pairs s' = raw_pairs s" "next_pair s' = next_pair s"
    and "t_mbox_first (threads s' p) = t_mbox_first (threads s p)" "t_mbox_last (threads s' p) = t_mbox_last (threads s p)"
  shows "mbox_holds s' p q = mbox_holds s p q"
  by (simp add: mbox_holds_def mbox_pairs_def assms)

lemma mbox_holds_value: "mbox_holds (upd_value t f s) p q = mbox_holds s p q"
  by (rule mbox_holds_frame) (simp_all add: upd_defs)

lemma mbox_holds_sema: "mbox_holds (make_mbox_sema p s) p q = mbox_holds s p q"
  by (rule mbox_holds_frame) (simp_all add: make_mbox_sema_def new_sema_def Let_def upd_defs)

lemma mbox_pairs_threads: "mbox_pairs (s\<lparr>threads := h\<rparr>) f l q ns = mbox_pairs s f l q ns"
  by (simp add: mbox_pairs_def)

lemma append_holds:
  assumes "mbox_holds s p q"
  shows "mbox_holds (mbox_append p v s) p (q @ [v])"
proof -
  obtain n s1 where n: "scheme_make_raw_pair v None s = (n, s1)" by fastforce
  then have th: "threads s1 = threads s" by (auto simp: scheme_make_raw_pair_def Let_def)
  obtain ns where ns: "mbox_pairs s (t_mbox_first (threads s p)) (t_mbox_last (threads s p)) q ns"
    using assms by (auto simp: mbox_holds_def)
  have tc: "threads (set_cdr m d s1) = threads s" for m d by (simp add: set_cdr_def th)
  show ?thesis
    using mbox_pairs_snoc[OF ns n]
    unfolding mbox_append_def n prod.case Let_def mbox_holds_sema
    by (cases "t_mbox_first (threads s p)") (auto simp: mbox_holds_def mbox_pairs_threads th tc upd_thread_def)
qed

lemma cons_holds:
  assumes "mbox_holds s p q"
  shows "mbox_holds (mbox_cons p v s) p (v # q)"
proof -
  obtain n s1 where n: "scheme_make_raw_pair v (t_mbox_first (threads s p)) s = (n, s1)" by fastforce
  then have th: "threads s1 = threads s" by (auto simp: scheme_make_raw_pair_def Let_def)
  obtain ns where ns: "mbox_pairs s (t_mbox_first (threads s p)) (t_mbox_last (threads s p)) q ns"
    using assms by (auto simp: mbox_holds_def)
  show ?thesis
    using mbox_pairs_cons[OF ns n] unfolding mbox_cons_def n prod.case Let_def
    by (cases "t_mbox_first (threads s p)") (auto simp: mbox_holds_def mbox_pairs_threads th upd_thread_def)
qed

lemma mbox_append_frame:
  "t_mbox_sema (threads (mbox_append p v s) p) = t_mbox_sema (threads (make_mbox_sema p s) p)"
  "lines (mbox_append p v s) = lines (make_mbox_sema p s)"
  "sema_value (mbox_append p v s) = sema_value (make_mbox_sema p s)"
  by (cases "t_mbox_sema (threads s p)";
    simp add: mbox_append_def scheme_make_raw_pair_def make_mbox_sema_def new_sema_def set_cdr_def Let_def upd_defs)+

lemma mbox_cons_frame:
  "t_mbox_sema (threads (mbox_cons p v s) p) = t_mbox_sema (threads s p)"
  "lines (mbox_cons p v s) = lines s" "sema_value (mbox_cons p v s) = sema_value s"
  by (simp_all add: mbox_cons_def scheme_make_raw_pair_def Let_def upd_defs)

text \<open>What popping does to the pairs, and to the whole mailbox when it takes a count of the semaphore.\<close>

lemma pop_pairs:
  assumes "mbox_holds s p (v # q)"
  shows "fst (mbox_pop p dec s) = v \<and> mbox_holds (snd (mbox_pop p False s)) p q"
proof -
  obtain ns where "mbox_pairs s (t_mbox_first (threads s p)) (t_mbox_last (threads s p)) (v # q) ns"
    using assms by (auto simp: mbox_holds_def)
  then obtain n ms where n: "t_mbox_first (threads s p) = Some n" "ns = n # ms" "p_car (raw_pairs s n) = v"
    and ms: "pair_chain (raw_pairs s) (p_cdr (raw_pairs s n)) ms" "distinct ms" "\<forall>m \<in> set ms. m < next_pair s"
      "map (\<lambda>m. p_car (raw_pairs s m)) ms = q" "t_mbox_last (threads s p) = Some (last (n # ms))"
    by (cases ns) (auto simp: mbox_pairs_def)
  have "p_cdr (raw_pairs s n) = None \<longleftrightarrow> ms = []" using ms(1) by (cases ms) auto
  with n ms show ?thesis
    by (auto simp: mbox_pop_def mbox_holds_def mbox_pairs_def Let_def upd_defs intro!: exI[of _ ms])
qed

lemma post_no_waiter:
  assumes "l_first (lines s (Sema_Line t)) = None" "0 \<le> sema_value s t" "scheme_post_sema t s = Some (Inr s')"
  shows "s' = upd_value t (\<lambda>v. v + 1) s"
  using assms next_value[OF assms(2)]
  by (auto simp: scheme_post_sema_def Let_def upd_defs split: if_splits)

lemma made_mbox_sema:
  assumes "mbox_inv p q s"
  obtains t where "t_mbox_sema (threads (make_mbox_sema p s) p) = Some t"
    "l_first (lines (make_mbox_sema p s) (Sema_Line t)) = None"
    "sema_value (make_mbox_sema p s) t = int (length q)"
    "mbox_holds (make_mbox_sema p s) p q"
proof -
  have "mbox_holds (make_mbox_sema p s) p q" using assms by (simp add: mbox_holds_sema mbox_inv_def)
  with assms that show thesis
    by (cases "t_mbox_sema (threads s p)")
      (auto simp: make_mbox_sema_def new_sema_def mbox_inv_def Let_def upd_defs)
qed

lemma send_inv:
  assumes "mbox_inv p q s" "thread_send p v thunk s = Some (Sent, s')"
  shows "mbox_inv p (q @ [v]) s'"
proof -
  define s1 where "s1 = mbox_append p v s"
  have "scheme_post_sema (mbox_sema s1 p) s1 = Some (Inr s')"
    using assms(2) by (auto simp: thread_send_def mbox_push_def s1_def Let_def split: if_splits option.splits sum.splits fail_thunk.splits)
  moreover obtain t where t: "t_mbox_sema (threads s1 p) = Some t" "l_first (lines s1 (Sema_Line t)) = None"
    "sema_value s1 t = int (length q)"
    unfolding s1_def mbox_append_frame by (rule made_mbox_sema[OF assms(1)])
  ultimately have "s' = upd_value t (\<lambda>v. v + 1) s1" using post_no_waiter[of s1 t s'] by (simp add: mbox_sema_def)
  moreover have "mbox_holds s1 p (q @ [v])"
    unfolding s1_def by (rule append_holds) (use assms(1) in \<open>simp add: mbox_inv_def\<close>)
  ultimately show ?thesis using t by (simp add: mbox_inv_def mbox_holds_value) (simp add: upd_defs)
qed

lemma pop_inv:
  assumes "mbox_inv p (v # q) s" "mbox_pop p True s = (r, s')"
  shows "r = v \<and> mbox_inv p q s'"
proof -
  have h: "mbox_holds s p (v # q)" using assms(1) by (simp add: mbox_inv_def)
  obtain t where t: "t_mbox_sema (threads s p) = Some t" "l_first (lines s (Sema_Line t)) = None"
    "sema_value s t = int (length q) + 1"
    using assms(1) by (cases "t_mbox_sema (threads s p)") (auto simp: mbox_inv_def)
  obtain n where n: "t_mbox_first (threads s p) = Some n"
    using h by (cases "t_mbox_first (threads s p)")
      (auto simp: mbox_holds_def mbox_pairs_def neq_Nil_conv Cons_eq_map_conv)
  define s0 where "s0 = snd (mbox_pop p False s)"
  have f: "t_mbox_sema (threads s0 p) = Some t" "lines s0 = lines s" "sema_value s0 = sema_value s"
    by (simp_all add: s0_def mbox_pop_def n Let_def upd_defs t)
  have "s' = upd_value t (\<lambda>v. v - 1) s0"
    using assms(2) t n f
    by (auto simp: mbox_pop_def s0_def Let_def mbox_sema_def scheme_try_plain_sema_def upd_defs)
  moreover have "mbox_holds s0 p q" "r = v"
    using pop_pairs[OF h, of True] assms(2) by (auto simp: s0_def)
  ultimately show ?thesis using t f by (simp add: mbox_inv_def mbox_holds_value) (simp add: upd_defs)
qed

lemma mbox_first_empty: "mbox_inv p q s \<Longrightarrow> t_mbox_first (threads s p) = None \<longleftrightarrow> q = []"
  unfolding mbox_inv_def mbox_holds_def mbox_pairs_def
  by (metis list.map_disc_iff neq_Nil_conv option.distinct(1) pair_chain.simps)

lemma try_receive_inv:
  assumes "mbox_inv p q s" "thread_try_receive p s = (Some v, s')"
  shows "\<exists>q'. q = v # q' \<and> mbox_inv p q' s'"
  using assms pop_inv mbox_first_empty[OF assms(1)]
  by (cases q) (fastforce simp: thread_try_receive_def split: prod.splits if_splits)+

lemma receive_inv:
  assumes "mbox_inv p q s" "thread_receive p s = Some (Inl v, s')"
  shows "\<exists>q'. q = v # q' \<and> mbox_inv p q' s'"
proof (cases q)
  case Nil
  obtain t where t: "t_mbox_sema (threads (make_mbox_sema p s) p) = Some t"
    "sema_value (make_mbox_sema p s) t = 0"
    by (rule made_mbox_sema[OF assms(1)]) (use Nil in simp)
  then have "thread_receive p s = (case wait_begin p [Sema_Evt t] None 0 (make_mbox_sema p s) of
      None \<Rightarrow> None | Some (Inl i, s) \<Rightarrow> (let (v, s) = mbox_pop p False s in Some (Inl v, s))
    | Some (Inr sw, s) \<Rightarrow> Some (Inr sw, s))"
    using mbox_first_empty[OF assms(1)] Nil by (simp add: thread_receive_def mbox_sema_def scheme_try_plain_sema_def)
  with wait_begin_one[OF t(2)] assms(2) show ?thesis by simp
next
  case (Cons w vs)
  with assms pop_inv[of p w vs s] mbox_first_empty[OF assms(1)] show ?thesis
    by (auto simp: thread_receive_def split: prod.splits)
qed

lemma rewind_loop_inv:
  assumes "mbox_push_front_loop p cnt vs s = Some (Inr s')" "t_mbox_sema (threads s p) = Some t"
    "l_first (lines s (Sema_Line t)) = None" "sema_value s t = int (length q) - (cnt + 1)"
    "vs = [] \<longrightarrow> cnt = -1" "-1 \<le> cnt" "cnt < int (length q)" "mbox_holds s p q"
  shows "mbox_inv p (rev vs @ q) s'"
  using assms
proof (induction p cnt vs s arbitrary: q rule: mbox_push_front_loop.induct)
  case (1 p cnt s)
  then show ?case by (simp add: mbox_inv_def)
next
  case (2 p cnt x xs s)
  let ?s = "mbox_cons p x s"
  have t: "mbox_sema ?s p = t" using 2(4) by (simp add: mbox_sema_def mbox_cons_frame)
  have h: "mbox_holds ?s p (x # q)" by (rule cons_holds[OF 2(10)])
  show ?case
  proof (cases "xs = [] \<or> cnt + 1 = 256")
    case True
    let ?s1 = "upd_value t (\<lambda>v. v + (cnt + 1)) ?s"
    have val: "sema_value ?s1 t = int (length q)" using 2(6) by (simp add: upd_defs mbox_cons_frame)
    moreover obtain s2 where s2: "scheme_post_sema t ?s1 = Some (Inr s2)"
      and rest: "mbox_push_front_loop p (-1) xs s2 = Some (Inr s')"
      using 2(3) True t by (auto simp: Let_def split: option.splits sum.splits)
    ultimately have e: "s2 = upd_value t (\<lambda>v. v + 1) ?s1"
      using post_no_waiter[of ?s1 t s2] 2(5) by (simp add: upd_defs mbox_cons_frame)
    have f: "t_mbox_sema (threads s2 p) = Some t" "l_first (lines s2 (Sema_Line t)) = None"
      "sema_value s2 t = int (length (x # q)) - (- 1 + 1)"
      using 2(4,5) val by (simp_all add: e upd_defs mbox_cons_frame)
    have "mbox_holds s2 p (x # q)" using h by (simp add: e mbox_holds_value)
    with 2(1)[OF refl refl True _ _ rest f] t s2 show ?thesis by simp
  next
    case False
    then have r: "mbox_push_front_loop p (cnt + 1) xs ?s = Some (Inr s')" using 2(3) by (simp add: Let_def)
    from 2(2)[OF refl refl False r, of "x # q"] 2(4-9) False h show ?thesis by (simp add: mbox_cons_frame)
  qed
qed

lemma rewind_inv:
  assumes "mbox_inv p q s" "thread_rewind_receive p vs s = Some (Inr s')"
  shows "mbox_inv p (rev vs @ q) s'"
proof -
  obtain t where "t_mbox_sema (threads (make_mbox_sema p s) p) = Some t"
    "l_first (lines (make_mbox_sema p s) (Sema_Line t)) = None"
    "sema_value (make_mbox_sema p s) t = int (length q)" "mbox_holds (make_mbox_sema p s) p q"
    by (rule made_mbox_sema[OF assms(1)])
  with rewind_loop_inv[of p "-1" vs "make_mbox_sema p s" s' t q] assms(2) show ?thesis
    by (simp add: thread_rewind_receive_def mbox_push_front_def)
qed

text \<open>C19. A mailbox, a chain of pairs with a pointer to its first and one to its last, refines a queue: over any
  sequence of sends, receives and rewinds that succeed,
  messages are received in the order of the queue, where a send appends and a rewind puts the
  messages in front, the last of them first. The pairs from the first pointer on always hold the queue's messages, the
  last pointer is the address of the last pair, null when there is none, and the count of the mailbox's semaphore
  is the number of messages. A receive that has to wait is not an event of the sequence; it ends with the pop of
  the message that the post stands for, which is another receive.\<close>

theorem mailbox_is_queue:
  assumes "mbox_run p s evs s'" "mbox_inv p q s"
  shows "\<exists>q'. mbox_inv p q' s' \<and> fold queue_event evs (Some q) = Some q'"
  using assms
proof (induction rule: mbox_run.induct)
  case (start s)
  then show ?case by simp
next
  case (send s evs s1 v thunk s2)
  with send_inv show ?case by fastforce
next
  case (try_receive s evs s1 v s2)
  with try_receive_inv show ?case by fastforce
next
  case (receive s evs s1 v s2)
  with receive_inv show ?case by fastforce
next
  case (rewind s evs s1 vs s2)
  with rewind_inv show ?case by fastforce
qed

theorem mailbox_is_queue_witness:
  "\<exists>s1 s2 s3. thread_send 0 5 No_Thunk world0 = Some (Sent, s1) \<and> thread_send 0 6 No_Thunk s1 = Some (Sent, s2) \<and>
     thread_try_receive 0 s2 = (Some 5, s3) \<and> mbox_inv 0 [6] s3"
proof -
  obtain s1 where s1: "thread_send 0 5 No_Thunk world0 = Some (Sent, s1)"
    by (simp add: thread_send_def mbox_push_def mbox_append_def scheme_make_raw_pair_def world0_def thread0_def
        make_mbox_sema_def new_sema_def mbox_sema_def scheme_post_sema_def upd_defs Let_def)
  then obtain s2 where s2: "thread_send 0 6 No_Thunk s1 = Some (Sent, s2)"
    by (auto simp: thread_send_def mbox_push_def mbox_append_def scheme_make_raw_pair_def world0_def thread0_def
        make_mbox_sema_def new_sema_def mbox_sema_def scheme_post_sema_def set_cdr_def upd_defs Let_def)
  have inv: "mbox_inv 0 [] world0"
    by (simp add: mbox_inv_def mbox_holds_def mbox_pairs_def world0_def thread0_def exI[of _ "[]"])
  have run: "mbox_run 0 world0 (([] @ [Sends 5]) @ [Sends 6]) s2"
    by (rule mbox_run.send[OF mbox_run.send[OF mbox_run.start s1] s2])
  have b: "mbox_inv 0 [5, 6] s2" using mailbox_is_queue[OF run inv] by simp
  obtain r s3 where pop: "mbox_pop 0 True s2 = (r, s3)" by (cases "mbox_pop 0 True s2")
  from pop_inv[OF b pop] mbox_first_empty[OF b] pop
  have "thread_try_receive 0 s2 = (Some 5, s3)" "mbox_inv 0 [6] s3"
    by (simp_all add: thread_try_receive_def)
  with s1 s2 show ?thesis by blast
qed

lemma argv_ok_select:
  assumes "after_select y i s s'" "argv_ok s"
  shows "argv_ok s'"
  using assms by (auto simp: argv_ok_def on_channels_def after_select_def split: if_splits)

lemma lined_leaves:
  assumes "lined s L" "line_of (w_obj (syncers s w)) = Some pl"
  shows "\<exists>L'. lined (get_outof_line (w_obj (syncers s w)) w s) L' \<and> w \<notin> set (L' pl)"
proof (cases "w_in_line (syncers s w)")
  case True
  have "distinct (L pl)" using lined_dll[OF assms(1), of pl] by (simp add: dll_def)
  then have "w \<notin> set (remove1 w (L pl))" by simp
  with lined_outof[OF assms(1) True refl assms(2)] show ?thesis
    by (intro exI[of _ "L(pl := remove1 w (L pl))"]) simp
next
  case False
  with lined_in[OF assms(1), of w pl] assms(1) show ?thesis by (auto simp: get_outof_line_def)
qed

text \<open>C20. A getter and a putter meet: polling a channel with a putter in front that can be picked
  delivers the putter's value, decides both sync operations, resumes the putter's thread and
  takes the putter out of the line.\<close>

theorem channel_rendezvous:
  assumes "wf_world s L" "L (Put_Line c) = w # ws" "w_obj (syncers s w) = Channel_Put c v" "waiter_free s w"
    and "w_syncing (syncers s w) = Some yw" "yw \<noteq> y" "i < length (y_argv (syncings s y))"
  shows "\<exists>s' L'. try_channel (Channel c) (Some y) (Some i) s = Some (True, Some v, s') \<and>
    lined s' L' \<and> w \<notin> set (L' (Put_Line c)) \<and> y_argv (syncings s' y) ! i = Val v \<and>
    y_result (syncings s' y) = i + 1 \<and> y_result (syncings s' yw) = w_syncing_i (syncers s w) + 1 \<and>
    \<not> t_suspended (threads s' (w_thread (syncers s w)))"
proof -
  let ?p = "w_thread (syncers s w)" and ?j = "w_syncing_i (syncers s w)"
  define s1 where "s1 = upd_syncer w (\<lambda>x. x\<lparr>w_picked := True\<rparr>) s"
  define s2 where "s2 = select_syncing yw ?j s1"
  define s3 where "s3 = select_syncing y i s2"
  define s4 where "s4 = scheme_weak_resume_thread ?p (set_argv y i (Val v) s3)"
  have lx: "lined s L" "argv_ok s" using assms(1) by (simp_all add: wf_world_def)
  have l1: "lined s1 L" by (rule lined_cong[OF lx(1)]) (simp_all add: s1_def upd_defs)
  have "argv_ok s1" using lx(2) argv_ok_cong[of s1 s] by (simp add: s1_def upd_defs)
  from select_lined[OF l1 this, of yw ?j] obtain L2 where l2: "lined s2 L2" and a2: "after_select yw ?j s1 s2"
    unfolding s2_def by blast
  from select_lined[OF l2 argv_ok_select[OF a2 \<open>argv_ok s1\<close>], of y i] obtain L3 where l3: "lined s3 L3"
    and a3: "after_select y i s2 s3" unfolding s3_def by blast
  have l4: "lined s4 L3" unfolding s4_def lined_resume
    by (rule lined_cong[OF l3]) (simp_all add: set_argv_def upd_defs)
  have x4: "w_obj (syncers s4 w) = Channel_Put c v"
    using assms(3) a2 a3 by (simp add: s4_def resume_frame set_argv_def upd_defs after_select_def s1_def)
  define s5 where "s5 = get_outof_line (Channel_Put c v) w s4"
  from lined_leaves[OF l4, of w "Put_Line c"] x4 obtain L5 where l5: "lined s5 L5" "w \<notin> set (L5 (Put_Line c))"
    by (auto simp: s5_def)
  have "l_first (lines s (Put_Line c)) = Some w" using line_first[OF lx(1), of "Put_Line c"] assms(2) by simp
  moreover have "take_from_putter (Some y) (Some i) w s = s4"
    using assms(3,5) by (simp add: take_from_putter_def put_val_def s1_def s2_def s3_def s4_def Let_def)
  ultimately have run: "try_channel (Channel c) (Some y) (Some i) s = Some (True, Some v, s5)"
    using assms(3-6) by (simp add: try_channel_def try_get.simps[of _ _ "Some w"] put_val_def s5_def)
  have y4: "syncings s5 = syncings s4" "threads s5 = threads s4"
    using same_outof[of s4 "Channel_Put c v" w] by (simp_all add: s5_def same_but_lines_def)
  have "\<not> t_user_suspended (threads s3 ?p)"
    using waiter_free_user[OF assms(4)] a2 a3 by (simp add: after_select_def thread_flags_def Let_def s1_def upd_defs)
  then have "\<not> t_user_suspended (threads (set_argv y i (Val v) s3) ?p)" by (simp add: set_argv_def upd_defs)
  from free_resumed[OF this] have "\<not> t_suspended (threads s5 ?p)" by (simp add: y4 s4_def)
  moreover have "y_argv (syncings s5 y) ! i = Val v" "y_result (syncings s5 y) = i + 1"
    "y_result (syncings s5 yw) = ?j + 1"
    using a2 a3 assms(6,7) by (simp_all add: y4 s4_def resume_frame set_argv_def upd_defs after_select_def s1_def)
  ultimately show ?thesis using run l5 by blast
qed

theorem channel_rendezvous_witness:
  "\<exists>s s' :: nat world. try_channel (Channel 0) (Some 3) (Some 0) s = Some (True, Some 42, s')"
proof -
  let ?x = "\<lparr>w_thread = 1, w_in_line = False, w_picked = False, w_prev = None, w_next = None,
       w_syncing = Some 2, w_obj = Channel_Put 0 42, w_syncing_i = 0\<rparr> :: nat syncer"
  define s0 where "s0 = upd_syncing 3 (\<lambda>x. x\<lparr>y_argv := [Channel 0]\<rparr>) (upd_syncer 5 (\<lambda>_. ?x) world0)"
  have wf0: "wf_world s0 (\<lambda>_. [])"
    by (auto simp: s0_def wf_world_def linedx_def dll_def world0_def argv_ok_def upd_defs)
  have "wf_world (get_into_line (Channel_Put 0 42) 5 s0) ((\<lambda>_. [])(Put_Line 0 := [] @ [5]))"
    by (rule wf_into[OF wf0]) (simp_all add: s0_def upd_defs)
  from channel_rendezvous[OF this, of 0 5 "[]" 42 2 3 0] show ?thesis
    by (auto simp: into_line_syncers into_line_frame waiter_free_def pending_break_def s0_def world0_def upd_defs thread0_def Let_def)
qed

end
