(* ===== verification/Limbs.thy ===== *)
theory Limbs
  imports Prelude
begin

unbundle bit_operations_syntax

section \<open>Limb vectors (gmp.c, gmp.h)\<close>

text \<open>
  The routines on vectors of 64-bit limbs that \<^verbatim>\<open>bignum.c\<close> calls, from
  \<^verbatim>\<open>src/racket/src/racket/src/gmp/\<close>. A vector is the list of its limbs, the least
  significant first; a routine returns the result vector and the limb it returns in C. The
  loops run over both vectors at once. \<open>limbs_val\<close> is the number a vector stands for.
\<close>

type_synonym limb = "64 word"

fun limbs_val :: "limb list \<Rightarrow> int" where
  "limbs_val [] = 0"
| "limbs_val (d # ds) = uint d + 2 ^ 64 * limbs_val ds"

fun mpn_cmp :: "limb list \<Rightarrow> limb list \<Rightarrow> nat \<Rightarrow> int" where
  "mpn_cmp op1 op2 0 = 0"
| "mpn_cmp op1 op2 (Suc i) =
     (if op1 ! i \<noteq> op2 ! i then (if op1 ! i > op2 ! i then 1 else -1) else mpn_cmp op1 op2 i)"

fun add_n_loop :: "limb list \<Rightarrow> limb list \<Rightarrow> limb \<Rightarrow> limb list \<times> limb" where
  "add_n_loop (x # xs) (s # ys) cy =
     (let y = s + cy; cy = (if y < cy then 1 else 0); y = x + y; cy = (if y < x then 1 else 0) + cy;
          (res, c) = add_n_loop xs ys cy
      in (y # res, c))"
| "add_n_loop _ _ cy = ([], cy)"

definition mpn_add_n :: "limb list \<Rightarrow> limb list \<Rightarrow> limb list \<times> limb" where
  "mpn_add_n s1 s2 = add_n_loop s1 s2 0"

fun sub_n_loop :: "limb list \<Rightarrow> limb list \<Rightarrow> limb \<Rightarrow> limb list \<times> limb" where
  "sub_n_loop (x # xs) (s # ys) cy =
     (let y = s + cy; cy = (if y < cy then 1 else 0); y = x - y; cy = (if y > x then 1 else 0) + cy;
          (res, c) = sub_n_loop xs ys cy
      in (y # res, c))"
| "sub_n_loop _ _ cy = ([], cy)"

definition mpn_sub_n :: "limb list \<Rightarrow> limb list \<Rightarrow> limb list \<times> limb" where
  "mpn_sub_n s1 s2 = sub_n_loop s1 s2 0"

text \<open>The carry loop stops at the first limb that does not wrap; the rest is copied.\<close>

fun carry_loop :: "limb list \<Rightarrow> limb list \<times> limb" where
  "carry_loop [] = ([], 1)"
| "carry_loop (x # xs) =
     (if x + 1 \<noteq> 0 then ((x + 1) # xs, 0)
      else (let (res, c) = carry_loop xs in ((x + 1) # res, c)))"

definition mpn_add_1 :: "limb list \<Rightarrow> limb \<Rightarrow> limb list \<times> limb" where
  "mpn_add_1 s1 s2_limb =
     (case s1 of
        [] \<Rightarrow> ([], s2_limb)
      | x # xs \<Rightarrow>
          (let s2_limb = x + s2_limb
           in if s2_limb < x then (let (res, c) = carry_loop xs in (s2_limb # res, c))
              else (s2_limb # xs, 0)))"

fun borrow_loop :: "limb list \<Rightarrow> limb list \<times> limb" where
  "borrow_loop [] = ([], 1)"
| "borrow_loop (x # xs) =
     (if x \<noteq> 0 then ((x - 1) # xs, 0)
      else (let (res, c) = borrow_loop xs in ((x - 1) # res, c)))"

definition mpn_sub_1 :: "limb list \<Rightarrow> limb \<Rightarrow> limb list \<times> limb" where
  "mpn_sub_1 s1 s2_limb =
     (case s1 of
        [] \<Rightarrow> ([], s2_limb)
      | x # xs \<Rightarrow>
          (let s2_limb = x - s2_limb
           in if s2_limb > x then (let (res, c) = borrow_loop xs in (s2_limb # res, c))
              else (s2_limb # xs, 0)))"

text \<open>The first vector is at least as long as the second.\<close>

definition mpn_add :: "limb list \<Rightarrow> limb list \<Rightarrow> limb list \<times> limb" where
  "mpn_add s1 s2 =
     (let n = length s2; (lo, cy) = mpn_add_n (take n s1) s2
      in if length s1 - n \<noteq> 0 then (let (hi, cy) = mpn_add_1 (drop n s1) cy in (lo @ hi, cy))
         else (lo, cy))"

definition mpn_sub :: "limb list \<Rightarrow> limb list \<Rightarrow> limb list \<times> limb" where
  "mpn_sub s1 s2 =
     (let n = length s2; (lo, cy) = mpn_sub_n (take n s1) s2
      in if length s1 - n \<noteq> 0 then (let (hi, cy) = mpn_sub_1 (drop n s1) cy in (lo @ hi, cy))
         else (lo, cy))"

text \<open>Shifts by \<open>0 < cnt < 64\<close> of a vector that is not empty.\<close>

fun rshift_loop :: "nat \<Rightarrow> limb \<Rightarrow> limb list \<Rightarrow> limb list" where
  "rshift_loop cnt low_limb [] = [drop_bit cnt low_limb]"
| "rshift_loop cnt low_limb (high_limb # up) =
     (drop_bit cnt low_limb OR push_bit (64 - cnt) high_limb) # rshift_loop cnt high_limb up"

definition mpn_rshift :: "limb list \<Rightarrow> nat \<Rightarrow> limb list \<times> limb" where
  "mpn_rshift up cnt = (rshift_loop cnt (hd up) (tl up), push_bit (64 - cnt) (hd up))"

text \<open>The left shift runs from the most significant limb down; here over the reversed vector.\<close>

fun lshift_loop :: "nat \<Rightarrow> limb \<Rightarrow> limb list \<Rightarrow> limb list" where
  "lshift_loop cnt high_limb [] = [push_bit cnt high_limb]"
| "lshift_loop cnt high_limb (low_limb # up) =
     (push_bit cnt high_limb OR drop_bit (64 - cnt) low_limb) # lshift_loop cnt low_limb up"

definition mpn_lshift :: "limb list \<Rightarrow> nat \<Rightarrow> limb list \<times> limb" where
  "mpn_lshift up cnt =
     (let r = rev up in (rev (lshift_loop cnt (hd r) (tl r)), drop_bit (64 - cnt) (hd r)))"

text \<open>\<^verbatim>\<open>umul_ppmm\<close>: the high and the low limb of a product.\<close>

definition umul_ppmm :: "limb \<Rightarrow> limb \<Rightarrow> limb \<times> limb" where
  "umul_ppmm u v = (word_of_int (uint u * uint v div 2 ^ 64), u * v)"

fun mul_1_loop :: "limb list \<Rightarrow> limb \<Rightarrow> limb \<Rightarrow> limb list \<times> limb" where
  "mul_1_loop [] vl cl = ([], cl)"
| "mul_1_loop (u # up) vl cl =
     (let (hi, lo) = umul_ppmm u vl; lo = lo + cl; cl = (if lo < cl then 1 else 0) + hi;
          (res, c) = mul_1_loop up vl cl
      in (lo # res, c))"

definition mpn_mul_1 :: "limb list \<Rightarrow> limb \<Rightarrow> limb list \<times> limb" where
  "mpn_mul_1 s1 s2_limb = mul_1_loop s1 s2_limb 0"

fun addmul_1_loop :: "limb list \<Rightarrow> limb list \<Rightarrow> limb \<Rightarrow> limb \<Rightarrow> limb list \<times> limb" where
  "addmul_1_loop (r # rp) (u # up) vl cl =
     (let (hi, lo) = umul_ppmm u vl; lo = lo + cl; cl = (if lo < cl then 1 else 0) + hi;
          lo = r + lo; cl = cl + (if lo < r then 1 else 0);
          (res, c) = addmul_1_loop rp up vl cl
      in (lo # res, c))"
| "addmul_1_loop _ _ vl cl = ([], cl)"

definition mpn_addmul_1 :: "limb list \<Rightarrow> limb list \<Rightarrow> limb \<Rightarrow> limb list \<times> limb" where
  "mpn_addmul_1 rp up vl = addmul_1_loop rp up vl 0"

text \<open>\<open>acc\<close> is the part of the product from \<^verbatim>\<open>prodp\<close> on, as long as \<open>up\<close>: each turn adds
  a multiple of \<open>up\<close>, finishes the lowest limb and moves on.\<close>

fun mul_rows :: "limb list \<Rightarrow> limb list \<Rightarrow> limb list \<Rightarrow> limb list" where
  "mul_rows up acc [] = acc"
| "mul_rows up acc (v # vp) =
     (let (acc, c) = mpn_addmul_1 acc up v; row = acc @ [c]
      in hd row # mul_rows up (tl row) vp)"

definition mpn_mul_basecase :: "limb list \<Rightarrow> limb list \<Rightarrow> limb list" where
  "mpn_mul_basecase up vp =
     (let (acc, c) = mpn_mul_1 up (hd vp); row = acc @ [c]
      in hd row # mul_rows up (tl row) (tl vp))"

end
