(* ===== verification/Bignum.thy ===== *)
theory Bignum
  imports Limbs
begin

unbundle bit_operations_syntax

section \<open>Arbitrary-precision integers (bignum.c)\<close>

text \<open>
  The exact integers of \<^verbatim>\<open>src/racket/src/racket/src/bignum.c\<close>: a bignum is a sign and a
  vector of limbs, an exact integer is a fixnum (63 bits, tagged) or a bignum. The definitions
  follow the 64-bit precise-GC build: the copies that \<^verbatim>\<open>PROTECT\<close> and \<^verbatim>\<open>SCHEME_BIGDIG_SAFE\<close> make
  do not change a value and are not shown, and the length of a digit list is \<^verbatim>\<open>SCHEME_BIGLEN\<close>.
\<close>

record bignum =
  big_pos :: bool
  big_digs :: "limb list"

datatype exact_int = Int_Obj int | Big_Obj bignum

text \<open>The number an object stands for.\<close>

definition big_val :: "bignum \<Rightarrow> int" where
  "big_val b = (if big_pos b then limbs_val (big_digs b) else - limbs_val (big_digs b))"

fun int_val :: "exact_int \<Rightarrow> int" where
  "int_val (Int_Obj i) = i"
| "int_val (Big_Obj b) = big_val b"

subsection \<open>Fixnums and bignums of one word\<close>

text \<open>\<^verbatim>\<open>intptr_t\<close> arithmetic wraps at 64 bits; tagging a fixnum drops its top bit.\<close>

definition intptr :: "int \<Rightarrow> int" where
  "intptr v = signed_take_bit 63 v"

definition scheme_make_integer :: "int \<Rightarrow> exact_int" where
  "scheme_make_integer v = Int_Obj (signed_take_bit 62 v)"

definition FIRST_BIT_MASK :: limb where
  "FIRST_BIT_MASK = 0x8000000000000000"

definition MAX_TWO_BIT_MASK :: limb where
  "MAX_TWO_BIT_MASK = 0xC000000000000000"

definition scheme_make_small_bignum :: "int \<Rightarrow> bignum" where
  "scheme_make_small_bignum v =
     (let bv = (if v < 0 then word_of_int (intptr (- v)) else word_of_int v)
      in \<lparr>big_pos = (v \<ge> 0), big_digs = (if bv = 0 then [] else [bv])\<rparr>)"

definition scheme_make_bignum :: "int \<Rightarrow> bignum" where
  "scheme_make_bignum v = scheme_make_small_bignum v"

definition scheme_make_bignum_from_unsigned :: "uintptr \<Rightarrow> bignum" where
  "scheme_make_bignum_from_unsigned v = \<lparr>big_pos = True, big_digs = (if v = 0 then [] else [v])\<rparr>"

definition scheme_bignum_get_int_val :: "bignum \<Rightarrow> int option" where
  "scheme_bignum_get_int_val ob =
     (if length (big_digs ob) > 1 then None
      else if length (big_digs ob) = 0 then Some 0
      else if big_digs ob ! 0 = FIRST_BIT_MASK \<and> \<not> big_pos ob then Some (sint (big_digs ob ! 0))
      else if big_digs ob ! 0 AND FIRST_BIT_MASK \<noteq> 0 then None
      else if big_pos ob then Some (sint (big_digs ob ! 0))
      else Some (intptr (- sint (big_digs ob ! 0))))"

definition scheme_bignum_get_unsigned_int_val :: "bignum \<Rightarrow> uintptr option" where
  "scheme_bignum_get_unsigned_int_val ob =
     (if length (big_digs ob) > 1 \<or> \<not> big_pos ob then None
      else if length (big_digs ob) = 0 then Some 0
      else Some (big_digs ob ! 0))"

fun scheme_bignum_normalize :: "exact_int \<Rightarrow> exact_int" where
  "scheme_bignum_normalize (Int_Obj i) = Int_Obj i"
| "scheme_bignum_normalize (Big_Obj ob) =
     (case scheme_bignum_get_int_val ob of
        Some v \<Rightarrow>
          (let t = word_of_int v AND MAX_TWO_BIT_MASK
           in if t = 0 \<or> t = MAX_TWO_BIT_MASK then scheme_make_integer v else Big_Obj ob)
      | None \<Rightarrow> Big_Obj ob)"

text \<open>The quick copy on the stack is replaced by an equal heap object.\<close>

definition make_single_bigdig_result :: "bool \<Rightarrow> limb \<Rightarrow> exact_int" where
  "make_single_bigdig_result pos d =
     (let sm = Big_Obj \<lparr>big_pos = pos, big_digs = [d]\<rparr>; ob = scheme_bignum_normalize sm
      in if ob = sm then Big_Obj \<lparr>big_pos = pos, big_digs = [d]\<rparr> else ob)"

definition bignum_copy :: "bignum \<Rightarrow> limb \<Rightarrow> bignum" where
  "bignum_copy a msd =
     \<lparr>big_pos = big_pos a, big_digs = big_digs a @ (if msd \<noteq> 0 then [msd] else [])\<rparr>"

subsection \<open>Comparison\<close>

definition bignum_abs_cmp :: "bignum \<Rightarrow> bignum \<Rightarrow> int" where
  "bignum_abs_cmp a b =
     (let a_len = length (big_digs a); b_len = length (big_digs b)
      in if a_len > b_len then 1
         else if a_len < b_len then -1
         else if a_len = 0 then 0
         else mpn_cmp (big_digs a) (big_digs b) b_len)"

definition scheme_bignum_lt :: "bignum \<Rightarrow> bignum \<Rightarrow> bool" where
  "scheme_bignum_lt a b =
     (let a_pos = big_pos a; b_pos = big_pos b
      in if \<not> a_pos \<and> b_pos then True
         else if a_pos \<and> \<not> b_pos then False
         else (let res = bignum_abs_cmp a b
               in if \<not> a_pos then res > 0 else res < 0))"

definition scheme_bignum_gt :: "bignum \<Rightarrow> bignum \<Rightarrow> bool" where
  "scheme_bignum_gt a b = scheme_bignum_lt b a"

definition scheme_bignum_le :: "bignum \<Rightarrow> bignum \<Rightarrow> bool" where
  "scheme_bignum_le a b = (\<not> scheme_bignum_gt a b)"

definition scheme_bignum_ge :: "bignum \<Rightarrow> bignum \<Rightarrow> bool" where
  "scheme_bignum_ge a b = (\<not> scheme_bignum_lt a b)"

definition scheme_bignum_max :: "bignum \<Rightarrow> bignum \<Rightarrow> exact_int" where
  "scheme_bignum_max a b =
     scheme_bignum_normalize (Big_Obj (if scheme_bignum_lt a b then b else a))"

definition scheme_bignum_min :: "bignum \<Rightarrow> bignum \<Rightarrow> exact_int" where
  "scheme_bignum_min a b =
     scheme_bignum_normalize (Big_Obj (if scheme_bignum_lt a b then a else b))"

definition scheme_bignum_negate :: "bignum \<Rightarrow> bignum" where
  "scheme_bignum_negate n = \<lparr>big_pos = (\<not> big_pos n), big_digs = big_digs n\<rparr>"

definition scheme_bignum_copy :: "bignum \<Rightarrow> bignum" where
  "scheme_bignum_copy n = \<lparr>big_pos = big_pos n, big_digs = big_digs n\<rparr>"

subsection \<open>Addition, subtraction, multiplication\<close>

definition allocate_bigdig_array :: "nat \<Rightarrow> limb list" where
  "allocate_bigdig_array n = replicate n 0"

fun bigdig_length :: "limb list \<Rightarrow> nat \<Rightarrow> nat" where
  "bigdig_length array 0 = 0"
| "bigdig_length array (Suc alloced) =
     (if array ! alloced = 0 then bigdig_length array alloced else Suc alloced)"

text \<open>Setting \<^verbatim>\<open>SCHEME_BIGLEN\<close> to the length without leading zero digits.\<close>

definition trim_digs :: "limb list \<Rightarrow> limb list" where
  "trim_digs digs = take (bigdig_length digs (length digs)) digs"

definition bignum_add_sub :: "bignum \<Rightarrow> bignum \<Rightarrow> bool \<Rightarrow> exact_int" where
  "bignum_add_sub a b sub =
     (let a_size = length (big_digs a); b_size = length (big_digs b);
          a_pos = big_pos a; b_pos = (big_pos b \<noteq> sub);
          a_digs = big_digs a; b_digs = big_digs b
      in if b_size = 0 then scheme_bignum_normalize (Big_Obj (bignum_copy a 0))
         else if a_size = 0
              then scheme_bignum_normalize (Big_Obj ((bignum_copy b 0)\<lparr>big_pos := b_pos\<rparr>))
         else if a_pos = b_pos then
           (let (o_digs, carry) =
                  (if a_size > b_size then mpn_add a_digs b_digs else mpn_add b_digs a_digs);
                ob = \<lparr>big_pos = a_pos, big_digs = o_digs\<rparr>
            in scheme_bignum_normalize (Big_Obj (if carry \<noteq> 0 then bignum_copy ob 1 else ob)))
         else
           (let cmp = mpn_cmp a_digs b_digs a_size;
                sw = (if a_size > b_size then False
                      else if b_size > a_size then True
                      else \<not> cmp > 0)
            in if a_size = b_size \<and> cmp = 0 then scheme_make_integer 0
               else
                 (let o_digs = (if sw then fst (mpn_sub b_digs a_digs)
                                else fst (mpn_sub a_digs b_digs))
                  in scheme_bignum_normalize
                       (Big_Obj \<lparr>big_pos = (sw \<noteq> a_pos), big_digs = trim_digs o_digs\<rparr>))))"

definition scheme_bignum_add :: "bignum \<Rightarrow> bignum \<Rightarrow> exact_int" where
  "scheme_bignum_add a b = bignum_add_sub a b False"

definition scheme_bignum_subtract :: "bignum \<Rightarrow> bignum \<Rightarrow> exact_int" where
  "scheme_bignum_subtract a b = bignum_add_sub a b True"

definition bignum_one :: bignum where
  "bignum_one = scheme_make_bignum 1"

definition scheme_bignum_add1 :: "bignum \<Rightarrow> exact_int" where
  "scheme_bignum_add1 n = bignum_add_sub n bignum_one False"

definition scheme_bignum_sub1 :: "bignum \<Rightarrow> exact_int" where
  "scheme_bignum_sub1 n = bignum_add_sub n bignum_one True"

text \<open>The product of the digits that remain when the low zero digits of both factors are left
  out, the longer factor first; \<open>mul\<close> stands for \<^verbatim>\<open>mpn_mul\<close>.\<close>

fun low_zeros :: "limb list \<Rightarrow> nat" where
  "low_zeros [] = 0"
| "low_zeros (d # ds) = (if d = 0 then Suc (low_zeros ds) else 0)"

definition bignum_multiply ::
  "(limb list \<Rightarrow> limb list \<Rightarrow> limb list) \<Rightarrow> bignum \<Rightarrow> bignum \<Rightarrow> bool \<Rightarrow> exact_int" where
  "bignum_multiply mul a b norm =
     (let a_size = length (big_digs a); b_size = length (big_digs b)
      in if a_size = 0 \<or> b_size = 0
         then (if norm then scheme_make_integer 0 else Big_Obj (scheme_make_bignum 0))
         else
           (let i = low_zeros (big_digs a); j = low_zeros (big_digs b);
                a_digs = drop i (big_digs a); b_digs = drop j (big_digs b);
                o_digs = replicate (i + j) 0 @
                  (if a_size - i > b_size - j then mul a_digs b_digs else mul b_digs a_digs);
                ob = Big_Obj \<lparr>big_pos = (big_pos a = big_pos b), big_digs = trim_digs o_digs\<rparr>
            in if norm then scheme_bignum_normalize ob else ob))"

definition scheme_bignum_multiply ::
  "(limb list \<Rightarrow> limb list \<Rightarrow> limb list) \<Rightarrow> bignum \<Rightarrow> bignum \<Rightarrow> exact_int" where
  "scheme_bignum_multiply mul a b = bignum_multiply mul a b True"

subsection \<open>Bitwise operations\<close>

text \<open>One digit of a two's complement: the inverted digit plus the carry, and the next carry.\<close>

definition complement_digit :: "limb \<Rightarrow> limb \<Rightarrow> limb \<times> limb" where
  "complement_digit v carry_in =
     (NOT v + carry_in, if carry_in = 1 \<and> v = 0 then 1 else 0)"

datatype bitop = Bit_And | Bit_Or | Bit_Xor

fun bit_limb :: "bitop \<Rightarrow> limb \<Rightarrow> limb \<Rightarrow> limb" where
  "bit_limb Bit_And a b = a AND b"
| "bit_limb Bit_Or a b = a OR b"
| "bit_limb Bit_Xor a b = a XOR b"

text \<open>The loop over the digits of \<open>a\<close>; \<open>b\<close> is extended by zeros or ones. It returns the digits
  and the last carry of the result.\<close>

fun bitop_loop :: "bitop \<Rightarrow> bool \<Rightarrow> bool \<Rightarrow> bool \<Rightarrow> limb list \<Rightarrow> limb list \<Rightarrow> limb \<Rightarrow> limb \<Rightarrow> limb
    \<Rightarrow> limb list \<times> limb" where
  "bitop_loop op a_pos b_pos res_pos [] bs ca cb cr = ([], cr)"
| "bitop_loop op a_pos b_pos res_pos (a # as) bs ca cb cr =
     (let (a_val, ca) = (if a_pos then (a, ca) else complement_digit a ca);
          (b_val, cb) = (case bs of
              b # _ \<Rightarrow> (if b_pos then (b, cb) else complement_digit b cb)
            | [] \<Rightarrow> (if b_pos then (0, cb) else (NOT 0, cb)));
          res_val = bit_limb op a_val b_val;
          (res_val, cr) = (if res_pos then (res_val, cr) else complement_digit res_val cr);
          (res, c) = bitop_loop op a_pos b_pos res_pos as (tl bs) ca cb cr
      in (res_val # res, c))"

text \<open>\<open>a\<close> has at least as many digits as \<open>b\<close>.\<close>

definition do_bitop :: "bignum \<Rightarrow> bignum \<Rightarrow> bitop \<Rightarrow> exact_int" where
  "do_bitop a b op =
     (let a_size = length (big_digs a); b_size = length (big_digs b);
          a_pos = big_pos a; b_pos = big_pos b
      in if a_size = 0 then scheme_make_integer 0
         else if b_size = 0 then
           (if op = Bit_And then scheme_make_integer 0
            else scheme_bignum_normalize (Big_Obj (bignum_copy a 0)))
         else
           (let (res_pos, res_alloc) =
                  (case op of
                     Bit_And \<Rightarrow> (a_pos \<or> b_pos, if b_pos then b_size else a_size)
                   | Bit_Or \<Rightarrow> (a_pos \<and> b_pos, if b_pos then a_size else b_size)
                   | Bit_Xor \<Rightarrow> (a_pos = b_pos, a_size));
                (res_digs, carry_out_res) =
                  bitop_loop op a_pos b_pos res_pos (take res_alloc (big_digs a)) (big_digs b) 1 1 1;
                res_digs = (if \<not> res_pos \<and> carry_out_res = 1
                            then allocate_bigdig_array res_alloc @ [1] else trim_digs res_digs)
            in case res_digs of
                 [] \<Rightarrow> scheme_make_integer 0
               | [d] \<Rightarrow> make_single_bigdig_result res_pos d
               | _ \<Rightarrow> Big_Obj \<lparr>big_pos = res_pos, big_digs = res_digs\<rparr>))"

definition scheme_bignum_and :: "bignum \<Rightarrow> bignum \<Rightarrow> exact_int" where
  "scheme_bignum_and a b =
     (if length (big_digs a) > length (big_digs b) then do_bitop a b Bit_And else do_bitop b a Bit_And)"

definition scheme_bignum_or :: "bignum \<Rightarrow> bignum \<Rightarrow> exact_int" where
  "scheme_bignum_or a b =
     (if length (big_digs a) > length (big_digs b) then do_bitop a b Bit_Or else do_bitop b a Bit_Or)"

definition scheme_bignum_xor :: "bignum \<Rightarrow> bignum \<Rightarrow> exact_int" where
  "scheme_bignum_xor a b =
     (if length (big_digs a) > length (big_digs b) then do_bitop a b Bit_Xor else do_bitop b a Bit_Xor)"

text \<open>For a fixnum the code calls \<^verbatim>\<open>scheme_bin_minus\<close> on 0 and the fixnum.\<close>

definition scheme_bignum_not :: "bignum \<Rightarrow> (int \<Rightarrow> exact_int) \<Rightarrow> exact_int" where
  "scheme_bignum_not a minus_from_0 =
     (case scheme_bignum_add1 a of
        Big_Obj ob \<Rightarrow> scheme_bignum_normalize (Big_Obj (ob\<lparr>big_pos := \<not> big_pos ob\<rparr>))
      | Int_Obj i \<Rightarrow> minus_from_0 i)"

subsection \<open>Shifts\<close>

text \<open>The result of a shift: no leading zero digits, the sign of the argument.\<close>

definition shift_result :: "bool \<Rightarrow> limb list \<Rightarrow> exact_int" where
  "shift_result pos res_digs =
     (case trim_digs res_digs of
        [] \<Rightarrow> scheme_make_integer 0
      | [d] \<Rightarrow> make_single_bigdig_result pos d
      | digs \<Rightarrow> scheme_bignum_normalize (Big_Obj \<lparr>big_pos = pos, big_digs = digs\<rparr>))"

definition bignum_right_shift :: "bignum \<Rightarrow> nat \<Rightarrow> exact_int" where
  "bignum_right_shift n shift =
     (let n_size = length (big_digs n); n_digs = big_digs n; pos = big_pos n;
          shift_words = shift div 64; shift_bits = shift mod 64
      in if shift_words \<ge> n_size then scheme_make_integer (if pos then 0 else -1)
         else
           (let extra = (if shift_bits = 0 \<and> \<not> pos then 1 else 0);
                shifted_off_one = (\<not> pos \<and> (\<exists>d \<in> set (take shift_words n_digs). d \<noteq> 0));
                res_digs = drop shift_words n_digs @ allocate_bigdig_array extra;
                (res_digs, shift_out) =
                  (if shift_bits \<noteq> 0 then mpn_rshift res_digs shift_bits else (res_digs, 0));
                res_digs = (if \<not> pos \<and> (shifted_off_one \<or> shift_out \<noteq> 0)
                            then fst (mpn_add_1 res_digs 1) else res_digs)
            in shift_result pos res_digs))"

definition bignum_left_shift :: "bignum \<Rightarrow> nat \<Rightarrow> exact_int" where
  "bignum_left_shift n shift =
     (let n_digs = big_digs n; shift_words = shift div 64; shift_bits = shift mod 64;
          digs = (if shift_bits \<noteq> 0 then fst (mpn_lshift (n_digs @ [0]) shift_bits) else n_digs)
      in shift_result (big_pos n) (allocate_bigdig_array shift_words @ digs))"

definition scheme_bignum_shift :: "bignum \<Rightarrow> int \<Rightarrow> exact_int" where
  "scheme_bignum_shift n shift =
     (if length (big_digs n) = 0 then scheme_make_integer 0
      else if shift = 0 then scheme_bignum_normalize (Big_Obj (bignum_copy n 0))
      else if shift < 0 then bignum_right_shift n (nat (intptr (- shift)))
      else bignum_left_shift n (nat shift))"

subsection \<open>Division, greatest common divisor, square root\<close>

text \<open>\<open>tdiv\<close> stands for \<^verbatim>\<open>mpn_tdiv_qr\<close>: quotient and remainder of two vectors. The low digits of
  the dividend that stand over zero digits of the divisor go to the remainder as they are. The code counts them
  in an \<^verbatim>\<open>int\<close>, so this is its behaviour for divisors with fewer than \<open>2 ^ 31\<close> zero digits at the low end, all
  but those of 16 GB and more.\<close>

definition bignum_divide ::
  "(limb list \<Rightarrow> limb list \<Rightarrow> limb list \<times> limb list) \<Rightarrow> bignum \<Rightarrow> bignum \<Rightarrow> exact_int \<times> exact_int" where
  "bignum_divide tdiv n d =
     (let cmp = bignum_abs_cmp n d; n_pos = big_pos n; d_pos = big_pos d
      in if cmp = -1 then (scheme_make_integer 0, scheme_bignum_normalize (Big_Obj (bignum_copy n 0)))
         else if cmp = 0 then (scheme_make_integer (if n_pos \<noteq> d_pos then -1 else 1), scheme_make_integer 0)
         else
           (let i = low_zeros (big_digs d);
                (q_digs, r_digs) = tdiv (drop i (big_digs n)) (drop i (big_digs d));
                r_digs = take i (big_digs n) @ r_digs
            in (scheme_bignum_normalize (Big_Obj \<lparr>big_pos = (n_pos = d_pos), big_digs = trim_digs q_digs\<rparr>),
                scheme_bignum_normalize (Big_Obj \<lparr>big_pos = n_pos, big_digs = trim_digs r_digs\<rparr>))))"

text \<open>The number of low zero bits, at most \<open>fuel\<close>: the exact number, which \<open>scheme_bignum_gcd\<close> compares with what its
  \<^verbatim>\<open>int\<close> counters hold.\<close>

fun low_zero_bits :: "limb list \<Rightarrow> nat \<Rightarrow> nat \<Rightarrow> nat" where
  "low_zero_bits digs i 0 = 0"
| "low_zero_bits digs i (Suc fuel) =
     (if bit (digs ! (i div 64)) (i mod 64) then 0 else Suc (low_zero_bits digs (Suc i) fuel))"

definition drop_low_bits :: "limb list \<Rightarrow> nat \<Rightarrow> limb list" where
  "drop_low_bits digs k =
     (if k = 0 then digs
      else (let digs = drop (k div 64) digs; w = k mod 64
            in if w \<noteq> 0 then fst (mpn_rshift digs w) else digs))"

definition drop_top_zero :: "limb list \<Rightarrow> limb list" where
  "drop_top_zero digs = (if last digs = 0 then butlast digs else digs)"

text \<open>\<open>gcd_digs\<close> stands for \<^verbatim>\<open>mpn_gcd\<close>, which wants an odd second operand. The counters \<^verbatim>\<open>nz\<close>, \<^verbatim>\<open>dz\<close> and
  \<^verbatim>\<open>res_double\<close> are C \<^verbatim>\<open>int\<close>s: from \<open>2 ^ 31\<close> low zero bits of the smaller operand on \<^verbatim>\<open>nz++\<close> overflows, which has no
  defined result.\<close>

definition scheme_bignum_gcd ::
  "(limb list \<Rightarrow> limb list \<Rightarrow> limb list) \<Rightarrow> bignum \<Rightarrow> bignum \<Rightarrow> exact_int" where
  "scheme_bignum_gcd gcd_digs n d =
     (let (n, d) = (if scheme_bignum_lt d n then (d, n) else (n, d))
      in if length (big_digs n) = 0 then Big_Obj d
         else
           (let nz = low_zero_bits (big_digs n) 0 (64 * length (big_digs n));
                dz = low_zero_bits (big_digs d) 0 nz;
                n_digs = drop_top_zero (drop_low_bits (big_digs n) nz);
                d_digs = drop_top_zero (drop_low_bits (big_digs d) dz);
                res_double = (if nz < dz then nz else dz);
                r = \<lparr>big_pos = True, big_digs = trim_digs (gcd_digs d_digs n_digs)\<rparr>
            in if nz \<ge> 2 ^ 31 then undefined
               else if res_double \<noteq> 0 then scheme_bignum_shift r (int res_double)
               else scheme_bignum_normalize (Big_Obj r)))"

text \<open>The square root of a word, bit by bit.\<close>

fun sqrt_loop :: "uintptr \<Rightarrow> nat \<Rightarrow> uintptr \<Rightarrow> uintptr \<Rightarrow> uintptr \<times> uintptr" where
  "sqrt_loop n 0 root square = (root, square)"
| "sqrt_loop n (Suc i) root square =
     (let try_root = root OR push_bit i 1; try_square = try_root * try_root
      in if try_square \<le> n then sqrt_loop n i try_root try_square else sqrt_loop n i root square)"

definition fixnum_sqrt :: "uintptr \<Rightarrow> uintptr \<times> uintptr" where
  "fixnum_sqrt n = (let (root, square) = sqrt_loop n 32 0 0 in (root, n - square))"

end
