(* ===== verification/Exact_Int.thy ===== *)
theory Exact_Int
  imports Bignum
begin

unbundle bit_operations_syntax

section \<open>Exact integer arithmetic (numarith.c, number.c, numcomp.c)\<close>

text \<open>
  The generic operations on exact integers: the fast paths on fixnums, with the tests that
  detect a result that is not a fixnum, and the calls into \<^verbatim>\<open>bignum.c\<close>. They are the cases for
  integers of the operations that \<^verbatim>\<open>nummacs.h\<close> generates and of \<^verbatim>\<open>number.c\<close>; flonums, rationals
  and complex numbers have other cases. \<open>mul\<close>, \<open>tdiv\<close> and \<open>gcd_digs\<close> stand for the multiplication,
  division and gcd of digit vectors in the GMP library, \<open>const_fold\<close> for the constant-const_fold flag of
  the current thread.
\<close>

datatype num_error = Out_Of_Memory | Wrong_Contract nat | Divide_By_Zero | Too_Big | Bad_Range

definition scheme_make_integer_value :: "int \<Rightarrow> exact_int" where
  "scheme_make_integer_value i =
     (let ob = scheme_make_integer i in if int_val ob = i then ob else Big_Obj (scheme_make_bignum i))"

definition scheme_make_integer_value_from_unsigned :: "uintptr \<Rightarrow> exact_int" where
  "scheme_make_integer_value_from_unsigned i =
     (let ob = scheme_make_integer (sint i)
      in if int_val ob \<ge> 0 \<and> word_of_int (int_val ob) = i then ob
         else Big_Obj (scheme_make_bignum_from_unsigned i))"

fun scheme_get_unsigned_int_val :: "exact_int \<Rightarrow> uintptr option" where
  "scheme_get_unsigned_int_val (Int_Obj i) = (if i < 0 then None else Some (word_of_int i))"
| "scheme_get_unsigned_int_val (Big_Obj b) = scheme_bignum_get_unsigned_int_val b"

fun scheme_to_bignum :: "exact_int \<Rightarrow> bignum" where
  "scheme_to_bignum (Int_Obj i) = scheme_make_bignum i"
| "scheme_to_bignum (Big_Obj b) = b"

subsection \<open>Addition, subtraction, multiplication\<close>

definition ADD_slow :: "int \<Rightarrow> int \<Rightarrow> exact_int" where
  "ADD_slow a b = scheme_bignum_add (scheme_make_small_bignum a) (scheme_make_small_bignum b)"

definition ADD :: "int \<Rightarrow> int \<Rightarrow> exact_int" where
  "ADD a b =
     (let r = intptr (a + b); ob = scheme_make_integer r; r = int_val ob
      in if b = intptr (r - a) then ob else ADD_slow a b)"

definition SUBTRACT_slow :: "int \<Rightarrow> int \<Rightarrow> exact_int" where
  "SUBTRACT_slow a b = scheme_bignum_subtract (scheme_make_small_bignum a) (scheme_make_small_bignum b)"

definition SUBTRACT :: "int \<Rightarrow> int \<Rightarrow> exact_int" where
  "SUBTRACT a b =
     (let r = intptr (a - b); ob = scheme_make_integer r; r = int_val ob
      in if a = intptr (r + b) then ob else SUBTRACT_slow a b)"

definition MULTIPLY :: "(limb list \<Rightarrow> limb list \<Rightarrow> limb list) \<Rightarrow> int \<Rightarrow> int \<Rightarrow> exact_int" where
  "MULTIPLY mul a b =
     (if b = 0 then Int_Obj 0
      else (let r = intptr (a * b); ob = scheme_make_integer r; r = int_val ob
            in if a = r sdiv b then ob
               else scheme_bignum_multiply mul (scheme_make_small_bignum a) (scheme_make_small_bignum b)))"

fun scheme_bin_plus :: "exact_int \<Rightarrow> exact_int \<Rightarrow> exact_int" where
  "scheme_bin_plus (Int_Obj a) (Int_Obj b) =
     (if b = 0 then Int_Obj a else if a = 0 then Int_Obj b else ADD a b)"
| "scheme_bin_plus (Int_Obj a) (Big_Obj n2) =
     (if a = 0 then Big_Obj n2 else scheme_bignum_add (scheme_make_small_bignum a) n2)"
| "scheme_bin_plus (Big_Obj n1) (Int_Obj b) =
     (if b = 0 then Big_Obj n1 else scheme_bignum_add n1 (scheme_make_small_bignum b))"
| "scheme_bin_plus (Big_Obj n1) (Big_Obj n2) = scheme_bignum_add n1 n2"

fun scheme_bin_minus :: "exact_int \<Rightarrow> exact_int \<Rightarrow> exact_int" where
  "scheme_bin_minus (Int_Obj a) (Int_Obj b) = (if b = 0 then Int_Obj a else SUBTRACT a b)"
| "scheme_bin_minus (Int_Obj a) (Big_Obj n2) = scheme_bignum_subtract (scheme_make_small_bignum a) n2"
| "scheme_bin_minus (Big_Obj n1) (Int_Obj b) =
     (if b = 0 then Big_Obj n1 else scheme_bignum_subtract n1 (scheme_make_small_bignum b))"
| "scheme_bin_minus (Big_Obj n1) (Big_Obj n2) = scheme_bignum_subtract n1 n2"

fun scheme_bin_mult :: "(limb list \<Rightarrow> limb list \<Rightarrow> limb list) \<Rightarrow> exact_int \<Rightarrow> exact_int \<Rightarrow> exact_int" where
  "scheme_bin_mult mul (Int_Obj a) (Int_Obj b) =
     (if b = 0 then Int_Obj 0 else if a = 0 then Int_Obj 0 else MULTIPLY mul a b)"
| "scheme_bin_mult mul (Int_Obj a) (Big_Obj n2) =
     (if a = 0 then Int_Obj 0 else if a = 1 then Big_Obj n2
      else scheme_bignum_multiply mul (scheme_make_small_bignum a) n2)"
| "scheme_bin_mult mul (Big_Obj n1) (Int_Obj b) =
     (if b = 0 then Int_Obj 0 else if b = 1 then Big_Obj n1
      else scheme_bignum_multiply mul n1 (scheme_make_small_bignum b))"
| "scheme_bin_mult mul (Big_Obj n1) (Big_Obj n2) = scheme_bignum_multiply mul n1 n2"

fun scheme_add1 :: "exact_int \<Rightarrow> exact_int" where
  "scheme_add1 (Int_Obj v) =
     (if v < 0x3FFFFFFF then scheme_make_integer (v + 1)
      else scheme_bignum_add1 (scheme_make_small_bignum v))"
| "scheme_add1 (Big_Obj n) = scheme_bignum_add1 n"

fun scheme_sub1 :: "exact_int \<Rightarrow> exact_int" where
  "scheme_sub1 (Int_Obj v) =
     (if v > - 0x3FFFFFFF then scheme_make_integer (v - 1)
      else scheme_bignum_sub1 (scheme_make_small_bignum v))"
| "scheme_sub1 (Big_Obj n) = scheme_bignum_sub1 n"

fun scheme_abs :: "exact_int \<Rightarrow> exact_int" where
  "scheme_abs (Int_Obj n) = scheme_make_integer_value (if n > 0 then n else - n)"
| "scheme_abs (Big_Obj n) = (if big_pos n then Big_Obj n else Big_Obj (scheme_bignum_negate n))"

subsection \<open>Comparison\<close>

fun scheme_bin_lt :: "exact_int \<Rightarrow> exact_int \<Rightarrow> bool" where
  "scheme_bin_lt (Int_Obj a) (Int_Obj b) = (a < b)"
| "scheme_bin_lt (Int_Obj a) (Big_Obj n2) = scheme_bignum_lt (scheme_make_small_bignum a) n2"
| "scheme_bin_lt (Big_Obj n1) (Int_Obj b) = scheme_bignum_lt n1 (scheme_make_small_bignum b)"
| "scheme_bin_lt (Big_Obj n1) (Big_Obj n2) = scheme_bignum_lt n1 n2"

fun scheme_bin_lt_eq :: "exact_int \<Rightarrow> exact_int \<Rightarrow> bool" where
  "scheme_bin_lt_eq (Int_Obj a) (Int_Obj b) = (a \<le> b)"
| "scheme_bin_lt_eq (Int_Obj a) (Big_Obj n2) = scheme_bignum_le (scheme_make_small_bignum a) n2"
| "scheme_bin_lt_eq (Big_Obj n1) (Int_Obj b) = scheme_bignum_le n1 (scheme_make_small_bignum b)"
| "scheme_bin_lt_eq (Big_Obj n1) (Big_Obj n2) = scheme_bignum_le n1 n2"

fun scheme_is_negative :: "exact_int \<Rightarrow> bool" where
  "scheme_is_negative (Int_Obj a) = (a < 0)"
| "scheme_is_negative (Big_Obj n) = (\<not> big_pos n)"

subsection \<open>Bitwise operations and shifts\<close>

fun bin_bitwise :: "bitop \<Rightarrow> exact_int \<Rightarrow> exact_int \<Rightarrow> exact_int" where
  "bin_bitwise op (Int_Obj a) (Int_Obj b) =
     scheme_make_integer (case op of Bit_And \<Rightarrow> a AND b | Bit_Or \<Rightarrow> a OR b | Bit_Xor \<Rightarrow> a XOR b)"
| "bin_bitwise op n1 n2 =
     (let bigop = (case op of Bit_And \<Rightarrow> scheme_bignum_and | Bit_Or \<Rightarrow> scheme_bignum_or | Bit_Xor \<Rightarrow> scheme_bignum_xor);
          big = (\<lambda>n. case n of Int_Obj i \<Rightarrow> scheme_make_small_bignum i | Big_Obj b \<Rightarrow> b)
      in bigop (big n1) (big n2))"

fun bitwise_not :: "exact_int \<Rightarrow> exact_int" where
  "bitwise_not (Int_Obj a) = scheme_make_integer (NOT a)"
| "bitwise_not (Big_Obj n) = scheme_bignum_not n (\<lambda>i. scheme_bin_minus (scheme_make_integer 0) (Int_Obj i))"

definition MAX_SHIFT_TRY :: int where
  "MAX_SHIFT_TRY = 61"

definition MAX_SHIFT_EVER :: int where
  "MAX_SHIFT_EVER = 64"

text \<open>The shift of a fixnum that stays a fixnum; \<open>None\<close> when the code goes on with a bignum.\<close>

definition fixnum_shift :: "int \<Rightarrow> int \<Rightarrow> exact_int option" where
  "fixnum_shift i shift =
     (if i = 0 then Some (Int_Obj i)
      else if i > 0 then
        (if shift < 0 then
           (let shft = - shift
            in Some (scheme_make_integer (if shft < MAX_SHIFT_EVER then drop_bit (nat shft) i else 0)))
         else if shift \<le> MAX_SHIFT_TRY then
           (let n = intptr (push_bit (nat shift) i)
            in if n > 0 \<and> drop_bit (nat shift) (int_val (scheme_make_integer n)) = i
               then Some (scheme_make_integer n) else None)
         else None)
      else None)"

fun scheme_bitwise_shift :: "bool \<Rightarrow> exact_int \<Rightarrow> exact_int \<Rightarrow> num_error + exact_int" where
  "scheme_bitwise_shift const_fold v (Big_Obj so) =
     (if big_pos so then Inl Out_Of_Memory
      else Inr (scheme_make_integer (if scheme_is_negative v then -1 else 0)))"
| "scheme_bitwise_shift const_fold v (Int_Obj shift) =
     (if shift = 0 then Inr v
      else (case (case v of Int_Obj i \<Rightarrow> fixnum_shift i shift | Big_Obj _ \<Rightarrow> None) of
              Some r \<Rightarrow> Inr r
            | None \<Rightarrow> if const_fold then Inl Too_Big
                      else Inr (scheme_bignum_shift (scheme_to_bignum v) shift)))"

fun bitwise_bit_set_p :: "exact_int \<Rightarrow> exact_int \<Rightarrow> num_error + bool" where
  "bitwise_bit_set_p so (Int_Obj v) =
     (if v < 0 then Inl (Wrong_Contract 1)
      else (case so of
              Int_Obj i \<Rightarrow>
                Inr (if v < 64 then push_bit (nat v) 1 AND (word_of_int i :: uintptr) \<noteq> 0 else i < 0)
            | Big_Obj b \<Rightarrow>
                (let vd = v div 64; vb = v AND 63
                 in if vd \<ge> int (length (big_digs b)) then Inr (\<not> big_pos b)
                    else if big_pos b
                         then Inr (push_bit (nat vb) 1 AND (big_digs b ! nat vd) \<noteq> 0)
                    else
                      (let bt = (case scheme_bignum_shift (scheme_make_bignum 1) v of
                                    Int_Obj i \<Rightarrow> scheme_make_bignum i | Big_Obj b \<Rightarrow> b)
                       in Inr (scheme_bignum_and bt b \<noteq> scheme_make_integer 0)))))"
| "bitwise_bit_set_p so (Big_Obj sb) =
     (if big_pos sb
      then Inr (case so of Int_Obj i \<Rightarrow> i < 0 | Big_Obj b \<Rightarrow> \<not> big_pos b)
      else Inl (Wrong_Contract 1))"

text \<open>The general case of \<^verbatim>\<open>bitwise-bit-field\<close>, and the fast paths for small fields.\<close>

definition slow_bitwise_bit_field ::
  "bool \<Rightarrow> exact_int \<Rightarrow> exact_int \<Rightarrow> exact_int \<Rightarrow> num_error + exact_int" where
  "slow_bitwise_bit_field const_fold so sb1 sb2 =
     (if scheme_is_negative sb1 then Inl (Wrong_Contract 1)
      else if scheme_is_negative sb2 then Inl (Wrong_Contract 2)
      else if \<not> scheme_bin_lt_eq sb1 sb2 then Inl Bad_Range
      else
        (let sb2 = scheme_bin_minus sb2 sb1; sb1 = scheme_bin_minus (scheme_make_integer 0) sb1
         in case scheme_bitwise_shift const_fold so sb1 of
              Inl e \<Rightarrow> Inl e
            | Inr so \<Rightarrow>
                (case scheme_bitwise_shift const_fold (scheme_make_integer 1) sb2 of
                   Inl e \<Rightarrow> Inl e
                 | Inr sb2 \<Rightarrow>
                     Inr (bin_bitwise Bit_And so (scheme_bin_minus sb2 (scheme_make_integer 1))))))"

fun fast_bit_field :: "exact_int \<Rightarrow> int \<Rightarrow> int \<Rightarrow> exact_int option" where
  "fast_bit_field (Int_Obj i) v1 v2 =
     (if v1 < 64
      then Some (scheme_make_integer_value_from_unsigned
                   (word_of_int (drop_bit (nat v1) i) AND (push_bit (nat v2) 1 - 1)))
      else if i > 0 then Some (scheme_make_integer 0) else None)"
| "fast_bit_field (Big_Obj b) v1 v2 =
     (if big_pos b then
        (let vd = v1 div 64; vb = v1 AND 63
         in if vd \<ge> int (length (big_digs b)) then Some (scheme_make_integer 0)
            else
              (let d = drop_bit (nat vb) (big_digs b ! nat vd); avail = 64 - vb;
                   d = (if avail < v2 \<and> vd + 1 < int (length (big_digs b))
                        then d OR push_bit (nat avail) (big_digs b ! nat (vd + 1)) else d)
               in Some (scheme_make_integer_value_from_unsigned (d AND (push_bit (nat v2) 1 - 1)))))
      else None)"

definition bitwise_bit_field ::
  "bool \<Rightarrow> exact_int \<Rightarrow> exact_int \<Rightarrow> exact_int \<Rightarrow> num_error + exact_int" where
  "bitwise_bit_field const_fold so sb1 sb2 =
     (case (sb1, sb2) of
        (Int_Obj v1, Int_Obj v2) \<Rightarrow>
          (if v1 \<ge> 0 \<and> v2 \<ge> v1 \<and> v2 - v1 < 64
           then (case fast_bit_field so v1 (v2 - v1) of
                   Some r \<Rightarrow> Inr r | None \<Rightarrow> slow_bitwise_bit_field const_fold so sb1 sb2)
           else slow_bitwise_bit_field const_fold so sb1 sb2)
      | _ \<Rightarrow> slow_bitwise_bit_field const_fold so sb1 sb2)"

fun length_loop :: "nat \<Rightarrow> uintptr \<Rightarrow> int \<Rightarrow> int" where
  "length_loop 0 n base = base"
| "length_loop (Suc fuel) n base = (if n \<noteq> 0 then length_loop fuel (drop_bit 1 n) (base + 1) else base)"

text \<open>A word has 64 bits, so 64 turns are enough. The code reads the fields of the result of
  \<^verbatim>\<open>scheme_bignum_not\<close> as a bignum's; for a fixnum \<open>None\<close>.\<close>

definition integer_length :: "exact_int \<Rightarrow> exact_int option" where
  "integer_length ob =
     (case ob of
        Int_Obj a \<Rightarrow>
          Some (scheme_make_integer (length_loop 64 (word_of_int (if a < 0 then NOT a else a)) 0))
      | Big_Obj b \<Rightarrow>
          (case (if \<not> big_pos b
                 then scheme_bignum_not b (\<lambda>i. scheme_bin_minus (scheme_make_integer 0) (Int_Obj i))
                 else Big_Obj b) of
             Int_Obj _ \<Rightarrow> None
           | Big_Obj b \<Rightarrow>
               Some (scheme_make_integer
                       (length_loop 64 (last (big_digs b)) (int (length (big_digs b) - 1) * 64)))))"

subsection \<open>Powers\<close>

fun power_top :: "uintptr \<Rightarrow> nat \<Rightarrow> nat" where
  "power_top b 0 = 0"
| "power_top b (Suc i) = (if bit b i then Suc i else power_top b i)"

fun power_loop :: "(limb list \<Rightarrow> limb list \<Rightarrow> limb list) \<Rightarrow> exact_int \<Rightarrow> uintptr \<Rightarrow> nat \<Rightarrow> exact_int \<Rightarrow> exact_int" where
  "power_loop mul a b 0 result = result"
| "power_loop mul a b (Suc i) result =
     (let result = scheme_bin_mult mul result result;
          result = (if bit b i then scheme_bin_mult mul a result else result)
      in power_loop mul a b i result)"

text \<open>The loop over the bits from the top one of \<open>b\<close> down; the code also reads the bit of number
  -1 before it sees that the index is negative.\<close>

definition do_power :: "(limb list \<Rightarrow> limb list \<Rightarrow> limb list) \<Rightarrow> exact_int \<Rightarrow> uintptr \<Rightarrow> exact_int" where
  "do_power mul a b = power_loop mul a b (power_top b 64) (scheme_make_integer 1)"

fun scheme_odd_p :: "exact_int \<Rightarrow> bool" where
  "scheme_odd_p (Int_Obj i) = (i AND 1 \<noteq> 0)"
| "scheme_odd_p (Big_Obj b) = ((big_digs b ! 0) AND 1 \<noteq> 0)"

text \<open>For an exponent that is not a word; \<open>None\<close> when the loop does not end or a shift fails.\<close>

partial_function (option) do_big_power ::
  "(limb list \<Rightarrow> limb list \<Rightarrow> limb list) \<Rightarrow> exact_int \<Rightarrow> exact_int \<Rightarrow> exact_int \<Rightarrow> exact_int option" where
  "do_big_power mul a b result =
     (if b = Int_Obj 0 then Some result
      else (case scheme_bitwise_shift False b (scheme_make_integer (-1)) of
              Inl e \<Rightarrow> None
            | Inr b2 \<Rightarrow>
                do_big_power mul (scheme_bin_mult mul a a) b2
                  (if scheme_odd_p b then scheme_bin_mult mul a result else result)))"

definition scheme_generic_integer_power ::
  "(limb list \<Rightarrow> limb list \<Rightarrow> limb list) \<Rightarrow> bool \<Rightarrow> exact_int \<Rightarrow> exact_int \<Rightarrow> num_error + exact_int option" where
  "scheme_generic_integer_power mul const_fold a b =
     (if const_fold \<and> (case b of
            Big_Obj _ \<Rightarrow> True
          | Int_Obj bi \<Rightarrow> bi > 10000 \<or>
              (case a of Int_Obj _ \<Rightarrow> False
               | Big_Obj ab \<Rightarrow> (let len = int (length (big_digs ab)) in len > 10000 \<or> len * bi > 10000)))
      then Inl Too_Big
      else Inr (case scheme_get_unsigned_int_val b of
                  Some exponent \<Rightarrow> Some (do_power mul a exponent)
                | None \<Rightarrow> do_big_power mul a b (scheme_make_integer 1)))"

definition MAX_FIXNUM_SQRT :: int where
  "MAX_FIXNUM_SQRT = 3037000498"

text \<open>The loop of \<^verbatim>\<open>fixnum_expt\<close>; \<open>None\<close> when it goes on with the generic power.\<close>

fun expt_loop :: "nat \<Rightarrow> int \<Rightarrow> int \<Rightarrow> int \<Rightarrow> int option" where
  "expt_loop 0 x y result = Some result"
| "expt_loop (Suc fuel) x y result =
     (if y > 0 then
        (if x > MAX_FIXNUM_SQRT \<and> y > 1 then None
         else
           (let next_result = (word_of_int x * word_of_int result :: uintptr)
            in if odd y \<and> y = 1 \<and> x > MAX_FIXNUM_SQRT \<and>
                  (sint next_result < 0 \<or> next_result div word_of_int x \<noteq> word_of_int result) then None
               else if odd y \<and> y = 1 then Some (sint next_result)
               else expt_loop fuel (intptr (x * x)) (y div 2)
                      (if odd y then sint next_result else result)))
      else Some result)"

definition fixnum_expt ::
  "(limb list \<Rightarrow> limb list \<Rightarrow> limb list) \<Rightarrow> bool \<Rightarrow> int \<Rightarrow> int \<Rightarrow> num_error + exact_int option" where
  "fixnum_expt mul const_fold x y =
     (if x = 2 \<and> y \<le> MAX_SHIFT_TRY then Inr (Some (scheme_make_integer (push_bit (nat y) 1)))
      else (case expt_loop 64 (if x < 0 then - x else x) y 1 of
              None \<Rightarrow> scheme_generic_integer_power mul const_fold
                        (scheme_make_integer_value x) (scheme_make_integer_value y)
            | Some result \<Rightarrow>
                Inr (Some (scheme_make_integer_value (if x < 0 \<and> odd y then - result else result)))))"

subsection \<open>Division\<close>

definition bin_quotient ::
  "(limb list \<Rightarrow> limb list \<Rightarrow> limb list \<times> limb list) \<Rightarrow> exact_int \<Rightarrow> exact_int \<Rightarrow> num_error + exact_int" where
  "bin_quotient tdiv n1 n2 =
     (if n2 = Int_Obj 0 then Inl Divide_By_Zero
      else (case (n1, n2) of
              (Int_Obj a, Int_Obj b) \<Rightarrow> Inr (scheme_make_integer_value (intptr (a sdiv b)))
            | _ \<Rightarrow> Inr (fst (bignum_divide tdiv (scheme_to_bignum n1) (scheme_to_bignum n2)))))"

fun negate_int_obj :: "exact_int \<Rightarrow> exact_int" where
  "negate_int_obj (Int_Obj i) = scheme_make_integer (- i)"
| "negate_int_obj (Big_Obj b) = Big_Obj (scheme_bignum_negate b)"

definition rem_fixnum :: "bool \<Rightarrow> int \<Rightarrow> int \<Rightarrow> exact_int" where
  "rem_fixnum first_sign a b =
     (let na = (if a < 0 then - a else a); nb = (if b < 0 then - b else b); v = na mod nb;
          v = (if v = 0 then v
               else if first_sign then (if a < 0 then - v else v)
               else (let v = (if (a < 0) \<noteq> (b < 0) then nb - v else v)
                     in if b < 0 then - v else v))
      in scheme_make_integer v)"

definition rem_big :: "bool \<Rightarrow> bignum \<Rightarrow> bignum \<Rightarrow> exact_int \<Rightarrow> exact_int" where
  "rem_big first_sign n1 n2 r =
     (if r = Int_Obj 0 then r
      else
        (let r = (case r of Int_Obj i \<Rightarrow> if i < 0 then negate_int_obj r else r
                  | Big_Obj b \<Rightarrow> if \<not> big_pos b then negate_int_obj r else r)
         in if first_sign then (if \<not> big_pos n1 then negate_int_obj r else r)
            else
              (let neg1 = \<not> big_pos n1; neg2 = \<not> big_pos n2
               in if neg1 \<noteq> neg2
                  then (if neg2 then scheme_bin_plus (Big_Obj n2) r else scheme_bin_minus (Big_Obj n2) r)
                  else (if neg2 then negate_int_obj r else r))))"

definition rem_mod ::
  "(limb list \<Rightarrow> limb list \<Rightarrow> limb list \<times> limb list) \<Rightarrow> bool \<Rightarrow> exact_int \<Rightarrow> exact_int \<Rightarrow> num_error + exact_int" where
  "rem_mod tdiv first_sign n1 n2 =
     (if n2 = Int_Obj 0 then Inl Divide_By_Zero
      else if n1 = Int_Obj 0 then Inr (Int_Obj 0)
      else (case (n1, n2) of
        (Int_Obj a, Int_Obj b) \<Rightarrow> Inr (rem_fixnum first_sign a b)
      | _ \<Rightarrow> (let n1 = scheme_to_bignum n1; n2 = scheme_to_bignum n2
            in Inr (rem_big first_sign n1 n2 (snd (bignum_divide tdiv n1 n2))))))"

function euclid_loop :: "int \<Rightarrow> int \<Rightarrow> int" where
  "euclid_loop a b = (if b > 0 then euclid_loop b (a mod b) else a)"
  by auto
termination by (relation "measure (\<lambda>(a, b). nat b)") simp_all

declare euclid_loop.simps [simp del]

definition scheme_bin_gcd ::
  "(limb list \<Rightarrow> limb list \<Rightarrow> limb list) \<Rightarrow> exact_int \<Rightarrow> exact_int \<Rightarrow> exact_int" where
  "scheme_bin_gcd gcd_digs n1 n2 =
     (case (n1, n2) of
        (Int_Obj i1, Int_Obj i2) \<Rightarrow>
          (let i1 = (if i1 < 0 then - i1 else i1); i2 = (if i2 < 0 then - i2 else i2);
               (a, b) = (if i1 > i2 then (i1, i2) else (i2, i1))
           in scheme_make_integer (euclid_loop a b))
      | _ \<Rightarrow>
          (let n1 = scheme_to_bignum n1; n2 = scheme_to_bignum n2;
               n1 = (if \<not> big_pos n1 then scheme_bignum_negate n1 else n1);
               n2 = (if \<not> big_pos n2 then scheme_bignum_negate n2 else n2)
           in scheme_bignum_gcd gcd_digs n1 n2))"

end
