(* ===== verification/Ratio.thy ===== *)
theory Ratio
  imports Exact_Int
begin

unbundle bit_operations_syntax

section \<open>Exact rational numbers (rational.c, numarith.c)\<close>

text \<open>
  The fractions of \<^verbatim>\<open>src/racket/src/racket/src/rational.c\<close> over exact integers, and the cases for
  integers and fractions of the generic operations. A fraction whose denominator is 1 stands for an
  integer operand (\<^verbatim>\<open>Small_Rational\<close>); a result is \<open>Whole\<close> or a \<open>Ratio\<close>. The routines on digit
  vectors that the integer operations call are the fields of \<open>gmp_ops\<close>.
\<close>

record gmp_ops =
  mul_op :: "limb list \<Rightarrow> limb list \<Rightarrow> limb list"
  tdiv_op :: "limb list \<Rightarrow> limb list \<Rightarrow> limb list \<times> limb list"
  gcd_op :: "limb list \<Rightarrow> limb list \<Rightarrow> limb list"

record rational =
  rat_num :: exact_int
  rat_denom :: exact_int

datatype exact_num = Whole exact_int | Ratio rational

text \<open>An operation after one that may raise an exception.\<close>

fun or_error :: "'e + 'a \<Rightarrow> ('a \<Rightarrow> 'e + 'b) \<Rightarrow> 'e + 'b" where
  "or_error (Inl e) f = Inl e"
| "or_error (Inr x) f = f x"

definition scheme_integer_to_rational :: "exact_int \<Rightarrow> rational" where
  "scheme_integer_to_rational n = \<lparr>rat_num = n, rat_denom = scheme_make_integer 1\<rparr>"

definition scheme_make_small_rational :: "int \<Rightarrow> rational" where
  "scheme_make_small_rational n = \<lparr>rat_num = scheme_make_integer n, rat_denom = scheme_make_integer 1\<rparr>"

definition scheme_is_rational_positive :: "rational \<Rightarrow> bool" where
  "scheme_is_rational_positive r = (case rat_num r of Int_Obj i \<Rightarrow> i > 0 | Big_Obj b \<Rightarrow> big_pos b)"

fun negate_simple :: "exact_int \<Rightarrow> exact_int" where
  "negate_simple (Int_Obj i) = scheme_make_integer_value (- i)"
| "negate_simple (Big_Obj b) = Big_Obj (scheme_bignum_negate b)"

text \<open>\<^verbatim>\<open>scheme_bignum_eq\<close> on the bignums of this part.\<close>

definition bignum_eq :: "bignum \<Rightarrow> bignum \<Rightarrow> bool" where
  "bignum_eq a b =
     (let a_len = length (big_digs a); b_len = length (big_digs b)
      in if a_len = 0 \<and> b_len = 0 then True
         else if a_len = b_len \<and> big_pos a = big_pos b then mpn_cmp (big_digs a) (big_digs b) b_len = 0
         else False)"

subsection \<open>Lowest terms\<close>

definition scheme_rational_normalize :: "gmp_ops \<Rightarrow> rational \<Rightarrow> num_error + exact_num" where
  "scheme_rational_normalize g r =
     (if rat_num r = Int_Obj 0 then Inr (Whole (scheme_make_integer 0))
      else
        (let negate = (case rat_denom r of Int_Obj d \<Rightarrow> d < 0 | Big_Obj b \<Rightarrow> \<not> big_pos b);
             denom = (if negate then negate_simple (rat_denom r) else rat_denom r);
             num = (if negate then negate_simple (rat_num r) else rat_num r)
         in if denom = scheme_make_integer 1 then Inr (Whole num)
            else
              (let gcd = scheme_bin_gcd (gcd_op g) num denom
               in if gcd = scheme_make_integer 1 then Inr (Ratio \<lparr>rat_num = num, rat_denom = denom\<rparr>)
                  else or_error (bin_quotient (tdiv_op g) num gcd) (\<lambda>num.
                       or_error (bin_quotient (tdiv_op g) denom gcd) (\<lambda>denom.
                         if denom = scheme_make_integer 1 then Inr (Whole num)
                         else Inr (Ratio \<lparr>rat_num = num, rat_denom = denom\<rparr>))))))"

definition make_rational :: "gmp_ops \<Rightarrow> exact_int \<Rightarrow> exact_int \<Rightarrow> bool \<Rightarrow> num_error + exact_num" where
  "make_rational g n d norm =
     (let r = \<lparr>rat_num = n, rat_denom = d\<rparr>
      in if norm then scheme_rational_normalize g r else Inr (Ratio r))"

definition scheme_make_rational :: "gmp_ops \<Rightarrow> exact_int \<Rightarrow> exact_int \<Rightarrow> num_error + exact_num" where
  "scheme_make_rational g n d =
     make_rational g (scheme_bignum_normalize n) (scheme_bignum_normalize d) True"

definition scheme_make_fixnum_rational :: "gmp_ops \<Rightarrow> int \<Rightarrow> int \<Rightarrow> num_error + exact_num" where
  "scheme_make_fixnum_rational g n d =
     scheme_rational_normalize g \<lparr>rat_num = scheme_make_integer n, rat_denom = scheme_make_integer d\<rparr>"

subsection \<open>Comparison\<close>

definition rational_lt :: "gmp_ops \<Rightarrow> rational \<Rightarrow> rational \<Rightarrow> bool \<Rightarrow> bool" where
  "rational_lt g ra rb or_eq =
     (let ma = scheme_bin_mult (mul_op g) (rat_num ra) (rat_denom rb);
          mb = scheme_bin_mult (mul_op g) (rat_num rb) (rat_denom ra)
      in case (ma, mb) of
           (Int_Obj i, Int_Obj j) \<Rightarrow> if or_eq then i \<le> j else i < j
         | (Big_Obj i, Big_Obj j) \<Rightarrow> if or_eq then scheme_bignum_le i j else scheme_bignum_lt i j
         | (Int_Obj i, Big_Obj j) \<Rightarrow> big_pos j
         | (Big_Obj i, Int_Obj j) \<Rightarrow> \<not> big_pos i)"

definition scheme_rational_lt :: "gmp_ops \<Rightarrow> rational \<Rightarrow> rational \<Rightarrow> bool" where
  "scheme_rational_lt g a b = rational_lt g a b False"

definition scheme_rational_gt :: "gmp_ops \<Rightarrow> rational \<Rightarrow> rational \<Rightarrow> bool" where
  "scheme_rational_gt g a b = (\<not> rational_lt g a b True)"

definition scheme_rational_le :: "gmp_ops \<Rightarrow> rational \<Rightarrow> rational \<Rightarrow> bool" where
  "scheme_rational_le g a b = rational_lt g a b True"

definition scheme_rational_ge :: "gmp_ops \<Rightarrow> rational \<Rightarrow> rational \<Rightarrow> bool" where
  "scheme_rational_ge g a b = (\<not> rational_lt g a b False)"

definition scheme_rational_max :: "gmp_ops \<Rightarrow> rational \<Rightarrow> rational \<Rightarrow> num_error + exact_num" where
  "scheme_rational_max g a b = scheme_rational_normalize g (if scheme_rational_lt g a b then b else a)"

definition scheme_rational_min :: "gmp_ops \<Rightarrow> rational \<Rightarrow> rational \<Rightarrow> num_error + exact_num" where
  "scheme_rational_min g a b = scheme_rational_normalize g (if scheme_rational_lt g a b then a else b)"

subsection \<open>Arithmetic\<close>

definition scheme_rational_negate :: "rational \<Rightarrow> rational" where
  "scheme_rational_negate r =
     \<lparr>rat_num = scheme_bin_minus (scheme_make_integer 0) (rat_num r), rat_denom = rat_denom r\<rparr>"

definition scheme_rational_add :: "gmp_ops \<Rightarrow> rational \<Rightarrow> rational \<Rightarrow> num_error + exact_num" where
  "scheme_rational_add g ra rb =
     (let (ra, rb) = (if rat_denom ra = Int_Obj 1 then (rb, ra) else (ra, rb));
          no_normalize = (rat_denom rb = Int_Obj 1);
          (ac, cd) = (if no_normalize then (rat_num ra, rat_denom ra)
                      else (scheme_bin_mult (mul_op g) (rat_num ra) (rat_denom rb),
                            scheme_bin_mult (mul_op g) (rat_denom ra) (rat_denom rb)));
          bd = scheme_bin_mult (mul_op g) (rat_denom ra) (rat_num rb);
          sum = scheme_bin_plus ac bd
      in if no_normalize then make_rational g sum cd False else scheme_make_rational g sum cd)"

definition scheme_rational_subtract :: "gmp_ops \<Rightarrow> rational \<Rightarrow> rational \<Rightarrow> num_error + exact_num" where
  "scheme_rational_subtract g a b = scheme_rational_add g a (scheme_rational_negate b)"

definition scheme_rational_add1 :: "gmp_ops \<Rightarrow> rational \<Rightarrow> num_error + exact_num" where
  "scheme_rational_add1 g n = scheme_rational_add g (scheme_make_small_rational 1) n"

definition scheme_rational_sub1 :: "gmp_ops \<Rightarrow> rational \<Rightarrow> num_error + exact_num" where
  "scheme_rational_sub1 g n = scheme_rational_add g n (scheme_make_small_rational (-1))"

definition scheme_rational_multiply :: "gmp_ops \<Rightarrow> rational \<Rightarrow> rational \<Rightarrow> num_error + exact_num" where
  "scheme_rational_multiply g ra rb =
     (let gcd_ps = scheme_bin_gcd (gcd_op g) (rat_num ra) (rat_denom rb);
          gcd_rq = scheme_bin_gcd (gcd_op g) (rat_num rb) (rat_denom ra)
      in or_error (bin_quotient (tdiv_op g) (rat_num ra) gcd_ps) (\<lambda>p.
         or_error (bin_quotient (tdiv_op g) (rat_num rb) gcd_rq) (\<lambda>r.
         or_error (bin_quotient (tdiv_op g) (rat_denom ra) gcd_rq) (\<lambda>q.
         or_error (bin_quotient (tdiv_op g) (rat_denom rb) gcd_ps) (\<lambda>s.
           scheme_make_rational g (scheme_bin_mult (mul_op g) p r) (scheme_bin_mult (mul_op g) q s))))))"

text \<open>The inverse, or the negated inverse, of a fraction.\<close>

definition rational_inverse :: "bool \<Rightarrow> rational \<Rightarrow> exact_num" where
  "rational_inverse negate rd =
     (if rat_num rd = Int_Obj 1
      then Whole (if negate then negate_simple (rat_denom rd) else rat_denom rd)
      else if rat_num rd = Int_Obj (-1)
      then Whole (if negate then rat_denom rd else negate_simple (rat_denom rd))
      else if (case rat_num rd of Int_Obj i \<Rightarrow> i < 0 | Big_Obj b \<Rightarrow> \<not> big_pos b)
      then Ratio \<lparr>rat_num = (if negate then rat_denom rd else negate_simple (rat_denom rd)),
                  rat_denom = negate_simple (rat_num rd)\<rparr>
      else Ratio \<lparr>rat_num = (if negate then negate_simple (rat_denom rd) else rat_denom rd),
                  rat_denom = rat_num rd\<rparr>)"

definition scheme_rational_divide :: "gmp_ops \<Rightarrow> rational \<Rightarrow> rational \<Rightarrow> num_error + exact_num" where
  "scheme_rational_divide g rn rd =
     (if (rat_num rn = Int_Obj 1 \<or> rat_num rn = Int_Obj (-1)) \<and> rat_denom rn = Int_Obj 1
      then Inr (rational_inverse (rat_num rn = Int_Obj (-1)) rd)
      else scheme_rational_multiply g rn \<lparr>rat_num = rat_denom rd, rat_denom = rat_num rd\<rparr>)"

subsection \<open>Rounding\<close>

definition scheme_rational_truncate :: "gmp_ops \<Rightarrow> rational \<Rightarrow> num_error + exact_int" where
  "scheme_rational_truncate g r = bin_quotient (tdiv_op g) (rat_num r) (rat_denom r)"

definition scheme_rational_floor :: "gmp_ops \<Rightarrow> rational \<Rightarrow> num_error + exact_int" where
  "scheme_rational_floor g r =
     (if scheme_is_rational_positive r then scheme_rational_truncate g r
      else or_error (scheme_rational_truncate g r) (\<lambda>r. Inr (scheme_sub1 r)))"

definition scheme_rational_ceiling :: "gmp_ops \<Rightarrow> rational \<Rightarrow> num_error + exact_int" where
  "scheme_rational_ceiling g r =
     (if \<not> scheme_is_rational_positive r then scheme_rational_truncate g r
      else or_error (scheme_rational_truncate g r) (\<lambda>r. Inr (scheme_add1 r)))"

text \<open>Whether the rest \<open>delta\<close> makes the quotient \<open>q\<close> one larger; \<open>half\<close> is half the denominator.\<close>

definition round_more :: "exact_int \<Rightarrow> exact_int \<Rightarrow> bool \<Rightarrow> exact_int \<Rightarrow> bool" where
  "round_more delta half can_eq_half q =
     (case (delta, half) of
        (Int_Obj d, Int_Obj h) \<Rightarrow> if can_eq_half \<and> d = h then scheme_odd_p q else d > h
      | (Big_Obj d, Big_Obj h) \<Rightarrow> if can_eq_half \<and> bignum_eq d h then scheme_odd_p q else \<not> scheme_bignum_lt d h
      | (Big_Obj d, _) \<Rightarrow> True
      | _ \<Rightarrow> False)"

definition scheme_rational_round :: "gmp_ops \<Rightarrow> rational \<Rightarrow> num_error + exact_int" where
  "scheme_rational_round g r =
     (let negative = (\<not> scheme_is_rational_positive r)
      in or_error (bin_quotient (tdiv_op g) (rat_num r) (rat_denom r)) (\<lambda>q.
           (let qd = scheme_bin_mult (mul_op g) q (rat_denom r);
                delta = (if negative then scheme_bin_minus qd (rat_num r)
                         else scheme_bin_minus (rat_num r) qd)
            in or_error (bin_quotient (tdiv_op g) (rat_denom r) (scheme_make_integer 2)) (\<lambda>half.
                 Inr (if round_more delta half (\<not> scheme_odd_p (rat_denom r)) q
                      then (if negative then scheme_sub1 q else scheme_add1 q) else q)))))"

subsection \<open>Generic operations on exact numbers\<close>

text \<open>The fraction that \<^verbatim>\<open>nummacs.h\<close> makes of an operand next to a fraction.\<close>

fun as_rational :: "exact_num \<Rightarrow> rational" where
  "as_rational (Whole (Int_Obj i)) = scheme_make_small_rational i"
| "as_rational (Whole (Big_Obj b)) = scheme_integer_to_rational (Big_Obj b)"
| "as_rational (Ratio r) = r"

fun num_plus :: "gmp_ops \<Rightarrow> exact_num \<Rightarrow> exact_num \<Rightarrow> num_error + exact_num" where
  "num_plus g (Whole a) (Whole b) = Inr (Whole (scheme_bin_plus a b))"
| "num_plus g n1 n2 =
     (if n2 = Whole (Int_Obj 0) then Inr n1 else if n1 = Whole (Int_Obj 0) then Inr n2
      else scheme_rational_add g (as_rational n1) (as_rational n2))"

fun num_minus :: "gmp_ops \<Rightarrow> exact_num \<Rightarrow> exact_num \<Rightarrow> num_error + exact_num" where
  "num_minus g (Whole a) (Whole b) = Inr (Whole (scheme_bin_minus a b))"
| "num_minus g n1 n2 =
     (if n2 = Whole (Int_Obj 0) then Inr n1
      else scheme_rational_subtract g (as_rational n1) (as_rational n2))"

fun num_mult :: "gmp_ops \<Rightarrow> exact_num \<Rightarrow> exact_num \<Rightarrow> num_error + exact_num" where
  "num_mult g (Whole a) (Whole b) = Inr (Whole (scheme_bin_mult (mul_op g) a b))"
| "num_mult g n1 n2 =
     (if n2 = Whole (Int_Obj 0) \<or> n1 = Whole (Int_Obj 0) then Inr (Whole (Int_Obj 0))
      else if n1 = Whole (Int_Obj 1) then Inr n2 else if n2 = Whole (Int_Obj 1) then Inr n1
      else scheme_rational_multiply g (as_rational n1) (as_rational n2))"

text \<open>\<^verbatim>\<open>/\<close> tests its second argument for exact zero, then calls \<^verbatim>\<open>scheme_bin_div\<close>.\<close>

fun num_div :: "gmp_ops \<Rightarrow> exact_num \<Rightarrow> exact_num \<Rightarrow> num_error + exact_num" where
  "num_div g n1 n2 =
     (if n2 = Whole (Int_Obj 0) then Inl Divide_By_Zero
      else if n1 = Whole (Int_Obj 0) then Inr (Whole (Int_Obj 0))
      else (case (n1, n2) of
              (Whole (Int_Obj a), Whole (Int_Obj b)) \<Rightarrow> scheme_make_fixnum_rational g a b
            | (Whole (Int_Obj a), Whole (Big_Obj b)) \<Rightarrow>
                scheme_make_rational g (Big_Obj (scheme_make_small_bignum a)) (Big_Obj b)
            | (Whole (Big_Obj a), Whole (Int_Obj b)) \<Rightarrow>
                if b = 1 then Inr n1
                else scheme_make_rational g (Big_Obj a) (Big_Obj (scheme_make_small_bignum b))
            | (Whole (Big_Obj a), Whole (Big_Obj b)) \<Rightarrow> scheme_make_rational g (Big_Obj a) (Big_Obj b)
            | _ \<Rightarrow> if n2 = Whole (Int_Obj 1) then Inr n1
                   else scheme_rational_divide g (as_rational n1) (as_rational n2)))"

text \<open>\<^verbatim>\<open>scheme_rational_eq\<close> on the numbers of two fractions.\<close>

definition same_int :: "exact_int \<Rightarrow> exact_int \<Rightarrow> bool" where
  "same_int a b =
     (case (a, b) of
        (Int_Obj i, Int_Obj j) \<Rightarrow> i = j
      | (Big_Obj i, Big_Obj j) \<Rightarrow> bignum_eq i j
      | _ \<Rightarrow> False)"

fun num_eq :: "exact_num \<Rightarrow> exact_num \<Rightarrow> bool" where
  "num_eq (Whole (Int_Obj i)) (Whole (Int_Obj j)) = (i = j)"
| "num_eq (Whole (Int_Obj i)) (Whole (Big_Obj b)) = bignum_eq (scheme_make_small_bignum i) b"
| "num_eq (Whole (Big_Obj a)) (Whole (Int_Obj j)) = bignum_eq a (scheme_make_small_bignum j)"
| "num_eq (Whole (Big_Obj a)) (Whole (Big_Obj b)) = bignum_eq a b"
| "num_eq n1 n2 =
     (let ra = as_rational n1; rb = as_rational n2
      in same_int (rat_num ra) (rat_num rb) \<and> same_int (rat_denom ra) (rat_denom rb))"

fun num_lt :: "gmp_ops \<Rightarrow> exact_num \<Rightarrow> exact_num \<Rightarrow> bool" where
  "num_lt g (Whole a) (Whole b) = scheme_bin_lt a b"
| "num_lt g n1 n2 = scheme_rational_lt g (as_rational n1) (as_rational n2)"

fun num_floor :: "gmp_ops \<Rightarrow> exact_num \<Rightarrow> num_error + exact_int" where
  "num_floor g (Whole a) = Inr a"
| "num_floor g (Ratio r) = scheme_rational_floor g r"

fun num_ceiling :: "gmp_ops \<Rightarrow> exact_num \<Rightarrow> num_error + exact_int" where
  "num_ceiling g (Whole a) = Inr a"
| "num_ceiling g (Ratio r) = scheme_rational_ceiling g r"

fun num_round :: "gmp_ops \<Rightarrow> exact_num \<Rightarrow> num_error + exact_int" where
  "num_round g (Whole a) = Inr a"
| "num_round g (Ratio r) = scheme_rational_round g r"

end
