(* ===== verification/Limbs_Correct.thy ===== *)
theory Limbs_Correct
  imports Limbs
begin

unbundle bit_operations_syntax

section \<open>Limb vectors: values\<close>

text \<open>Each routine computes the number it should, with the returned limb as the carry, borrow or
  the bits shifted out.\<close>

lemma uint_bounds: "0 \<le> uint (x :: limb)" "uint (x :: limb) < 2 ^ 64"
  using uint_lt2p[of x] by simp_all

lemma limbs_val_nonneg [simp]: "0 \<le> limbs_val ds"
  by (induction ds) (simp_all add: uint_bounds)

lemma limbs_val_append: "limbs_val (xs @ ys) = limbs_val xs + 2 ^ (64 * length xs) * limbs_val ys"
  by (induction xs) (simp_all add: algebra_simps power_add)

lemma limbs_val_less: "limbs_val ds < 2 ^ (64 * length ds)"
proof (induction ds)
  case (Cons d ds)
  have "uint d + 2 ^ 64 * limbs_val ds < 2 ^ 64 * (limbs_val ds + 1)"
    using uint_bounds(2)[of d] by (simp add: algebra_simps)
  also have "\<dots> \<le> 2 ^ 64 * 2 ^ (64 * length ds)" using Cons by (intro mult_left_mono) simp_all
  finally show ?case by (simp add: power_add)
qed simp

lemma limbs_val_replicate [simp]: "limbs_val (replicate n 0) = 0"
  by (induction n) simp_all

subsection \<open>Single limbs\<close>

lemma add_carry: "uint (u + v) + 2 ^ 64 * (if u + v < u then 1 else 0) = uint u + uint v" for u v :: limb
  using uint_bounds[of u] uint_bounds[of v] by (auto simp: uint_plus_if' word_less_def)

lemma sub_borrow: "uint (u - v) - 2 ^ 64 * (if u - v > u then 1 else 0) = uint u - uint v" for u v :: limb
  using uint_bounds[of u] uint_bounds[of v] by (auto simp: uint_sub_if' word_less_def)

lemma umul_value:
  assumes "umul_ppmm u v = (hi, lo)"
  shows "uint lo + 2 ^ 64 * uint hi = uint u * uint v" and "uint hi \<le> 2 ^ 64 - 2"
proof -
  let ?p = "uint u * uint v"
  have "?p \<le> (2 ^ 64 - 1) * (2 ^ 64 - 1)"
    using uint_bounds[of u] uint_bounds[of v] by (intro mult_mono) simp_all
  then have d: "?p div 2 ^ 64 \<le> 2 ^ 64 - 2" "0 \<le> ?p div 2 ^ 64" by (simp_all add: pos_imp_zdiv_nonneg_iff uint_bounds)
  then have hi: "uint hi = ?p div 2 ^ 64" using assms by (auto simp: umul_ppmm_def uint_word_of_int)
  moreover have "uint lo = ?p mod 2 ^ 64" using assms by (auto simp: umul_ppmm_def uint_mult_lem uint_word_ariths)
  ultimately show "uint lo + 2 ^ 64 * uint hi = ?p" by simp
  show "uint hi \<le> 2 ^ 64 - 2" using hi d by simp
qed

subsection \<open>Addition and subtraction\<close>

text \<open>One limb of each, with the carry in the second operand.\<close>

lemma add_step:
  fixes x s cy :: limb
  assumes "cy \<le> 1" "y = s + cy" "c1 = (if y < cy then 1 else 0)" "z = x + y" "c2 = (if z < x then 1 else 0) + c1"
  shows "uint z + 2 ^ 64 * uint c2 = uint x + uint s + uint cy" "c2 \<le> 1"
proof -
  have c: "cy = 0 \<or> cy = 1" using assms(1) by (metis linorder_not_le order.antisym word_less_1)
  have 1: "uint y + 2 ^ 64 * (if y < cy then 1 else 0) = uint cy + uint s"
    using add_carry[of cy s] assms(2) by (simp add: add.commute)
  have 2: "uint z + 2 ^ 64 * (if z < x then 1 else 0) = uint x + uint y"
    using add_carry[of x y] assms(4) by simp
  have ov: "y < cy \<Longrightarrow> y = 0" using c by (auto simp: word_less_1)
  then have "\<not> (y < cy \<and> z < x)" using assms(4) by auto
  then have c2: "uint c2 = (if z < x then 1 else 0) + (if y < cy then 1 else 0)" "c2 \<le> 1"
    using assms(3,5) by auto
  then show "uint z + 2 ^ 64 * uint c2 = uint x + uint s + uint cy" using 1 2 by (simp split: if_splits)
  show "c2 \<le> 1" by (rule c2(2))
qed

lemma add_n_value:
  "length xs = length ys \<Longrightarrow> cy \<le> 1 \<Longrightarrow> add_n_loop xs ys cy = (res, c) \<Longrightarrow>
    limbs_val res + 2 ^ (64 * length xs) * uint c = limbs_val xs + limbs_val ys + uint cy \<and>
    length res = length xs \<and> c \<le> 1"
proof (induction xs ys cy arbitrary: res c rule: add_n_loop.induct)
  case (1 x xs s ys cy)
  define y where "y = s + cy"
  define c1 :: limb where "c1 = (if y < cy then 1 else 0)"
  define z where "z = x + y"
  define c2 :: limb where "c2 = (if z < x then 1 else 0) + c1"
  obtain res' c' where r: "add_n_loop xs ys c2 = (res', c')" by (cases "add_n_loop xs ys c2")
  note st = add_step[OF 1(3) y_def c1_def z_def c2_def]
  from 1(4) r have e: "res = z # res'" "c = c'" by (simp_all add: y_def c1_def z_def c2_def Let_def)
  have "limbs_val res' + 2 ^ (64 * length xs) * uint c' = limbs_val xs + limbs_val ys + uint c2 \<and>
      length res' = length xs \<and> c' \<le> 1"
    using 1(1)[OF y_def c1_def z_def c2_def _ st(2) r] 1(2) by simp
  with st(1) show ?case by (simp add: e algebra_simps power_add)
qed auto

lemma sub_step:
  fixes x s cy :: limb
  assumes "cy \<le> 1" "y = s + cy" "c1 = (if y < cy then 1 else 0)" "z = x - y" "c2 = (if z > x then 1 else 0) + c1"
  shows "uint z - 2 ^ 64 * uint c2 = uint x - uint s - uint cy" "c2 \<le> 1"
proof -
  have c: "cy = 0 \<or> cy = 1" using assms(1) by (metis linorder_not_le order.antisym word_less_1)
  have 1: "uint y + 2 ^ 64 * (if y < cy then 1 else 0) = uint cy + uint s"
    using add_carry[of cy s] assms(2) by (simp add: add.commute)
  have 2: "uint z - 2 ^ 64 * (if z > x then 1 else 0) = uint x - uint y"
    using sub_borrow[of x y] assms(4) by simp
  have ov: "y < cy \<Longrightarrow> y = 0" using c by (auto simp: word_less_1)
  then have "\<not> (y < cy \<and> z > x)" using assms(4) by auto
  then have c2: "uint c2 = (if z > x then 1 else 0) + (if y < cy then 1 else 0)" "c2 \<le> 1"
    using assms(3,5) by auto
  then show "uint z - 2 ^ 64 * uint c2 = uint x - uint s - uint cy" using 1 2 by (simp split: if_splits)
  show "c2 \<le> 1" by (rule c2(2))
qed

lemma sub_n_value:
  "length xs = length ys \<Longrightarrow> cy \<le> 1 \<Longrightarrow> sub_n_loop xs ys cy = (res, c) \<Longrightarrow>
    limbs_val res - 2 ^ (64 * length xs) * uint c = limbs_val xs - limbs_val ys - uint cy \<and>
    length res = length xs \<and> c \<le> 1"
proof (induction xs ys cy arbitrary: res c rule: sub_n_loop.induct)
  case (1 x xs s ys cy)
  define y where "y = s + cy"
  define c1 :: limb where "c1 = (if y < cy then 1 else 0)"
  define z where "z = x - y"
  define c2 :: limb where "c2 = (if z > x then 1 else 0) + c1"
  obtain res' c' where r: "sub_n_loop xs ys c2 = (res', c')" by (cases "sub_n_loop xs ys c2")
  note st = sub_step[OF 1(3) y_def c1_def z_def c2_def]
  from 1(4) r have e: "res = z # res'" "c = c'" by (simp_all add: y_def c1_def z_def c2_def Let_def)
  have "limbs_val res' - 2 ^ (64 * length xs) * uint c' = limbs_val xs - limbs_val ys - uint c2 \<and>
      length res' = length xs \<and> c' \<le> 1"
    using 1(1)[OF y_def c1_def z_def c2_def _ st(2) r] 1(2) by simp
  with st(1) show ?case by (simp add: e algebra_simps power_add)
qed auto

lemma carry_value:
  "carry_loop xs = (res, c) \<Longrightarrow>
    limbs_val res + 2 ^ (64 * length xs) * uint c = limbs_val xs + 1 \<and> length res = length xs \<and> c \<le> 1"
proof (induction xs arbitrary: res c)
  case (Cons x xs)
  have w: "uint (x + 1) + 2 ^ 64 * (if x + 1 = 0 then 1 else 0) = uint x + 1"
    using uint_bounds(2)[of x]
    by (auto simp: word_uint_eq_iff uint_plus_if') (use uint_bounds(1)[of x] in linarith)+
  show ?case
  proof (cases "x + 1 = 0")
    case True
    obtain r' c' where r: "carry_loop xs = (r', c')" by (cases "carry_loop xs")
    from Cons(1)[OF r] Cons(2) True r w show ?thesis by (auto simp: algebra_simps power_add)
  next
    case False
    with Cons(2) w show ?thesis by auto
  qed
qed auto

lemma borrow_value:
  "borrow_loop xs = (res, c) \<Longrightarrow>
    limbs_val res - 2 ^ (64 * length xs) * uint c = limbs_val xs - 1 \<and> length res = length xs \<and> c \<le> 1"
proof (induction xs arbitrary: res c)
  case (Cons x xs)
  have w: "uint (x - 1) - 2 ^ 64 * (if x = 0 then 1 else 0) = uint x - 1"
    using uint_bounds(2)[of x]
    by (auto simp: word_uint_eq_iff uint_sub_if') (use uint_bounds(1)[of x] in linarith)+
  show ?case
  proof (cases "x = 0")
    case True
    obtain r' c' where r: "borrow_loop xs = (r', c')" by (cases "borrow_loop xs")
    from Cons(1)[OF r] Cons(2) True r w show ?thesis by (auto simp: algebra_simps power_add)
  next
    case False
    with Cons(2) w show ?thesis by auto
  qed
qed auto

lemma add_1_value:
  assumes "mpn_add_1 xs v = (res, c)" "v \<le> 1 \<or> xs \<noteq> []"
  shows "limbs_val res + 2 ^ (64 * length xs) * uint c = limbs_val xs + uint v \<and> length res = length xs \<and> c \<le> 1"
proof (cases xs)
  case Nil
  with assms show ?thesis by (simp add: mpn_add_1_def)
next
  case (Cons x ys)
  obtain r' c' where r: "carry_loop ys = (r', c')" by (cases "carry_loop ys")
  show ?thesis using assms Cons r carry_value[OF r] add_carry[of x v]
    by (auto simp: mpn_add_1_def Let_def algebra_simps power_add split: if_splits)
qed

lemma sub_1_value:
  assumes "mpn_sub_1 xs v = (res, c)" "v \<le> 1 \<or> xs \<noteq> []"
  shows "limbs_val res - 2 ^ (64 * length xs) * uint c = limbs_val xs - uint v \<and> length res = length xs \<and> c \<le> 1"
proof (cases xs)
  case Nil
  with assms show ?thesis by (simp add: mpn_sub_1_def)
next
  case (Cons x ys)
  obtain r' c' where r: "borrow_loop ys = (r', c')" by (cases "borrow_loop ys")
  show ?thesis using assms Cons r borrow_value[OF r] sub_borrow[of x v]
    by (auto simp: mpn_sub_1_def Let_def algebra_simps power_add split: if_splits)
qed

lemma limbs_val_split: "n \<le> length xs \<Longrightarrow> limbs_val xs = limbs_val (take n xs) + 2 ^ (64 * n) * limbs_val (drop n xs)"
  using limbs_val_append[of "take n xs" "drop n xs"] by simp

lemma mpn_add_value:
  assumes "length ys \<le> length xs" "mpn_add xs ys = (res, c)"
  shows "limbs_val res + 2 ^ (64 * length xs) * uint c = limbs_val xs + limbs_val ys \<and> length res = length xs \<and> c \<le> 1"
proof -
  let ?n = "length ys"
  obtain lo cl where lo: "add_n_loop (take ?n xs) ys 0 = (lo, cl)" by (cases "add_n_loop (take ?n xs) ys 0")
  obtain hi ch where hi: "mpn_add_1 (drop ?n xs) cl = (hi, ch)" by (cases "mpn_add_1 (drop ?n xs) cl")
  have 1: "limbs_val lo + 2 ^ (64 * ?n) * uint cl = limbs_val (take ?n xs) + limbs_val ys" "length lo = ?n" "cl \<le> 1"
    using add_n_value[OF _ _ lo] assms(1) by simp_all
  have 2: "limbs_val hi + 2 ^ (64 * (length xs - ?n)) * uint ch = limbs_val (drop ?n xs) + uint cl"
    "length hi = length xs - ?n" "ch \<le> 1"
    using add_1_value[OF hi] 1(3) by simp_all
  have e: "res = lo @ hi" "c = ch"
    using assms(1,2) lo hi by (auto simp: mpn_add_def mpn_add_n_def Let_def mpn_add_1_def split: if_splits)
  have p: "(2 :: int) ^ (64 * length xs) = 2 ^ (64 * ?n) * 2 ^ (64 * (length xs - ?n))"
    using assms(1) by (simp only: power_add[symmetric]) (simp add: algebra_simps)
  have "limbs_val res + 2 ^ (64 * length xs) * uint c =
      limbs_val lo + 2 ^ (64 * ?n) * (limbs_val hi + 2 ^ (64 * (length xs - ?n)) * uint ch)"
    by (simp only: e limbs_val_append 1(2) p ring_distribs mult.assoc add.assoc diff_diff_eq add_diff_eq diff_add_eq)
  also have "\<dots> = limbs_val (take ?n xs) + 2 ^ (64 * ?n) * limbs_val (drop ?n xs) + limbs_val ys"
    using 1(1) by (simp only: 2(1)) (simp add: algebra_simps)
  finally show ?thesis using limbs_val_split[OF assms(1)] 1 2 assms(1) by (simp add: e)
qed

lemma mpn_sub_value:
  assumes "length ys \<le> length xs" "mpn_sub xs ys = (res, c)"
  shows "limbs_val res - 2 ^ (64 * length xs) * uint c = limbs_val xs - limbs_val ys \<and> length res = length xs \<and> c \<le> 1"
proof -
  let ?n = "length ys"
  obtain lo cl where lo: "sub_n_loop (take ?n xs) ys 0 = (lo, cl)" by (cases "sub_n_loop (take ?n xs) ys 0")
  obtain hi ch where hi: "mpn_sub_1 (drop ?n xs) cl = (hi, ch)" by (cases "mpn_sub_1 (drop ?n xs) cl")
  have 1: "limbs_val lo - 2 ^ (64 * ?n) * uint cl = limbs_val (take ?n xs) - limbs_val ys" "length lo = ?n" "cl \<le> 1"
    using sub_n_value[OF _ _ lo] assms(1) by simp_all
  have 2: "limbs_val hi - 2 ^ (64 * (length xs - ?n)) * uint ch = limbs_val (drop ?n xs) - uint cl"
    "length hi = length xs - ?n" "ch \<le> 1"
    using sub_1_value[OF hi] 1(3) by simp_all
  have e: "res = lo @ hi" "c = ch"
    using assms(1,2) lo hi by (auto simp: mpn_sub_def mpn_sub_n_def Let_def mpn_sub_1_def split: if_splits)
  have p: "(2 :: int) ^ (64 * length xs) = 2 ^ (64 * ?n) * 2 ^ (64 * (length xs - ?n))"
    using assms(1) by (simp only: power_add[symmetric]) (simp add: algebra_simps)
  have "limbs_val res - 2 ^ (64 * length xs) * uint c =
      limbs_val lo + 2 ^ (64 * ?n) * (limbs_val hi - 2 ^ (64 * (length xs - ?n)) * uint ch)"
    by (simp only: e limbs_val_append 1(2) p ring_distribs mult.assoc add.assoc diff_diff_eq add_diff_eq diff_add_eq)
  also have "\<dots> = limbs_val (take ?n xs) + 2 ^ (64 * ?n) * limbs_val (drop ?n xs) - limbs_val ys"
    using 1(1) by (simp only: 2(1)) (simp add: algebra_simps)
  finally show ?thesis using limbs_val_split[OF assms(1)] 1 2 assms(1) by (simp add: e)
qed

text \<open>A subtraction of a smaller number does not borrow.\<close>

lemma mpn_sub_no_borrow:
  assumes "length ys \<le> length xs" "limbs_val ys \<le> limbs_val xs" "mpn_sub xs ys = (res, c)"
  shows "limbs_val res = limbs_val xs - limbs_val ys" "length res = length xs"
proof -
  note v = mpn_sub_value[OF assms(1,3)]
  have "c = 0"
  proof (rule ccontr)
    assume "c \<noteq> 0"
    with v have "c = 1" by (metis linorder_not_le order.antisym word_less_1)
    with v assms(2) have "2 ^ (64 * length xs) \<le> limbs_val res" by simp
    with limbs_val_less[of res] v show False by simp
  qed
  with v show "limbs_val res = limbs_val xs - limbs_val ys" "length res = length xs" by simp_all
qed

subsection \<open>Comparison\<close>

lemma limbs_val_take_Suc:
  "i < length xs \<Longrightarrow> limbs_val (take (Suc i) xs) = limbs_val (take i xs) + 2 ^ (64 * i) * uint (xs ! i)"
  by (simp add: take_Suc_conv_app_nth limbs_val_append)

lemma mpn_cmp_take:
  "n \<le> length xs \<Longrightarrow> n \<le> length ys \<Longrightarrow>
    mpn_cmp xs ys n = sgn (limbs_val (take n xs) - limbs_val (take n ys))"
proof (induction n)
  case (Suc i)
  let ?p = "(2 :: int) ^ (64 * i)" and ?a = "limbs_val (take i xs)" and ?b = "limbs_val (take i ys)"
  have lt: "?a < ?p" "?b < ?p"
    using limbs_val_less[of "take i xs"] limbs_val_less[of "take i ys"] Suc(2,3) by simp_all
  have v: "limbs_val (take (Suc i) xs) = ?a + ?p * uint (xs ! i)"
    "limbs_val (take (Suc i) ys) = ?b + ?p * uint (ys ! i)"
    using Suc(2,3) by (simp_all add: limbs_val_take_Suc)
  have gt: "u + ?p * m < w + ?p * n" if "u < ?p" "0 \<le> w" "m < n" for u w m n :: int
  proof -
    have "?p * (m + 1) \<le> ?p * n" using that(3) by (intro mult_left_mono) simp_all
    then have "?p * m + ?p \<le> ?p * n" by (simp only: ring_distribs mult_1_right)
    with that show ?thesis by linarith
  qed
  show ?case
  proof (cases "xs ! i = ys ! i")
    case True
    with Suc v show ?thesis by simp
  next
    case False
    then consider "uint (xs ! i) < uint (ys ! i)" | "uint (ys ! i) < uint (xs ! i)"
      by (metis linorder_neq_iff word_uint_eq_iff)
    then show ?thesis
    proof cases
      case 1
      with gt[OF lt(1) _ 1, of ?b] v False show ?thesis by (simp add: word_less_def)
    next
      case 2
      with gt[OF lt(2) _ 2, of ?a] v False show ?thesis by (simp add: word_less_def)
    qed
  qed
qed simp

lemma mpn_cmp_value: "length ys = length xs \<Longrightarrow> mpn_cmp xs ys (length xs) = sgn (limbs_val xs - limbs_val ys)"
  using mpn_cmp_take[of "length xs" xs ys] by simp

subsection \<open>Shifts\<close>

lemma uint_push: "k \<le> 64 \<Longrightarrow> uint (push_bit k h) = uint h mod 2 ^ (64 - k) * 2 ^ k" for h :: limb
  by (simp only: unsigned_push_bit_eq take_bit_push_bit) (simp add: push_bit_eq_mult take_bit_eq_mod)

lemma uint_drop: "uint (drop_bit k h) = uint h div 2 ^ k" for h :: limb
  using uint_bounds[of h] by (subst unsigned_drop_bit_eq) (simp add: drop_bit_eq_div take_bit_int_eq_self)

lemma uint_join:
  fixes l h :: limb
  assumes "k \<le> 64"
  shows "uint (drop_bit k l OR push_bit (64 - k) h) = uint l div 2 ^ k + uint h mod 2 ^ k * 2 ^ (64 - k)"
proof -
  have "drop_bit k l AND push_bit (64 - k) h = 0"
    by (rule bit_word_eqI) (use assms in \<open>auto simp: bit_simps dest: bit_imp_le_length\<close>)
  then have "uint (drop_bit k l) AND uint (push_bit (64 - k) h) = 0"
    by (simp add: unsigned_and_eq[symmetric])
  then have "uint (drop_bit k l) OR uint (push_bit (64 - k) h) = uint (drop_bit k l) + uint (push_bit (64 - k) h)"
    by (simp add: disjunctive_add_eq_or)
  with assms show ?thesis by (simp add: unsigned_or_eq uint_drop uint_push)
qed

lemma rshift_loop_value:
  assumes "0 < k" "k < 64"
  shows "limbs_val (rshift_loop k l up) = limbs_val (l # up) div 2 ^ k \<and> length (rshift_loop k l up) = Suc (length up)"
proof (induction up arbitrary: l)
  case Nil
  then show ?case by (simp add: uint_drop)
next
  case (Cons h up)
  let ?K = "(2 :: int) ^ k" and ?J = "(2 :: int) ^ (64 - k)" and ?V = "limbs_val (h # up)"
  have KJ: "?K * ?J = 2 ^ 64" using assms by (simp only: power_add[symmetric]) simp
  have m: "?V mod ?K = uint h mod ?K"
    by (simp only: limbs_val.simps KJ[symmetric] mult.assoc mod_mult_self2)
  have "limbs_val (l # h # up) div ?K = (uint l + ?K * (?J * ?V)) div ?K"
    by (simp only: limbs_val.simps(2)[of l] KJ[symmetric] mult.assoc)
  also have "\<dots> = uint l div ?K + ?J * ?V" by simp
  also have "?V = ?K * (?V div ?K) + uint h mod ?K" by (simp only: m[symmetric] mult_div_mod_eq)
  also have "?J * (?K * (?V div ?K) + uint h mod ?K) = 2 ^ 64 * (?V div ?K) + uint h mod ?K * ?J"
    by (simp only: KJ[symmetric] ring_distribs mult.commute mult.left_commute)
  finally show ?case using Cons[of h] uint_join[of k l h] assms by simp
qed

lemma mpn_rshift_value:
  assumes "up \<noteq> []" "0 < k" "k < 64" "mpn_rshift up k = (res, out)"
  shows "limbs_val res = limbs_val up div 2 ^ k" "length res = length up"
    "out = 0 \<longleftrightarrow> limbs_val up mod 2 ^ k = 0"
proof -
  obtain h t where up: "up = h # t" using assms(1) by (cases up) auto
  show "limbs_val res = limbs_val up div 2 ^ k" "length res = length up"
    using rshift_loop_value[OF assms(2,3), of h t] assms(4) by (auto simp: mpn_rshift_def up)
  have "out = 0 \<longleftrightarrow> uint out = 0" by (simp add: word_uint_eq_iff)
  also have "\<dots> \<longleftrightarrow> uint h mod 2 ^ k = 0" using assms by (auto simp: mpn_rshift_def up uint_push)
  also have "(2 :: int) ^ 64 = 2 ^ k * 2 ^ (64 - k)" using assms by (simp only: power_add[symmetric]) simp
  then have "uint h mod 2 ^ k = limbs_val up mod 2 ^ k" by (simp only: up limbs_val.simps mult.assoc mod_mult_self2)
  finally show "out = 0 \<longleftrightarrow> limbs_val up mod 2 ^ k = 0" .
qed

lemma split_high:
  assumes "k < 64"
  shows "2 ^ 64 * (u div 2 ^ (64 - k)) + u mod 2 ^ (64 - k) * 2 ^ k = 2 ^ k * (u :: int)"
proof -
  let ?J = "(2 :: int) ^ (64 - k)"
  have e: "(2 :: int) ^ 64 = 2 ^ k * ?J" using assms by (simp only: power_add[symmetric]) simp
  have "2 ^ k * u = 2 ^ k * (?J * (u div ?J) + u mod ?J)" by (simp only: mult_div_mod_eq)
  also have "\<dots> = 2 ^ 64 * (u div ?J) + u mod ?J * 2 ^ k" by (simp only: e ring_distribs mult.assoc mult.commute mult.left_commute)
  finally show ?thesis by simp
qed

lemma lshift_loop_value:
  assumes "0 < k" "k < 64"
  shows "limbs_val (rev (lshift_loop k h up)) + 2 ^ (64 * Suc (length up)) * (uint h div 2 ^ (64 - k)) =
    2 ^ k * limbs_val (rev (h # up)) \<and> length (lshift_loop k h up) = Suc (length up)"
proof (induction up arbitrary: h)
  case Nil
  from assms split_high[OF assms(2), of "uint h"] show ?case by (simp add: uint_push)
next
  case (Cons l up)
  let ?N = "(2 :: int) ^ (64 * Suc (length up))" and ?J = "(2 :: int) ^ (64 - k)"
  note h = split_high[OF assms(2), of "uint h"]
  have j: "uint (push_bit k h OR drop_bit (64 - k) l) = uint h mod ?J * 2 ^ k + uint l div ?J"
    using uint_join[of "64 - k" l h] assms by (simp add: or.commute)
  have len: "length (lshift_loop k l up) = Suc (length up)" using Cons by blast
  have "limbs_val (rev (lshift_loop k h (l # up))) + 2 ^ (64 * Suc (length (l # up))) * (uint h div ?J) =
      limbs_val (rev (lshift_loop k l up)) + ?N * (uint l div ?J) +
      ?N * (2 ^ 64 * (uint h div ?J) + uint h mod ?J * 2 ^ k)"
    using len by (simp add: limbs_val_append j algebra_simps power_add)
  also have "\<dots> = 2 ^ k * limbs_val (rev (l # up)) + ?N * (2 ^ k * uint h)"
    using Cons[of l] h by simp
  also have "\<dots> = 2 ^ k * limbs_val (rev (h # l # up))" by (simp add: limbs_val_append algebra_simps power_add)
  finally show ?case using len by simp
qed

lemma mpn_lshift_value:
  assumes "up \<noteq> []" "0 < k" "k < 64" "mpn_lshift up k = (res, out)"
  shows "limbs_val res + 2 ^ (64 * length up) * uint out = 2 ^ k * limbs_val up" "length res = length up"
proof -
  obtain h t where r: "rev up = h # t" using assms(1) by (cases "rev up") auto
  then have up: "up = rev (h # t)" by (metis rev_rev_ident)
  show "limbs_val res + 2 ^ (64 * length up) * uint out = 2 ^ k * limbs_val up" "length res = length up"
    using lshift_loop_value[OF assms(2,3), of h t] assms(4) by (auto simp: mpn_lshift_def up uint_drop)
qed

subsection \<open>Multiplication\<close>

lemma mul_step:
  fixes u v cl :: limb
  assumes "umul_ppmm u v = (hi, lo)" "lo1 = lo + cl" "c1 = (if lo1 < cl then 1 else 0) + hi"
  shows "uint lo1 + 2 ^ 64 * uint c1 = uint u * uint v + uint cl"
proof -
  have "uint lo1 + 2 ^ 64 * (if lo1 < cl then 1 else 0) = uint cl + uint lo"
    using add_carry[of cl lo] assms(2) by (simp add: add.commute)
  moreover have "uint c1 = (if lo1 < cl then 1 else 0) + uint hi"
    using umul_value(2)[OF assms(1)] assms(3) by (simp add: uint_plus_if')
  ultimately show ?thesis using umul_value(1)[OF assms(1)] by (simp split: if_splits)
qed

lemma mul_1_value:
  "mul_1_loop up v cl = (res, c) \<Longrightarrow>
    limbs_val res + 2 ^ (64 * length up) * uint c = limbs_val up * uint v + uint cl \<and> length res = length up"
proof (induction up arbitrary: cl res c)
  case (Cons u up)
  obtain hi lo where m: "umul_ppmm u v = (hi, lo)" by (cases "umul_ppmm u v")
  define lo1 where "lo1 = lo + cl"
  define c1 :: limb where "c1 = (if lo1 < cl then 1 else 0) + hi"
  obtain r' c' where r: "mul_1_loop up v c1 = (r', c')" by (cases "mul_1_loop up v c1")
  from Cons(2) m r have "res = lo1 # r'" "c = c'" by (simp_all add: lo1_def c1_def Let_def)
  with Cons(1)[OF r] mul_step[OF m lo1_def c1_def] show ?case by (simp add: algebra_simps power_add)
qed simp

lemma addmul_step:
  fixes u v cl r :: limb
  assumes "umul_ppmm u v = (hi, lo)" "lo1 = lo + cl" "c1 = (if lo1 < cl then 1 else 0) + hi"
    "lo2 = r + lo1" "c2 = c1 + (if lo2 < r then 1 else 0)"
  shows "uint lo2 + 2 ^ 64 * uint c2 = uint u * uint v + uint cl + uint r"
proof -
  note 1 = mul_step[OF assms(1-3)]
  have 2: "uint lo2 + 2 ^ 64 * (if lo2 < r then 1 else 0) = uint r + uint lo1"
    using add_carry[of r lo1] assms(4) by simp
  let ?T = "uint u * uint v + uint cl + uint r" and ?b = "if lo2 < r then 1 else 0 :: int"
  have "uint u * uint v \<le> (2 ^ 64 - 1) * (2 ^ 64 - 1)"
    using uint_bounds[of u] uint_bounds[of v] by (intro mult_mono) simp_all
  then have "?T < 2 ^ 64 * 2 ^ 64" using uint_bounds(2)[of cl] uint_bounds(2)[of r] by simp
  moreover have T: "?T = uint lo2 + 2 ^ 64 * (uint c1 + ?b)" using 1 2 by simp
  ultimately have "2 ^ 64 * (uint c1 + ?b) < 2 ^ 64 * 2 ^ 64" using uint_bounds(1)[of lo2] by linarith
  then have "uint c1 + ?b < 2 ^ 64" by simp
  then have "uint c2 = uint c1 + ?b" using assms(5) by (simp add: uint_plus_if' split: if_splits)
  with T show ?thesis by simp
qed

lemma addmul_1_value:
  "length rp = length up \<Longrightarrow> addmul_1_loop rp up v cl = (res, c) \<Longrightarrow>
    limbs_val res + 2 ^ (64 * length up) * uint c = limbs_val rp + limbs_val up * uint v + uint cl \<and>
    length res = length up"
proof (induction rp up v cl arbitrary: res c rule: addmul_1_loop.induct)
  case (1 r rp u up v cl)
  obtain hi lo where m: "umul_ppmm u v = (hi, lo)" by (cases "umul_ppmm u v")
  define lo1 where "lo1 = lo + cl"
  define c1 :: limb where "c1 = (if lo1 < cl then 1 else 0) + hi"
  define lo2 where "lo2 = r + lo1"
  define c2 :: limb where "c2 = c1 + (if lo2 < r then 1 else 0)"
  obtain r' c' where rr: "addmul_1_loop rp up v c2 = (r', c')" by (cases "addmul_1_loop rp up v c2")
  from 1(3) m rr have e: "res = lo2 # r'" "c = c'" by (simp_all add: lo1_def c1_def lo2_def c2_def Let_def)
  have "limbs_val r' + 2 ^ (64 * length up) * uint c' = limbs_val rp + limbs_val up * uint v + uint c2 \<and>
      length r' = length up"
    using 1(1)[OF m[symmetric] refl lo1_def c1_def lo2_def c2_def _ rr] 1(2) by simp
  with addmul_step[OF m lo1_def c1_def lo2_def c2_def] show ?case by (simp add: e algebra_simps power_add)
qed auto

lemma hd_tl_value: "row \<noteq> [] \<Longrightarrow> uint (hd row) + 2 ^ 64 * limbs_val (tl row) = limbs_val row"
  by (cases row) simp_all

lemma mul_rows_value:
  "length acc = length up \<Longrightarrow> up \<noteq> [] \<Longrightarrow>
    limbs_val (mul_rows up acc vp) = limbs_val acc + limbs_val up * limbs_val vp \<and>
    length (mul_rows up acc vp) = length up + length vp"
proof (induction vp arbitrary: acc)
  case (Cons v vp)
  obtain a c where a: "addmul_1_loop acc up v 0 = (a, c)" by (cases "addmul_1_loop acc up v 0")
  let ?row = "a @ [c]"
  note v = addmul_1_value[OF Cons(2) a]
  then have row: "limbs_val ?row = limbs_val acc + limbs_val up * uint v" by (simp add: limbs_val_append)
  have "length (tl ?row) = length up" using v by simp
  from Cons(1)[OF this Cons(3)] hd_tl_value[of ?row] row show ?case
    by (simp add: mpn_addmul_1_def a Let_def algebra_simps)
qed simp

lemma mpn_mul_basecase_value:
  assumes "up \<noteq> []" "vp \<noteq> []"
  shows "limbs_val (mpn_mul_basecase up vp) = limbs_val up * limbs_val vp"
    "length (mpn_mul_basecase up vp) = length up + length vp"
proof -
  obtain v vs where vp: "vp = v # vs" using assms(2) by (cases vp) auto
  obtain a c where a: "mul_1_loop up v 0 = (a, c)" by (cases "mul_1_loop up v 0")
  let ?row = "a @ [c]"
  note m = mul_1_value[OF a]
  then have row: "limbs_val ?row = limbs_val up * uint v" by (simp add: limbs_val_append)
  have l: "length (tl ?row) = length up" using m by simp
  from mul_rows_value[OF l assms(1), of vs] hd_tl_value[of ?row] row
  show "limbs_val (mpn_mul_basecase up vp) = limbs_val up * limbs_val vp"
    "length (mpn_mul_basecase up vp) = length up + length vp"
    by (simp_all add: mpn_mul_basecase_def mpn_mul_1_def vp a Let_def algebra_simps)
qed

end
