(* ===== verification/Bignum_Correct.thy ===== *)
theory Bignum_Correct
  imports Bignum Limbs_Correct
begin

unbundle bit_operations_syntax

section \<open>Arbitrary-precision integers: correctness\<close>

text \<open>
  Every operation on bignums without leading zero digits gives the number it should, as a
  normalised object: a fixnum when the number fits into one, otherwise a bignum without leading
  zero digits.
\<close>

definition digs_ok :: "limb list \<Rightarrow> bool" where
  "digs_ok ds \<longleftrightarrow> ds = [] \<or> last ds \<noteq> 0"

definition big_ok :: "bignum \<Rightarrow> bool" where
  "big_ok b \<longleftrightarrow> digs_ok (big_digs b)"

definition is_fixnum :: "int \<Rightarrow> bool" where
  "is_fixnum i \<longleftrightarrow> - (2 ^ 62) \<le> i \<and> i < 2 ^ 62"

fun int_ok :: "exact_int \<Rightarrow> bool" where
  "int_ok (Int_Obj i) \<longleftrightarrow> is_fixnum i"
| "int_ok (Big_Obj b) \<longleftrightarrow> big_ok b \<and> \<not> is_fixnum (big_val b)"

definition represents :: "exact_int \<Rightarrow> int \<Rightarrow> bool" where
  "represents ob v \<longleftrightarrow> int_ok ob \<and> int_val ob = v"

subsection \<open>Digits without leading zeros\<close>

lemma digs_ok_lower: "digs_ok ds \<Longrightarrow> ds \<noteq> [] \<Longrightarrow> 2 ^ (64 * (length ds - 1)) \<le> limbs_val ds"
proof -
  assume ok: "digs_ok ds" "ds \<noteq> []"
  obtain xs d where ds: "ds = xs @ [d]" using ok(2) by (metis append_butlast_last_id)
  have "d \<noteq> 0" using ok by (simp add: ds digs_ok_def)
  then have "uint d \<noteq> 0" by (simp add: uint_0_iff)
  with uint_bounds(1)[of d] have "1 \<le> uint d" by linarith
  then have "(2 :: int) ^ (64 * length xs) * 1 \<le> 2 ^ (64 * length xs) * uint d" by (intro mult_left_mono) simp_all
  moreover have "limbs_val ds = limbs_val xs + 2 ^ (64 * length xs) * uint d" by (simp add: ds limbs_val_append)
  moreover have "length ds - 1 = length xs" by (simp add: ds)
  ultimately show ?thesis using limbs_val_nonneg[of xs] by (simp only: mult_1_right)
qed

lemma digs_ok_zero: "digs_ok ds \<Longrightarrow> limbs_val ds = 0 \<longleftrightarrow> ds = []"
proof
  assume "digs_ok ds" "limbs_val ds = 0"
  then show "ds = []" using digs_ok_lower[of ds] zero_less_power[of "2 :: int" "64 * (length ds - 1)"] by (cases "ds = []") simp_all
qed simp

lemma digs_ok_shorter:
  assumes "digs_ok ys" "length xs < length ys"
  shows "limbs_val xs < limbs_val ys"
proof -
  have "ys \<noteq> []" using assms(2) by auto
  have "limbs_val xs < 2 ^ (64 * length xs)" by (rule limbs_val_less)
  also have "\<dots> \<le> 2 ^ (64 * (length ys - 1))" using assms(2) by (intro power_increasing) simp_all
  also have "\<dots> \<le> limbs_val ys" using assms(1) \<open>ys \<noteq> []\<close> by (rule digs_ok_lower)
  finally show ?thesis .
qed

lemma limbs_val_inject: "length xs = length ys \<Longrightarrow> limbs_val xs = limbs_val ys \<longleftrightarrow> xs = ys"
proof (induction xs ys rule: list_induct2)
  case (Cons x xs y ys)
  have m: "limbs_val (d # ds) mod 2 ^ 64 = uint d" "limbs_val (d # ds) div 2 ^ 64 = limbs_val ds" for d ds
    using uint_bounds[of d] by simp_all
  show ?case
  proof
    assume e: "limbs_val (x # xs) = limbs_val (y # ys)"
    have "x = y" using m(1)[of x xs] m(1)[of y ys] unfolding e by (intro word_uint_eqI) (rule trans[OF sym])
    moreover have "limbs_val xs = limbs_val ys" using m(2)[of x xs] m(2)[of y ys] unfolding e by (rule trans[OF sym])
    ultimately show "x # xs = y # ys" using Cons by simp
  qed simp
qed simp

lemma digs_ok_inject:
  assumes "digs_ok xs" "digs_ok ys" "limbs_val xs = limbs_val ys"
  shows "xs = ys"
proof -
  have "length xs = length ys"
    using digs_ok_shorter[OF assms(1), of ys] digs_ok_shorter[OF assms(2), of xs] assms(3) by linarith
  then show ?thesis using limbs_val_inject assms(3) by blast
qed

lemma bigdig_length_take:
  "n \<le> length ds \<Longrightarrow> limbs_val (take (bigdig_length ds n) ds) = limbs_val (take n ds) \<and>
    bigdig_length ds n \<le> n \<and> digs_ok (take (bigdig_length ds n) ds)"
proof (induction n)
  case (Suc n)
  then show ?case by (simp add: limbs_val_append digs_ok_def take_Suc_conv_app_nth)
qed (simp add: digs_ok_def)

lemma trim_digs_value [simp]: "limbs_val (trim_digs ds) = limbs_val ds"
  and trim_digs_ok [simp]: "digs_ok (trim_digs ds)"
  using bigdig_length_take[of "length ds" ds] by (simp_all add: trim_digs_def)

subsection \<open>Normalisation\<close>

lemma is_fixnum_tag: "is_fixnum i \<longleftrightarrow> signed_take_bit 62 i = i"
  by (simp add: is_fixnum_def signed_take_bit_int_eq_self_iff)

lemma make_integer_represents: "is_fixnum i \<Longrightarrow> represents (scheme_make_integer i) i"
  by (simp add: represents_def scheme_make_integer_def is_fixnum_tag)

lemma intptr_id: "- (2 ^ 63) \<le> v \<Longrightarrow> v < 2 ^ 63 \<Longrightarrow> intptr v = v"
  by (simp add: intptr_def signed_take_bit_int_eq_self)

lemma intptr_range: "- (2 ^ 63) \<le> intptr v" "intptr v < 2 ^ 63"
  unfolding intptr_def using signed_take_bit_int_greater_eq_minus_exp[of 63 v] signed_take_bit_int_less_exp[of 63 v] by simp_all

lemma and_top_two: "w AND MAX_TWO_BIT_MASK = push_bit 62 (drop_bit 62 w)"
proof -
  have m: "MAX_TWO_BIT_MASK = push_bit 62 (mask 2)" by (simp add: MAX_TWO_BIT_MASK_def mask_eq_exp_minus_1)
  show ?thesis unfolding m by (rule bit_word_eqI) (auto simp: bit_simps)
qed

lemma and_first: "w AND FIRST_BIT_MASK = push_bit 63 (drop_bit 63 w)"
proof -
  have m: "FIRST_BIT_MASK = 2 ^ 63" by (simp add: FIRST_BIT_MASK_def)
  have b: "bit FIRST_BIT_MASK n \<longleftrightarrow> n = 63" for n unfolding m bit_exp_iff by auto
  show ?thesis
  proof (rule bit_word_eqI)
    fix n assume "n < LENGTH(64)"
    then have "63 \<le> n \<longleftrightarrow> n = 63" by (simp; linarith)
    then show "bit (w AND FIRST_BIT_MASK) n = bit (push_bit 63 (drop_bit 63 w)) n"
      by (cases "n = 63") (simp_all add: bit_push_bit_iff bit_drop_bit_eq bit_and_iff b)
  qed
qed

lemma div_eq_iff_range: "0 < k \<Longrightarrow> u div k = q \<longleftrightarrow> k * q \<le> u \<and> u < k * q + k" for u k q :: int
proof
  assume k: "0 < k"
  show "u div k = q" if "k * q \<le> u \<and> u < k * q + k"
    using that by (intro int_div_pos_eq[of u k q "u - k * q"]) simp_all
  show "k * q \<le> u \<and> u < k * q + k" if "u div k = q"
    using k pos_mod_bound[OF k, of u] pos_mod_sign[OF k, of u] mult_div_mod_eq[of k u] unfolding that by linarith
qed

lemma div_less_iff_range: "0 < k \<Longrightarrow> u div k < q \<longleftrightarrow> u < q * k" for u k q :: int
proof
  assume k: "0 < k"
  show "u < q * k" if "u div k < q"
    using that zdiv_mono1[of "q * k" u k] k by (cases "q * k \<le> u") simp_all
  show "u div k < q" if "u < q * k"
  proof (rule ccontr)
    assume "\<not> u div k < q"
    then have "q * k \<le> u div k * k" using k by (intro mult_right_mono) simp_all
    then show False using that div_mult_mod_eq[of u k] pos_mod_sign[OF k, of u] by linarith
  qed
qed

lemma uint_and_top_two: "uint (w AND MAX_TWO_BIT_MASK) = uint w div 2 ^ 62 * 2 ^ 62"
proof -
  have "uint w div 2 ^ 62 < 4" "0 \<le> uint w div 2 ^ 62" using uint_bounds[of w] by (simp_all add: div_less_iff_range pos_imp_zdiv_nonneg_iff)
  then show ?thesis by (simp add: and_top_two uint_push uint_drop)
qed

lemma uint_and_first: "uint (w AND FIRST_BIT_MASK) = uint w div 2 ^ 63 * 2 ^ 63"
proof -
  have "uint w div 2 ^ 63 < 2" "0 \<le> uint w div 2 ^ 63" using uint_bounds[of w] by (simp_all add: div_less_iff_range pos_imp_zdiv_nonneg_iff)
  then show ?thesis by (simp add: and_first uint_push uint_drop)
qed

lemma first_bit_clear: "w AND FIRST_BIT_MASK = 0 \<longleftrightarrow> uint w < 2 ^ 63"
proof -
  have "w AND FIRST_BIT_MASK = 0 \<longleftrightarrow> uint w div 2 ^ 63 = 0"
    by (simp add: word_uint_eq_iff uint_and_first)
  then show ?thesis using uint_bounds(1)[of w] by (auto simp: zdiv_eq_0_iff)
qed

lemma fixnum_unsigned:
  assumes "- (2 ^ 63) \<le> v" "v < 2 ^ 63" "u = (if v < 0 then v + 2 ^ 64 else v)"
  shows "u < 2 ^ 62 \<or> 3 * 2 ^ 62 \<le> u \<longleftrightarrow> is_fixnum v"
  using assms by (cases "v < 0") (auto simp: is_fixnum_def)

lemma top_two_clear: "w AND MAX_TWO_BIT_MASK = 0 \<or> w AND MAX_TWO_BIT_MASK = MAX_TWO_BIT_MASK \<longleftrightarrow>
    uint w < 2 ^ 62 \<or> 3 * 2 ^ 62 \<le> uint w"
proof -
  have "w AND MAX_TWO_BIT_MASK = 0 \<longleftrightarrow> uint w div 2 ^ 62 = 0"
    by (simp add: word_uint_eq_iff uint_and_top_two)
  moreover have "w AND MAX_TWO_BIT_MASK = MAX_TWO_BIT_MASK \<longleftrightarrow> uint w div 2 ^ 62 = 3"
    unfolding word_uint_eq_iff uint_and_top_two by (simp add: MAX_TWO_BIT_MASK_def)
  moreover have "uint w div 2 ^ 62 = 0 \<longleftrightarrow> uint w < 2 ^ 62" "uint w div 2 ^ 62 = 3 \<longleftrightarrow> 3 * 2 ^ 62 \<le> uint w"
    using uint_bounds[of w] by (simp_all add: div_eq_iff_range)
  ultimately show ?thesis by (simp only:)
qed

lemma uint_intptr:
  assumes "- (2 ^ 63) \<le> v" "v < 2 ^ 63"
  shows "uint (word_of_int v :: limb) = (if v < 0 then v + 2 ^ 64 else v)"
proof -
  have "v mod 2 ^ 64 = (if v < 0 then v + 2 ^ 64 else v)"
  proof (cases "v < 0")
    case True
    then have "(v + 2 ^ 64) mod 2 ^ 64 = v + 2 ^ 64" using assms by (intro mod_pos_pos_trivial) simp_all
    then show ?thesis using True by (simp only: mod_add_self2 if_True)
  next
    case False
    then have "v mod 2 ^ 64 = v" using assms by (intro mod_pos_pos_trivial) simp_all
    then show ?thesis using False by (simp only: if_False)
  qed
  moreover have "uint (word_of_int v :: limb) = v mod 2 ^ 64" by (simp add: uint_word_of_int)
  ultimately show ?thesis by (simp only:)
qed

lemma top_two_bits:
  assumes "- (2 ^ 63) \<le> v" "v < 2 ^ 63"
  shows "word_of_int v AND MAX_TWO_BIT_MASK = 0 \<or> word_of_int v AND MAX_TWO_BIT_MASK = MAX_TWO_BIT_MASK
    \<longleftrightarrow> is_fixnum v"
  unfolding top_two_clear by (rule fixnum_unsigned[OF assms uint_intptr[OF assms]])


lemma get_int_val_value:
  assumes "big_ok b"
  shows "scheme_bignum_get_int_val b =
    (if - (2 ^ 63) \<le> big_val b \<and> big_val b < 2 ^ 63 then Some (big_val b) else None)"
proof (cases "length (big_digs b) > 1")
  case True
  have "(2 :: int) ^ 64 \<le> 2 ^ (64 * (length (big_digs b) - 1))" using True by (intro power_increasing) simp_all
  also have "\<dots> \<le> limbs_val (big_digs b)" using assms True by (intro digs_ok_lower) (auto simp: big_ok_def)
  finally show ?thesis using True by (simp add: scheme_bignum_get_int_val_def big_val_def)
next
  case False
  show ?thesis
  proof (cases "big_digs b")
    case Nil
    then show ?thesis by (simp add: scheme_bignum_get_int_val_def big_val_def)
  next
    case (Cons d ds)
    then have ds: "big_digs b = [d]" using False by simp
    then have d0: "d \<noteq> 0" using assms by (simp add: big_ok_def digs_ok_def)
    have dF: "d = FIRST_BIT_MASK \<longleftrightarrow> uint d = 2 ^ 63" by (simp add: word_uint_eq_iff FIRST_BIT_MASK_def)
    have sF: "sint FIRST_BIT_MASK = - (2 ^ 63)" by (simp add: FIRST_BIT_MASK_def)
    have v: "big_val b = (if big_pos b then uint d else - uint d)" by (simp add: big_val_def ds)
    have s: "sint d = uint d" if "uint d < 2 ^ 63"
    proof -
      have "signed_take_bit 63 (uint d) = uint d"
        using that uint_bounds(1)[of d] by (intro signed_take_bit_int_eq_self) linarith+
      then show ?thesis by (simp add: sint_uint)
    qed
    have i: "intptr (- uint d) = - uint d" if "uint d < 2 ^ 63"
      using that uint_bounds[of d] by (intro intptr_id) linarith+
    have nb: "- (2 ^ 63) \<le> uint d" "- uint d < 2 ^ 63"
      by (rule order_trans[OF _ uint_ge_0], simp) (rule le_less_trans[of _ 0], simp_all)
    show ?thesis
    proof (cases "uint d < 2 ^ 63")
      case True
      then show ?thesis using nb
        by (simp add: scheme_bignum_get_int_val_def ds dF first_bit_clear s i v)
    next
      case large: False
      show ?thesis
      proof (cases "d = FIRST_BIT_MASK")
        case True
        then have "sint d = - (2 ^ 63)" "uint d = 2 ^ 63" "FIRST_BIT_MASK \<noteq> 0"
          using sF dF by (simp_all add: FIRST_BIT_MASK_def)
        with True show ?thesis by (simp add: scheme_bignum_get_int_val_def ds first_bit_clear v)
      next
        case False
        then show ?thesis using large dF by (simp add: scheme_bignum_get_int_val_def ds first_bit_clear v)
      qed
    qed
  qed
qed

lemma normalize_represents:
  assumes "big_ok b"
  shows "represents (scheme_bignum_normalize (Big_Obj b)) (big_val b)"
proof (cases "- (2 ^ 63) \<le> big_val b \<and> big_val b < 2 ^ 63")
  case True
  then show ?thesis using assms top_two_bits[of "big_val b"] make_integer_represents[of "big_val b"]
    by (auto simp: get_int_val_value[OF assms] Let_def represents_def)
next
  case False
  then have "\<not> is_fixnum (big_val b)" by (auto simp: is_fixnum_def)
  moreover have "scheme_bignum_get_int_val b = None"
    unfolding get_int_val_value[OF assms] using False by (simp only: if_False)
  ultimately show ?thesis using assms by (simp add: represents_def)
qed

declare scheme_bignum_normalize.simps(2) [simp del]

lemma normalize_intro: "big_ok b \<Longrightarrow> big_val b = v \<Longrightarrow> represents (scheme_bignum_normalize (Big_Obj b)) v"
  using normalize_represents by blast

lemma make_single_eq [simp]:
  "make_single_bigdig_result pos d = scheme_bignum_normalize (Big_Obj \<lparr>big_pos = pos, big_digs = [d]\<rparr>)"
  by (simp add: make_single_bigdig_result_def Let_def)

lemma small_bignum_value:
  assumes "- (2 ^ 63) \<le> v" "v < 2 ^ 63"
  shows "big_val (scheme_make_small_bignum v) = v" "big_ok (scheme_make_small_bignum v)"
proof -
  show "big_ok (scheme_make_small_bignum v)"
    by (simp add: scheme_make_small_bignum_def Let_def big_ok_def digs_ok_def)
  have u: "uint (word_of_int w :: limb) = w" if "0 \<le> w" "w < 2 ^ 63" for w
    using uint_intptr[of w] that by simp
  have z: "uint d = 0 \<longleftrightarrow> d = 0" for d :: limb by (simp add: uint_0_iff)
  have big: "big_val (scheme_make_small_bignum v) =
      (if v < 0 then - uint (word_of_int (intptr (- v)) :: limb) else uint (word_of_int v :: limb))"
    by (auto simp: scheme_make_small_bignum_def Let_def big_val_def)
  show "big_val (scheme_make_small_bignum v) = v"
  proof (cases "v = - (2 ^ 63)")
    case True
    then show ?thesis unfolding big by (simp add: intptr_def)
  next
    case False
    then have n: "v < 0 \<Longrightarrow> intptr (- v) = - v" using assms by (intro intptr_id) linarith+
    show ?thesis
    proof (cases "v < 0")
      case True
      then show ?thesis unfolding big n[OF True] using assms False u[of "- v"] by (simp del: of_int_minus)
    next
      case False
      then show ?thesis unfolding big using assms u[of v] by (simp only: if_False)
    qed
  qed
qed

subsection \<open>Comparison\<close>

lemma abs_cmp_value:
  assumes "big_ok a" "big_ok b"
  shows "bignum_abs_cmp a b = sgn (limbs_val (big_digs a) - limbs_val (big_digs b))"
proof -
  consider "length (big_digs a) < length (big_digs b)" | "length (big_digs b) < length (big_digs a)"
    | "length (big_digs a) = length (big_digs b)" by linarith
  then show ?thesis
  proof cases
    case 1
    then show ?thesis using digs_ok_shorter[of "big_digs b" "big_digs a"] assms
      by (simp add: bignum_abs_cmp_def big_ok_def sgn_if)
  next
    case 2
    then show ?thesis using digs_ok_shorter[of "big_digs a" "big_digs b"] assms
      by (simp add: bignum_abs_cmp_def big_ok_def sgn_if)
  next
    case 3
    then show ?thesis using mpn_cmp_value[of "big_digs b" "big_digs a"]
      by (auto simp: bignum_abs_cmp_def Let_def)
  qed
qed

text \<open>The code makes no negative zero, which would be less than zero.\<close>

definition no_neg_zero :: "bignum \<Rightarrow> bool" where
  "no_neg_zero b \<longleftrightarrow> big_digs b = [] \<longrightarrow> big_pos b"

lemma big_val_sign:
  assumes "big_ok b" "no_neg_zero b"
  shows "big_pos b \<longleftrightarrow> 0 \<le> big_val b"
  using assms digs_ok_zero[of "big_digs b"] limbs_val_nonneg[of "big_digs b"]
  by (auto simp: big_ok_def no_neg_zero_def big_val_def order_le_less simp del: limbs_val_nonneg)

lemma lt_value:
  assumes "big_ok a" "no_neg_zero a" "big_ok b" "no_neg_zero b"
  shows "scheme_bignum_lt a b \<longleftrightarrow> big_val a < big_val b"
proof -
  note s = big_val_sign[OF assms(1,2)] big_val_sign[OF assms(3,4)]
  show ?thesis
  proof (cases "big_pos a = big_pos b")
    case True
    have c: "bignum_abs_cmp a b = sgn (limbs_val (big_digs a) - limbs_val (big_digs b))"
      by (rule abs_cmp_value[OF assms(1,3)])
    have s: "sgn x < 0 \<longleftrightarrow> x < 0" "sgn x > 0 \<longleftrightarrow> x > 0" for x :: int by (auto simp: sgn_if)
    show ?thesis using True by (cases "big_pos a") (simp_all add: scheme_bignum_lt_def Let_def c s big_val_def)
  next
    case False
    then show ?thesis using s by (auto simp: scheme_bignum_lt_def Let_def)
  qed
qed

lemma not_fixnum_no_neg_zero: "\<not> is_fixnum (big_val b) \<Longrightarrow> no_neg_zero b"
  by (auto simp: no_neg_zero_def big_val_def is_fixnum_def split: if_splits)

subsection \<open>Addition and subtraction\<close>

lemma bignum_copy_0 [simp]: "bignum_copy a 0 = \<lparr>big_pos = big_pos a, big_digs = big_digs a\<rparr>"
  by (simp add: bignum_copy_def)

lemma limb_le_1: "c \<le> 1 \<Longrightarrow> c = 0 \<or> c = 1" for c :: limb
  by (metis order_antisym_conv word_less_1 not_le)

lemma mpn_add_longer:
  assumes "digs_ok xs" "digs_ok ys" "ys \<noteq> []" "length ys \<le> length xs" "mpn_add xs ys = (res, c)"
  shows "limbs_val (res @ (if c \<noteq> 0 then [1] else [])) = limbs_val xs + limbs_val ys"
    "digs_ok (res @ (if c \<noteq> 0 then [1] else []))"
proof -
  have v: "limbs_val res + 2 ^ (64 * length xs) * uint c = limbs_val xs + limbs_val ys"
    "length res = length xs" "c \<le> 1" using mpn_add_value[OF assms(4,5)] by simp_all
  have c: "c = 0 \<or> c = 1" using v(3) by (rule limb_le_1)
  show val: "limbs_val (res @ (if c \<noteq> 0 then [1] else [])) = limbs_val xs + limbs_val ys"
    using v(1,2) c by (auto simp: limbs_val_append)
  show "digs_ok (res @ (if c \<noteq> 0 then [1] else []))"
  proof (cases "c = 0")
    case True
    obtain rs d where res: "res = rs @ [d]" using v(2) assms(3,4) by (metis append_butlast_last_id le_zero_eq length_0_conv)
    have "d \<noteq> 0"
    proof
      assume "d = 0"
      then have "limbs_val res = limbs_val rs" by (simp add: res limbs_val_append)
      also have "\<dots> < 2 ^ (64 * (length xs - 1))" using limbs_val_less[of rs] v(2) by (simp add: res flip: v(2))
      also have "\<dots> \<le> limbs_val xs" using assms(1,3,4) by (intro digs_ok_lower) auto
      finally show False using v(1) True limbs_val_nonneg[of ys] by (simp del: limbs_val_nonneg)
    qed
    then show ?thesis by (simp add: True res digs_ok_def)
  qed (simp add: digs_ok_def)
qed

lemma sub_digits:
  assumes "digs_ok xs" "digs_ok ys" "length ys \<le> length xs" "limbs_val ys \<le> limbs_val xs"
  shows "limbs_val (fst (mpn_sub xs ys)) = limbs_val xs - limbs_val ys"
proof -
  obtain res c where r: "mpn_sub xs ys = (res, c)" by (cases "mpn_sub xs ys")
  show ?thesis using mpn_sub_no_borrow(1)[OF assms(3,4) r] by (simp add: r)
qed

lemma add_sub_represents:
  assumes "big_ok a" "big_ok b"
  shows "represents (bignum_add_sub a b sub) (big_val a + (if sub then - big_val b else big_val b))"
proof -
  define ad bd where "ad = big_digs a" and "bd = big_digs b"
  have ok: "digs_ok ad" "digs_ok bd" using assms by (simp_all add: ad_def bd_def big_ok_def)
  let ?bp = "big_pos b \<noteq> sub"
  let ?B = "if ?bp then limbs_val bd else - limbs_val bd"
  have B: "(if sub then - big_val b else big_val b) = ?B" by (simp add: big_val_def bd_def)
  have A: "big_val a = (if big_pos a then limbs_val ad else - limbs_val ad)" by (simp add: big_val_def ad_def)
  consider "bd = []" | "bd \<noteq> []" "ad = []" | "bd \<noteq> []" "ad \<noteq> []" "big_pos a = ?bp"
    | "bd \<noteq> []" "ad \<noteq> []" "big_pos a \<noteq> ?bp" by blast
  then show ?thesis
  proof cases
    case 1
    have "bignum_copy a 0 = a" by simp
    then have "bignum_add_sub a b sub = scheme_bignum_normalize (Big_Obj a)"
      using 1 by (simp add: bignum_add_sub_def Let_def bd_def del: bignum_copy_0)
    then show ?thesis unfolding B using normalize_represents[OF assms(1)] 1 by simp
  next
    case 2
    let ?r = "\<lparr>big_pos = ?bp, big_digs = bd\<rparr>"
    have "bignum_add_sub a b sub = scheme_bignum_normalize (Big_Obj ?r)"
      using 2 by (simp add: bignum_add_sub_def Let_def bd_def ad_def)
    moreover have "big_val a = 0" using 2 A by simp
    then have "big_ok ?r" "big_val ?r = big_val a + ?B" using ok by (auto simp: big_ok_def big_val_def)
    ultimately show ?thesis unfolding B by (simp only: normalize_intro)
  next
    case 3
    define l s where "l = (if length ad > length bd then ad else bd)" and "s = (if length ad > length bd then bd else ad)"
    obtain ds c where r: "mpn_add l s = (ds, c)" by (cases "mpn_add l s")
    have ls: "digs_ok l" "digs_ok s" "s \<noteq> []" "length s \<le> length l" using ok 3 by (auto simp: l_def s_def)
    let ?r = "\<lparr>big_pos = big_pos a, big_digs = ds @ (if c \<noteq> 0 then [1] else [])\<rparr>"
    have "bignum_add_sub a b sub = scheme_bignum_normalize (Big_Obj ?r)"
      using 3 r by (cases "length ad > length bd")
        (simp_all add: bignum_add_sub_def bignum_copy_def Let_def bd_def ad_def l_def s_def)
    moreover have "big_val ?r = big_val a + ?B" "big_ok ?r"
      using mpn_add_longer[OF ls r] 3(3) unfolding A by (auto simp: big_ok_def big_val_def l_def s_def)
    ultimately show ?thesis unfolding B by (simp only: normalize_intro)
  next
    case 4
    define sw where "sw \<longleftrightarrow> limbs_val ad \<le> limbs_val bd"
    have cmp: "length ad = length bd \<Longrightarrow> mpn_cmp ad bd (length ad) = sgn (limbs_val ad - limbs_val bd)"
      using mpn_cmp_value[of bd ad] by simp
    show ?thesis
    proof (cases "length ad = length bd \<and> limbs_val ad = limbs_val bd")
      case True
      then have "bignum_add_sub a b sub = scheme_make_integer 0"
        using 4 cmp by (cases sub; cases "big_pos b") (simp_all add: bignum_add_sub_def Let_def bd_def ad_def)
      then show ?thesis unfolding A B using make_integer_represents[of 0] True 4
        by (auto simp: is_fixnum_def)
    next
      case False
      define l s where "l = (if sw then bd else ad)" and "s = (if sw then ad else bd)"
      have len: "length ad \<le> length bd \<or> length bd \<le> length ad" "sw \<Longrightarrow> length ad \<le> length bd" "\<not> sw \<Longrightarrow> length bd \<le> length ad"
        using digs_ok_shorter[OF ok(1), of bd] digs_ok_shorter[OF ok(2), of ad] by (auto simp: sw_def not_le intro: leI)
      have ls: "digs_ok l" "digs_ok s" "length s \<le> length l" "limbs_val s \<le> limbs_val l"
        using ok len by (auto simp: l_def s_def sw_def)
      let ?r = "\<lparr>big_pos = (sw \<noteq> big_pos a), big_digs = trim_digs (fst (mpn_sub l s))\<rparr>"
      have pick: "(if length ad > length bd then False else if length bd > length ad then True
            else \<not> mpn_cmp ad bd (length ad) > 0) = sw"
      proof (cases "length ad = length bd")
        case True
        have "sgn x > 0 \<longleftrightarrow> x > 0" for x :: int by (auto simp: sgn_if)
        then show ?thesis using True cmp by (auto simp: sw_def)
      next
        case False
        then show ?thesis using len by (cases sw) auto
      qed
      have n: "(length ad = length bd \<and> mpn_cmp ad bd (length ad) = 0) = False" using False cmp by (auto simp: sgn_if)
      have d: "(big_pos a = (big_pos b \<noteq> sub)) = False" "(length ad = 0) = False" "(length bd = 0) = False"
        using 4 by auto
      have "bignum_add_sub a b sub = scheme_bignum_normalize (Big_Obj \<lparr>big_pos = (sw \<noteq> big_pos a),
          big_digs = trim_digs (if sw then fst (mpn_sub bd ad) else fst (mpn_sub ad bd))\<rparr>)"
        unfolding bignum_add_sub_def Let_def ad_def[symmetric] bd_def[symmetric] pick n d if_False ..
      then have "bignum_add_sub a b sub = scheme_bignum_normalize (Big_Obj ?r)" by (simp add: l_def s_def)
      moreover have "big_val ?r = big_val a + ?B"
        using sub_digits[OF ls] 4(3) unfolding A by (auto simp: big_val_def l_def s_def)
      moreover have "big_ok ?r" by (simp add: big_ok_def)
      ultimately show ?thesis unfolding B by (simp only: normalize_intro)
    qed
  qed
qed


lemma bignum_one_ok: "big_ok bignum_one" "big_val bignum_one = 1"
  using small_bignum_value[of 1] by (simp_all add: bignum_one_def scheme_make_bignum_def)

lemma add1_represents: "big_ok a \<Longrightarrow> represents (scheme_bignum_add1 a) (big_val a + 1)"
  and sub1_represents: "big_ok a \<Longrightarrow> represents (scheme_bignum_sub1 a) (big_val a - 1)"
  using add_sub_represents[of a bignum_one False] add_sub_represents[of a bignum_one True]
  by (simp_all add: bignum_one_ok scheme_bignum_add1_def scheme_bignum_sub1_def)

subsection \<open>Multiplication\<close>

lemma low_zeros_value:
  "limbs_val ds = 2 ^ (64 * low_zeros ds) * limbs_val (drop (low_zeros ds) ds)" "low_zeros ds \<le> length ds"
  by (induction ds) (simp_all add: power_add)

lemma low_zeros_nonzero: "digs_ok ds \<Longrightarrow> ds \<noteq> [] \<Longrightarrow> drop (low_zeros ds) ds \<noteq> []"
  using low_zeros_value(1)[of ds] digs_ok_zero[of ds] by (cases "drop (low_zeros ds) ds") auto

text \<open>What \<^verbatim>\<open>bignum.c\<close> needs of \<^verbatim>\<open>mpn_mul\<close>.\<close>

locale limb_product =
  fixes mul :: "limb list \<Rightarrow> limb list \<Rightarrow> limb list"
  assumes mul_value: "vp \<noteq> [] \<Longrightarrow> length vp \<le> length up \<Longrightarrow> limbs_val (mul up vp) = limbs_val up * limbs_val vp"
begin

lemma multiply_raw:
  assumes "big_ok a" "big_ok b" "\<not> (big_digs a = [] \<or> big_digs b = [])"
  obtains r where "bignum_multiply mul a b True = scheme_bignum_normalize (Big_Obj r)"
    "bignum_multiply mul a b False = Big_Obj r" "big_ok r" "big_val r = big_val a * big_val b"
proof -
  define ad bd where "ad = big_digs a" and "bd = big_digs b"
  define i j where "i = low_zeros ad" and "j = low_zeros bd"
  define l s where "l = (if length ad - i > length bd - j then drop i ad else drop j bd)"
    and "s = (if length ad - i > length bd - j then drop j bd else drop i ad)"
  let ?r = "\<lparr>big_pos = (big_pos a = big_pos b), big_digs = trim_digs (replicate (i + j) 0 @ mul l s)\<rparr>"
  have n: "drop i ad \<noteq> []" "drop j bd \<noteq> []"
    using assms low_zeros_nonzero by (auto simp: i_def j_def ad_def bd_def big_ok_def)
  have "limbs_val (mul l s) = limbs_val l * limbs_val s" using n by (intro mul_value) (auto simp: l_def s_def)
  also have "\<dots> = limbs_val (drop i ad) * limbs_val (drop j bd)" by (simp add: l_def s_def)
  finally have m: "limbs_val (mul l s) = limbs_val (drop i ad) * limbs_val (drop j bd)" .
  have v: "limbs_val (replicate (i + j) 0 @ mul l s) = limbs_val ad * limbs_val bd"
    unfolding limbs_val_append m low_zeros_value(1)[of ad] low_zeros_value(1)[of bd] i_def[symmetric] j_def[symmetric]
    by (simp add: power_add algebra_simps)
  have r: "bignum_multiply mul a b nm = (if nm then scheme_bignum_normalize (Big_Obj ?r) else Big_Obj ?r)" for nm
    using assms(3) unfolding bignum_multiply_def Let_def ad_def[symmetric] bd_def[symmetric] i_def[symmetric] j_def[symmetric]
    by (simp add: l_def s_def)
  have "big_val ?r = big_val a * big_val b" using v by (auto simp: big_val_def ad_def bd_def)
  then show thesis using that[of ?r] r by (simp add: big_ok_def)
qed

lemma multiply_represents:
  assumes "big_ok a" "big_ok b"
  shows "represents (scheme_bignum_multiply mul a b) (big_val a * big_val b)"
proof (cases "big_digs a = [] \<or> big_digs b = []")
  case True
  then have "scheme_bignum_multiply mul a b = scheme_make_integer 0" "big_val a * big_val b = 0"
    by (auto simp: scheme_bignum_multiply_def bignum_multiply_def big_val_def)
  then show ?thesis using make_integer_represents[of 0] by (simp only: is_fixnum_def) simp
next
  case False
  with assms obtain r where "bignum_multiply mul a b True = scheme_bignum_normalize (Big_Obj r)"
    "big_ok r" "big_val r = big_val a * big_val b" by (rule multiply_raw)
  then show ?thesis by (simp add: scheme_bignum_multiply_def normalize_intro)
qed

end

interpretation basecase: limb_product mpn_mul_basecase
  by unfold_locales (metis length_0_conv le_zero_eq mpn_mul_basecase_value(1))

subsection \<open>Bitwise operations\<close>

fun bit_int :: "bitop \<Rightarrow> int \<Rightarrow> int \<Rightarrow> int" where
  "bit_int Bit_And a b = a AND b"
| "bit_int Bit_Or a b = a OR b"
| "bit_int Bit_Xor a b = a XOR b"

lemma low_high: "take_bit 64 (uint x + 2 ^ 64 * X) = uint x" "drop_bit 64 (uint x + 2 ^ 64 * X) = X" for x :: limb
proof -
  have "(uint x + 2 ^ 64 * X) mod 2 ^ 64 = uint x mod 2 ^ 64" "(uint x + 2 ^ 64 * X) div 2 ^ 64 = X + uint x div 2 ^ 64"
    by (rule mod_mult_self2, rule div_mult_self2) simp
  moreover have "uint x mod 2 ^ 64 = uint x" "uint x div 2 ^ 64 = 0" using uint_bounds[of x] by simp_all
  ultimately show "take_bit 64 (uint x + 2 ^ 64 * X) = uint x" "drop_bit 64 (uint x + 2 ^ 64 * X) = X"
    unfolding take_bit_eq_mod drop_bit_eq_div by simp_all
qed

lemma bit_int_take: "take_bit n (bit_int op A B) = bit_int op (take_bit n A) (take_bit n B)"
  and bit_int_drop: "drop_bit n (bit_int op A B) = bit_int op (drop_bit n A) (drop_bit n B)"
  by (cases op; simp)+

lemma uint_bit_limb: "uint (bit_limb op x y) = bit_int op (uint x) (uint y)"
  by (cases op) (simp_all add: unsigned_and_eq unsigned_or_eq unsigned_xor_eq)

lemma bit_int_digit:
  fixes x y :: limb
  shows "bit_int op (uint x + 2 ^ 64 * X) (uint y + 2 ^ 64 * Y) = uint (bit_limb op x y) + 2 ^ 64 * bit_int op X Y"
proof -
  let ?r = "bit_int op (uint x + 2 ^ 64 * X) (uint y + 2 ^ 64 * Y)"
  have "?r = take_bit 64 ?r + 2 ^ 64 * drop_bit 64 ?r"
    unfolding take_bit_eq_mod drop_bit_eq_div by (rule mod_mult_div_eq[symmetric])
  also have "\<dots> = uint (bit_limb op x y) + 2 ^ 64 * bit_int op X Y"
    unfolding bit_int_take bit_int_drop low_high uint_bit_limb ..
  finally show ?thesis .
qed

lemma uint_not_limb: "uint (NOT v) = 2 ^ 64 - 1 - uint v" for v :: limb
proof -
  have "uint (NOT v) = (- uint v - 1) mod 2 ^ 64"
    by (simp add: unsigned_not_eq take_bit_eq_mod not_int_def)
  also have "\<dots> = (- uint v - 1 + 2 ^ 64) mod 2 ^ 64" by (simp only: mod_add_self2)
  also have "\<dots> = - uint v - 1 + 2 ^ 64" using uint_bounds[of v] by (intro mod_pos_pos_trivial) linarith+
  finally show ?thesis by linarith
qed

lemma complement_value:
  assumes "complement_digit v c = (w, c')" "c = 0 \<or> c = 1"
  shows "NOT (uint v + 2 ^ 64 * X) + uint c = uint w + 2 ^ 64 * (NOT X + uint c')" "c' = 0 \<or> c' = 1"
    "c' = 1 \<longleftrightarrow> c = 1 \<and> v = 0" "c' = 1 \<Longrightarrow> w = 0"
proof -
  have w: "w = NOT v + c" and c': "c' = (if c = 1 \<and> v = 0 then 1 else 0)"
    using assms(1) by (simp_all add: complement_digit_def)
  show "c' = 0 \<or> c' = 1" "c' = 1 \<longleftrightarrow> c = 1 \<and> v = 0" "c' = 1 \<Longrightarrow> w = 0" by (auto simp: c' w split: if_splits)
  have "uint w + 2 ^ 64 * uint c' = 2 ^ 64 - 1 - uint v + uint c"
  proof (cases "c = 1 \<and> v = 0")
    case True
    then show ?thesis by (simp add: w c')
  next
    case False
    have "uint v \<noteq> 0 \<or> c = 0" using False assms(2) by (auto simp: uint_0_iff)
    moreover have "1 \<le> uint v" if "uint v \<noteq> 0" using that uint_bounds(1)[of v] by linarith
    ultimately have "uint c \<le> uint v" using assms(2) by auto
    then have "2 ^ 64 - 1 - uint v + uint c < 2 ^ 64" by linarith
    then have "uint (NOT v + c) = 2 ^ 64 - 1 - uint v + uint c"
      by (simp add: uint_plus_if' uint_not_limb)
    then show ?thesis using False by (simp add: w c')
  qed
  then show "NOT (uint v + 2 ^ 64 * X) + uint c = uint w + 2 ^ 64 * (NOT X + uint c')"
    by (simp add: not_int_def algebra_simps)
qed

lemma pair_cases: obtains a b where "(a, b) = p"
  by (cases p) auto

text \<open>The number that remains to be read from a digit list, with the carry of its complement.\<close>

definition signed_rest :: "bool \<Rightarrow> int \<Rightarrow> limb \<Rightarrow> int" where
  "signed_rest pos v c = (if pos then v else NOT v + uint c)"

lemma signed_digit:
  assumes "(w, c') = (if pos then (v, c) else complement_digit v c)" "c = 0 \<or> c = 1"
  shows "signed_rest pos (uint v + 2 ^ 64 * X) c = uint w + 2 ^ 64 * signed_rest pos X c'" "c' = 0 \<or> c' = 1"
    "\<not> pos \<Longrightarrow> c' = 1 \<longleftrightarrow> c = 1 \<and> v = 0" "\<not> pos \<Longrightarrow> c' = 1 \<Longrightarrow> w = 0"
  using assms complement_value[of v c w c'] by (auto simp: signed_rest_def split: if_splits)

lemma bitop_loop_value:
  assumes "n \<le> length as" "bitop_loop op ap bp rp (take n as) bs ca cb cr = (out, c)"
    and "ca = 0 \<or> ca = 1" "cb = 0 \<or> cb = 1" "cr = 0 \<or> cr = 1"
    and "\<not> bp \<Longrightarrow> cb = 1 \<Longrightarrow> limbs_val bs \<noteq> 0"
  shows "signed_rest rp (bit_int op (signed_rest ap (limbs_val as) ca) (signed_rest bp (limbs_val bs) cb)) cr =
      limbs_val out + 2 ^ (64 * n) * signed_rest rp (drop_bit (64 * n)
        (bit_int op (signed_rest ap (limbs_val as) ca) (signed_rest bp (limbs_val bs) cb))) c
    \<and> length out = n \<and> (c = 0 \<or> c = 1) \<and> (\<not> rp \<longrightarrow> c = 1 \<longrightarrow> limbs_val out = 0 \<and> cr = 1)"
  using assms
proof (induction n arbitrary: as bs ca cb cr out c)
  case 0
  then show ?case by (simp add: signed_rest_def)
next
  case (Suc n)
  obtain a as' where as: "as = a # as'" using Suc.prems(1) by (cases as) auto
  obtain av ca' where av: "(av, ca') = (if ap then (a, ca) else complement_digit a ca)" by (rule pair_cases)
  obtain bv cb' where bv: "(bv, cb') = (case bs of b # _ \<Rightarrow> (if bp then (b, cb) else complement_digit b cb)
            | [] \<Rightarrow> (if bp then (0, cb) else (NOT 0, cb)))" by (rule pair_cases)
  let ?d = "bit_limb op av bv"
  obtain rv cr' where rv: "(rv, cr') = (if rp then (?d, cr) else complement_digit ?d cr)" by (rule pair_cases)
  obtain res c' where res: "bitop_loop op ap bp rp (take n as') (tl bs) ca' cb' cr' = (res, c')" by (rule prod.exhaust)
  have out: "out = rv # res" "c = c'"
  proof -
    have "bitop_loop op ap bp rp (a # take n as') bs ca cb cr = (rv # res, c')"
      by (simp only: bitop_loop.simps Let_def prod.case av[symmetric] bv[symmetric] rv[symmetric] res)
    then show "out = rv # res" "c = c'" using Suc.prems(2) by (simp_all add: as)
  qed
  note a = signed_digit(1)[OF av Suc.prems(3), of "limbs_val as'"] signed_digit(2)[OF av Suc.prems(3)]
  have b: "signed_rest bp (limbs_val bs) cb = uint bv + 2 ^ 64 * signed_rest bp (limbs_val (tl bs)) cb'"
    "cb' = 0 \<or> cb' = 1" "\<not> bp \<Longrightarrow> cb' = 1 \<Longrightarrow> limbs_val (tl bs) \<noteq> 0"
  proof -
    show "signed_rest bp (limbs_val bs) cb = uint bv + 2 ^ 64 * signed_rest bp (limbs_val (tl bs)) cb'"
    proof (cases bs)
      case Nil
      then show ?thesis using bv Suc.prems(4,6) uint_not_limb[of 0] by (cases bp) (auto simp: signed_rest_def not_int_def)
    next
      case (Cons b bs')
      then show ?thesis using signed_digit(1)[of bv cb' bp b cb "limbs_val bs'"] bv Suc.prems(4) by simp
    qed
    show "cb' = 0 \<or> cb' = 1"
      using bv Suc.prems(4) signed_digit(2)[of bv cb' bp "hd bs" cb] by (cases bs) (auto split: if_splits)
    show "limbs_val (tl bs) \<noteq> 0" if "\<not> bp" "cb' = 1"
      using that bv Suc.prems(4,6) complement_value(3)[of "hd bs" cb bv cb'] by (cases bs) auto
  qed
  define A' B' where "A' = signed_rest ap (limbs_val as') ca'" and "B' = signed_rest bp (limbs_val (tl bs)) cb'"
  define R where "R = bit_int op A' B'"
  have A: "signed_rest ap (limbs_val as) ca = uint av + 2 ^ 64 * A'" using a(1) by (simp add: as A'_def)
  have B: "signed_rest bp (limbs_val bs) cb = uint bv + 2 ^ 64 * B'" using b(1) by (simp add: B'_def)
  have R: "bit_int op (signed_rest ap (limbs_val as) ca) (signed_rest bp (limbs_val bs) cb) = uint ?d + 2 ^ 64 * R"
    unfolding A B bit_int_digit R_def ..
  note r = signed_digit(1)[OF rv Suc.prems(5), of R] signed_digit(2-)[OF rv Suc.prems(5)]
  have IH: "signed_rest rp R cr' = limbs_val res + 2 ^ (64 * n) * signed_rest rp (drop_bit (64 * n) R) c'
    \<and> length res = n \<and> (c' = 0 \<or> c' = 1) \<and> (\<not> rp \<longrightarrow> c' = 1 \<longrightarrow> limbs_val res = 0 \<and> cr' = 1)"
    unfolding R_def A'_def B'_def using Suc.prems(1)
    by (intro Suc.IH[OF _ res a(2) b(2) r(2) b(3)]) (simp_all add: as)
  have drop: "drop_bit (64 * Suc n) (uint ?d + 2 ^ 64 * R) = drop_bit (64 * n) R"
  proof -
    have "drop_bit (64 * Suc n) (uint ?d + 2 ^ 64 * R) = drop_bit (64 * n) (drop_bit 64 (uint ?d + 2 ^ 64 * R))"
      by (simp add: drop_bit_drop_bit add.commute)
    then show ?thesis unfolding low_high .
  qed
  have "signed_rest rp (uint ?d + 2 ^ 64 * R) cr = uint rv + 2 ^ 64 * signed_rest rp R cr'" by (rule r(1))
  also have "\<dots> = limbs_val out + 2 ^ (64 * Suc n) * signed_rest rp (drop_bit (64 * n) R) c"
    using IH by (simp add: out power_add algebra_simps)
  finally have "signed_rest rp (uint ?d + 2 ^ 64 * R) cr =
    limbs_val out + 2 ^ (64 * Suc n) * signed_rest rp (drop_bit (64 * n) R) c" .
  moreover have "\<not> rp \<longrightarrow> c = 1 \<longrightarrow> limbs_val out = 0 \<and> cr = 1"
    using IH r(3,4) by (auto simp: out)
  ultimately show ?case unfolding R drop using IH out by simp
qed


lemma drop_signed:
  assumes "length ds \<le> n"  "\<not> pos \<Longrightarrow> limbs_val ds \<noteq> 0"
  shows "drop_bit (64 * n) (if pos then limbs_val ds else - limbs_val ds) = (if pos then 0 else -1)"
proof -
  have "limbs_val ds < 2 ^ (64 * length ds)" by (rule limbs_val_less)
  also have "(2 :: int) ^ (64 * length ds) \<le> 2 ^ (64 * n)" using assms(1) by (intro power_increasing) simp_all
  finally have l: "limbs_val ds < 2 ^ (64 * n)" .
  show ?thesis
  proof (cases pos)
    case True
    then show ?thesis using l by (simp add: drop_bit_eq_div)
  next
    case False
    then have "0 < limbs_val ds" using assms(2) limbs_val_nonneg[of ds] by (simp add: order_less_le del: limbs_val_nonneg)
    then have "- limbs_val ds div 2 ^ (64 * n) = -1" using l by (intro int_div_pos_eq[of _ _ _ "2 ^ (64 * n) - limbs_val ds"]) simp_all
    then show ?thesis using False by (simp add: drop_bit_eq_div)
  qed
qed

lemma long_not_fixnum:
  assumes "digs_ok ds" "2 \<le> length ds"
  shows "\<not> is_fixnum (big_val \<lparr>big_pos = pos, big_digs = ds\<rparr>)"
proof -
  have "(2 :: int) ^ 64 \<le> 2 ^ (64 * (length ds - 1))" using assms(2) by (intro power_increasing) simp_all
  also have "\<dots> \<le> limbs_val ds" using assms by (intro digs_ok_lower) auto
  finally show ?thesis by (simp add: big_val_def is_fixnum_def)
qed

lemma digits_represent:
  assumes "digs_ok ds"
  shows "represents (case ds of [] \<Rightarrow> scheme_make_integer 0 | [d] \<Rightarrow> make_single_bigdig_result pos d
    | _ \<Rightarrow> Big_Obj \<lparr>big_pos = pos, big_digs = ds\<rparr>) (if pos then limbs_val ds else - limbs_val ds)"
proof (cases ds rule: remdups_adj.cases)
  case 1
  then show ?thesis using make_integer_represents[of 0] by (simp add: is_fixnum_def)
next
  case (2 d)
  then show ?thesis using assms by (auto intro!: normalize_intro simp: big_ok_def big_val_def)
next
  case (3 d e es)
  then show ?thesis using assms long_not_fixnum[of ds pos]
    by (simp add: represents_def big_ok_def) (simp add: big_val_def)
qed

text \<open>The sign and the number of digits that \<^verbatim>\<open>do_bitop\<close> chooses are enough for the result.\<close>

lemma bitop_high:
  fixes ap bp :: bool and na nb n :: nat
  assumes "nb \<le> na" "(rp, n) = (case op of
                     Bit_And \<Rightarrow> (ap \<or> bp, if bp then nb else na)
                   | Bit_Or \<Rightarrow> (ap \<and> bp, if bp then na else nb)
                   | Bit_Xor \<Rightarrow> (ap = bp, na))"
    and A: "na \<le> n \<Longrightarrow> A = (if ap then 0 else -1)" and B: "B = (if bp then 0 else -1 :: int)"
  shows "bit_int op A B = (if rp then 0 else -1)" "nb \<le> n" "n \<le> na"
proof -
  have "n = nb \<or> n = na" using assms(2) by (cases op) (simp_all split: if_splits)
  then show n: "nb \<le> n" "n \<le> na" using assms(1) by auto
  show "bit_int op A B = (if rp then 0 else -1)"
  proof (cases "na \<le> n")
    case True
    then have "A = (if ap then 0 else -1)" by (rule A)
    then show ?thesis using assms(2) B True assms(1) n by (cases op; cases ap; cases bp) auto
  next
    case False
    then show ?thesis using assms(2) B by (cases op; cases bp) auto
  qed
qed

theorem do_bitop_represents:
  assumes ok: "big_ok a" "big_ok b" and len: "length (big_digs b) \<le> length (big_digs a)"
  shows "represents (do_bitop a b op) (bit_int op (big_val a) (big_val b))"
proof -
  define ad bd where "ad = big_digs a" and "bd = big_digs b"
  have d: "digs_ok ad" "digs_ok bd" using ok by (simp_all add: ad_def bd_def big_ok_def)
  have zero: "represents (scheme_make_integer 0) 0" by (rule make_integer_represents) (simp add: is_fixnum_def)
  consider "ad = []" | "ad \<noteq> []" "bd = []" | "ad \<noteq> []" "bd \<noteq> []" by blast
  then show ?thesis
  proof cases
    case 1
    then have "big_val a = 0" "big_val b = 0" using len by (simp_all add: ad_def bd_def big_val_def)
    then show ?thesis using 1 zero by (cases op) (simp_all add: do_bitop_def ad_def)
  next
    case 2
    then have "big_val b = 0" by (simp add: bd_def big_val_def)
    moreover have "do_bitop a b op = (if op = Bit_And then scheme_make_integer 0 else scheme_bignum_normalize (Big_Obj (bignum_copy a 0)))"
      using 2 by (simp add: do_bitop_def ad_def bd_def)
    moreover have "bignum_copy a 0 = a" by simp
    ultimately show ?thesis using zero normalize_represents[OF ok(1)] by (cases op) (simp_all del: bignum_copy_0)
  next
    case 3
    obtain rp n where rn: "(rp, n) = (case op of
                     Bit_And \<Rightarrow> (big_pos a \<or> big_pos b, if big_pos b then length bd else length ad)
                   | Bit_Or \<Rightarrow> (big_pos a \<and> big_pos b, if big_pos b then length ad else length bd)
                   | Bit_Xor \<Rightarrow> (big_pos a = big_pos b, length ad))" by (rule pair_cases)
    obtain out c where loop: "bitop_loop op (big_pos a) (big_pos b) rp (take n ad) bd 1 1 1 = (out, c)" by (rule prod.exhaust)
    let ?ds = "if \<not> rp \<and> c = 1 then allocate_bigdig_array n @ [1] else trim_digs out"
    let ?R = "bit_int op (big_val a) (big_val b)"
    have nz: "limbs_val ad \<noteq> 0" "limbs_val bd \<noteq> 0" using 3 digs_ok_zero d by auto
    have sa: "signed_rest (big_pos a) (limbs_val ad) 1 = big_val a" and sb: "signed_rest (big_pos b) (limbs_val bd) 1 = big_val b"
      by (simp_all add: signed_rest_def big_val_def ad_def bd_def not_int_def)
    have len': "length bd \<le> length ad" using len by (simp add: ad_def bd_def)
    note high = bitop_high[OF len' rn]
    have n: "length bd \<le> n" "n \<le> length ad" using high(2,3) by blast+
    have "bit_int op (drop_bit (64 * n) (big_val a)) (drop_bit (64 * n) (big_val b)) = (if rp then 0 else -1)"
      unfolding big_val_def ad_def[symmetric] bd_def[symmetric]
      by (rule high(1)) (rule drop_signed; use n nz in simp)+
    then have drop: "drop_bit (64 * n) ?R = (if rp then 0 else -1)" by (simp only: bit_int_drop)
    have v: "signed_rest rp ?R 1 = limbs_val out + 2 ^ (64 * n) * signed_rest rp (drop_bit (64 * n) ?R) c"
      and l: "length out = n" "c = 0 \<or> c = 1" "\<not> rp \<longrightarrow> c = 1 \<longrightarrow> limbs_val out = 0"
      using bitop_loop_value[OF n(2) loop] nz(2) unfolding sa sb by simp_all
    have "signed_rest rp ?R 1 = limbs_val ?ds"
      using v l unfolding drop by (auto simp: signed_rest_def allocate_bigdig_array_def limbs_val_append not_int_def)
    then have R: "?R = (if rp then limbs_val ?ds else - limbs_val ?ds)"
      by (auto simp: signed_rest_def not_int_def)
    have "do_bitop a b op = (case ?ds of [] \<Rightarrow> scheme_make_integer 0 | [d] \<Rightarrow> make_single_bigdig_result rp d
        | _ \<Rightarrow> Big_Obj \<lparr>big_pos = rp, big_digs = ?ds\<rparr>)"
      using 3 unfolding do_bitop_def Let_def ad_def[symmetric] bd_def[symmetric] rn[symmetric] prod.case loop by simp
    moreover have "digs_ok ?ds" using trim_digs_ok[of out] by (auto simp: digs_ok_def)
    ultimately show ?thesis using digits_represent[of ?ds rp] R by simp
  qed
qed


lemma bitwise_represents:
  assumes "big_ok a" "big_ok b"
  shows "represents (scheme_bignum_and a b) (big_val a AND big_val b)"
    "represents (scheme_bignum_or a b) (big_val a OR big_val b)"
    "represents (scheme_bignum_xor a b) (big_val a XOR big_val b)"
  using do_bitop_represents[OF assms(1,2)] do_bitop_represents[OF assms(2,1)]
  unfolding scheme_bignum_and_def scheme_bignum_or_def scheme_bignum_xor_def
  by (auto simp: ac_simps dest: order_less_imp_le meta_spec[of _ Bit_And] meta_spec[of _ Bit_Or] meta_spec[of _ Bit_Xor])

subsection \<open>Shifts\<close>

lemma shift_result_represents:
  "represents (shift_result pos digs) (if pos then limbs_val digs else - limbs_val digs)"
proof (cases "trim_digs digs" rule: remdups_adj.cases)
  case 1
  then have "limbs_val digs = 0" using trim_digs_value[of digs] by simp
  then show ?thesis using 1 make_integer_represents[of 0] by (simp add: shift_result_def is_fixnum_def)
next
  case (2 d)
  then show ?thesis using trim_digs_ok[of digs] trim_digs_value[of digs]
    by (auto intro!: normalize_intro simp: big_ok_def big_val_def shift_result_def)
next
  case (3 d e es)
  then show ?thesis using trim_digs_ok[of digs] trim_digs_value[of digs]
    by (auto intro!: normalize_intro simp: big_ok_def big_val_def shift_result_def)
qed

lemma limbs_val_zero_iff: "limbs_val ds = 0 \<longleftrightarrow> (\<forall>d \<in> set ds. d = 0)"
proof (induction ds)
  case (Cons d ds)
  have "limbs_val (d # ds) = 0 \<longleftrightarrow> uint d = 0 \<and> limbs_val ds = 0" by (simp add: add_nonneg_eq_0_iff)
  then show ?case using Cons by (simp add: uint_0_iff)
qed simp

lemma limbs_val_div_mod:
  assumes "w \<le> length ds"
  shows "limbs_val ds div 2 ^ (64 * w) = limbs_val (drop w ds)" "limbs_val ds mod 2 ^ (64 * w) = limbs_val (take w ds)"
proof -
  have l: "limbs_val (take w ds) < 2 ^ (64 * w)" using limbs_val_less[of "take w ds"] assms by simp
  note s = limbs_val_split[OF assms]
  show "limbs_val ds div 2 ^ (64 * w) = limbs_val (drop w ds)"
    using s l by (intro int_div_pos_eq[of _ _ _ "limbs_val (take w ds)"]) simp_all
  show "limbs_val ds mod 2 ^ (64 * w) = limbs_val (take w ds)"
    using s l by (intro int_mod_pos_eq[of _ _ "limbs_val (drop w ds)"]) simp_all
qed

lemma neg_div: "0 < k \<Longrightarrow> - d div k = - (d div k + (if d mod k \<noteq> 0 then 1 else 0))" for d k :: int
  using zdiv_zminus1_eq_if[of k d] by auto

lemma add_1_no_carry:
  assumes "2 * limbs_val xs < 2 ^ (64 * length xs)" "xs \<noteq> []"
  shows "limbs_val (fst (mpn_add_1 xs 1)) = limbs_val xs + 1"
proof -
  obtain res c where r: "mpn_add_1 xs 1 = (res, c)" by (cases "mpn_add_1 xs 1")
  have v: "limbs_val res + 2 ^ (64 * length xs) * uint c = limbs_val xs + 1" using add_1_value[OF r] by simp
  have "(2 :: int) ^ 64 \<le> 2 ^ (64 * length xs)" using assms(2) by (intro power_increasing) (simp_all add: Suc_leI)
  then have "limbs_val xs + 1 < 2 ^ (64 * length xs)" using assms(1) by simp
  then have "2 ^ (64 * length xs) * uint c < 2 ^ (64 * length xs) * 1" using v limbs_val_nonneg[of res] by linarith
  then have "uint c < 1" by (simp only: mult_less_cancel_left_pos zero_less_power zero_less_numeral)
  then have "uint c = 0" using uint_bounds(1)[of c] by linarith
  then show ?thesis using v r by simp
qed

lemma right_shift_represents:
  assumes "big_ok n" "big_digs n \<noteq> []"
  shows "represents (bignum_right_shift n k) (big_val n div 2 ^ k)"
proof -
  define ds w bt where "ds = big_digs n" and "w = k div 64" and "bt = k mod 64"
  define D where "D = limbs_val ds"
  have k: "k = 64 * w + bt" "bt < 64" by (simp_all add: w_def bt_def)
  have Dpos: "0 < D" using assms digs_ok_zero[of ds] limbs_val_nonneg[of ds]
    by (simp add: D_def ds_def big_ok_def order_less_le del: limbs_val_nonneg)
  have val: "big_val n = (if big_pos n then D else - D)" by (simp add: big_val_def D_def ds_def)
  show ?thesis
  proof (cases "w \<ge> length ds")
    case True
    have "D < 2 ^ (64 * length ds)" unfolding D_def by (rule limbs_val_less)
    also have "(2 :: int) ^ (64 * length ds) \<le> 2 ^ k" using True k by (intro power_increasing) simp_all
    finally have "D div 2 ^ k = 0" "D mod 2 ^ k = D" using Dpos by simp_all
    then have "big_val n div 2 ^ k = (if big_pos n then 0 else -1)"
      using Dpos by (simp add: val neg_div)
    moreover have "bignum_right_shift n k = scheme_make_integer (if big_pos n then 0 else -1)"
      using True by (simp add: bignum_right_shift_def Let_def ds_def w_def)
    ultimately show ?thesis by (simp add: make_integer_represents is_fixnum_def)
  next
    case False
    let ?ex = "if bt = 0 \<and> \<not> big_pos n then 1 else 0 :: nat"
    define hi where "hi = drop w ds @ allocate_bigdig_array ?ex"
    obtain rs so where sh: "(rs, so) = (if bt \<noteq> 0 then mpn_rshift hi bt else (hi, 0))" by (rule pair_cases)
    have hi: "limbs_val hi = D div 2 ^ (64 * w)" "hi \<noteq> []"
      using False by (simp_all add: hi_def D_def allocate_bigdig_array_def limbs_val_append limbs_val_div_mod)
    have rs: "limbs_val rs = limbs_val hi div 2 ^ bt" "length rs = length hi" "so = 0 \<longleftrightarrow> limbs_val hi mod 2 ^ bt = 0"
      using mpn_rshift_value[of hi bt rs so] sh hi(2) k(2) by (cases "bt = 0"; simp)+
    have q: "limbs_val rs = D div 2 ^ k" unfolding rs hi k by (simp add: power_add zdiv_zmult2_eq)
    let ?off = "\<exists>d\<in>set (take w ds). d \<noteq> 0"
    have off: "?off \<longleftrightarrow> D mod 2 ^ (64 * w) \<noteq> 0"
      using False limbs_val_zero_iff[of "take w ds"] by (auto simp: D_def limbs_val_div_mod)
    have "D mod 2 ^ k = 2 ^ (64 * w) * (limbs_val hi mod 2 ^ bt) + D mod 2 ^ (64 * w)"
      unfolding hi k by (simp add: power_add zmod_zmult2_eq)
    then have "D mod 2 ^ k = 0 \<longleftrightarrow> limbs_val hi mod 2 ^ bt = 0 \<and> D mod 2 ^ (64 * w) = 0"
      using pos_mod_sign[of "2 ^ (64 * w)" D] pos_mod_sign[of "2 ^ bt" "limbs_val hi"]
      by (auto simp: add_nonneg_eq_0_iff)
    then have lost: "?off \<or> so \<noteq> 0 \<longleftrightarrow> D mod 2 ^ k \<noteq> 0" using off rs(3) by argo
    let ?rs = "if \<not> big_pos n \<and> (?off \<or> so \<noteq> 0) then fst (mpn_add_1 rs 1) else rs"
    have "bignum_right_shift n k = shift_result (big_pos n) ?rs"
      using False unfolding bignum_right_shift_def Let_def ds_def[symmetric] w_def[symmetric] bt_def[symmetric]
        hi_def[symmetric] sh[symmetric] prod.case by auto
    moreover have "limbs_val ?rs = D div 2 ^ k + (if \<not> big_pos n \<and> D mod 2 ^ k \<noteq> 0 then 1 else 0)"
    proof (cases "\<not> big_pos n \<and> (?off \<or> so \<noteq> 0)")
      case True
      have "2 * limbs_val rs < 2 ^ (64 * length rs)"
      proof (cases "bt = 0")
        case zero: True
        have "limbs_val rs = limbs_val (drop w ds)" using zero True sh by (simp add: hi_def allocate_bigdig_array_def limbs_val_append)
        also have "\<dots> < 2 ^ (64 * length (drop w ds))" by (rule limbs_val_less)
        also have "\<dots> \<le> 9223372036854775808 * 2 ^ (64 * length (drop w ds))" by simp
        finally show ?thesis using zero True rs(2) by (simp add: hi_def allocate_bigdig_array_def power_add)
      next
        case False
        have "2 * limbs_val rs \<le> 2 ^ bt * limbs_val rs"
          using False power_increasing[of 1 bt "2 :: int"] by (intro mult_right_mono) simp_all
        also have "\<dots> \<le> limbs_val hi" unfolding rs(1)
          using mult_div_mod_eq[of "2 ^ bt" "limbs_val hi"] pos_mod_sign[of "2 ^ bt" "limbs_val hi", OF zero_less_power[OF zero_less_numeral]]
          by linarith
        also have "\<dots> < 2 ^ (64 * length hi)" by (rule limbs_val_less)
        finally show ?thesis using rs(2) by simp
      qed
      then have "limbs_val (fst (mpn_add_1 rs 1)) = limbs_val rs + 1"
        using rs(2) hi(2) by (intro add_1_no_carry) auto
      then show ?thesis using True lost q by simp
    qed (use lost q in auto)
    ultimately show ?thesis
      using shift_result_represents[of "big_pos n" ?rs] by (auto simp: val neg_div split: if_splits)
  qed
qed


lemma left_shift_represents:
  assumes "big_ok n" "big_digs n \<noteq> []"
  shows "represents (bignum_left_shift n k) (big_val n * 2 ^ k)"
proof -
  define ds w bt where "ds = big_digs n" and "w = k div 64" and "bt = k mod 64"
  have k: "k = 64 * w + bt" "bt < 64" by (simp_all add: w_def bt_def)
  let ?digs = "if bt \<noteq> 0 then fst (mpn_lshift (ds @ [0]) bt) else ds"
  have v: "limbs_val ?digs = 2 ^ bt * limbs_val ds"
  proof (cases "bt = 0")
    case False
    obtain res out where r: "mpn_lshift (ds @ [0]) bt = (res, out)" by (cases "mpn_lshift (ds @ [0]) bt")
    have v: "limbs_val res + 2 ^ (64 * length (ds @ [0])) * uint out = 2 ^ bt * limbs_val ds"
      using mpn_lshift_value(1)[of "ds @ [0]" bt res out] r False k(2) by (simp add: limbs_val_append)
    have "2 ^ bt * limbs_val ds < 2 ^ bt * 2 ^ (64 * length ds)" using limbs_val_less[of ds] by simp
    also have "(2 :: int) ^ bt * 2 ^ (64 * length ds) \<le> 2 ^ 64 * 2 ^ (64 * length ds)"
      using k(2) by (intro mult_right_mono power_increasing) simp_all
    finally have "2 ^ bt * limbs_val ds < 2 ^ (64 * length (ds @ [0])) * 1" by (simp add: power_add)
    then have "2 ^ (64 * length (ds @ [0])) * uint out < 2 ^ (64 * length (ds @ [0])) * 1" using v limbs_val_nonneg[of res] by linarith
    then have "uint out < 1" by (simp only: mult_less_cancel_left_pos zero_less_power zero_less_numeral)
    then have "uint out = 0" using uint_bounds(1)[of out] by linarith
    then show ?thesis using v r False by simp
  qed simp
  have "limbs_val (allocate_bigdig_array w @ ?digs) = limbs_val ds * 2 ^ k"
    unfolding limbs_val_append v k by (simp add: allocate_bigdig_array_def power_add)
  moreover have "bignum_left_shift n k = shift_result (big_pos n) (allocate_bigdig_array w @ ?digs)"
    by (simp add: bignum_left_shift_def Let_def ds_def w_def bt_def)
  ultimately show ?thesis
    using shift_result_represents[of "big_pos n" "allocate_bigdig_array w @ ?digs"] by (auto simp: big_val_def ds_def)
qed

theorem shift_represents:
  assumes "big_ok n" "- (2 ^ 63) < s" "s < 2 ^ 63"
  shows "represents (scheme_bignum_shift n s)
    (if s < 0 then big_val n div 2 ^ nat (- s) else big_val n * 2 ^ nat s)"
proof (cases "big_digs n = []")
  case True
  then have "big_val n = 0" by (simp add: big_val_def)
  then show ?thesis using True make_integer_represents[of 0] by (simp add: scheme_bignum_shift_def is_fixnum_def)
next
  case False
  have "s < 0 \<Longrightarrow> intptr (- s) = - s" using assms by (intro intptr_id) linarith+
  moreover have "bignum_copy n 0 = n" by simp
  ultimately show ?thesis
    using False right_shift_represents[OF assms(1) False, of "nat (- s)"] left_shift_represents[OF assms(1) False, of "nat s"]
      normalize_represents[OF assms(1)]
    by (simp add: scheme_bignum_shift_def del: bignum_copy_0)
qed

end
