(* ===== verification/Exact_Int_Correct.thy ===== *)
theory Exact_Int_Correct
  imports Exact_Int Bignum_Correct
begin
unbundle bit_operations_syntax

section \<open>Exact integer arithmetic: correctness\<close>

text \<open>Every operation on normalised exact integers gives the right number as a normalised object;
  where the code does not, the theorems say exactly when.\<close>

declare scheme_bignum_normalize.simps(2) [simp del]

subsection \<open>Conversions\<close>

lemma is_fixnum_intptr: "is_fixnum i \<Longrightarrow> - (2 ^ 63) \<le> i \<and> i < 2 ^ 63"
  by (simp add: is_fixnum_def)

lemma is_fixnumD: "is_fixnum i \<Longrightarrow> - (2 ^ 62) \<le> i" "is_fixnum i \<Longrightarrow> i < 2 ^ 62"
  by (simp_all add: is_fixnum_def)

lemma small_bignum_fixnum:
  assumes "is_fixnum i"
  shows "big_val (scheme_make_small_bignum i) = i" "big_ok (scheme_make_small_bignum i)"
    "no_neg_zero (scheme_make_small_bignum i)"
proof -
  show "big_val (scheme_make_small_bignum i) = i" "big_ok (scheme_make_small_bignum i)"
    using small_bignum_value is_fixnum_intptr[OF assms] by blast+
  show "no_neg_zero (scheme_make_small_bignum i)"
  proof (cases "i < 0")
    case True
    then have "big_digs (scheme_make_small_bignum i) \<noteq> []"
      using \<open>big_val (scheme_make_small_bignum i) = i\<close> by (auto simp: big_val_def split: if_splits)
    then show ?thesis by (simp add: no_neg_zero_def)
  next
    case False
    then show ?thesis by (simp add: no_neg_zero_def scheme_make_small_bignum_def Let_def)
  qed
qed

lemma int_ok_big: "int_ok (Big_Obj b) \<Longrightarrow> big_ok b \<and> no_neg_zero b"
  using not_fixnum_no_neg_zero by simp

lemma to_bignum_ok:
  assumes "int_ok ob"
  shows "big_val (scheme_to_bignum ob) = int_val ob" "big_ok (scheme_to_bignum ob)" "no_neg_zero (scheme_to_bignum ob)"
  using assms small_bignum_fixnum int_ok_big by (cases ob; simp add: scheme_make_bignum_def)+

lemma represents_refl: "int_ok ob \<Longrightarrow> represents ob (int_val ob)"
  by (simp add: represents_def)

lemma represents_fixnum: "is_fixnum i \<Longrightarrow> represents (Int_Obj i) i"
  by (simp add: represents_def)

lemma make_integer_value_represents:
  assumes "- (2 ^ 63) \<le> i" "i < 2 ^ 63"
  shows "represents (scheme_make_integer_value i) i"
proof (cases "is_fixnum i")
  case True
  then show ?thesis using make_integer_represents[OF True] by (simp add: scheme_make_integer_value_def Let_def represents_def)
next
  case False
  then have "int_val (scheme_make_integer i) \<noteq> i" by (simp add: scheme_make_integer_def is_fixnum_tag)
  then show ?thesis using small_bignum_value[OF assms] False
    by (simp add: scheme_make_integer_value_def Let_def represents_def scheme_make_bignum_def)
qed

lemma from_unsigned_represents: "represents (scheme_make_integer_value_from_unsigned w) (uint w)"
proof -
  show ?thesis
  proof (cases "uint w < 2 ^ 62")
    case True
    have "signed_take_bit 63 (uint w) = uint w" using True by (intro signed_take_bit_int_eq_self order_trans[OF _ uint_ge_0]) simp_all
    then have s: "sint w = uint w" by (simp add: sint_uint)
    have "- (2 ^ 62) \<le> uint w" by (rule order_trans[OF _ uint_ge_0]) simp
    then have f: "is_fixnum (uint w)" using True by (simp add: is_fixnum_def)
    then have "scheme_make_integer (sint w) = Int_Obj (uint w)" by (simp add: scheme_make_integer_def s is_fixnum_tag)
    then show ?thesis using f by (simp add: scheme_make_integer_value_from_unsigned_def Let_def represents_def)
  next
    case False
    define t where "t = signed_take_bit 62 (sint w)"
    have t: "t < 2 ^ 62" unfolding t_def by (rule signed_take_bit_int_less_exp)
    have n: "\<not> (0 \<le> t \<and> word_of_int t = w)"
    proof
      assume a: "0 \<le> t \<and> word_of_int t = w"
      then have "uint (word_of_int t :: uintptr) = t" using t uint_intptr[of t] by simp
      then show False using a t False by simp
    qed
    moreover have "w \<noteq> 0" using False by auto
    moreover have "scheme_make_integer (sint w) = Int_Obj t" by (simp add: scheme_make_integer_def t_def)
    ultimately show ?thesis using False
      by (auto simp: scheme_make_integer_value_from_unsigned_def scheme_make_bignum_from_unsigned_def Let_def
          represents_def big_ok_def digs_ok_def big_val_def is_fixnum_def)
  qed
qed

text \<open>A normalised object is determined by its number.\<close>

lemma big_val_inject:
  assumes "big_ok a" "no_neg_zero a" "big_ok b" "no_neg_zero b" "big_val a = big_val b"
  shows "a = b"
proof -
  have p: "big_pos a = big_pos b" using big_val_sign[OF assms(1,2)] big_val_sign[OF assms(3,4)] assms(5) by simp
  then have "limbs_val (big_digs a) = limbs_val (big_digs b)" using assms(5) by (auto simp: big_val_def split: if_splits)
  then have "big_digs a = big_digs b" using assms(1,3) by (intro digs_ok_inject) (simp_all add: big_ok_def)
  then show ?thesis using p by simp
qed

lemma int_ok_inject: "int_ok a \<Longrightarrow> int_ok b \<Longrightarrow> int_val a = int_val b \<longleftrightarrow> a = b"
  using int_ok_big big_val_inject by (cases a; cases b) auto

lemma represents_unique: "represents a v \<Longrightarrow> represents b v \<Longrightarrow> a = b"
  using int_ok_inject by (auto simp: represents_def)

subsection \<open>Fixnum arithmetic\<close>

lemma intptr_mod: "intptr v mod 2 ^ 64 = v mod 2 ^ 64"
  using take_bit_signed_take_bit[of 64 63 v] by (simp add: intptr_def take_bit_eq_mod)

lemma tag_mod: "signed_take_bit 62 v mod 2 ^ 63 = v mod 2 ^ 63"
  using take_bit_signed_take_bit[of 63 62 v] by (simp add: take_bit_eq_mod)

lemma tag_intptr: "signed_take_bit 62 (intptr v) = signed_take_bit 62 v"
  by (simp add: intptr_def)

lemma intptr_fixnums: "is_fixnum x \<Longrightarrow> is_fixnum y \<Longrightarrow> intptr (x + y) = x + y"
    "is_fixnum x \<Longrightarrow> is_fixnum y \<Longrightarrow> intptr (x - y) = x - y"
  by (intro intptr_id; simp add: is_fixnum_def)+

lemma tag_range: "is_fixnum (signed_take_bit 62 v)"
  unfolding is_fixnum_def using signed_take_bit_int_greater_eq_minus_exp[of 62 v] signed_take_bit_int_less_exp[of 62 v] by simp

lemma ADD_represents:
  assumes "is_fixnum a" "is_fixnum b"
  shows "represents (ADD a b) (a + b)"
proof -
  let ?r = "signed_take_bit 62 (a + b)"
  have "intptr (?r - a) = ?r - a" using intptr_fixnums(2)[OF tag_range assms(1)] .
  then have "ADD a b = (if b = ?r - a then Int_Obj ?r else ADD_slow a b)"
    by (simp add: ADD_def Let_def scheme_make_integer_def tag_intptr)
  moreover have "represents (ADD_slow a b) (a + b)"
    using add_sub_represents[of "scheme_make_small_bignum a" "scheme_make_small_bignum b" False]
    by (simp add: ADD_slow_def scheme_bignum_add_def small_bignum_fixnum assms)
  ultimately show ?thesis using tag_range[of "a + b"] by (auto simp: represents_def)
qed

lemma SUBTRACT_represents:
  assumes "is_fixnum a" "is_fixnum b"
  shows "represents (SUBTRACT a b) (a - b)"
proof -
  let ?r = "signed_take_bit 62 (a - b)"
  have "intptr (?r + b) = ?r + b" using intptr_fixnums(1)[OF tag_range assms(2)] .
  then have "SUBTRACT a b = (if a = ?r + b then Int_Obj ?r else SUBTRACT_slow a b)"
    by (simp add: SUBTRACT_def Let_def scheme_make_integer_def tag_intptr)
  moreover have "represents (SUBTRACT_slow a b) (a - b)"
    using add_sub_represents[of "scheme_make_small_bignum a" "scheme_make_small_bignum b" True]
    by (simp add: SUBTRACT_slow_def scheme_bignum_subtract_def small_bignum_fixnum assms)
  ultimately show ?thesis using tag_range[of "a - b"] by (auto simp: represents_def)
qed

text \<open>The test \<^verbatim>\<open>a == r / b\<close> accepts only the exact product: the remainder of the division is less
  than \<open>2 ^ 62\<close> and a multiple of \<open>2 ^ 63\<close>.\<close>

lemma MULTIPLY_test:
  assumes "is_fixnum b" "b \<noteq> 0" "r mod 2 ^ 63 = a * b mod 2 ^ 63" "a = r sdiv b"
  shows "r = a * b"
proof -
  define m where "m = r - a * b"
  have m: "m = r smod b" using assms(4) using sdiv_mult_smod_eq[of r b] by (simp add: m_def)
  have "\<bar>m\<bar> < \<bar>b\<bar>" using smod_int_range[OF assms(2), of r] by (simp add: m abs_less_iff)
  also have "\<dots> \<le> 2 ^ 62" using assms(1) by (auto simp: is_fixnum_def)
  finally have small: "\<bar>m\<bar> < 2 ^ 62" .
  have "2 ^ 63 dvd m" using assms(3) by (simp add: m_def mod_eq_dvd_iff)
  then have "m = 0" using small zdvd_imp_le[of "2 ^ 63" "\<bar>m\<bar>"] by (cases "m = 0") auto
  then show ?thesis by (simp add: m_def)
qed

subsection \<open>The generic operations\<close>

lemma plus_represents:
  assumes "int_ok a" "int_ok b"
  shows "represents (scheme_bin_plus a b) (int_val a + int_val b)"
  using assms ADD_represents add_sub_represents[where sub = False] small_bignum_fixnum
  by (cases a; cases b) (auto simp: scheme_bignum_add_def represents_def)

lemma minus_represents:
  assumes "int_ok a" "int_ok b"
  shows "represents (scheme_bin_minus a b) (int_val a - int_val b)"
  using assms SUBTRACT_represents add_sub_represents[where sub = True] small_bignum_fixnum
  by (cases a; cases b) (auto simp: scheme_bignum_subtract_def represents_def)

context limb_product
begin

lemma MULTIPLY_represents:
  assumes "is_fixnum a" "is_fixnum b"
  shows "represents (MULTIPLY mul a b) (a * b)"
proof (cases "b = 0")
  case True
  then show ?thesis by (simp add: MULTIPLY_def represents_def is_fixnum_def)
next
  case False
  let ?r = "signed_take_bit 62 (a * b)"
  have "MULTIPLY mul a b = (if a = ?r sdiv b then Int_Obj ?r
      else scheme_bignum_multiply mul (scheme_make_small_bignum a) (scheme_make_small_bignum b))"
    using False by (simp add: MULTIPLY_def Let_def scheme_make_integer_def tag_intptr)
  moreover have "?r = a * b" if "a = ?r sdiv b"
    by (rule MULTIPLY_test[OF assms(2) False tag_mod that])
  ultimately show ?thesis
    using multiply_represents[of "scheme_make_small_bignum a" "scheme_make_small_bignum b"] tag_range[of "a * b"]
    by (simp add: small_bignum_fixnum assms represents_def)
qed

lemma mult_represents:
  assumes "int_ok a" "int_ok b"
  shows "represents (scheme_bin_mult mul a b) (int_val a * int_val b)"
proof -
  have z: "represents (Int_Obj 0) 0" by (simp add: represents_def is_fixnum_def)
  show ?thesis
    using assms MULTIPLY_represents multiply_represents small_bignum_fixnum z
    by (cases a; cases b) (auto simp: represents_def)
qed

end

lemma add1_sub1_represents:
  assumes "int_ok a"
  shows "represents (scheme_add1 a) (int_val a + 1)" "represents (scheme_sub1 a) (int_val a - 1)"
proof -
  show "represents (scheme_add1 a) (int_val a + 1)"
  proof (cases a)
    case (Int_Obj v)
    have "v < 0x3FFFFFFF \<Longrightarrow> is_fixnum (v + 1)" using assms Int_Obj by (simp add: is_fixnum_def)
    then show ?thesis using Int_Obj assms make_integer_represents[of "v + 1"]
        add1_represents[of "scheme_make_small_bignum v"] by (simp add: small_bignum_fixnum)
  qed (use assms add1_represents in simp)
  show "represents (scheme_sub1 a) (int_val a - 1)"
  proof (cases a)
    case (Int_Obj v)
    have "v > - 0x3FFFFFFF \<Longrightarrow> is_fixnum (v - 1)" using assms Int_Obj by (simp add: is_fixnum_def)
    then show ?thesis using Int_Obj assms make_integer_represents[of "v - 1"]
        sub1_represents[of "scheme_make_small_bignum v"] by (simp add: small_bignum_fixnum)
  qed (use assms sub1_represents in simp)
qed

lemma abs_represents:
  assumes "int_ok a"
  shows "represents (scheme_abs a) \<bar>int_val a\<bar>"
proof (cases a)
  case (Int_Obj i)
  have "represents (scheme_make_integer_value \<bar>i\<bar>) \<bar>i\<bar>"
    using assms Int_Obj by (intro make_integer_value_represents) (auto simp: is_fixnum_def)
  moreover have "(if i > 0 then i else - i) = \<bar>i\<bar>" by simp
  ultimately show ?thesis using Int_Obj by simp
next
  case (Big_Obj b)
  then have b: "big_ok b" "no_neg_zero b" "\<not> is_fixnum (big_val b)" using assms int_ok_big by auto
  show ?thesis
  proof (cases "big_pos b")
    case True
    then show ?thesis using assms Big_Obj big_val_sign[OF b(1,2)] by (simp add: represents_def)
  next
    case False
    have v: "big_val (scheme_bignum_negate b) = - big_val b" by (simp add: scheme_bignum_negate_def big_val_def)
    have "big_val b < 0" using big_val_sign[OF b(1,2)] False by simp
    then have "\<not> is_fixnum (- big_val b)" using b(3) by (auto simp: is_fixnum_def)
    then show ?thesis using False Big_Obj v b(1) \<open>big_val b < 0\<close>
      by (simp add: represents_def big_ok_def) (simp add: scheme_bignum_negate_def)
  qed
qed

lemma bin_lt_value:
  assumes "int_ok a" "int_ok b"
  shows "scheme_bin_lt a b \<longleftrightarrow> int_val a < int_val b" "scheme_bin_lt_eq a b \<longleftrightarrow> int_val a \<le> int_val b"
    "scheme_is_negative a \<longleftrightarrow> int_val a < 0"
proof -
  show "scheme_bin_lt a b \<longleftrightarrow> int_val a < int_val b"
    using assms small_bignum_fixnum int_ok_big by (cases a; cases b) (simp_all add: lt_value)
  show "scheme_bin_lt_eq a b \<longleftrightarrow> int_val a \<le> int_val b"
    using assms small_bignum_fixnum int_ok_big
    by (cases a; cases b) (simp_all add: scheme_bignum_le_def scheme_bignum_gt_def lt_value not_less)
  show "scheme_is_negative a \<longleftrightarrow> int_val a < 0"
    using assms int_ok_big big_val_sign by (cases a) auto
qed

lemma bitwise_fixnum:
  assumes "is_fixnum a" "is_fixnum b"
  shows "is_fixnum (bit_int op a b)" "is_fixnum (NOT a)"
proof -
  have "signed_take_bit 62 (bit_int op a b) = bit_int op (signed_take_bit 62 a) (signed_take_bit 62 b)"
    by (cases op) (auto simp: bit_eq_iff bit_simps)
  then show "is_fixnum (bit_int op a b)" using assms by (simp add: is_fixnum_tag)
  then show "is_fixnum (NOT a)" using assms by (simp add: is_fixnum_def not_int_def)
qed

lemma bin_bitwise_represents:
  assumes "int_ok a" "int_ok b"
  shows "represents (bin_bitwise op a b) (bit_int op (int_val a) (int_val b))"
proof -
  have big: "represents ((case op of Bit_And \<Rightarrow> scheme_bignum_and | Bit_Or \<Rightarrow> scheme_bignum_or | Bit_Xor \<Rightarrow> scheme_bignum_xor)
      (scheme_to_bignum a) (scheme_to_bignum b)) (bit_int op (int_val a) (int_val b))"
    using bitwise_represents[OF to_bignum_ok(2)[OF assms(1)] to_bignum_ok(2)[OF assms(2)]]
    by (cases op) (simp_all add: to_bignum_ok assms)
  show ?thesis
  proof (cases a)
    case (Int_Obj i)
    show ?thesis
    proof (cases b)
      case b: (Int_Obj j)
      then show ?thesis using make_integer_represents[OF bitwise_fixnum(1)[of i j op]] assms Int_Obj
        by (cases op) simp_all
    qed (use big Int_Obj in \<open>simp add: scheme_make_bignum_def\<close>)
  next
    case (Big_Obj n)
    then show ?thesis using big by (cases b) (simp_all add: scheme_make_bignum_def)
  qed
qed

lemma bitwise_not_represents:
  assumes "int_ok a"
  shows "represents (bitwise_not a) (NOT (int_val a))"
proof (cases a)
  case (Int_Obj i)
  then show ?thesis using make_integer_represents[OF bitwise_fixnum(2)] assms by simp
next
  case (Big_Obj b)
  have s: "represents (scheme_bignum_add1 b) (big_val b + 1)" using assms Big_Obj by (intro add1_represents) simp
  show ?thesis
  proof (cases "scheme_bignum_add1 b")
    case (Int_Obj i)
    have "represents (Int_Obj i) (big_val b + 1)" using s unfolding Int_Obj .
    then have i: "i = big_val b + 1" "is_fixnum i" by (auto simp: represents_def)
    moreover have "is_fixnum (big_val b + 1)" using i(2) unfolding i(1) .
    ultimately show ?thesis using minus_represents[of "Int_Obj 0" "Int_Obj i"] Big_Obj Int_Obj
      by (simp add: scheme_bignum_not_def scheme_make_integer_def is_fixnum_def not_int_def)
  next
    case o: (Big_Obj r)
    then have "big_ok r" "big_val r = big_val b + 1" using s by (simp_all add: represents_def)
    then have "big_ok (r\<lparr>big_pos := \<not> big_pos r\<rparr>)" "big_val (r\<lparr>big_pos := \<not> big_pos r\<rparr>) = NOT (big_val b)"
      by (auto simp: big_ok_def big_val_def not_int_def)
    then show ?thesis using Big_Obj o by (simp add: scheme_bignum_not_def normalize_intro)
  qed
qed

subsection \<open>Shifts\<close>

lemma shifted_fixnum:
  assumes "0 < s" "s \<le> 61" "signed_take_bit 62 (i * 2 ^ s) div 2 ^ s = i"
  shows "signed_take_bit 62 (i * 2 ^ s) = (i * 2 ^ s :: int)"
proof -
  define t where "t = signed_take_bit 62 (i * 2 ^ s)"
  have d: "(2 :: int) ^ s dvd 2 ^ 63" using assms(2) by (intro le_imp_power_dvd) simp
  have "t mod 2 ^ s = t mod 2 ^ 63 mod 2 ^ s" by (rule mod_mod_cancel[OF d, symmetric])
  also have "\<dots> = i * 2 ^ s mod 2 ^ 63 mod 2 ^ s" unfolding t_def tag_mod ..
  also have "\<dots> = i * 2 ^ s mod 2 ^ s" by (rule mod_mod_cancel[OF d])
  finally have "t mod 2 ^ s = 0" by simp
  moreover have "t div 2 ^ s = i" using assms(3) by (simp only: t_def)
  ultimately have "t = i * 2 ^ s" using div_mult_mod_eq[of t "2 ^ s"] by simp
  then show ?thesis by (simp only: t_def)
qed

definition shifted :: "int \<Rightarrow> int \<Rightarrow> int" where
  "shifted v s = (if s < 0 then v div 2 ^ nat (- s) else v * 2 ^ nat s)"

lemma fixnum_shift_represents:
  assumes "is_fixnum i" "s \<noteq> 0" "fixnum_shift i s = Some r"
  shows "represents r (shifted i s)"
proof -
  consider "i = 0" | "0 < i" "s < 0" | "0 < i" "0 < s" "s \<le> MAX_SHIFT_TRY" | "i < 0 \<or> 0 < i \<and> \<not> s < 0 \<and> \<not> s \<le> MAX_SHIFT_TRY"
    using assms(2) by linarith
  then show ?thesis
  proof cases
    case 1
    then show ?thesis using assms(3) by (auto simp: fixnum_shift_def shifted_def represents_def is_fixnum_def)
  next
    case 2
    let ?k = "nat (- s)"
    have r: "r = scheme_make_integer (if - s < MAX_SHIFT_EVER then drop_bit ?k i else 0)"
      using 2 assms(3) by (simp add: fixnum_shift_def Let_def)
    have "(if - s < MAX_SHIFT_EVER then drop_bit ?k i else 0) = i div 2 ^ ?k"
    proof (cases "- s < MAX_SHIFT_EVER")
      case False
      then have "(2 :: int) ^ 62 \<le> 2 ^ ?k" by (intro power_increasing) (simp_all add: MAX_SHIFT_EVER_def)
      then have "i < 2 ^ ?k" using assms(1) by (simp add: is_fixnum_def)
      then show ?thesis using False 2 by simp
    qed (simp add: drop_bit_eq_div)
    moreover have "is_fixnum (i div 2 ^ ?k)"
    proof -
      have "0 \<le> i div 2 ^ ?k" "i div 2 ^ ?k \<le> i" using 2 zdiv_mono2[of i 1 "2 ^ ?k"] by (simp_all add: pos_imp_zdiv_nonneg_iff)
      then show ?thesis using assms(1) by (simp add: is_fixnum_def)
    qed
    ultimately show ?thesis using 2 make_integer_represents by (simp add: r shifted_def)
  next
    case 3
    let ?k = "nat s"
    have k: "0 < ?k" "?k \<le> 61" using 3 by (auto simp: MAX_SHIFT_TRY_def)
    let ?t = "signed_take_bit 62 (i * 2 ^ ?k)"
    have "scheme_make_integer (intptr (push_bit ?k i)) = Int_Obj ?t"
      by (simp add: scheme_make_integer_def tag_intptr push_bit_eq_mult)
    then have r: "?t div 2 ^ ?k = i" "r = Int_Obj ?t"
      using 3 assms(3) by (auto simp: fixnum_shift_def Let_def drop_bit_eq_div split: if_splits)
    have "r = Int_Obj (i * 2 ^ ?k)" "is_fixnum (i * 2 ^ ?k)"
      using r(2) shifted_fixnum[OF k r(1)] by (simp_all add: is_fixnum_tag)
    then show ?thesis using 3 by (simp add: shifted_def represents_fixnum)
  next
    case 4
    then show ?thesis using assms(3) by (auto simp: fixnum_shift_def)
  qed
qed

lemma bitwise_shift_represents:
  assumes "int_ok v" "is_fixnum s"
  shows "\<exists>r. scheme_bitwise_shift False v (Int_Obj s) = Inr r \<and> represents r (shifted (int_val v) s)"
proof (cases "s = 0")
  case True
  then show ?thesis using represents_refl[OF assms(1)] by (simp add: shifted_def)
next
  case False
  have "- (2 ^ 63) < s" "s < 2 ^ 63" using assms(2) by (simp_all add: is_fixnum_def)
  then have big: "represents (scheme_bignum_shift (scheme_to_bignum v) s) (shifted (int_val v) s)"
    using shift_represents[OF to_bignum_ok(2)[OF assms(1)], of s]
    unfolding shifted_def to_bignum_ok(1)[OF assms(1)] by blast
  show ?thesis
  proof (cases v)
    case (Int_Obj i)
    then show ?thesis using False big fixnum_shift_represents[of i s] assms
      by (cases "fixnum_shift i s") auto
  qed (use False big in auto)
qed

subsection \<open>Single bits and bit fields\<close>

lemma bit_limbs_val:
  "bit (limbs_val ds) k \<longleftrightarrow> k div 64 < length ds \<and> bit (ds ! (k div 64)) (k mod 64)"
proof (induction ds arbitrary: k)
  case (Cons d ds)
  show ?case
  proof (cases "k < 64")
    case True
    have "bit (limbs_val (d # ds)) k \<longleftrightarrow> bit (take_bit 64 (limbs_val (d # ds))) k" using True by (simp add: bit_take_bit_iff)
    also have "take_bit 64 (limbs_val (d # ds)) = uint d" using low_high(1)[of d "limbs_val ds"] by simp
    finally show ?thesis using True by (simp add: bit_uint_iff)
  next
    case False
    then obtain j where k: "k = 64 + j" using le_Suc_ex[of 64 k] by (auto simp: not_less)
    have "bit (limbs_val (d # ds)) k \<longleftrightarrow> bit (drop_bit 64 (limbs_val (d # ds))) j" by (simp add: k bit_drop_bit_eq)
    also have "drop_bit 64 (limbs_val (d # ds)) = limbs_val ds" using low_high(2)[of d "limbs_val ds"] by simp
    finally have "bit (limbs_val (d # ds)) k \<longleftrightarrow> j div 64 < length ds \<and> bit (ds ! (j div 64)) (j mod 64)"
      by (simp only: Cons)
    moreover have "k div 64 = Suc (j div 64)" "k mod 64 = j mod 64" by (simp_all add: k)
    ultimately show ?thesis by simp
  qed
qed simp

lemma bit_beyond:
  assumes "big_ok b" "no_neg_zero b" "length (big_digs b) \<le> k div 64"
  shows "bit (big_val b) k \<longleftrightarrow> \<not> big_pos b"
proof -
  have l: "length (big_digs b) \<le> k div 64" "64 * (k div 64) \<le> k" using assms(3) by simp_all
  have "drop_bit (64 * (k div 64)) (big_val b) = (if big_pos b then 0 else -1)"
    unfolding big_val_def using assms(1,2) digs_ok_zero[of "big_digs b"]
    by (intro drop_signed[OF l(1)]) (auto simp: big_ok_def no_neg_zero_def)
  moreover have "bit (big_val b) k \<longleftrightarrow> bit (drop_bit (64 * (k div 64)) (big_val b)) (k - 64 * (k div 64))"
    using l(2) by (simp add: bit_drop_bit_eq)
  ultimately show ?thesis by simp
qed

lemma bit_fixnum_beyond:
  assumes "is_fixnum i" "62 \<le> k"
  shows "bit i k \<longleftrightarrow> i < 0"
proof -
  have "bit i k \<longleftrightarrow> bit (signed_take_bit 62 i) k" using assms(1) by (simp add: is_fixnum_tag)
  also have "\<dots> \<longleftrightarrow> bit i 62" using assms(2) by (simp add: bit_signed_take_bit_iff min_def)
  also have "\<dots> \<longleftrightarrow> signed_take_bit 62 i < 0" by simp
  finally show ?thesis using assms(1) by (simp only: is_fixnum_tag)
qed

lemma word_index: "0 \<le> v \<Longrightarrow> v < int n \<longleftrightarrow> nat v < n" "0 \<le> v \<Longrightarrow> nat (v div 64) = nat v div 64"
    "0 \<le> v \<Longrightarrow> nat (v AND 63) = nat v mod 64" for v :: int
proof -
  have m: "v AND 63 = v mod 64" using take_bit_eq_mask[of 6 v] by (simp add: take_bit_eq_mod mask_eq_exp_minus_1)
  show "0 \<le> v \<Longrightarrow> v < int n \<longleftrightarrow> nat v < n" "0 \<le> v \<Longrightarrow> nat (v div 64) = nat v div 64"
    "0 \<le> v \<Longrightarrow> nat (v AND 63) = nat v mod 64"
    by (auto simp: nat_div_distrib nat_mod_distrib m)
qed

lemma bit_set_p_value:
  assumes "int_ok so" "0 \<le> v" "is_fixnum v"
  shows "bitwise_bit_set_p so (Int_Obj v) = Inr (bit (int_val so) (nat v))"
proof (cases so)
  case (Int_Obj i)
  show ?thesis
  proof (cases "v < 64")
    case True
    have "push_bit (nat v) 1 AND (word_of_int i :: uintptr) \<noteq> 0 \<longleftrightarrow> bit (word_of_int i :: uintptr) (nat v)"
      by (simp add: bit_iff_and_push_bit_not_eq_0 and.commute)
    moreover have "nat v < 64" using True by simp
    ultimately show ?thesis using True assms Int_Obj by (simp add: bit_word_of_int_iff)
  next
    case False
    then show ?thesis using assms Int_Obj bit_fixnum_beyond[of i "nat v"] by simp
  qed
next
  case (Big_Obj b)
  have ok: "big_ok b" "no_neg_zero b" using assms(1) Big_Obj int_ok_big by auto
  let ?k = "nat v"
  have ge: "v div 64 \<ge> int (length (big_digs b)) \<longleftrightarrow> length (big_digs b) \<le> ?k div 64"
    using word_index(1)[of "v div 64" "length (big_digs b)"] word_index(2)[OF assms(2)] assms(2)
    by (simp add: not_less[symmetric] pos_imp_zdiv_nonneg_iff)
  consider "length (big_digs b) \<le> ?k div 64" | "\<not> length (big_digs b) \<le> ?k div 64" "big_pos b"
    | "\<not> length (big_digs b) \<le> ?k div 64" "\<not> big_pos b" by blast
  then show ?thesis
  proof cases
    case 1
    then show ?thesis using ge assms(2) bit_beyond[OF ok 1] Big_Obj by (simp add: Let_def)
  next
    case 2
    have "bitwise_bit_set_p so (Int_Obj v) = Inr (push_bit (?k mod 64) 1 AND big_digs b ! (?k div 64) \<noteq> 0)"
      using 2 ge assms(2) Big_Obj by (simp add: Let_def word_index)
    moreover have "push_bit (?k mod 64) 1 AND big_digs b ! (?k div 64) \<noteq> 0 \<longleftrightarrow> bit (big_digs b ! (?k div 64)) (?k mod 64)"
      by (simp add: bit_iff_and_push_bit_not_eq_0 and.commute)
    ultimately show ?thesis using 2 Big_Obj by (simp add: big_val_def bit_limbs_val)
  next
    case 3
    define sh where "sh = scheme_bignum_shift (scheme_make_bignum 1) v"
    have "big_ok (scheme_make_bignum 1)" "big_val (scheme_make_bignum 1) = 1"
      using bignum_one_ok by (simp_all add: bignum_one_def)
    then have "represents sh (2 ^ ?k)"
      using shift_represents[of "scheme_make_bignum 1" v] assms(2) is_fixnum_intptr[OF assms(3)] by (simp add: sh_def)
    then have sh: "int_ok sh" "int_val sh = 2 ^ ?k" by (simp_all add: represents_def)
    have conj: "represents (scheme_bignum_and (scheme_to_bignum sh) b) (2 ^ ?k AND big_val b)"
      using bitwise_represents(1)[OF to_bignum_ok(2)[OF sh(1)] ok(1)] to_bignum_ok(1)[OF sh(1)] sh(2) by simp
    have zero: "represents (scheme_make_integer 0) 0" by (rule make_integer_represents) (simp add: is_fixnum_def)
    have "scheme_bignum_and (scheme_to_bignum sh) b = scheme_make_integer 0 \<longleftrightarrow> 2 ^ ?k AND big_val b = 0"
      using conj zero represents_unique by (metis represents_def)
    moreover have "2 ^ ?k AND big_val b \<noteq> 0 \<longleftrightarrow> bit (big_val b) ?k"
      by (simp add: bit_iff_and_push_bit_not_eq_0 and.commute push_bit_eq_mult)
    moreover have "bitwise_bit_set_p so (Int_Obj v) =
        Inr (scheme_bignum_and (scheme_to_bignum sh) b \<noteq> scheme_make_integer 0)"
      using 3 ge assms(2) Big_Obj by (cases sh) (simp_all add: Let_def flip: sh_def)
    ultimately show ?thesis using Big_Obj by simp
  qed
qed

lemma field_word:
  fixes d :: uintptr
  assumes "n < 64" "\<And>j. j < n \<Longrightarrow> bit d j \<longleftrightarrow> bit x j"
  shows "uint (d AND (push_bit n 1 - 1)) = take_bit n (x :: int)"
proof -
  have "push_bit n 1 - 1 = (mask n :: uintptr)" by (simp add: push_bit_eq_mult mask_eq_exp_minus_1)
  then have "d AND (push_bit n 1 - 1) = take_bit n d" by (simp add: take_bit_eq_mask)
  then have "uint (d AND (push_bit n 1 - 1)) = take_bit n (uint d)" by (simp add: unsigned_take_bit_eq)
  also have "\<dots> = take_bit n x" using assms by (auto simp: bit_eq_iff bit_take_bit_iff bit_uint_iff)
  finally show ?thesis .
qed

lemma divmod64: "m = 64 * q + r \<Longrightarrow> r < 64 \<Longrightarrow> m div 64 = q \<and> m mod 64 = r" for m q r :: nat
  by simp

lemma next_digit: "m = 64 * q + (r + j) \<Longrightarrow> \<not> r + j < 64 \<Longrightarrow> r < 64 \<Longrightarrow> m = 64 * Suc q + (j - (64 - r))"
  for m q r j :: nat
  by simp

lemma fast_bit_field_represents:
  assumes "int_ok so" "0 \<le> v1" "0 \<le> n" "n < 64" "fast_bit_field so v1 n = Some r"
  shows "represents r (take_bit (nat n) (drop_bit (nat v1) (int_val so)))"
proof (cases so)
  case (Int_Obj i)
  then have i: "is_fixnum i" using assms(1) by simp
  show ?thesis
  proof (cases "v1 < 64")
    case True
    then have r: "r = scheme_make_integer_value_from_unsigned
        (word_of_int (drop_bit (nat v1) i) AND (push_bit (nat n) 1 - 1))"
      using assms(5) Int_Obj by simp
    have "uint (word_of_int (drop_bit (nat v1) i) AND (push_bit (nat n) 1 - 1) :: uintptr) = take_bit (nat n) (drop_bit (nat v1) i)"
      using assms(3,4) by (intro field_word) (auto simp: bit_word_of_int_iff)
    then show ?thesis using from_unsigned_represents Int_Obj by (simp only: r int_val.simps) metis
  next
    case False
    then have "0 < i" "r = scheme_make_integer 0" using assms(5) Int_Obj by (auto split: if_splits)
    moreover have "i < 2 ^ nat v1"
    proof -
      have "(2 :: int) ^ 62 \<le> 2 ^ nat v1" using False by (intro power_increasing) simp_all
      then show ?thesis using i by (simp add: is_fixnum_def)
    qed
    ultimately have "drop_bit (nat v1) i = 0" by (simp add: drop_bit_eq_div)
    then show ?thesis using \<open>r = scheme_make_integer 0\<close> Int_Obj make_integer_represents[of 0] by (simp add: is_fixnum_def)
  qed
next
  case (Big_Obj b)
  define ds k where "ds = big_digs b" and "k = nat v1"
  have pos: "big_pos b" using assms(5) Big_Obj by (auto split: if_splits)
  have ok: "big_ok b" "no_neg_zero b" using assms(1) Big_Obj int_ok_big by auto
  have v: "int_val so = limbs_val ds" using pos Big_Obj by (simp add: big_val_def ds_def)
  note ix = word_index(2,3)[OF assms(2)]
  have ge: "v1 div 64 \<ge> int (length ds) \<longleftrightarrow> length ds \<le> k div 64"
    using word_index(1)[of "v1 div 64" "length ds"] ix(1) assms(2)
    by (simp add: not_less[symmetric] pos_imp_zdiv_nonneg_iff k_def)
  show ?thesis
  proof (cases "length ds \<le> k div 64")
    case True
    have "\<not> bit (drop_bit k (limbs_val ds)) j" for j
    proof -
      have "length ds \<le> (k + j) div 64" using True div_le_mono[of k "k + j" 64] by linarith
      then show ?thesis by (simp add: bit_drop_bit_eq bit_limbs_val)
    qed
    then have "drop_bit k (limbs_val ds) = 0" by (simp add: bit_eq_iff)
    moreover have "r = scheme_make_integer 0" using True ge pos assms(5) Big_Obj by (simp add: Let_def ds_def)
    ultimately show ?thesis using make_integer_represents[of 0] by (simp add: v is_fixnum_def flip: k_def)
  next
    case False
    let ?vd = "k div 64" and ?vb = "k mod 64"
    let ?more = "64 - int ?vb < n \<and> Suc ?vd < length ds"
    let ?d = "if ?more then drop_bit ?vb (ds ! ?vd) OR push_bit (64 - ?vb) (ds ! Suc ?vd) else drop_bit ?vb (ds ! ?vd)"
    have "0 \<le> v1 div 64" "0 \<le> v1 AND 63" using assms(2) by (simp_all add: pos_imp_zdiv_nonneg_iff)
    then have i: "v1 AND 63 = int ?vb" "v1 div 64 = int ?vd" using ix by (simp_all only: k_def int_nat_eq if_True flip: ix)
    have e: "nat (int ?vd + 1) = Suc ?vd" "nat (64 - int ?vb) = 64 - ?vb"
      "int ?vd + 1 < int (length ds) \<longleftrightarrow> Suc ?vd < length ds" "big_digs b = ds"
      by (auto simp: nat_diff_distrib ds_def)
    have r: "r = scheme_make_integer_value_from_unsigned (?d AND (push_bit (nat n) 1 - 1))"
      using False ge pos assms(5) Big_Obj by (simp add: Let_def e i cong: if_cong split del: if_split)
    have "bit ?d j \<longleftrightarrow> bit (drop_bit k (limbs_val ds)) j" if j: "j < nat n" for j
    proof -
      have kj: "k + j = 64 * ?vd + (?vb + j)" by simp
      have vb: "?vb < 64" by simp
      have "bit (drop_bit k (limbs_val ds)) j \<longleftrightarrow> (k + j) div 64 < length ds \<and> bit (ds ! ((k + j) div 64)) ((k + j) mod 64)"
        by (simp add: bit_drop_bit_eq bit_limbs_val)
      moreover have "bit ?d j \<longleftrightarrow> (k + j) div 64 < length ds \<and> bit (ds ! ((k + j) div 64)) ((k + j) mod 64)"
      proof (cases "?vb + j < 64")
        case True
        then have "(k + j) div 64 = ?vd" "(k + j) mod 64 = ?vb + j" using divmod64[OF kj] by blast+
        moreover have "\<not> (64 - ?vb \<le> j)" using True by simp
        ultimately show ?thesis using False True by (simp add: bit_simps)
      next
        case big: False
        have "k + j = 64 * Suc ?vd + (j - (64 - ?vb))" by (rule next_digit[OF kj big vb])
        moreover have "j - (64 - ?vb) < 64" using j assms(4) by linarith
        ultimately have "(k + j) div 64 = Suc ?vd" "(k + j) mod 64 = j - (64 - ?vb)"
          using divmod64 by blast+
        moreover have "64 - int ?vb < n" using big j by linarith
        moreover have "\<not> bit (ds ! ?vd) (?vb + j)" using big by (simp add: bit_word.rep_eq)
        moreover have "64 - ?vb \<le> j" using big by linarith
        moreover have "j < 64" using j assms(4) by linarith
        ultimately show ?thesis by (auto simp: bit_simps)
      qed
      ultimately show ?thesis by blast
    qed
    then show ?thesis unfolding r v
      using from_unsigned_represents[of "?d AND (push_bit (nat n) 1 - 1)"] field_word[of "nat n" ?d "drop_bit k (limbs_val ds)"] assms(4)
      by (simp flip: k_def)
  qed
qed

lemma slow_bit_field_represents:
  assumes "int_ok so" "is_fixnum v1" "is_fixnum v2" "0 \<le> v1" "v1 \<le> v2"
  shows "\<exists>r. slow_bitwise_bit_field False so (Int_Obj v1) (Int_Obj v2) = Inr r \<and>
    represents r (take_bit (nat (v2 - v1)) (drop_bit (nat v1) (int_val so)))"
proof -
  have f: "is_fixnum (v2 - v1)" "is_fixnum (- v1)" using assms(2-) by (simp_all add: is_fixnum_def)
  have m: "scheme_bin_minus (Int_Obj v2) (Int_Obj v1) = Int_Obj (v2 - v1)"
    using minus_represents[of "Int_Obj v2" "Int_Obj v1"] assms represents_fixnum[OF f(1)] represents_unique by auto
  have z: "scheme_bin_minus (scheme_make_integer 0) (Int_Obj v1) = Int_Obj (- v1)"
    using minus_represents[of "Int_Obj 0" "Int_Obj v1"] assms represents_fixnum[OF f(2)] represents_unique
    by (auto simp: scheme_make_integer_def is_fixnum_def)
  have one: "scheme_make_integer 1 = Int_Obj 1" "int_ok (Int_Obj 1)" by (simp_all add: scheme_make_integer_def is_fixnum_def)
  obtain s where s: "scheme_bitwise_shift False so (Int_Obj (- v1)) = Inr s" "represents s (shifted (int_val so) (- v1))"
    using bitwise_shift_represents[OF assms(1) f(2)] by blast
  obtain p where p: "scheme_bitwise_shift False (Int_Obj 1) (Int_Obj (v2 - v1)) = Inr p" "represents p (shifted 1 (v2 - v1))"
    using bitwise_shift_represents[OF one(2) f(1)] by auto
  have q: "represents (scheme_bin_minus p (Int_Obj 1)) (2 ^ nat (v2 - v1) - 1)"
    using minus_represents[of p "Int_Obj 1"] one(2) p(2) assms(5) by (simp add: represents_def shifted_def)
  have "shifted (int_val so) (- v1) = drop_bit (nat v1) (int_val so)"
    using assms(4) by (cases "v1 = 0") (simp_all add: shifted_def drop_bit_eq_div)
  then have "represents (bin_bitwise Bit_And s (scheme_bin_minus p (Int_Obj 1)))
      (take_bit (nat (v2 - v1)) (drop_bit (nat v1) (int_val so)))"
    using bin_bitwise_represents[of s "scheme_bin_minus p (Int_Obj 1)" Bit_And] s(2) q
    by (simp add: represents_def take_bit_eq_mask mask_eq_exp_minus_1)
  moreover have "slow_bitwise_bit_field False so (Int_Obj v1) (Int_Obj v2) =
      Inr (bin_bitwise Bit_And s (scheme_bin_minus p (Int_Obj 1)))"
    unfolding slow_bitwise_bit_field_def Let_def m z one(1) s(1) using assms(4,5)
    by (simp add: p(1) del: scheme_bitwise_shift.simps scheme_bin_minus.simps)
  ultimately show ?thesis by blast
qed

lemma bit_field_represents:
  assumes "int_ok so" "is_fixnum v1" "is_fixnum v2" "0 \<le> v1" "v1 \<le> v2"
  shows "\<exists>r. bitwise_bit_field False so (Int_Obj v1) (Int_Obj v2) = Inr r \<and>
    represents r (take_bit (nat (v2 - v1)) (drop_bit (nat v1) (int_val so)))"
  using slow_bit_field_represents[OF assms] fast_bit_field_represents[of so v1 "v2 - v1"] assms
  by (auto simp: bitwise_bit_field_def split: option.split)

end
