(* ===== verification/Exact_Int_Numeric.thy ===== *)
theory Exact_Int_Numeric
  imports Exact_Int_Correct
begin

unbundle bit_operations_syntax

section \<open>Exact integer arithmetic: powers, lengths, division\<close>

text \<open>The loops of \<^verbatim>\<open>expt\<close>, \<^verbatim>\<open>integer-length\<close>, \<^verbatim>\<open>gcd\<close> and the square root, and the signs of quotient,
  remainder and modulo, with the cases where the code wraps.\<close>

subsection \<open>Powers\<close>

lemma power_top_take: "take_bit (power_top b n) (unat b) = take_bit n (unat b)"
  by (induction n) (simp_all add: take_bit_Suc_from_most bit_unsigned_iff)

lemma half_steps:
  assumes "0 \<le> (y :: int)"
  shows "nat y = (if odd y then 1 else 0) + 2 * nat (y div 2)"
proof -
  obtain n where n: "y = int n" using assms nonneg_int_cases by blast
  have "n = (if odd n then 1 else 0) + 2 * (n div 2)" by (cases "odd n") auto
  moreover have "nat (y div 2) = n div 2" by (simp add: n flip: zdiv_int)
  ultimately show ?thesis by (simp add: n)
qed

lemma odd_p_value: "int_ok b \<Longrightarrow> scheme_odd_p b \<longleftrightarrow> odd (int_val b)"
proof (cases b)
  case (Big_Obj c)
  assume "int_ok b"
  then have "big_digs c \<noteq> []" using Big_Obj by (auto simp: big_val_def is_fixnum_def split: if_splits)
  then obtain d ds where "big_digs c = d # ds" by (cases "big_digs c") auto
  moreover have "d AND 1 \<noteq> 0 \<longleftrightarrow> odd (uint d)" by (simp add: and_one_eq word_uint_eq_iff uint_word_ariths odd_iff_mod_2_eq_one uint_mod flip: odd_iff_mod_2_eq_one)
  ultimately show ?thesis using Big_Obj by (simp add: big_val_def)
qed (simp add: and_one_eq odd_iff_mod_2_eq_one)

context limb_product
begin

lemma power_loop_represents:
  assumes "int_ok a" "represents r (int_val a ^ m)"
  shows "represents (power_loop mul a b i r) (int_val a ^ (m * 2 ^ i + take_bit i (unat b)))"
  using assms(2)
proof (induction i arbitrary: m r)
  case (Suc i)
  let ?r = "scheme_bin_mult mul r r"
  let ?r2 = "if bit b i then scheme_bin_mult mul a ?r else ?r"
  have r: "represents ?r (int_val a ^ (2 * m))"
    using mult_represents[of r r] Suc.prems by (simp add: represents_def power_add mult_2)
  have "represents ?r2 (int_val a ^ (2 * m + of_bool (bit (unat b) i)))"
    using r mult_represents[of a ?r] assms(1) by (simp add: represents_def bit_unsigned_iff)
  from Suc.IH[OF this] show ?case
    by (simp add: take_bit_Suc_from_most Let_def algebra_simps)
qed simp

lemma do_power_represents:
  assumes "int_ok a"
  shows "represents (do_power mul a b) (int_val a ^ unat b)"
proof -
  have "represents (scheme_make_integer 1) (int_val a ^ 0)" using make_integer_represents[of 1] by (simp add: is_fixnum_def)
  from power_loop_represents[OF assms this, of b "power_top b 64"]
  have "represents (do_power mul a b) (int_val a ^ take_bit 64 (unat b))"
    by (simp add: do_power_def power_top_take)
  moreover have "take_bit 64 (unat b) = unat b" by (intro take_bit_nat_eq_self order_less_le_trans[OF unsigned_less]) simp
  ultimately show ?thesis by simp
qed

lemma do_big_power_represents:
  assumes "int_ok a" "int_ok b" "0 \<le> int_val b" "represents res R"
  shows "\<exists>r. do_big_power mul a b res = Some r \<and> represents r (R * int_val a ^ nat (int_val b))"
  using assms
proof (induction "nat (int_val b)" arbitrary: a b res R rule: less_induct)
  case less
  show ?case
  proof (cases "int_val b = 0")
    case True
    then have "b = Int_Obj 0" using int_ok_inject[of b "Int_Obj 0"] less.prems(2) by (simp add: is_fixnum_def)
    then show ?thesis using less.prems(4) by (subst do_big_power.simps) simp
  next
    case False
    then have nz: "b \<noteq> Int_Obj 0" by auto
    have m1: "scheme_make_integer (-1) = Int_Obj (-1)" by (simp add: scheme_make_integer_def)
    obtain b2 where b2: "scheme_bitwise_shift False b (Int_Obj (-1)) = Inr b2" "represents b2 (int_val b div 2)"
      using bitwise_shift_represents[OF less.prems(2), of "-1"] by (auto simp: is_fixnum_def shifted_def)
    let ?a = "scheme_bin_mult mul a a" and ?res = "if scheme_odd_p b then scheme_bin_mult mul a res else res"
    have a2: "int_ok ?a" "int_val ?a = int_val a * int_val a"
      using mult_represents[OF less.prems(1) less.prems(1)] by (simp_all add: represents_def)
    have res: "represents ?res (R * int_val a ^ (if odd (int_val b) then 1 else 0))"
      using mult_represents[of a res] less.prems odd_p_value[OF less.prems(2)] by (simp add: represents_def mult.commute)
    have b2': "int_ok b2" "int_val b2 = int_val b div 2" using b2(2) by (simp_all add: represents_def)
    have "nat (int_val b2) < nat (int_val b)" "0 \<le> int_val b2" using False less.prems(3) by (simp_all add: b2')
    from less.hyps[OF this(1) a2(1) b2'(1) this(2) res] obtain r where
      r: "do_big_power mul ?a b2 ?res = Some r"
        "represents r (R * int_val a ^ (if odd (int_val b) then 1 else 0) * int_val ?a ^ nat (int_val b2))" by blast
    have e: "nat (int_val b) = (if odd (int_val b) then 1 else 0) + 2 * nat (int_val b2)"
      using half_steps[OF less.prems(3)] by (simp add: b2')
    have "R * int_val a ^ (if odd (int_val b) then 1 else 0) * int_val ?a ^ nat (int_val b2) = R * int_val a ^ nat (int_val b)"
      unfolding e a2(2) by (simp add: power_add power_mult power2_eq_square)
    with r(2) have "represents r (R * int_val a ^ nat (int_val b))" by (simp only:)
    then show ?thesis using r(1) nz b2(1)
      by (subst do_big_power.simps) (simp add: m1 del: scheme_bitwise_shift.simps)
  qed
qed

end


lemma small_product:
  assumes "0 \<le> x" "0 \<le> y" "x * y < 2 ^ 63"
  shows "sint (word_of_int x * word_of_int y :: uintptr) = x * y"
proof -
  have "sint (word_of_int x * word_of_int y :: uintptr) = sint (word_of_int (x * y) :: uintptr)"
    by (simp only: wi_hom_mult)
  also have "\<dots> = signed_take_bit 63 (x * y)" by (simp only: signed_of_int) simp
  also have "\<dots> = x * y" using assms by (intro signed_take_bit_int_eq_self) (auto intro: order_trans[of _ 0])
  finally show ?thesis .
qed

text \<open>The test of the last product: the quotient gives the factor back only if nothing wrapped.\<close>

lemma checked_product:
  assumes "0 < x" "x < 2 ^ 63" "0 \<le> y" "y < 2 ^ 63" "0 \<le> sint (word_of_int x * word_of_int y :: uintptr)"
    "(word_of_int x * word_of_int y :: uintptr) div word_of_int x = word_of_int y"
  shows "sint (word_of_int x * word_of_int y :: uintptr) = x * y" "x * y < 2 ^ 63"
proof -
  let ?w = "word_of_int x * word_of_int y :: uintptr"
  have ux: "uint (word_of_int x :: uintptr) = x" "uint (word_of_int y :: uintptr) = y"
    using assms uint_intptr[of x] uint_intptr[of y] by (simp_all del: unsigned_of_int)
  have "uint ?w div x = y" using assms(6) ux by (metis uint_div)
  then have "x * y \<le> uint ?w" using mult_div_mod_eq[of x "uint ?w"] pos_mod_sign[OF assms(1), of "uint ?w"] by simp
  moreover have "uint ?w = x * y mod 2 ^ 64" using ux by (simp add: uint_word_ariths del: unsigned_of_int)
  moreover have "x * y mod 2 ^ 64 \<le> x * y" using assms by (intro zmod_le_nonneg_dividend) simp
  ultimately have u: "uint ?w = x * y" by simp
  have "\<not> 2 ^ 63 \<le> uint ?w"
  proof
    assume "2 ^ 63 \<le> uint ?w"
    then have "uint ?w div 2 ^ 63 = 1" using uint_bounds(2)[of ?w] by (simp add: div_eq_iff_range)
    then have "bit (uint ?w) 63" by (simp add: bit_iff_odd)
    then have "sint ?w < 0" by (simp only: sint_uint) simp
    then show False using assms(5) by simp
  qed
  then show "x * y < 2 ^ 63" using u by simp
  then show "sint ?w = x * y" using assms by (intro small_product) simp_all
qed

lemma expt_loop_value:
  assumes "0 \<le> x" "x < 2 ^ 63" "0 \<le> res" "res \<le> max 1 x" "0 \<le> y" "y < 2 ^ fuel"
    and "expt_loop fuel x y res = Some r"
  shows "r = res * x ^ nat y \<and> 0 \<le> r \<and> r < 2 ^ 63"
  using assms
proof (induction fuel arbitrary: x y res)
  case 0
  then show ?case by (auto simp: max_def split: if_splits)
next
  case (Suc fuel)
  let ?w = "word_of_int x * word_of_int res :: uintptr"
  show ?case
  proof (cases "y > 0")
    case False
    then show ?thesis using Suc.prems by (auto simp: max_def split: if_splits)
  next
    case y: True
    have not_big: "\<not> (x > MAX_FIXNUM_SQRT \<and> y > 1)" using Suc.prems(7) y by (auto split: if_splits)
    have small: "res * x < 2 ^ 63" "x * x < 2 ^ 63" "sint ?w = res * x" if "x \<le> MAX_FIXNUM_SQRT"
    proof -
      have "res \<le> MAX_FIXNUM_SQRT" using that Suc.prems(4) by (auto simp: MAX_FIXNUM_SQRT_def max_def split: if_splits)
      moreover have "0 \<le> MAX_FIXNUM_SQRT" by (simp add: MAX_FIXNUM_SQRT_def)
      ultimately have "res * x \<le> MAX_FIXNUM_SQRT * MAX_FIXNUM_SQRT" "x * x \<le> MAX_FIXNUM_SQRT * MAX_FIXNUM_SQRT"
        using that Suc.prems(1,3) by (simp_all add: mult_mono)
      then show "res * x < 2 ^ 63" "x * x < 2 ^ 63" by (simp_all add: MAX_FIXNUM_SQRT_def)
      then show "sint ?w = res * x" using small_product[of x res] Suc.prems(1,3) by (simp add: mult.commute)
    qed
    show ?thesis
    proof (cases "y = 1")
      case True
      have "\<not> (x > MAX_FIXNUM_SQRT \<and> (sint ?w < 0 \<or> ?w div word_of_int x \<noteq> word_of_int res))" "r = sint ?w"
        using Suc.prems(7) True by (auto simp: Let_def split: if_splits)
      moreover have "sint ?w = res * x \<and> res * x < 2 ^ 63" if "x > MAX_FIXNUM_SQRT" "0 \<le> sint ?w" "?w div word_of_int x = word_of_int res"
      proof -
        have "0 < x" "res < 2 ^ 63" using that(1) Suc.prems(2,4) by (auto simp: MAX_FIXNUM_SQRT_def)
        then show ?thesis using checked_product[of x res] that(2,3) Suc.prems(2,3) by (simp add: mult.commute)
      qed
      ultimately have "r = res * x" "res * x < 2 ^ 63" using small by fastforce+
      then show ?thesis using True Suc.prems(1,3) by simp
    next
      case False
      then have xs: "x \<le> MAX_FIXNUM_SQRT" using not_big y by simp
      note s = small[OF xs]
      let ?res = "if odd y then sint ?w else res"
      have xx: "intptr (x * x) = x * x" using s(2) Suc.prems(1) by (intro intptr_id) (auto intro: order_trans[of _ 0])
      have loop: "expt_loop fuel (x * x) (y div 2) ?res = Some r"
        using Suc.prems(7) y False not_big by (simp add: Let_def xx)
      have res: "?res = (if odd y then res * x else res)" using s(3) by simp
      have "0 \<le> ?res" using res Suc.prems(1,3) by simp
      moreover have "?res \<le> max 1 (x * x)"
      proof (cases "x = 0")
        case True
        then show ?thesis using res Suc.prems(4) by simp
      next
        case x0: False
        then have "res \<le> x" "1 \<le> x" using Suc.prems(1,4) by auto
        then have "res * x \<le> x * x" "res \<le> x * x" using Suc.prems(1,3) mult_mono[of res x 1 x] by (auto intro: mult_mono)
        then show ?thesis using res by auto
      qed
      moreover have "y div 2 < 2 ^ fuel" "0 \<le> y div 2" using Suc.prems(6) y by simp_all
      ultimately have "r = ?res * (x * x) ^ nat (y div 2) \<and> 0 \<le> r \<and> r < 2 ^ 63"
        using Suc.prems(1) s(2) by (intro Suc.IH[OF _ _ _ _ _ _ loop]) simp_all
      moreover have "?res * (x * x) ^ nat (y div 2) = res * x ^ nat y"
      proof -
        have e: "nat y = (if odd y then 1 else 0) + 2 * nat (y div 2)" using half_steps[of y] y by simp
        show ?thesis unfolding res by (subst e) (auto simp: power_add power_mult power2_eq_square)
      qed
      ultimately show ?thesis by simp
    qed
  qed
qed

context limb_product
begin

lemma generic_power_represents:
  assumes "int_ok a" "is_fixnum y" "0 \<le> y"
  shows "\<exists>r. scheme_generic_integer_power mul False a (Int_Obj y) = Inr (Some r) \<and> represents r (int_val a ^ nat y)"
proof -
  have "uint (word_of_int y :: uintptr) = y" using uint_intptr[of y] is_fixnum_intptr[OF assms(2)] assms(3) by simp
  then have "unat (word_of_int y :: uintptr) = nat y" by (simp add: unat_eq_nat_uint del: unsigned_of_int)
  then show ?thesis using do_power_represents[OF assms(1), of "word_of_int y"] assms(3)
    by (simp add: scheme_generic_integer_power_def)
qed

lemma fixnum_expt_represents:
  assumes "is_fixnum x" "is_fixnum y" "0 \<le> y"
  shows "\<exists>r. fixnum_expt mul False x y = Inr (Some r) \<and> represents r (x ^ nat y)"
proof (cases "x = 2 \<and> y \<le> MAX_SHIFT_TRY")
  case True
  have "(2 :: int) ^ nat y \<le> 2 ^ 61" using True by (intro power_increasing) (auto simp: MAX_SHIFT_TRY_def)
  then have "is_fixnum (2 ^ nat y)" by (simp add: is_fixnum_def) (rule order_trans[of _ 0], simp_all)
  then show ?thesis using True make_integer_represents[of "2 ^ nat y"] by (simp add: fixnum_expt_def push_bit_eq_mult)
next
  case False
  let ?x = "if x < 0 then - x else x"
  show ?thesis
  proof (cases "expt_loop 64 ?x y 1")
    case None
    have i: "represents (scheme_make_integer_value x) x" "represents (scheme_make_integer_value y) y"
      using make_integer_value_represents is_fixnum_intptr assms by blast+
    then have "scheme_make_integer_value y = Int_Obj y" using represents_fixnum[OF assms(2)] represents_unique by blast
    then show ?thesis using generic_power_represents[of "scheme_make_integer_value x" y] i(1) assms(2,3) None False
      by (auto simp: fixnum_expt_def represents_def)
  next
    case (Some r)
    have b: "0 \<le> ?x" "?x < 2 ^ 63" "1 \<le> max 1 ?x" "y < 2 ^ 64" using assms by (auto simp: is_fixnum_def)
    have r: "r = ?x ^ nat y" "0 \<le> r" "r < 2 ^ 63"
      using expt_loop_value[OF b(1,2) _ b(3) assms(3) b(4) Some] by simp_all
    let ?r = "if x < 0 \<and> odd y then - r else r"
    have "represents (scheme_make_integer_value ?r) ?r" using r(2,3) by (intro make_integer_value_represents) auto
    moreover have "?r = x ^ nat y" using assms(3) by (auto simp: r(1) even_nat_iff)
    ultimately show ?thesis using Some False by (auto simp: fixnum_expt_def)
  qed
qed

end

subsection \<open>Lengths\<close>

lemma length_loop_value:
  "uint n < 2 ^ fuel \<Longrightarrow> \<exists>L. length_loop fuel n base = base + int L \<and> uint n < 2 ^ L \<and> (0 < L \<longrightarrow> 2 ^ (L - 1) \<le> uint n) \<and> L \<le> fuel"
proof (induction fuel arbitrary: n base)
  case 0
  then show ?case using uint_bounds(1)[of n] by (auto intro!: exI[of _ 0])
next
  case (Suc fuel)
  show ?case
  proof (cases "n = 0")
    case True
    then show ?thesis by (auto intro!: exI[of _ 0])
  next
    case False
    have h: "uint (drop_bit 1 n) = uint n div 2" by (simp add: uint_drop)
    then have "uint (drop_bit 1 n) < 2 ^ fuel" using Suc.prems by simp
    from Suc.IH[OF this, of "base + 1"] obtain L where L: "length_loop fuel (drop_bit 1 n) (base + 1) = base + 1 + int L"
      "uint n div 2 < 2 ^ L" "0 < L \<longrightarrow> 2 ^ (L - 1) \<le> uint n div 2" "L \<le> fuel" unfolding h by blast
    have "1 \<le> uint n" using False uint_bounds(1)[of n] uint_0_iff[of n] by linarith
    have "uint n < 2 ^ Suc L" using L(2) by simp
    moreover have "2 ^ L \<le> uint n"
    proof (cases L)
      case (Suc k)
      then have "2 * 2 ^ k \<le> 2 * (uint n div 2)" using L(3) by simp
      then show ?thesis using Suc by simp
    qed (use \<open>1 \<le> uint n\<close> in simp)
    ultimately show ?thesis using False L(1,4) by (intro exI[of _ "Suc L"]) simp
  qed
qed


text \<open>The number of bits of a number, without its sign.\<close>

definition int_bits :: "int \<Rightarrow> int \<Rightarrow> bool" where
  "int_bits v L \<longleftrightarrow> (let m = (if v < 0 then NOT v else v) in 0 \<le> L \<and> m < 2 ^ nat L \<and> (0 < L \<longrightarrow> 2 ^ nat (L - 1) \<le> m))"

lemma length_loop_bits:
  assumes "uint n < 2 ^ 64" "m = uint n * 2 ^ k + lo" "0 \<le> lo" "lo < 2 ^ k" "n = 0 \<longrightarrow> k = 0"
  shows "\<exists>L. length_loop 64 n (int k) = L \<and> 0 \<le> L \<and> m < 2 ^ nat L \<and> (0 < L \<longrightarrow> 2 ^ nat (L - 1) \<le> m) \<and> L \<le> int k + 64"
proof -
  obtain L where L: "length_loop 64 n (int k) = int k + int L" "uint n < 2 ^ L" "0 < L \<longrightarrow> 2 ^ (L - 1) \<le> uint n" "L \<le> 64"
    using length_loop_value[OF assms(1), of "int k"] by blast
  have e: "nat (int k + int L) = k + L" by simp
  have "(uint n + 1) * 2 ^ k \<le> 2 ^ L * 2 ^ k" using L(2) by (intro mult_right_mono) simp_all
  then have "m < 2 ^ (k + L)" using assms(2,4) by (simp add: power_add algebra_simps)
  moreover have "2 ^ nat (int k + int L - 1) \<le> m" if "0 < int k + int L"
  proof (cases "L = 0")
    case True
    then have "uint n < 1" using L(2) by simp
    then have "n = 0" using uint_bounds(1)[of n] uint_0_iff[of n] by linarith
    then show ?thesis using assms(5) True that by simp
  next
    case False
    then have "nat (int k + int L - 1) = L - 1 + k" by simp
    then have "(2 :: int) ^ nat (int k + int L - 1) = 2 ^ (L - 1) * 2 ^ k" by (simp only: power_add)
    moreover have "2 ^ (L - 1) * 2 ^ k \<le> uint n * 2 ^ k" using L(3) False by (intro mult_right_mono) simp_all
    ultimately show ?thesis using assms(2,3) by linarith
  qed
  ultimately show ?thesis using L(1,4) by (intro exI[of _ "int k + int L"]) (simp add: e)
qed

lemma limbs_val_last: "ds \<noteq> [] \<Longrightarrow> limbs_val ds = uint (last ds) * 2 ^ (64 * (length ds - 1)) + limbs_val (butlast ds)"
proof -
  assume "ds \<noteq> []"
  then have "limbs_val ds = limbs_val (butlast ds @ [last ds])" by simp
  then show ?thesis by (simp only: limbs_val_append) simp
qed

lemma big_length_bits:
  assumes "big_ok b" "big_digs b \<noteq> []" "length (big_digs b) < 2 ^ 55"
  shows "\<exists>L. scheme_make_integer (length_loop 64 (last (big_digs b)) (int (length (big_digs b) - 1) * 64)) = Int_Obj L \<and>
    0 \<le> L \<and> limbs_val (big_digs b) < 2 ^ nat L \<and> (0 < L \<longrightarrow> 2 ^ nat (L - 1) \<le> limbs_val (big_digs b)) \<and> is_fixnum L"
proof -
  let ?ds = "big_digs b" and ?k = "64 * (length (big_digs b) - 1)"
  have "limbs_val (butlast ?ds) < 2 ^ ?k" using limbs_val_less[of "butlast ?ds"] by simp
  moreover have "last ?ds = 0 \<longrightarrow> ?k = 0" using assms(1,2) by (simp add: big_ok_def digs_ok_def)
  ultimately obtain L where L: "length_loop 64 (last ?ds) (int ?k) = L" "0 \<le> L" "limbs_val ?ds < 2 ^ nat L"
    "0 < L \<longrightarrow> 2 ^ nat (L - 1) \<le> limbs_val ?ds" "L \<le> int ?k + 64"
    using length_loop_bits[OF uint_bounds(2) limbs_val_last[OF assms(2)] limbs_val_nonneg] by blast
  have "L < 2 ^ 62" using L(5) assms(3) by simp
  then have "is_fixnum L" using L(2) by (simp add: is_fixnum_def)
  moreover have "int (length ?ds - 1) * 64 = int ?k" by simp
  ultimately show ?thesis using L by (simp only: scheme_make_integer_def is_fixnum_tag) simp
qed

lemma integer_length_represents:
  assumes "int_ok ob" "length (big_digs (scheme_to_bignum ob)) + 1 < 2 ^ 55"
  shows "\<exists>L. integer_length ob = Some (Int_Obj L) \<and> is_fixnum L \<and> int_bits (int_val ob) L"
proof (cases ob)
  case (Int_Obj a)
  let ?m = "if a < 0 then NOT a else a"
  have m: "0 \<le> ?m" "?m < 2 ^ 63" using assms(1) Int_Obj by (auto simp: is_fixnum_def not_int_def)
  then have u: "uint (word_of_int ?m :: uintptr) = ?m" using uint_intptr[of ?m] by (simp del: unsigned_of_int)
  obtain L where "length_loop 64 (word_of_int ?m) (int 0) = L" "0 \<le> L" "?m < 2 ^ nat L" "0 < L \<longrightarrow> 2 ^ nat (L - 1) \<le> ?m" "L \<le> int 0 + 64"
    using length_loop_bits[of "word_of_int ?m" ?m 0 0] m u by auto
  moreover from this have "is_fixnum L" by (simp add: is_fixnum_def)
  ultimately show ?thesis using Int_Obj
    by (auto simp: integer_length_def int_bits_def Let_def scheme_make_integer_def is_fixnum_tag split: if_splits)
next
  case (Big_Obj b)
  have ok: "big_ok b" "no_neg_zero b" "\<not> is_fixnum (big_val b)" using assms(1) Big_Obj int_ok_big by auto
  define c where "c = (if big_pos b then Big_Obj b else bitwise_not (Big_Obj b))"
  have c: "represents c (if big_val b < 0 then NOT (big_val b) else big_val b)"
    using bitwise_not_represents[OF assms(1)] assms(1) Big_Obj big_val_sign[OF ok(1,2)]
    by (auto simp: c_def represents_def)
  have "\<not> is_fixnum (if big_val b < 0 then NOT (big_val b) else big_val b)"
    using ok(3) by (auto simp: is_fixnum_def not_int_def)
  then obtain r where r: "c = Big_Obj r" "big_ok r" "big_val r = (if big_val b < 0 then NOT (big_val b) else big_val b)"
    using c by (cases c) (auto simp: represents_def)
  have nn: "0 \<le> big_val r" "0 < big_val r" using r(3) ok(3) by (auto simp: not_int_def is_fixnum_def)
  have rp: "no_neg_zero r" using r c not_fixnum_no_neg_zero by (simp add: represents_def)
  then have "big_pos r" using big_val_sign[OF r(2)] nn by simp
  then have rv: "big_val r = limbs_val (big_digs r)" by (simp add: big_val_def)
  have len: "length (big_digs r) < 2 ^ 55"
  proof (rule ccontr)
    assume "\<not> length (big_digs r) < 2 ^ 55"
    then have "length (big_digs b) < length (big_digs r)" using assms(2) unfolding Big_Obj scheme_to_bignum.simps by linarith
    then have "limbs_val (big_digs b) < limbs_val (big_digs r)" using r(2) by (intro digs_ok_shorter) (simp_all add: big_ok_def)
    moreover have "big_val r \<le> limbs_val (big_digs b)"
    proof (cases "big_pos b")
      case True
      then have "\<not> big_val b < 0" using big_val_sign[OF ok(1,2)] by simp
      then show ?thesis using r(3) True by (simp add: big_val_def)
    next
      case False
      then have "big_val b < 0" using big_val_sign[OF ok(1,2)] by simp
      then have "big_val r = NOT (- limbs_val (big_digs b))" using r(3) False by (simp add: big_val_def)
      then show ?thesis by (simp add: not_int_def)
    qed
    ultimately show False using rv by simp
  qed
  have ne: "big_digs r \<noteq> []" using nn(2) rv by auto
  have "integer_length ob = Some (scheme_make_integer (length_loop 64 (last (big_digs r)) (int (length (big_digs r) - 1) * 64)))"
    using r(1) Big_Obj by (cases "big_pos b") (simp_all add: integer_length_def c_def)
  then show ?thesis using big_length_bits[OF r(2) ne len] r(3) rv Big_Obj by (auto simp: int_bits_def Let_def)
qed

subsection \<open>Division\<close>

text \<open>What \<^verbatim>\<open>bignum.c\<close> needs of \<^verbatim>\<open>mpn_tdiv_qr\<close>, as the GMP manual states it: the quotient and the
  remainder, of one digit more than the difference of the lengths and of the length of the divisor.\<close>

definition divides_limbs :: "(limb list \<Rightarrow> limb list \<Rightarrow> limb list \<times> limb list) \<Rightarrow> bool" where
  "divides_limbs tdiv \<longleftrightarrow>
     (\<forall>np dp q r. dp \<noteq> [] \<and> last dp \<noteq> 0 \<and> length dp \<le> length np \<and> tdiv np dp = (q, r) \<longrightarrow>
        limbs_val np = limbs_val q * limbs_val dp + limbs_val r \<and> limbs_val r < limbs_val dp \<and>
        length q = length np - length dp + 1 \<and> length r = length dp)"

definition quotient_sign :: "int \<Rightarrow> int \<Rightarrow> int" where
  "quotient_sign a b = (if (0 \<le> a) = (0 \<le> b) then 1 else -1)"

lemma sdiv_smod_value:
  assumes "(n :: int) = (if np then N else - N)" "d = (if dp then D else - D)" "0 \<le> N" "0 < D"
  shows "n sdiv d = (if np = dp then N div D else - (N div D))" "n smod d = (if np then N mod D else - (N mod D))"
proof -
  have D: "\<bar>d\<bar> = D" "d \<noteq> 0" "sgn d = (if dp then 1 else -1)" using assms by (auto simp: sgn_if)
  have N: "\<bar>n\<bar> = N" "N \<noteq> 0 \<Longrightarrow> sgn n = (if np then 1 else -1)" "N = 0 \<Longrightarrow> n = 0" using assms by (auto simp: sgn_if)
  show "n sdiv d = (if np = dp then N div D else - (N div D))"
    using D N by (cases "N = 0") (auto simp: signed_divide_int_def)
  show "n smod d = (if np then N mod D else - (N mod D))"
    using D N by (cases "N = 0") (auto simp: signed_modulo_int_def)
qed

lemma bignum_divide_represents:
  assumes "divides_limbs tdiv" "big_ok n" "big_ok d" "big_digs d \<noteq> []"
  shows "represents (fst (bignum_divide tdiv n d)) (big_val n sdiv big_val d)"
    "represents (snd (bignum_divide tdiv n d)) (big_val n smod big_val d)"
proof -
  define nd dd where "nd = big_digs n" and "dd = big_digs d"
  define N D where "N = limbs_val nd" and "D = limbs_val dd"
  have dok: "digs_ok nd" "digs_ok dd" "dd \<noteq> []" using assms by (simp_all add: big_ok_def nd_def dd_def)
  have D: "0 < D" using digs_ok_zero[OF dok(2)] dok(3) limbs_val_nonneg[of dd] by (simp add: D_def order_less_le del: limbs_val_nonneg)
  have N: "0 \<le> N" by (simp add: N_def)
  have nv: "big_val n = (if big_pos n then N else - N)" and dv: "big_val d = (if big_pos d then D else - D)"
    by (simp_all add: big_val_def N_def D_def nd_def dd_def)
  note qr = sdiv_smod_value[OF nv dv N D]
  have cmp: "bignum_abs_cmp n d = sgn (N - D)" using abs_cmp_value assms(2,3) by (simp add: N_def D_def nd_def dd_def)
  have zero: "represents (scheme_make_integer 0) 0" by (rule make_integer_represents) (simp add: is_fixnum_def)
  consider "N < D" | "N = D" | "D < N" by linarith
  then have "represents (fst (bignum_divide tdiv n d)) (big_val n sdiv big_val d) \<and>
    represents (snd (bignum_divide tdiv n d)) (big_val n smod big_val d)"
  proof cases
    case 1
    then have "bignum_divide tdiv n d = (scheme_make_integer 0, scheme_bignum_normalize (Big_Obj (bignum_copy n 0)))"
      using cmp by (simp add: bignum_divide_def Let_def del: bignum_copy_0)
    moreover have "bignum_copy n 0 = n" by simp
    moreover have "N div D = 0" "N mod D = N" using 1 N by simp_all
    ultimately show ?thesis unfolding qr using zero normalize_represents[OF assms(2)] nv
      by (cases "big_pos n"; cases "big_pos d") (simp_all del: bignum_copy_0)
  next
    case 2
    then have "bignum_divide tdiv n d = (scheme_make_integer (if big_pos n = big_pos d then 1 else -1), scheme_make_integer 0)"
      using cmp by (simp add: bignum_divide_def Let_def)
    moreover have "represents (scheme_make_integer (if big_pos n = big_pos d then 1 else -1)) (if big_pos n = big_pos d then 1 else -1)"
      by (rule make_integer_represents) (simp add: is_fixnum_def)
    ultimately show ?thesis unfolding qr using zero 2 D by (cases "big_pos n"; cases "big_pos d") simp_all
  next
    case 3
    define i where "i = low_zeros dd"
    obtain q r where t: "tdiv (drop i nd) (drop i dd) = (q, r)" by (cases "tdiv (drop i nd) (drop i dd)")
    let ?q = "\<lparr>big_pos = (big_pos n = big_pos d), big_digs = trim_digs q\<rparr>"
    let ?r = "\<lparr>big_pos = big_pos n, big_digs = trim_digs (take i nd @ r)\<rparr>"
    have ne: "drop i dd \<noteq> []" using low_zeros_nonzero[OF dok(2,3)] by (simp add: i_def)
    have len: "length dd \<le> length nd" using digs_ok_shorter[OF dok(2), of nd] 3 by (cases "length nd < length dd") (simp_all add: N_def D_def)
    have last: "last (drop i dd) \<noteq> 0" using ne dok(2,3) by (simp add: digs_ok_def)
    have v: "limbs_val (drop i nd) = limbs_val q * limbs_val (drop i dd) + limbs_val r" "limbs_val r < limbs_val (drop i dd)"
      using assms(1)[unfolded divides_limbs_def, rule_format, of "drop i dd" "drop i nd" q r] ne last len t by simp_all
    let ?P = "(2 :: int) ^ (64 * i)"
    have i: "i \<le> length nd" using len low_zeros_value(2)[of dd] by (simp add: i_def)
    have Dv: "D = ?P * limbs_val (drop i dd)" using low_zeros_value(1)[of dd] by (simp add: D_def i_def)
    have Nv: "N = limbs_val (take i nd) + ?P * limbs_val (drop i nd)" using limbs_val_split[OF i] by (simp add: N_def)
    have rv: "limbs_val (take i nd @ r) = limbs_val (take i nd) + ?P * limbs_val r" using i by (simp add: limbs_val_append)
    have e: "N = D * limbs_val q + limbs_val (take i nd @ r)" unfolding Nv Dv rv v(1) by (simp add: algebra_simps)
    have "limbs_val (take i nd) < ?P" using limbs_val_less[of "take i nd"] i by simp
    moreover have "?P * (limbs_val r + 1) \<le> D" unfolding Dv using v(2) by (intro mult_left_mono) simp_all
    ultimately have lt: "limbs_val (take i nd @ r) < D" unfolding rv by (simp add: algebra_simps)
    have "N div D = limbs_val q" "N mod D = limbs_val (take i nd @ r)"
      using int_div_pos_eq[OF e limbs_val_nonneg lt] int_mod_pos_eq[OF e limbs_val_nonneg lt] by simp_all
    moreover have "bignum_divide tdiv n d = (scheme_bignum_normalize (Big_Obj ?q), scheme_bignum_normalize (Big_Obj ?r))"
      using cmp 3 t by (simp add: bignum_divide_def Let_def nd_def dd_def i_def)
    moreover have "big_ok ?q" "big_ok ?r" by (simp_all add: big_ok_def)
    ultimately show ?thesis unfolding qr by (auto intro!: normalize_intro simp: big_val_def)
  qed
  then show "represents (fst (bignum_divide tdiv n d)) (big_val n sdiv big_val d)"
    "represents (snd (bignum_divide tdiv n d)) (big_val n smod big_val d)" by blast+
qed

lemma sdiv_fixnum:
  assumes "is_fixnum a" "is_fixnum b"
  shows "represents (scheme_make_integer_value (intptr (a sdiv b))) (a sdiv b)"
proof -
  have "a sdiv b \<in> {- \<bar>a\<bar>..\<bar>a\<bar>}" by (rule sdiv_int_range)
  then have "- (2 ^ 63) \<le> a sdiv b" "a sdiv b < 2 ^ 63" using assms(1) by (auto simp: is_fixnum_def)
  then show ?thesis using make_integer_value_represents[of "a sdiv b"] by (simp add: intptr_id)
qed

lemma to_bignum_nonzero: "int_ok ob \<Longrightarrow> int_val ob \<noteq> 0 \<Longrightarrow> big_digs (scheme_to_bignum ob) \<noteq> []"
  using to_bignum_ok(1)[of ob] by (auto simp: big_val_def split: if_splits)

lemma zero_obj: "int_ok ob \<Longrightarrow> int_val ob = 0 \<longleftrightarrow> ob = Int_Obj 0"
  using int_ok_inject[of ob "Int_Obj 0"] by (simp add: is_fixnum_def)

lemma quotient_represents:
  assumes "divides_limbs tdiv" "int_ok a" "int_ok b" "int_val b \<noteq> 0"
  shows "\<exists>q. bin_quotient tdiv a b = Inr q \<and> represents q (int_val a sdiv int_val b)"
proof -
  have b: "b \<noteq> Int_Obj 0" using assms(4) by auto
  have big: "represents (fst (bignum_divide tdiv (scheme_to_bignum a) (scheme_to_bignum b))) (int_val a sdiv int_val b)"
    using bignum_divide_represents(1)[OF assms(1) to_bignum_ok(2)[OF assms(2)] to_bignum_ok(2)[OF assms(3)] to_bignum_nonzero[OF assms(3,4)]]
    by (simp add: to_bignum_ok assms)
  show ?thesis
    using b big sdiv_fixnum assms(2,3) by (cases a; cases b) (auto simp: bin_quotient_def)
qed


lemma negate_int_obj_value:
  assumes "int_ok r" "int_val r < 0"
  shows "int_val r \<noteq> - (2 ^ 62) \<Longrightarrow> represents (negate_int_obj r) (- int_val r)"
    "int_val r = - (2 ^ 62) \<Longrightarrow> negate_int_obj r = r"
    "negate_int_obj (negate_int_obj r) = r"
proof -
  have min: "scheme_make_integer (2 ^ 62) = Int_Obj (- (2 ^ 62))" by (simp add: scheme_make_integer_def)
  have int: "is_fixnum (- i)" if "is_fixnum i" "i < 0" "i \<noteq> - (2 ^ 62)" for i
    using that by (auto simp: is_fixnum_def)
  have tag: "scheme_make_integer i = Int_Obj i" if "is_fixnum i" for i
    using that by (simp add: scheme_make_integer_def is_fixnum_tag)
  have big: "\<not> is_fixnum (- v)" if "\<not> is_fixnum v" "v < 0" for v using that by (auto simp: is_fixnum_def)
  have nb: "big_val (scheme_bignum_negate b) = - big_val b" "big_ok (scheme_bignum_negate b) \<longleftrightarrow> big_ok b" for b
    by (simp_all add: scheme_bignum_negate_def big_val_def big_ok_def)
  show "represents (negate_int_obj r) (- int_val r)" if "int_val r \<noteq> - (2 ^ 62)"
    using assms that int tag big nb by (cases r) (simp_all add: represents_def)
  show "negate_int_obj r = r" if e: "int_val r = - (2 ^ 62)"
  proof (cases r)
    case (Int_Obj i)
    then have "i = - (2 ^ 62)" using e by simp
    then show ?thesis using min by (simp add: Int_Obj)
  next
    case (Big_Obj b)
    then show ?thesis using assms(1) e by (simp add: is_fixnum_def)
  qed
  show "negate_int_obj (negate_int_obj r) = r"
  proof (cases r)
    case (Int_Obj i)
    then have i: "is_fixnum i" "i < 0" using assms by simp_all
    show ?thesis
    proof (cases "i = - (2 ^ 62)")
      case True
      then show ?thesis using min by (simp add: Int_Obj)
    next
      case False
      then show ?thesis using tag[OF int[OF i]] tag[OF i(1)] by (simp add: Int_Obj)
    qed
  qed (simp add: scheme_bignum_negate_def)
qed

lemma big_plus_minus:
  assumes "big_ok n" "int_ok r" "int_val r \<noteq> 0"
  shows "represents (scheme_bin_plus (Big_Obj n) r) (big_val n + int_val r)"
    "represents (scheme_bin_minus (Big_Obj n) r) (big_val n - int_val r)"
proof -
  have "represents (scheme_bignum_add n (scheme_to_bignum r)) (big_val n + int_val r)"
    "represents (scheme_bignum_subtract n (scheme_to_bignum r)) (big_val n - int_val r)"
    using add_sub_represents[OF assms(1) to_bignum_ok(2)[OF assms(2)], of False]
      add_sub_represents[OF assms(1) to_bignum_ok(2)[OF assms(2)], of True]
    by (simp_all add: scheme_bignum_add_def scheme_bignum_subtract_def to_bignum_ok(1)[OF assms(2)])
  moreover have "scheme_bin_plus (Big_Obj n) r = scheme_bignum_add n (scheme_to_bignum r)"
    "scheme_bin_minus (Big_Obj n) r = scheme_bignum_subtract n (scheme_to_bignum r)"
    using assms(3) by (cases r; simp add: scheme_make_bignum_def)+
  ultimately show "represents (scheme_bin_plus (Big_Obj n) r) (big_val n + int_val r)"
    "represents (scheme_bin_minus (Big_Obj n) r) (big_val n - int_val r)" by simp_all
qed

lemma mod_smod:
  fixes a b :: int
  assumes "b \<noteq> 0" "a smod b \<noteq> 0"
  shows "a mod b = (if (a < 0) = (b < 0) then a smod b else b + a smod b)"
    "0 < a smod b \<longleftrightarrow> 0 < a" "a smod b < 0 \<longleftrightarrow> a < 0" "a \<noteq> 0"
proof -
  define N D where "N = \<bar>a\<bar>" and "D = \<bar>b\<bar>"
  have D: "0 < D" using assms(1) by (simp add: D_def)
  have m: "a smod b = sgn a * (N mod D)" by (simp add: signed_modulo_int_def N_def D_def)
  then have nz: "N mod D \<noteq> 0" "a \<noteq> 0" using assms(2) by auto
  have "0 \<le> N mod D" using pos_mod_sign[OF D] .
  then have r: "0 < N mod D" "N mod D < D" using nz pos_mod_bound[OF D, of N] by linarith+
  show "a \<noteq> 0" by (rule nz(2))
  show "0 < a smod b \<longleftrightarrow> 0 < a" "a smod b < 0 \<longleftrightarrow> a < 0"
    using r(1) nz(2) by (auto simp: m sgn_if)
  show "a mod b = (if (a < 0) = (b < 0) then a smod b else b + a smod b)"
  proof (cases "a < 0"; cases "b < 0")
    assume "a < 0" "b < 0"
    then have "N = - a" "D = - b" by (simp_all add: N_def D_def)
    then show ?thesis using \<open>a < 0\<close> \<open>b < 0\<close> by (simp add: m mod_minus_minus)
  next
    assume s: "a < 0" "\<not> b < 0"
    then have "N = - a" "D = b" by (simp_all add: N_def D_def)
    then show ?thesis using s r by (cases "a mod b = 0") (simp_all add: m zmod_zminus1_eq_if)
  next
    assume s: "\<not> a < 0" "b < 0"
    then have "N = a" "D = - b" using nz(2) by (simp_all add: N_def D_def)
    then show ?thesis using s r nz(2) by (cases "a mod b = 0") (simp_all add: m zmod_zminus2_eq_if)
  next
    assume s: "\<not> a < 0" "\<not> b < 0"
    then have "N = a" "D = b" using nz(2) by (simp_all add: N_def D_def)
    then show ?thesis using s nz(2) by (simp add: m)
  qed
qed

text \<open>The remainder is always right: where the code wraps a remainder of \<open>- (2 ^ 62)\<close> it wraps it
  twice.\<close>

lemma rem_mod_big:
  assumes "a \<noteq> Int_Obj 0" "b \<noteq> Int_Obj 0" "\<not> (\<exists>i j. a = Int_Obj i \<and> b = Int_Obj j)"
  shows "rem_mod tdiv fs a b = Inr (rem_big fs (scheme_to_bignum a) (scheme_to_bignum b)
    (snd (bignum_divide tdiv (scheme_to_bignum a) (scheme_to_bignum b))))"
  using assms by (cases a; cases b) (auto simp: rem_mod_def Let_def)

lemma rem_big_positive:
  assumes "int_ok r" "r \<noteq> Int_Obj 0"
  shows "(case r of Int_Obj i \<Rightarrow> if i < 0 then negate_int_obj r else r
          | Big_Obj b \<Rightarrow> if \<not> big_pos b then negate_int_obj r else r) =
         (if int_val r < 0 then negate_int_obj r else r)"
  using assms int_ok_big big_val_sign by (cases r) (auto simp: not_less)

lemma rem_big_value:
  assumes r: "represents r (va smod vb)" and b: "big_ok n2" "big_val n2 = vb" "vb \<noteq> 0"
    and pos: "va \<noteq> 0 \<Longrightarrow> big_pos n1 \<longleftrightarrow> 0 \<le> va" "big_pos n2 \<longleftrightarrow> 0 \<le> vb"
  shows "represents (rem_big True n1 n2 r) (va smod vb)"
    "\<not> (va < 0 \<and> 0 < vb \<and> va smod vb = - (2 ^ 62)) \<Longrightarrow> represents (rem_big False n1 n2 r) (va mod vb)"
    "va < 0 \<and> 0 < vb \<and> va smod vb = - (2 ^ 62) \<Longrightarrow> represents (rem_big False n1 n2 r) (vb + 2 ^ 62)"
proof -
  have ok: "int_ok r" "int_val r = va smod vb" using r by (simp_all add: represents_def)
  have "represents (rem_big True n1 n2 r) (va smod vb) \<and>
    (\<not> (va < 0 \<and> 0 < vb \<and> va smod vb = - (2 ^ 62)) \<longrightarrow> represents (rem_big False n1 n2 r) (va mod vb)) \<and>
    (va < 0 \<and> 0 < vb \<and> va smod vb = - (2 ^ 62) \<longrightarrow> represents (rem_big False n1 n2 r) (vb + 2 ^ 62))"
  proof (cases "r = Int_Obj 0")
    case True
    then have z: "va smod vb = 0" using ok by simp
    have "va mod vb = 0"
    proof -
      have "\<bar>va\<bar> mod \<bar>vb\<bar> = 0 \<or> va = 0" using z by (auto simp: signed_modulo_int_def sgn_if split: if_splits)
      then have "vb dvd va" by (auto simp: mod_eq_0_iff_dvd)
      then show ?thesis by simp
    qed
    then show ?thesis using True r z by (simp add: rem_big_def)
  next
    case False
    then have nz: "va smod vb \<noteq> 0" using zero_obj[OF ok(1)] ok(2) by simp
    note m = mod_smod[OF b(3) nz]
    have p1: "big_pos n1 \<longleftrightarrow> 0 < va" using pos(1) m(4) by (auto simp: order_less_le)
    let ?r = "if int_val r < 0 then negate_int_obj r else r"
    have big: "rem_big fs n1 n2 r = (if fs then (if \<not> big_pos n1 then negate_int_obj ?r else ?r)
        else if (\<not> big_pos n1) \<noteq> (\<not> big_pos n2)
          then (if \<not> big_pos n2 then scheme_bin_plus (Big_Obj n2) ?r else scheme_bin_minus (Big_Obj n2) ?r)
          else (if \<not> big_pos n2 then negate_int_obj ?r else ?r))" for fs
      using False unfolding rem_big_def rem_big_positive[OF ok(1) False] Let_def by simp
    show ?thesis
    proof (cases "va < 0")
      case neg: True
      then have lt: "int_val r < 0" using m(3) ok(2) by simp
      note ng = negate_int_obj_value[OF ok(1) lt]
      have first: "represents (rem_big True n1 n2 r) (va smod vb)" using neg lt p1 r by (simp add: big ng(3))
      show ?thesis
      proof (cases "vb < 0")
        case True
        then have "rem_big False n1 n2 r = r" using neg lt p1 pos(2) by (simp add: big ng(3))
        then show ?thesis using first neg True m(1) r by simp
      next
        case vb: False
        then have rb: "rem_big False n1 n2 r = scheme_bin_minus (Big_Obj n2) (negate_int_obj r)"
          using neg lt p1 pos(2) by (simp add: big)
        show ?thesis
        proof (cases "va smod vb = - (2 ^ 62)")
          case True
          then have "negate_int_obj r = r" using ng(2) ok(2) by simp
          then have "represents (rem_big False n1 n2 r) (vb + 2 ^ 62)"
            using big_plus_minus(2)[OF b(1) ok(1)] True ok(2) nz b(2) by (simp add: rb)
          then show ?thesis using True neg vb b(3) first by simp
        next
          case False
          then have n: "int_ok (negate_int_obj r)" "int_val (negate_int_obj r) = - (va smod vb)"
            using ng(1) ok(2) by (simp_all add: represents_def)
          then have "represents (rem_big False n1 n2 r) (vb + va smod vb)"
            using big_plus_minus(2)[OF b(1) n(1)] nz b(2) by (simp add: rb)
          then show ?thesis using False first m(1) neg vb by simp
        qed
      qed
    next
      case va: False
      then have ge: "\<not> int_val r < 0" using m(3) ok(2) by simp
      have vp: "0 < va" using va m(4) by simp
      have first: "represents (rem_big True n1 n2 r) (va smod vb)" using vp ge p1 r by (simp add: big)
      show ?thesis
      proof (cases "vb < 0")
        case True
        then have "represents (rem_big False n1 n2 r) (vb + va smod vb)"
          using big_plus_minus(1)[OF b(1) ok(1)] ok(2) nz b(2) vp p1 pos(2) ge by (simp add: big)
        then show ?thesis using first m(1) va True by simp
      next
        case False
        then have "rem_big False n1 n2 r = r" using vp ge p1 pos(2) by (simp add: big)
        then show ?thesis using first m(1) va False r by simp
      qed
    qed
  qed
  then show "represents (rem_big True n1 n2 r) (va smod vb)"
    "\<not> (va < 0 \<and> 0 < vb \<and> va smod vb = - (2 ^ 62)) \<Longrightarrow> represents (rem_big False n1 n2 r) (va mod vb)"
    "va < 0 \<and> 0 < vb \<and> va smod vb = - (2 ^ 62) \<Longrightarrow> represents (rem_big False n1 n2 r) (vb + 2 ^ 62)" by blast+
qed

lemma fixnum_rem_mod:
  assumes "is_fixnum i" "is_fixnum j" "i \<noteq> 0" "j \<noteq> 0"
  shows "\<exists>r. rem_mod tdiv fs (Int_Obj i) (Int_Obj j) = Inr r \<and> represents r (if fs then i smod j else i mod j)"
proof -
  define N D where "N = \<bar>i\<bar>" and "D = \<bar>j\<bar>"
  have D: "0 < D" using assms(4) by (simp add: D_def)
  have nd: "(if i < 0 then - i else i) = N" "(if j < 0 then - j else j) = D" by (simp_all add: N_def D_def)
  let ?v = "N mod D"
  let ?w = "if ?v = 0 then ?v else if fs then (if i < 0 then - ?v else ?v)
    else (let v = (if (i < 0) \<noteq> (j < 0) then D - ?v else ?v) in if j < 0 then - v else v)"
  have r: "rem_mod tdiv fs (Int_Obj i) (Int_Obj j) = Inr (scheme_make_integer ?w)"
    using assms(3,4) by (simp only: rem_mod_def rem_fixnum_def Let_def prod.case exact_int.case nd exact_int.inject if_False)
  have m: "i smod j = sgn i * ?v" by (simp add: signed_modulo_int_def N_def D_def)
  have b: "0 \<le> ?v" "?v < D" "D \<le> 2 ^ 62" using D assms(2) by (auto simp: D_def is_fixnum_def)
  have w: "?w = (if fs then i smod j else i mod j)"
  proof (cases "?v = 0")
    case True
    then have "\<bar>i\<bar> mod \<bar>j\<bar> = 0" by (simp add: N_def D_def)
    then have "j dvd i" by (auto simp: mod_eq_0_iff_dvd)
    then show ?thesis using True m by simp
  next
    case False
    then have nz: "i smod j \<noteq> 0" using m assms(3) by (simp add: sgn_if)
    have s: "i smod j = (if i < 0 then - ?v else ?v)" using m assms(3) by (auto simp: sgn_if)
    have "D = (if j < 0 then - j else j)" by (simp add: D_def)
    then show ?thesis using False s mod_smod(1)[OF assms(4) nz] by (cases "i < 0"; cases "j < 0") (simp_all add: Let_def)
  qed
  have "is_fixnum ?w" using b by (auto simp: is_fixnum_def Let_def)
  then have "represents (scheme_make_integer ?w) ?w" by (rule make_integer_represents)
  then show ?thesis unfolding r w by blast
qed

lemma rem_mod_big_represents:
  assumes tdiv: "divides_limbs tdiv" and ok: "int_ok a" "int_ok b" and nz: "a \<noteq> Int_Obj 0" "b \<noteq> Int_Obj 0"
    and big: "\<not> (\<exists>i j. a = Int_Obj i \<and> b = Int_Obj j)"
  shows "\<exists>r. rem_mod tdiv True a b = Inr r \<and> represents r (int_val a smod int_val b)"
    "\<exists>r. rem_mod tdiv False a b = Inr r \<and> represents r
      (if int_val a < 0 \<and> 0 < int_val b \<and> int_val a smod int_val b = - (2 ^ 62)
       then int_val b + 2 ^ 62 else int_val a mod int_val b)"
proof -
  let ?a = "scheme_to_bignum a" and ?b = "scheme_to_bignum b"
  have vb: "int_val b \<noteq> 0" using zero_obj[OF ok(2)] nz(2) by simp
  have r: "represents (snd (bignum_divide tdiv ?a ?b)) (int_val a smod int_val b)"
    using bignum_divide_represents(2)[OF tdiv to_bignum_ok(2)[OF ok(1)] to_bignum_ok(2)[OF ok(2)] to_bignum_nonzero[OF ok(2) vb]]
    by (simp add: to_bignum_ok ok)
  have s: "big_pos ?a \<longleftrightarrow> 0 \<le> int_val a" "big_pos ?b \<longleftrightarrow> 0 \<le> int_val b"
    using big_val_sign[OF to_bignum_ok(2)[OF ok(1)] to_bignum_ok(3)[OF ok(1)]]
      big_val_sign[OF to_bignum_ok(2)[OF ok(2)] to_bignum_ok(3)[OF ok(2)]] by (simp_all add: to_bignum_ok(1) ok)
  note v = rem_big_value[OF r to_bignum_ok(2)[OF ok(2)] to_bignum_ok(1)[OF ok(2)] vb s(1) s(2)]
  show "\<exists>r. rem_mod tdiv True a b = Inr r \<and> represents r (int_val a smod int_val b)"
    using v(1) rem_mod_big[OF nz big] by blast
  show "\<exists>r. rem_mod tdiv False a b = Inr r \<and> represents r
      (if int_val a < 0 \<and> 0 < int_val b \<and> int_val a smod int_val b = - (2 ^ 62)
       then int_val b + 2 ^ 62 else int_val a mod int_val b)"
    using v(2,3) rem_mod_big[OF nz big] by auto
qed

lemma smod_small: "is_fixnum j \<Longrightarrow> j \<noteq> 0 \<Longrightarrow> i smod j \<noteq> - (2 ^ 62)"
  using smod_int_range[of j i] by (auto simp: is_fixnum_def)

lemma remainder_represents:
  assumes "divides_limbs tdiv" "int_ok a" "int_ok b" "int_val b \<noteq> 0"
  shows "\<exists>r. rem_mod tdiv True a b = Inr r \<and> represents r (int_val a smod int_val b)"
proof (cases "a = Int_Obj 0")
  case True
  then show ?thesis using assms by (auto simp: rem_mod_def represents_def is_fixnum_def)
next
  case a: False
  have b: "b \<noteq> Int_Obj 0" using assms(4) by auto
  show ?thesis
  proof (cases "\<exists>i j. a = Int_Obj i \<and> b = Int_Obj j")
    case True
    then obtain i j where ij: "a = Int_Obj i" "b = Int_Obj j" by blast
    then show ?thesis using fixnum_rem_mod[of i j tdiv True] assms a by simp
  qed (rule rem_mod_big_represents(1)[OF assms(1-3) a b])
qed

lemma modulo_represents:
  assumes "divides_limbs tdiv" "int_ok a" "int_ok b" "int_val b \<noteq> 0"
  shows "\<exists>r. rem_mod tdiv False a b = Inr r \<and> represents r
      (if int_val a < 0 \<and> 0 < int_val b \<and> int_val a smod int_val b = - (2 ^ 62)
       then int_val b + 2 ^ 62 else int_val a mod int_val b)"
proof (cases "a = Int_Obj 0")
  case True
  then show ?thesis using assms by (auto simp: rem_mod_def represents_def is_fixnum_def)
next
  case a: False
  have b: "b \<noteq> Int_Obj 0" using assms(4) by auto
  show ?thesis
  proof (cases "\<exists>i j. a = Int_Obj i \<and> b = Int_Obj j")
    case True
    then obtain i j where ij: "a = Int_Obj i" "b = Int_Obj j" by blast
    then show ?thesis using fixnum_rem_mod[of i j tdiv False] smod_small[of j i] assms a by simp
  qed (rule rem_mod_big_represents(2)[OF assms(1-3) a b])
qed

subsection \<open>Greatest common divisor of fixnums\<close>

lemma euclid_loop_gcd: "0 \<le> b \<Longrightarrow> 0 \<le> a \<Longrightarrow> euclid_loop a b = gcd a b"
proof (induction a b rule: euclid_loop.induct)
  case (1 a b)
  show ?case
  proof (cases "b > 0")
    case True
    then have "euclid_loop b (a mod b) = gcd b (a mod b)" using 1 by simp
    then show ?thesis using True by (subst euclid_loop.simps) (simp add: gcd_red_int[of a b] gcd.commute)
  next
    case False
    then show ?thesis using 1 by (subst euclid_loop.simps) simp
  qed
qed

lemma fixnum_gcd:
  "scheme_bin_gcd gcd_digs (Int_Obj i) (Int_Obj j) = scheme_make_integer (gcd i j)"
proof -
  have "\<bar>i\<bar> = (if i < 0 then - i else i)" "\<bar>j\<bar> = (if j < 0 then - j else j)" by simp_all
  moreover have "euclid_loop a b = gcd i j" if "(a, b) = (\<bar>i\<bar>, \<bar>j\<bar>) \<or> (a, b) = (\<bar>j\<bar>, \<bar>i\<bar>)" for a b
    using that by (auto simp: euclid_loop_gcd gcd.commute)
  ultimately show ?thesis by (simp add: scheme_bin_gcd_def Let_def flip: abs_if)
qed

text \<open>The gcd of two fixnums is not a fixnum only when it is \<open>2 ^ 62\<close>; the code then makes
  \<open>- (2 ^ 62)\<close>.\<close>

lemma fixnum_gcd_value:
  assumes "is_fixnum i" "is_fixnum j"
  shows "scheme_bin_gcd gcd_digs (Int_Obj i) (Int_Obj j) =
    Int_Obj (if gcd i j = 2 ^ 62 then - (2 ^ 62) else gcd i j)"
proof -
  have "gcd i j \<le> 2 ^ 62"
  proof (cases "i = 0")
    case True
    then show ?thesis using assms(2) by (auto simp: is_fixnum_def)
  next
    case False
    then have "gcd i j \<le> \<bar>i\<bar>" using gcd_dvd1[of i j] by (simp add: zdvd_imp_le)
    then show ?thesis using assms(1) by (auto simp: is_fixnum_def)
  qed
  moreover have "- (2 ^ 62) \<le> gcd i j" by (rule order_trans[OF _ gcd_ge_0_int]) simp
  ultimately have "gcd i j \<noteq> 2 ^ 62 \<Longrightarrow> is_fixnum (gcd i j)" by (simp add: is_fixnum_def)
  then show ?thesis by (auto simp: fixnum_gcd scheme_make_integer_def is_fixnum_tag)
qed


subsection \<open>Square roots of words\<close>

lemma or_bit_add:
  fixes root :: uintptr
  assumes "2 ^ Suc i dvd uint root" "i < 32" "uint root < 2 ^ 32"
  shows "uint (root OR push_bit i 1) = uint root + 2 ^ i"
proof -
  have "\<not> bit (uint root) i"
  proof -
    obtain k where "uint root = 2 ^ Suc i * k" using assms(1) by blast
    then have "uint root = 2 ^ i * (2 * k)" by simp
    then have "uint root div 2 ^ i = 2 * k" by (metis nonzero_mult_div_cancel_left power_not_zero zero_neq_numeral)
    then show ?thesis by (simp add: bit_iff_odd)
  qed
  then have "uint root AND 2 ^ i = 0" by (intro bit_eqI) (auto simp: bit_and_iff bit_exp_iff)
  then have "uint root OR 2 ^ i = uint root + 2 ^ i" by (simp add: disjunctive_add_eq_or)
  moreover have "uint (push_bit i 1 :: uintptr) = 2 ^ i"
  proof -
    have "(2 :: int) ^ 1 \<le> 2 ^ (64 - i)" using assms(2) by (intro power_increasing) simp_all
    then have "(1 :: int) mod 2 ^ (64 - i) = 1" by (intro mod_pos_pos_trivial) simp_all
    then show ?thesis using assms(2) uint_push[of i 1] by (simp only: uint_1_eq mult_1_left)
  qed
  ultimately show ?thesis by (simp add: unsigned_or_eq)
qed

lemma sqrt_loop_value:
  assumes "i \<le> 32" "2 ^ i dvd uint root" "uint root + 2 ^ i \<le> 2 ^ 32" "uint square = uint root * uint root"
    "uint square \<le> uint n" "uint n < (uint root + 2 ^ i) * (uint root + 2 ^ i)"
    and "sqrt_loop n i root square = (r, s)"
  shows "uint s = uint r * uint r \<and> uint r * uint r \<le> uint n \<and> uint n < (uint r + 1) * (uint r + 1)"
  using assms
proof (induction i arbitrary: root square)
  case (Suc i)
  define tt where "tt = root OR push_bit i 1"
  have lt: "uint root + 2 ^ i < 2 ^ 32"
    using Suc.prems(3) zero_less_power[of "2 :: int" i] unfolding power_Suc by linarith
  have "i < 32" "uint root < 2 ^ 32" using Suc.prems(1) lt zero_less_power[of "2 :: int" i, OF zero_less_numeral] by linarith+
  then have t: "uint tt = uint root + 2 ^ i" unfolding tt_def by (rule or_bit_add[OF Suc.prems(2)])
  have "uint tt * uint tt < 2 ^ 32 * 2 ^ 32" unfolding t using lt uint_bounds(1)[of root] by (intro mult_strict_mono) simp_all
  then have sq: "uint (tt * tt) = uint tt * uint tt" by (intro uint_mult_lem[THEN iffD1]) simp
  have d: "2 ^ i dvd uint root" using Suc.prems(2) by (meson dvd_trans le_imp_power_dvd lessI less_imp_le)
  show ?case
  proof (cases "tt * tt \<le> n")
    case True
    then have "sqrt_loop n i tt (tt * tt) = (r, s)" using Suc.prems(7) by (simp add: Let_def tt_def)
    then show ?thesis using True Suc.prems(1,3,6) sq d
      by (intro Suc.IH[of tt "tt * tt"]) (simp_all add: t Let_def word_le_def algebra_simps)
  next
    case False
    then have "sqrt_loop n i root square = (r, s)" using Suc.prems(7) by (simp add: Let_def tt_def)
    then show ?thesis using False Suc.prems d sq lt
      by (intro Suc.IH[of root square]) (simp_all add: t Let_def word_le_def)
  qed
qed simp

lemma fixnum_sqrt_value:
  assumes "fixnum_sqrt n = (r, rem)"
  shows "uint r * uint r \<le> uint n \<and> uint n < (uint r + 1) * (uint r + 1) \<and> uint rem = uint n - uint r * uint r"
proof -
  obtain r' s where l: "sqrt_loop n 32 0 0 = (r', s)" by (cases "sqrt_loop n 32 0 0")
  then have e: "r = r'" "rem = n - s" using assms by (simp_all add: fixnum_sqrt_def)
  have "uint n < 2 ^ 64" by (rule uint_bounds(2))
  then have v: "uint s = uint r' * uint r' \<and> uint r' * uint r' \<le> uint n \<and> uint n < (uint r' + 1) * (uint r' + 1)"
    by (intro sqrt_loop_value[OF _ _ _ _ _ _ l]) simp_all
  then have "uint (n - s) = uint n - uint s" by (simp add: uint_sub_if')
  then show ?thesis using v by (simp add: e)
qed

end
