(* ===== verification/Ratio_Correct.thy ===== *)
theory Ratio_Correct
  imports Ratio Exact_Int_Numeric Complex_Main
begin

unbundle bit_operations_syntax

section \<open>Exact rational numbers: correctness\<close>

text \<open>The operations on fractions compute the rational numbers they should, in lowest terms; the
  exceptions, which come from negating a numerator without normalising it and from rounding, are
  stated exactly.\<close>

declare scheme_bignum_normalize.simps(2) [simp del]

subsection \<open>The greatest common divisor of bignums\<close>

text \<open>What \<^verbatim>\<open>bignum.c\<close> needs of \<^verbatim>\<open>mpn_gcd\<close>: the second operand is odd, the first has at least as many
  bits, and the leading digits are not zero.\<close>

definition gcd_limbs :: "(limb list \<Rightarrow> limb list \<Rightarrow> limb list) \<Rightarrow> bool" where
  "gcd_limbs f \<longleftrightarrow>
     (\<forall>u v. u \<noteq> [] \<and> v \<noteq> [] \<and> last u \<noteq> 0 \<and> last v \<noteq> 0 \<and> odd (limbs_val v) \<and> limbs_val v \<le> limbs_val u \<longrightarrow>
        limbs_val (f u v) = gcd (limbs_val u) (limbs_val v))"

lemma low_zero_bits_spec:
  "low_zero_bits ds i fuel \<le> fuel"
  "j < low_zero_bits ds i fuel \<Longrightarrow> \<not> bit (ds ! ((i + j) div 64)) ((i + j) mod 64)"
  "low_zero_bits ds i fuel < fuel \<Longrightarrow> bit (ds ! ((i + low_zero_bits ds i fuel) div 64)) ((i + low_zero_bits ds i fuel) mod 64)"
proof (induction fuel arbitrary: i j)
  case (Suc fuel)
  { case 1 show ?case using Suc(1)[of "Suc i"] by simp }
  { case 2 then show ?case using Suc(2)[of "j - 1" "Suc i"] by (cases j) (auto split: if_splits) }
  { case 3 then show ?case using Suc(3)[of "Suc i"] by (auto split: if_splits) }
qed simp_all

lemma low_zero_bits_value:
  assumes "fuel \<le> 64 * length ds" "k = low_zero_bits ds 0 fuel"
  shows "2 ^ k dvd limbs_val ds" "k < fuel \<Longrightarrow> odd (limbs_val ds div 2 ^ k)" "k \<le> fuel"
proof -
  show k: "k \<le> fuel" using low_zero_bits_spec(1) assms(2) by simp
  have "bit (take_bit k (limbs_val ds)) j \<longleftrightarrow> bit (0 :: int) j" for j
  proof (cases "j < k")
    case True
    then show ?thesis using low_zero_bits_spec(2)[of j ds 0 fuel] assms(2) by (simp add: bit_take_bit_iff bit_limbs_val)
  qed (simp add: bit_take_bit_iff)
  then have "take_bit k (limbs_val ds) = 0" by (rule bit_eqI)
  then show "2 ^ k dvd limbs_val ds" by (simp add: take_bit_eq_0_iff)
  assume less: "k < fuel"
  then have "k div 64 < length ds" using assms(1) by (simp add: div_less_iff_less_mult)
  then have "bit (limbs_val ds) k" using low_zero_bits_spec(3)[of ds 0 fuel] less assms(2) by (simp add: bit_limbs_val)
  then show "odd (limbs_val ds div 2 ^ k)" by (simp add: bit_iff_odd)
qed

lemma last_nonzero: "ds \<noteq> [] \<Longrightarrow> 2 ^ (64 * (length ds - 1)) \<le> limbs_val ds \<Longrightarrow> last ds \<noteq> 0"
  using limbs_val_last[of ds] limbs_val_less[of "butlast ds"] by auto

lemma drop_low_bits_value:
  assumes "digs_ok ds" "k < 64 * length ds"
  shows "limbs_val (drop_low_bits ds k) = limbs_val ds div 2 ^ k"
    "drop_low_bits ds k \<noteq> []"
    "1 < length (drop_low_bits ds k) \<Longrightarrow> 2 ^ (64 * (length (drop_low_bits ds k) - 2)) \<le> limbs_val (drop_low_bits ds k)"
proof -
  define w bt where "w = k div 64" and "bt = k mod 64"
  have k: "k = 64 * w + bt" "bt < 64" by (simp_all add: w_def bt_def)
  define hi where "hi = drop w ds"
  have w: "w < length ds" using assms(2) by (simp add: w_def div_less_iff_less_mult)
  then have ne: "hi \<noteq> []" by (simp add: hi_def)
  have hi: "limbs_val hi = limbs_val ds div 2 ^ (64 * w)" using w by (simp add: hi_def limbs_val_div_mod)
  have "digs_ok hi" using assms(1) w by (cases ds) (auto simp: digs_ok_def hi_def)
  then have low: "2 ^ (64 * (length hi - 1)) \<le> limbs_val hi" using ne by (rule digs_ok_lower)
  have "drop_low_bits ds k = (if bt \<noteq> 0 then fst (mpn_rshift hi bt) else hi)"
    by (simp add: drop_low_bits_def Let_def hi_def w_def bt_def)
  moreover obtain rs so where r: "mpn_rshift hi bt = (rs, so)" by (cases "mpn_rshift hi bt")
  ultimately have v: "limbs_val (drop_low_bits ds k) = limbs_val hi div 2 ^ bt" and l: "length (drop_low_bits ds k) = length hi"
    using mpn_rshift_value[OF ne _ k(2) r] by (auto split: if_splits)
  show "limbs_val (drop_low_bits ds k) = limbs_val ds div 2 ^ k"
    using v hi by (simp add: k(1) power_add zdiv_zmult2_eq)
  show "drop_low_bits ds k \<noteq> []" using l ne by auto
  assume "1 < length (drop_low_bits ds k)"
  then have "length hi - 1 = Suc (length hi - 2)" using l by simp
  then have "(2 :: int) ^ (64 * (length hi - 2)) * 2 ^ 64 \<le> limbs_val hi" using low by (simp add: power_add)
  moreover have "(2 :: int) ^ (64 * (length hi - 2)) * 2 ^ bt \<le> 2 ^ (64 * (length hi - 2)) * 2 ^ 64"
    using k(2) by (intro mult_left_mono power_increasing) simp_all
  ultimately have "2 ^ (64 * (length hi - 2)) * 2 ^ bt \<le> limbs_val hi" by linarith
  then have "2 ^ (64 * (length hi - 2)) * 2 ^ bt div 2 ^ bt \<le> limbs_val hi div 2 ^ bt" by (rule zdiv_mono1) simp
  then show "2 ^ (64 * (length (drop_low_bits ds k) - 2)) \<le> limbs_val (drop_low_bits ds k)" unfolding v l by simp
qed

lemma drop_top_zero_value:
  assumes "ds \<noteq> []" "limbs_val ds \<noteq> 0" "1 < length ds \<Longrightarrow> 2 ^ (64 * (length ds - 2)) \<le> limbs_val ds"
  shows "limbs_val (drop_top_zero ds) = limbs_val ds" "drop_top_zero ds \<noteq> []" "last (drop_top_zero ds) \<noteq> 0"
proof -
  show v: "limbs_val (drop_top_zero ds) = limbs_val ds"
    using limbs_val_last[OF assms(1)] by (simp add: drop_top_zero_def)
  show ne: "drop_top_zero ds \<noteq> []" using v assms(2) by auto
  show "last (drop_top_zero ds) \<noteq> 0"
  proof (cases "last ds = 0")
    case True
    then have d: "drop_top_zero ds = butlast ds" by (simp add: drop_top_zero_def)
    then have "1 < length ds" using ne by (cases ds; cases "tl ds") (auto split: if_splits)
    moreover from this have "length ds - 2 = length (butlast ds) - 1" by simp
    ultimately have "2 ^ (64 * (length (butlast ds) - 1)) \<le> limbs_val (butlast ds)" using assms(3) v d by simp
    then show ?thesis using ne d last_nonzero by simp
  qed (simp add: drop_top_zero_def)
qed

lemma gcd_power_two:
  fixes a b :: int
  assumes "j \<le> i" "j < i \<longrightarrow> odd b"
  shows "gcd (2 ^ i * a) (2 ^ j * b) = 2 ^ j * gcd a b"
proof -
  have "(2 :: int) ^ i = 2 ^ j * 2 ^ (i - j)" using assms(1) by (simp flip: power_add)
  then have e: "2 ^ i * a = 2 ^ j * (2 ^ (i - j) * a)" by (simp only: mult.assoc)
  have "gcd (2 ^ i * a) (2 ^ j * b) = 2 ^ j * gcd (2 ^ (i - j) * a) b" unfolding e by (simp add: gcd_mult_left)
  moreover have "gcd (2 ^ (i - j) * a) b = gcd a b"
  proof (cases "j < i")
    case True
    then have "coprime (2 ^ (i - j)) b" using assms(2) by simp
    then show ?thesis by (rule gcd_mult_left_left_cancel[OF coprime_commute[THEN iffD1]])
  qed (use assms(1) in simp)
  ultimately show ?thesis by simp
qed

lemma bignum_gcd_ordered:
  assumes g: "gcd_limbs f" and n: "big_ok n" "big_pos n" "big_digs n \<noteq> []" and d: "big_ok d" "big_pos d"
    and le: "big_val n \<le> big_val d"
  defines "nz \<equiv> low_zero_bits (big_digs n) 0 (64 * length (big_digs n))"
  defines "dz \<equiv> low_zero_bits (big_digs d) 0 nz"
  defines "nd \<equiv> drop_top_zero (drop_low_bits (big_digs n) nz)"
  defines "dd \<equiv> drop_top_zero (drop_low_bits (big_digs d) dz)"
  shows "dz \<le> nz" "2 ^ dz * limbs_val (f dd nd) = gcd (big_val n) (big_val d)" "2 ^ nz \<le> big_val n"
proof -
  define N D where "N = limbs_val (big_digs n)" and "D = limbs_val (big_digs d)"
  have nv: "big_val n = N" "big_val d = D" using n d by (simp_all add: big_val_def N_def D_def)
  have dok: "digs_ok (big_digs n)" "digs_ok (big_digs d)" using n d by (simp_all add: big_ok_def)
  have N: "0 < N" using digs_ok_zero[OF dok(1)] n(3) limbs_val_nonneg[of "big_digs n"] by (simp add: N_def order_less_le del: limbs_val_nonneg)
  have le: "N \<le> D" using le nv by simp
  note nzv = low_zero_bits_value[OF order_refl meta_eq_to_obj_eq[OF nz_def]]
  have less: "nz < 64 * length (big_digs n)"
  proof (rule ccontr)
    assume "\<not> ?thesis"
    then have "nz = 64 * length (big_digs n)" using nzv(3) by simp
    then have "2 ^ (64 * length (big_digs n)) \<le> N" using nzv(1) N by (simp add: N_def zdvd_imp_le)
    then show False using limbs_val_less[of "big_digs n"] by (simp add: N_def)
  qed
  have "length (big_digs n) \<le> length (big_digs d)"
    using digs_ok_shorter[OF dok(1), of "big_digs d"] le by (cases "length (big_digs d) < length (big_digs n)") (simp_all add: N_def D_def)
  then have lessd: "nz < 64 * length (big_digs d)" using less by linarith
  note dzv = low_zero_bits_value[OF less_imp_le[OF lessd] meta_eq_to_obj_eq[OF dz_def]]
  show dz: "dz \<le> nz" by (rule dzv(3))
  have Nn: "N = 2 ^ nz * (N div 2 ^ nz)" using nzv(1) by (simp add: N_def)
  have Dd: "D = 2 ^ dz * (D div 2 ^ dz)" using dzv(1) by (simp add: D_def)
  have pos: "N div 2 ^ nz \<noteq> 0" "D div 2 ^ dz \<noteq> 0" using Nn Dd N le by auto
  show "2 ^ nz \<le> big_val n" unfolding nv(1) using nzv(1) N by (intro zdvd_imp_le) (simp_all add: N_def)
  note dn = drop_low_bits_value[OF dok(1) less, folded N_def]
  have "dz < 64 * length (big_digs d)" using dz lessd by simp
  note ddv = drop_low_bits_value[OF dok(2) this, folded D_def]
  have tn: "limbs_val nd = N div 2 ^ nz" "nd \<noteq> []" "last nd \<noteq> 0"
    using drop_top_zero_value[OF dn(2)] dn pos by (simp_all add: nd_def)
  have td: "limbs_val dd = D div 2 ^ dz" "dd \<noteq> []" "last dd \<noteq> 0"
    using drop_top_zero_value[OF ddv(2)] ddv pos by (simp_all add: dd_def)
  have "N div 2 ^ nz \<le> N div 2 ^ dz" using N dz by (intro zdiv_mono2) simp_all
  also have "\<dots> \<le> D div 2 ^ dz" using le by (intro zdiv_mono1) simp_all
  finally have "limbs_val (f dd nd) = gcd (D div 2 ^ dz) (N div 2 ^ nz)"
    using g[unfolded gcd_limbs_def, rule_format, of dd nd] tn td nzv(2)[OF less] by (simp add: N_def)
  moreover have "gcd N D = 2 ^ dz * gcd (N div 2 ^ nz) (D div 2 ^ dz)"
    using gcd_power_two[OF dz, of "D div 2 ^ dz" "N div 2 ^ nz"] dzv(2) Nn Dd by (simp add: D_def)
  ultimately show "2 ^ dz * limbs_val (f dd nd) = gcd (big_val n) (big_val d)" by (simp add: nv gcd.commute)
qed

text \<open>The counters of \<^verbatim>\<open>scheme_bignum_gcd\<close> are \<^verbatim>\<open>int\<close>s. They hold the numbers of low zero bits when one operand has
  at most \<open>2 * gcd_bits\<close> bits.\<close>

definition gcd_bits :: nat where
  "gcd_bits = 2 ^ 30"

definition fits_gcd :: "int \<Rightarrow> bool" where
  "fits_gcd v \<longleftrightarrow> \<bar>v\<bar> < 2 ^ (2 * gcd_bits)"

lemma fits_gcd_abs [simp]: "fits_gcd \<bar>v\<bar> = fits_gcd v" "fits_gcd (- v) = fits_gcd v"
  by (simp_all add: fits_gcd_def)

lemma fits_gcd_count: "fits_gcd v \<Longrightarrow> 2 ^ nz \<le> \<bar>v\<bar> \<Longrightarrow> nz < 2 ^ 31"
proof -
  assume "fits_gcd v" "2 ^ nz \<le> \<bar>v\<bar>"
  then have "(2 :: int) ^ nz < 2 ^ (2 * gcd_bits)" unfolding fits_gcd_def by linarith
  then have "nz < 2 * gcd_bits" by (rule power_less_imp_less_exp[rotated]) simp
  then show "nz < 2 ^ 31" by (simp add: gcd_bits_def)
qed

lemma fits_gcd_product:
  assumes "\<bar>v\<bar> < 2 ^ gcd_bits" "\<bar>w\<bar> < 2 ^ gcd_bits"
  shows "fits_gcd (v * w)"
proof -
  have "\<bar>v\<bar> * \<bar>w\<bar> < 2 ^ gcd_bits * 2 ^ gcd_bits" using assms by (intro mult_strict_mono') simp_all
  then show ?thesis by (simp add: fits_gcd_def abs_mult mult_2 power_add)
qed

lemma gcd_bits_small: "\<bar>v\<bar> < 2 ^ 64 \<Longrightarrow> \<bar>v :: int\<bar> < 2 ^ gcd_bits"
proof -
  have "64 \<le> gcd_bits" by (simp add: gcd_bits_def)
  then have "(2 :: int) ^ 64 \<le> 2 ^ gcd_bits" by (intro power_increasing) simp_all
  then show "\<bar>v\<bar> < 2 ^ 64 \<Longrightarrow> \<bar>v\<bar> < 2 ^ gcd_bits" by linarith
qed

lemma fits_gcd_half: "\<bar>v\<bar> < 2 ^ gcd_bits \<Longrightarrow> fits_gcd v"
  using fits_gcd_product[of v 1] gcd_bits_small[of 1] by simp

lemma bignum_gcd_represents:
  assumes g: "gcd_limbs f" and a: "big_ok a" "big_pos a" "big_digs a \<noteq> []" and b: "big_ok b" "big_pos b" "big_digs b \<noteq> []"
    and fits: "fits_gcd (big_val a) \<or> fits_gcd (big_val b)"
  shows "represents (scheme_bignum_gcd f a b) (gcd (big_val a) (big_val b))"
proof -
  have ordered: "represents (scheme_bignum_gcd f n d) (gcd (big_val n) (big_val d))"
    if n: "big_ok n" "big_pos n" "big_digs n \<noteq> []" and d: "big_ok d" "big_pos d" and le: "big_val n \<le> big_val d"
      and fn: "fits_gcd (big_val n) \<or> fits_gcd (big_val d)"
      and s: "scheme_bignum_gcd f n d = scheme_bignum_gcd f m e" "(if scheme_bignum_lt e m then (e, m) else (m, e)) = (n, d)" for n d m e
  proof -
    define nz where "nz = low_zero_bits (big_digs n) 0 (64 * length (big_digs n))"
    define dz where "dz = low_zero_bits (big_digs d) 0 nz"
    define r where "r = \<lparr>big_pos = True, big_digs = trim_digs (f (drop_top_zero (drop_low_bits (big_digs d) dz)) (drop_top_zero (drop_low_bits (big_digs n) nz)))\<rparr>"
    note v = bignum_gcd_ordered[OF g n d le, folded nz_def, folded dz_def]
    have min: "\<not> nz < dz" using v(1) by simp
    have "0 \<le> big_val n" using n(2) by (simp add: big_val_def)
    then have "fits_gcd (big_val n)" using fn le by (auto simp: fits_gcd_def)
    from fits_gcd_count[OF this, of nz] v(3) \<open>0 \<le> big_val n\<close> have count: "\<not> 2 ^ 31 \<le> nz" by simp
    have "scheme_bignum_gcd f m e =
        (if dz \<noteq> 0 then scheme_bignum_shift r (int dz) else scheme_bignum_normalize (Big_Obj r))"
      unfolding scheme_bignum_gcd_def s(2) Let_def prod.case using n(3) min count
      by (simp add: nz_def[symmetric] dz_def[symmetric] r_def del: power_numeral)
    moreover have ok: "big_ok r" by (simp add: big_ok_def r_def)
    moreover have rv: "2 ^ dz * big_val r = gcd (big_val n) (big_val d)" using v(2) by (simp add: big_val_def r_def)
    moreover have "big_digs r \<noteq> []"
    proof
      assume "big_digs r = []"
      then have "big_val r = 0" by (simp add: big_val_def)
      then have "big_val n = 0" using rv by simp
      then show False using n digs_ok_zero[of "big_digs n"] by (simp add: big_val_def big_ok_def)
    qed
    ultimately show ?thesis unfolding s(1)
      using left_shift_represents[of r dz] normalize_represents[of r]
      by (cases "dz = 0") (simp_all add: scheme_bignum_shift_def mult.commute[of _ "2 ^ dz"])
  qed
  have lt: "scheme_bignum_lt b a \<longleftrightarrow> big_val b < big_val a" using a b by (simp add: lt_value no_neg_zero_def)
  show ?thesis
  proof (cases "scheme_bignum_lt b a")
    case True
    have "scheme_bignum_gcd f b a = scheme_bignum_gcd f a b"
      using True lt a b by (simp add: scheme_bignum_gcd_def Let_def lt_value no_neg_zero_def)
    then show ?thesis using ordered[OF b a(1,2), of a b] True lt fits by (auto simp: gcd.commute)
  next
    case False
    then show ?thesis using ordered[OF a b(1,2) _ fits refl] lt by simp
  qed
qed

text \<open>An exact integer that may be a bignum although it fits into a fixnum.\<close>

fun int_wide :: "exact_int \<Rightarrow> bool" where
  "int_wide (Int_Obj i) = is_fixnum i"
| "int_wide (Big_Obj b) = (big_ok b \<and> no_neg_zero b)"

lemma int_ok_wide [simp]: "int_ok ob \<Longrightarrow> int_wide ob"
  using int_ok_big by (cases ob) auto

lemma wide_to_bignum:
  assumes "int_wide ob"
  shows "big_val (scheme_to_bignum ob) = int_val ob" "big_ok (scheme_to_bignum ob)" "no_neg_zero (scheme_to_bignum ob)"
    "int_val ob \<noteq> 0 \<Longrightarrow> big_digs (scheme_to_bignum ob) \<noteq> []"
proof -
  show v: "big_val (scheme_to_bignum ob) = int_val ob" and "big_ok (scheme_to_bignum ob)" "no_neg_zero (scheme_to_bignum ob)"
    using assms small_bignum_fixnum by (cases ob; simp add: scheme_make_bignum_def)+
  show "int_val ob \<noteq> 0 \<Longrightarrow> big_digs (scheme_to_bignum ob) \<noteq> []" using v by (auto simp: big_val_def split: if_splits)
qed

lemma wide_normal: "int_wide ob \<Longrightarrow> \<not> is_fixnum (int_val ob) \<Longrightarrow> int_ok ob"
  by (cases ob) auto

lemma abs_bignum:
  assumes "big_ok n" "no_neg_zero n"
  defines "m \<equiv> (if \<not> big_pos n then scheme_bignum_negate n else n)"
  shows "big_ok m" "big_pos m" "big_val m = \<bar>big_val n\<bar>" "big_digs m = big_digs n"
  using assms(1) by (auto simp: m_def scheme_bignum_negate_def big_ok_def big_val_def)

lemma bin_gcd_represents:
  assumes g: "gcd_limbs f" and ok: "int_wide a" "int_wide b" and nz: "int_val a \<noteq> 0" "int_val b \<noteq> 0"
    and fits: "fits_gcd (int_val a) \<or> fits_gcd (int_val b)"
  shows "int_ok (scheme_bin_gcd f a b)"
    "int_val (scheme_bin_gcd f a b) = gcd (int_val a) (int_val b) \<or>
     int_val (scheme_bin_gcd f a b) = - gcd (int_val a) (int_val b) \<and> \<bar>int_val b\<bar> = 2 ^ 62 \<and> int_val b < 0"
proof -
  have "int_ok (scheme_bin_gcd f a b) \<and>
    (int_val (scheme_bin_gcd f a b) = gcd (int_val a) (int_val b) \<or>
     int_val (scheme_bin_gcd f a b) = - gcd (int_val a) (int_val b) \<and> \<bar>int_val b\<bar> = 2 ^ 62 \<and> int_val b < 0)"
  proof (cases "\<exists>i j. a = Int_Obj i \<and> b = Int_Obj j")
    case True
    then obtain i j where ij: "a = Int_Obj i" "b = Int_Obj j" by blast
    then have fx: "is_fixnum i" "is_fixnum j" using ok by simp_all
    show ?thesis
    proof (cases "gcd i j = 2 ^ 62")
      case True
      then have "2 ^ 62 dvd j" by (metis gcd_dvd2)
      then have "2 ^ 62 \<le> \<bar>j\<bar>" using nz(2) ij dvd_imp_le_int[of j "2 ^ 62"] by simp
      then have "j = - (2 ^ 62)" using fx(2) by (auto simp: is_fixnum_def)
      then show ?thesis using True ij fixnum_gcd_value[OF fx, of f] by (simp add: is_fixnum_def)
    next
      case False
      have "int_ok (Int_Obj (gcd i j))"
      proof -
        have "gcd i j \<le> \<bar>j\<bar>" using nz(2) ij by (simp add: zdvd_imp_le)
        then have "gcd i j \<le> 2 ^ 62" using fx(2) by (auto simp: is_fixnum_def)
        moreover have "- (2 ^ 62) \<le> gcd i j" by (rule order_trans[OF _ gcd_ge_0_int]) simp
        ultimately show ?thesis using False by (simp add: is_fixnum_def)
      qed
      then show ?thesis using False ij fixnum_gcd_value[OF fx, of f] by simp
    qed
  next
    case False
    let ?a = "scheme_to_bignum a" and ?b = "scheme_to_bignum b"
    let ?A = "if \<not> big_pos ?a then scheme_bignum_negate ?a else ?a" and ?B = "if \<not> big_pos ?b then scheme_bignum_negate ?b else ?b"
    have "scheme_bin_gcd f a b = scheme_bignum_gcd f ?A ?B"
      using False by (cases a; cases b) (simp_all add: scheme_bin_gcd_def Let_def)
    moreover have "represents (scheme_bignum_gcd f ?A ?B) (gcd (big_val ?A) (big_val ?B))"
      using abs_bignum[OF wide_to_bignum(2,3)[OF ok(1)]] abs_bignum[OF wide_to_bignum(2,3)[OF ok(2)]]
        wide_to_bignum(4)[OF ok(1) nz(1)] wide_to_bignum(4)[OF ok(2) nz(2)]
        wide_to_bignum(1)[OF ok(1)] wide_to_bignum(1)[OF ok(2)] fits
      by (intro bignum_gcd_represents[OF g]) simp_all
    ultimately show ?thesis
      using abs_bignum(3)[OF wide_to_bignum(2,3)[OF ok(1)]] abs_bignum(3)[OF wide_to_bignum(2,3)[OF ok(2)]]
      by (simp add: represents_def wide_to_bignum(1) ok)
  qed
  then show "int_ok (scheme_bin_gcd f a b)"
    "int_val (scheme_bin_gcd f a b) = gcd (int_val a) (int_val b) \<or>
     int_val (scheme_bin_gcd f a b) = - gcd (int_val a) (int_val b) \<and> \<bar>int_val b\<bar> = 2 ^ 62 \<and> int_val b < 0" by blast+
qed

subsection \<open>Fractions in lowest terms\<close>

definition frac_ok :: "rational \<Rightarrow> bool" where
  "frac_ok r \<longleftrightarrow> int_ok (rat_num r) \<and> int_ok (rat_denom r) \<and> 1 \<le> int_val (rat_denom r) \<and>
     coprime (int_val (rat_num r)) (int_val (rat_denom r))"

definition frac_val :: "rational \<Rightarrow> rat" where
  "frac_val r = of_int (int_val (rat_num r)) / of_int (int_val (rat_denom r))"

fun num_val :: "exact_num \<Rightarrow> rat" where
  "num_val (Whole a) = of_int (int_val a)"
| "num_val (Ratio r) = frac_val r"

text \<open>The normal form of a number, and the one with a numerator that may not be normalised.\<close>

fun num_ok :: "exact_num \<Rightarrow> bool" where
  "num_ok (Whole a) = int_ok a"
| "num_ok (Ratio r) = (frac_ok r \<and> 1 < int_val (rat_denom r))"

fun numerator :: "exact_num \<Rightarrow> exact_int" where
  "numerator (Whole a) = a"
| "numerator (Ratio r) = rat_num r"

fun denominator :: "exact_num \<Rightarrow> int" where
  "denominator (Whole a) = 1"
| "denominator (Ratio r) = int_val (rat_denom r)"

definition num_wide :: "exact_num \<Rightarrow> bool" where
  "num_wide x \<longleftrightarrow> int_wide (numerator x) \<and> coprime (int_val (numerator x)) (denominator x) \<and>
     (\<forall>r. x = Ratio r \<longrightarrow> int_ok (rat_denom r) \<and> 1 < int_val (rat_denom r))"

lemma num_wide_ok: "num_wide x \<Longrightarrow> int_ok (numerator x) \<Longrightarrow> num_ok x"
  by (cases x) (auto simp: num_wide_def frac_ok_def)

lemma num_ok_wide: "num_ok x \<Longrightarrow> num_wide x"
  by (cases x) (auto simp: num_wide_def frac_ok_def)

lemma num_wide_val: "num_wide x \<Longrightarrow> num_val x = of_int (int_val (numerator x)) / of_int (denominator x)"
  by (cases x) (auto simp: frac_val_def)

lemma one_obj: "int_ok ob \<Longrightarrow> int_val ob = 1 \<longleftrightarrow> ob = Int_Obj 1"
  using int_ok_inject[of ob "Int_Obj 1"] by (simp add: is_fixnum_def)

lemma small_fixnums [simp]: "is_fixnum 0" "is_fixnum 1" "is_fixnum (-1)" "is_fixnum 2"
  by (simp_all add: is_fixnum_def)

lemma make_small_integer [simp]: "scheme_make_integer 0 = Int_Obj 0" "scheme_make_integer 1 = Int_Obj 1"
  "scheme_make_integer (-1) = Int_Obj (-1)" "scheme_make_integer 2 = Int_Obj 2"
  by (simp_all add: scheme_make_integer_def)

lemma negate_simple_value:
  assumes "int_ok a"
  shows "int_wide (negate_simple a)" "int_val (negate_simple a) = - int_val a"
    "int_val a \<noteq> 2 ^ 62 \<Longrightarrow> int_ok (negate_simple a)"
proof -
  have "int_wide (negate_simple a) \<and> int_val (negate_simple a) = - int_val a \<and>
    (int_val a \<noteq> 2 ^ 62 \<longrightarrow> int_ok (negate_simple a))"
  proof (cases a)
    case (Int_Obj i)
    then have "represents (scheme_make_integer_value (- i)) (- i)"
      using assms by (intro make_integer_value_represents) (simp_all add: is_fixnum_def)
    then show ?thesis using Int_Obj by (simp add: represents_def)
  next
    case (Big_Obj b)
    have v: "big_val (scheme_bignum_negate b) = - big_val b" "big_ok (scheme_bignum_negate b) \<longleftrightarrow> big_ok b"
      by (simp_all add: scheme_bignum_negate_def big_val_def big_ok_def)
    have "big_digs b \<noteq> []" using assms Big_Obj by (auto simp: big_val_def split: if_splits)
    then have "no_neg_zero (scheme_bignum_negate b)" by (simp add: no_neg_zero_def scheme_bignum_negate_def)
    moreover have "\<not> is_fixnum (- big_val b)" if "big_val b \<noteq> 2 ^ 62"
      using assms Big_Obj that by (auto simp: is_fixnum_def)
    ultimately show ?thesis using assms Big_Obj v by simp
  qed
  then show "int_wide (negate_simple a)" "int_val (negate_simple a) = - int_val a"
    "int_val a \<noteq> 2 ^ 62 \<Longrightarrow> int_ok (negate_simple a)" by blast+
qed

lemma wide_quotient:
  assumes "divides_limbs tdiv" "int_wide a" "int_wide b" "int_val b \<noteq> 0"
  shows "\<exists>q. bin_quotient tdiv a b = Inr q \<and> represents q (int_val a sdiv int_val b)"
proof -
  have b: "b \<noteq> Int_Obj 0" using assms(4) by auto
  have "represents (fst (bignum_divide tdiv (scheme_to_bignum a) (scheme_to_bignum b))) (int_val a sdiv int_val b)"
    using bignum_divide_represents(1)[OF assms(1) wide_to_bignum(2)[OF assms(2)] wide_to_bignum(2)[OF assms(3)]
      wide_to_bignum(4)[OF assms(3,4)]] by (simp add: wide_to_bignum assms)
  then show ?thesis using b sdiv_fixnum assms(2,3) by (cases a; cases b) (auto simp: bin_quotient_def)
qed

lemma sdiv_exact: "k \<noteq> 0 \<Longrightarrow> k * m sdiv k = m" for k m :: int
proof -
  assume k: "k \<noteq> 0"
  then have "\<bar>k * m\<bar> div \<bar>k\<bar> = \<bar>m\<bar>" by (simp add: abs_mult)
  moreover have "sgn (k * m) * sgn k = sgn m"
  proof -
    have "sgn k * sgn k = 1" using k by (simp add: sgn_if)
    moreover have "sgn (k * m) * sgn k = sgn m * (sgn k * sgn k)" by (simp only: sgn_mult ac_simps)
    ultimately show ?thesis by simp
  qed
  ultimately show "k * m sdiv k = m" by (simp add: signed_divide_int_def sgn_mult_abs)
qed

lemma exact_quotient:
  assumes "divides_limbs tdiv" "int_wide a" "int_wide b" "int_val b \<noteq> 0" "int_val b dvd int_val a"
  obtains q where "bin_quotient tdiv a b = Inr q" "int_ok q" "int_val a = int_val b * int_val q"
proof -
  obtain m where m: "int_val a = int_val b * m" using assms(5) by blast
  then show thesis using wide_quotient[OF assms(1-4)] sdiv_exact[OF assms(4)] that by (auto simp: represents_def)
qed

lemma cross_multiply:
  fixes p q r s :: rat
  assumes "0 < q" "0 < s"
  shows "p / q < r / s \<longleftrightarrow> p * s < r * q" "p / q \<le> r / s \<longleftrightarrow> p * s \<le> r * q"
  using assms by (simp_all add: field_simps)

lemma exact_int_order:
  assumes "int_ok a" "int_ok b"
  shows "(case (a, b) of
      (Int_Obj i, Int_Obj j) \<Rightarrow> if or_eq then i \<le> j else i < j
    | (Big_Obj i, Big_Obj j) \<Rightarrow> if or_eq then scheme_bignum_le i j else scheme_bignum_lt i j
    | (Int_Obj i, Big_Obj j) \<Rightarrow> big_pos j
    | (Big_Obj i, Int_Obj j) \<Rightarrow> \<not> big_pos i) \<longleftrightarrow>
    (if or_eq then int_val a \<le> int_val b else int_val a < int_val b)"
proof -
  have s: "big_pos n \<longleftrightarrow> 0 \<le> big_val n" "2 ^ 62 \<le> big_val n \<or> big_val n < - (2 ^ 62)" if "int_ok (Big_Obj n)" for n
    using that int_ok_big[OF that] big_val_sign by (auto simp: is_fixnum_def)
  show ?thesis
  proof (cases a; cases b)
    fix i j assume "a = Int_Obj i" "b = Big_Obj j"
    then show ?thesis using assms s[of j] by (auto simp: is_fixnum_def)
  next
    fix i j assume "a = Big_Obj i" "b = Int_Obj j"
    then show ?thesis using assms s[of i] by (auto simp: is_fixnum_def)
  next
    fix i j assume "a = Big_Obj i" "b = Big_Obj j"
    then show ?thesis using assms int_ok_big
      by (simp add: lt_value scheme_bignum_le_def scheme_bignum_gt_def not_less)
  qed auto
qed

locale gmp_laws =
  fixes g :: gmp_ops
  assumes mul: "limb_product (mul_op g)" and tdiv: "divides_limbs (tdiv_op g)" and gcd: "gcd_limbs (gcd_op g)"
begin

lemma normalize_lowest:
  assumes n: "int_wide n" "int_val n \<noteq> 0" and d: "int_ok d" "0 < int_val d" "fits_gcd (int_val d)"
  shows "\<exists>x. (if d = Int_Obj 1 then Inr (Whole n)
            else if scheme_bin_gcd (gcd_op g) n d = Int_Obj 1 then Inr (Ratio \<lparr>rat_num = n, rat_denom = d\<rparr>)
            else or_error (bin_quotient (tdiv_op g) n (scheme_bin_gcd (gcd_op g) n d)) (\<lambda>n'.
                 or_error (bin_quotient (tdiv_op g) d (scheme_bin_gcd (gcd_op g) n d)) (\<lambda>d'.
                   if d' = Int_Obj 1 then Inr (Whole n') else Inr (Ratio \<lparr>rat_num = n', rat_denom = d'\<rparr>)))) = Inr x \<and>
    num_wide x \<and> num_val x = of_int (int_val n) / of_int (int_val d) \<and> (int_ok (numerator x) \<or> numerator x = n)"
proof (cases "d = Int_Obj 1")
  case True
  then show ?thesis using n by (auto simp: num_wide_def)
next
  case False
  define k where "k = scheme_bin_gcd (gcd_op g) n d"
  have d1: "1 < int_val d" using False one_obj[OF d(1)] d(2) by linarith
  have k: "int_ok k" "int_val k = gcd (int_val n) (int_val d)"
    using bin_gcd_represents[OF gcd n(1) int_ok_wide[OF d(1)] n(2)] d(2,3) by (simp_all add: k_def)
  have k0: "0 < int_val k" unfolding k(2) using n(2) by simp
  show ?thesis
  proof (cases "k = Int_Obj 1")
    case True
    then have "coprime (int_val n) (int_val d)" using k(2) by (simp add: coprime_iff_gcd_eq_1)
    then show ?thesis using False True n d d1 by (simp add: k_def num_wide_def frac_val_def)
  next
    case k1: False
    have "int_val k \<noteq> 0" "int_val k dvd int_val n" "int_val k dvd int_val d" using k0 by (simp_all add: k(2))
    with exact_quotient[OF tdiv n(1) int_ok_wide[OF k(1)]] exact_quotient[OF tdiv int_ok_wide[OF d(1)] int_ok_wide[OF k(1)]]
    obtain n' d' where q: "bin_quotient (tdiv_op g) n k = Inr n'" "int_ok n'" "int_val n = int_val k * int_val n'"
      "bin_quotient (tdiv_op g) d k = Inr d'" "int_ok d'" "int_val d = int_val k * int_val d'" by metis
    have d': "0 < int_val d'" using q(6) d(2) k0 by (simp add: zero_less_mult_iff)
    have "gcd (int_val k * int_val n') (int_val k * int_val d') = int_val k * 1" using k(2) q by simp
    then have "int_val k * gcd (int_val n') (int_val d') = int_val k * 1" using k0 by (simp only: gcd_mult_left) simp
    then have "gcd (int_val n') (int_val d') = 1" using k0 by (simp only: mult_cancel_left) simp
    then have c: "coprime (int_val n') (int_val d')" by (simp add: coprime_iff_gcd_eq_1)
    have v: "(of_int (int_val n') / of_int (int_val d') :: rat) = of_int (int_val n) / of_int (int_val d)"
      unfolding q(3) q(6) using k0 d' by simp
    show ?thesis
    proof (cases "d' = Int_Obj 1")
      case True
      then show ?thesis using False k1 q v by (auto simp: k_def[symmetric] num_wide_def)
    next
      case d1': False
      then have "1 < int_val d'" using one_obj[OF q(5)] d' by linarith
      then show ?thesis using False k1 d1' q v c by (auto simp: k_def[symmetric] num_wide_def frac_val_def)
    qed
  qed
qed

lemma normalize_value:
  assumes n: "int_ok n" and d: "int_ok d" "int_val d \<noteq> 0" "fits_gcd (int_val d)"
  shows "\<exists>x. scheme_rational_normalize g \<lparr>rat_num = n, rat_denom = d\<rparr> = Inr x \<and> num_wide x \<and>
    num_val x = of_int (int_val n) / of_int (int_val d) \<and>
    (0 < int_val d \<or> int_val (numerator x) \<noteq> - (2 ^ 62) \<longrightarrow> num_ok x)"
proof (cases "n = Int_Obj 0")
  case True
  then show ?thesis by (auto simp: scheme_rational_normalize_def num_wide_def)
next
  case False
  then have n0: "int_val n \<noteq> 0" using zero_obj[OF n] by simp
  define neg where "neg \<longleftrightarrow> int_val d < 0"
  define n' d' where "n' = (if neg then negate_simple n else n)" and "d' = (if neg then negate_simple d else d)"
  have neg: "(case d of Int_Obj d \<Rightarrow> d < 0 | Big_Obj b \<Rightarrow> \<not> big_pos b) = neg"
  proof (cases d)
    case (Big_Obj b)
    then show ?thesis using big_val_sign int_ok_big d(1) by (auto simp: neg_def)
  qed (simp add: neg_def)
  have ok: "int_wide n'" "int_val n' \<noteq> 0" "int_ok d'" "0 < int_val d'" "fits_gcd (int_val d')"
    using negate_simple_value[OF n] negate_simple_value[OF d(1)] n d n0 by (auto simp: n'_def d'_def neg_def)
  have v: "(of_int (int_val n') / of_int (int_val d') :: rat) = of_int (int_val n) / of_int (int_val d)"
    using negate_simple_value(2)[OF n] negate_simple_value(2)[OF d(1)] by (simp add: n'_def d'_def)
  have fx: "int_ok n'" if "0 < int_val d \<or> int_val n' \<noteq> - (2 ^ 62)"
    using that n negate_simple_value(2,3)[OF n] by (auto simp: n'_def neg_def)
  have e: "scheme_rational_normalize g \<lparr>rat_num = n, rat_denom = d\<rparr> =
    (if d' = Int_Obj 1 then Inr (Whole n')
     else if scheme_bin_gcd (gcd_op g) n' d' = Int_Obj 1 then Inr (Ratio \<lparr>rat_num = n', rat_denom = d'\<rparr>)
     else or_error (bin_quotient (tdiv_op g) n' (scheme_bin_gcd (gcd_op g) n' d')) (\<lambda>n.
          or_error (bin_quotient (tdiv_op g) d' (scheme_bin_gcd (gcd_op g) n' d')) (\<lambda>d.
            if d = Int_Obj 1 then Inr (Whole n) else Inr (Ratio \<lparr>rat_num = n, rat_denom = d\<rparr>))))"
    using False by (simp add: scheme_rational_normalize_def Let_def neg n'_def d'_def cong: if_cong)
  obtain x where x: "scheme_rational_normalize g \<lparr>rat_num = n, rat_denom = d\<rparr> = Inr x" "num_wide x"
    "num_val x = of_int (int_val n') / of_int (int_val d')" "int_ok (numerator x) \<or> numerator x = n'"
    unfolding e using normalize_lowest[OF ok] by blast
  have "num_ok x" if "0 < int_val d \<or> int_val (numerator x) \<noteq> - (2 ^ 62)"
    using x(2,4) fx that by (intro num_wide_ok) auto
  then show ?thesis using x v by simp
qed

lemma normal_id: "int_ok a \<Longrightarrow> scheme_bignum_normalize a = a"
  using represents_unique[OF normalize_represents] represents_refl int_ok_big by (cases a) fastforce+

lemma make_rational_value:
  assumes "int_ok n" "int_ok d" "int_val d \<noteq> 0" "fits_gcd (int_val d)"
  shows "\<exists>x. scheme_make_rational g n d = Inr x \<and> num_wide x \<and>
    num_val x = of_int (int_val n) / of_int (int_val d) \<and>
    (0 < int_val d \<or> int_val (numerator x) \<noteq> - (2 ^ 62) \<longrightarrow> num_ok x)"
  using normalize_value[OF assms] by (simp add: scheme_make_rational_def make_rational_def normal_id assms)

lemmas product = limb_product.mult_represents[OF mul, unfolded represents_def]
lemmas sum = plus_represents[unfolded represents_def]

lemma rational_negate_ok: "frac_ok r \<Longrightarrow> frac_ok (scheme_rational_negate r) \<and> frac_val (scheme_rational_negate r) = - frac_val r"
  using minus_represents[of "Int_Obj 0" "rat_num r"]
  by (simp add: frac_ok_def frac_val_def scheme_rational_negate_def represents_def)

lemma rational_add_value:
  assumes ra: "frac_ok ra" and rb: "frac_ok rb" and one: "1 < int_val (rat_denom ra) \<or> 1 < int_val (rat_denom rb)"
    and fits: "fits_gcd (int_val (rat_denom ra) * int_val (rat_denom rb))"
  shows "\<exists>x. scheme_rational_add g ra rb = Inr x \<and> num_ok x \<and> num_val x = frac_val ra + frac_val rb"
proof -
  have ordered: "\<exists>x. scheme_rational_add g r s = Inr x \<and> num_ok x \<and> num_val x = frac_val ra + frac_val rb"
    if a: "frac_ok ra" "1 < int_val (rat_denom ra)" and b: "frac_ok rb"
      and fits: "fits_gcd (int_val (rat_denom ra) * int_val (rat_denom rb))"
      and sw: "(if rat_denom r = Int_Obj 1 then (s, r) else (r, s)) = (ra, rb)" for r s ra rb
  proof -
    define p q where "p = rat_num ra" and "q = rat_denom ra"
    define u w where "u = rat_num rb" and "w = rat_denom rb"
    have ok: "int_ok p" "int_ok q" "int_ok u" "int_ok w" "1 < int_val q" "1 \<le> int_val w"
      "coprime (int_val p) (int_val q)"
      using a b by (simp_all add: frac_ok_def p_def q_def u_def w_def)
    define bd where "bd = scheme_bin_mult (mul_op g) q u"
    have bd: "int_ok bd" "int_val bd = int_val q * int_val u" using product[OF ok(2,3)] by (simp_all add: bd_def)
    have v: "frac_val ra + frac_val rb =
      of_int (int_val p * int_val w + int_val q * int_val u) / of_int (int_val q * int_val w)"
      using ok(5,6) by (simp add: frac_val_def p_def q_def u_def w_def add_frac_eq ac_simps)
    show ?thesis
    proof (cases "w = Int_Obj 1")
      case True
      have s: "int_ok (scheme_bin_plus p bd)" "int_val (scheme_bin_plus p bd) = int_val p + int_val q * int_val u"
        using sum[OF ok(1) bd(1)] bd(2) by simp_all
      have "coprime (int_val p + int_val q * int_val u) (int_val q)"
        using ok(7) gcd_add_mult[of "int_val q" "int_val u" "int_val p"]
        by (simp only: coprime_iff_gcd_eq_1 gcd.commute[of _ "int_val q"] mult.commute[of "int_val u"] add.commute[of "int_val p"])
      moreover have "scheme_rational_add g r s = Inr (Ratio \<lparr>rat_num = scheme_bin_plus p bd, rat_denom = q\<rparr>)"
        unfolding scheme_rational_add_def sw Let_def prod.case using True
        by (simp add: p_def q_def u_def w_def bd_def make_rational_def)
      ultimately show ?thesis using s ok True v by (simp add: frac_ok_def frac_val_def)
    next
      case False
      define ac cd where "ac = scheme_bin_mult (mul_op g) p w" and "cd = scheme_bin_mult (mul_op g) q w"
      have ac: "int_ok ac" "int_val ac = int_val p * int_val w" and cd: "int_ok cd" "int_val cd = int_val q * int_val w"
        using product[OF ok(1,4)] product[OF ok(2,4)] by (simp_all add: ac_def cd_def)
      have s: "int_ok (scheme_bin_plus ac bd)" "int_val (scheme_bin_plus ac bd) = int_val p * int_val w + int_val q * int_val u"
        using sum[OF ac(1) bd(1)] bd(2) ac(2) by simp_all
      have "0 < int_val cd" "int_val cd \<noteq> 0" using ok(5,6) cd(2) by simp_all
      moreover have "scheme_rational_add g r s = scheme_make_rational g (scheme_bin_plus ac bd) cd"
        unfolding scheme_rational_add_def sw Let_def prod.case using False
        by (simp add: p_def q_def u_def w_def bd_def ac_def cd_def)
      ultimately show ?thesis using make_rational_value[OF s(1) cd(1)] fits
        unfolding s(2) cd(2) v q_def[symmetric] w_def[symmetric] by auto
    qed
  qed
  show ?thesis
  proof (cases "rat_denom ra = Int_Obj 1")
    case True
    then show ?thesis using ordered[OF rb _ ra, of ra rb] one fits by (simp add: add.commute mult.commute)
  next
    case False
    then have "1 < int_val (rat_denom ra)" using ra one_obj[of "rat_denom ra"] by (auto simp: frac_ok_def order_le_less)
    then show ?thesis using ordered[OF ra _ rb, of ra rb] False fits by simp
  qed
qed

text \<open>The second factor may have a negative denominator, from a division.\<close>

lemma rational_multiply_value:
  assumes ra: "frac_ok ra" "int_val (rat_num ra) \<noteq> 0"
    and rb: "int_ok (rat_num rb)" "int_ok (rat_denom rb)" "int_val (rat_num rb) \<noteq> 0" "int_val (rat_denom rb) \<noteq> 0"
    and half: "int_val (rat_denom ra) < 2 ^ gcd_bits" "\<bar>int_val (rat_denom rb)\<bar> < 2 ^ gcd_bits"
  shows "\<exists>x. scheme_rational_multiply g ra rb = Inr x \<and> num_wide x \<and> num_val x = frac_val ra * frac_val rb \<and>
    (0 < int_val (rat_denom rb) \<or> int_val (numerator x) \<noteq> - (2 ^ 62) \<longrightarrow> num_ok x)"
proof -
  define p q where "p = rat_num ra" and "q = rat_denom ra"
  define r s where "r = rat_num rb" and "s = rat_denom rb"
  have ok: "int_ok p" "int_ok q" "int_ok r" "int_ok s" and pos: "0 < int_val q"
    and nz: "int_val p \<noteq> 0" "int_val q \<noteq> 0" "int_val r \<noteq> 0" "int_val s \<noteq> 0"
    using ra rb by (auto simp: frac_ok_def p_def q_def r_def s_def)
  have abs: "\<bar>int_val q\<bar> < 2 ^ gcd_bits" "\<bar>int_val s\<bar> < 2 ^ gcd_bits"
    using half pos by (simp_all add: q_def s_def)
  then have fits: "fits_gcd (int_val q)" "fits_gcd (int_val s)" by (simp_all add: fits_gcd_half)
  define k1 k2 where "k1 = scheme_bin_gcd (gcd_op g) p s" and "k2 = scheme_bin_gcd (gcd_op g) r q"
  have k1: "int_ok k1" "int_val k1 \<noteq> 0" "int_val k1 dvd int_val p" "int_val k1 dvd int_val s" "0 < int_val s \<Longrightarrow> 0 < int_val k1"
    using bin_gcd_represents[OF gcd int_ok_wide[OF ok(1)] int_ok_wide[OF ok(4)] nz(1,4)] nz fits by (auto simp: k1_def)
  have k2: "int_ok k2" "0 < int_val k2" "int_val k2 dvd int_val r" "int_val k2 dvd int_val q"
    using bin_gcd_represents[OF gcd int_ok_wide[OF ok(3)] int_ok_wide[OF ok(2)] nz(3,2)] nz pos fits by (auto simp: k2_def)
  obtain p' where p': "bin_quotient (tdiv_op g) p k1 = Inr p'" "int_ok p'" "int_val p = int_val k1 * int_val p'"
    using exact_quotient[OF tdiv int_ok_wide[OF ok(1)] int_ok_wide[OF k1(1)] k1(2,3)] by metis
  obtain r' where r': "bin_quotient (tdiv_op g) r k2 = Inr r'" "int_ok r'" "int_val r = int_val k2 * int_val r'"
    using exact_quotient[OF tdiv int_ok_wide[OF ok(3)] int_ok_wide[OF k2(1)] _ k2(3)] k2(2) by (metis less_irrefl)
  obtain q' where q': "bin_quotient (tdiv_op g) q k2 = Inr q'" "int_ok q'" "int_val q = int_val k2 * int_val q'"
    using exact_quotient[OF tdiv int_ok_wide[OF ok(2)] int_ok_wide[OF k2(1)] _ k2(4)] k2(2) by (metis less_irrefl)
  obtain s' where s': "bin_quotient (tdiv_op g) s k1 = Inr s'" "int_ok s'" "int_val s = int_val k1 * int_val s'"
    using exact_quotient[OF tdiv int_ok_wide[OF ok(4)] int_ok_wide[OF k1(1)] k1(2,4)] by metis
  define n d where "n = scheme_bin_mult (mul_op g) p' r'" and "d = scheme_bin_mult (mul_op g) q' s'"
  have n: "int_ok n" "int_val n = int_val p' * int_val r'" and d: "int_ok d" "int_val d = int_val q' * int_val s'"
    using product[OF p'(2) r'(2)] product[OF q'(2) s'(2)] by (simp_all add: n_def d_def)
  have nz': "int_val q' \<noteq> 0" "int_val s' \<noteq> 0" using nz q'(3) s'(3) by auto
  have "0 < int_val q'" using pos k2(2) q'(3) by (simp add: zero_less_mult_iff)
  moreover have "0 < int_val s'" if "0 < int_val s" using k1(5)[OF that] that s'(3) by (simp add: zero_less_mult_iff)
  ultimately have dpos: "0 < int_val d" if "0 < int_val s" using that d(2) by simp
  have v: "frac_val ra * frac_val rb = of_int (int_val n) / of_int (int_val d)"
    unfolding frac_val_def p_def[symmetric] q_def[symmetric] r_def[symmetric] s_def[symmetric] n(2) d(2)
      p'(3) r'(3) q'(3) s'(3) using k1(2) k2(2) by simp
  have "scheme_rational_multiply g ra rb = scheme_make_rational g n d"
    unfolding scheme_rational_multiply_def Let_def p_def[symmetric] q_def[symmetric] r_def[symmetric] s_def[symmetric]
      k1_def[symmetric] k2_def[symmetric] by (simp add: p'(1) r'(1) q'(1) s'(1) n_def d_def)
  moreover have "int_val d \<noteq> 0" using d(2) nz' by simp
  moreover have "fits_gcd (int_val d)"
  proof -
    have "\<bar>int_val q'\<bar> \<le> \<bar>int_val q\<bar>" "\<bar>int_val s'\<bar> \<le> \<bar>int_val s\<bar>"
      using q'(3) s'(3) nz by (auto intro!: dvd_imp_le_int)
    then show ?thesis unfolding d(2) using abs by (intro fits_gcd_product) linarith+
  qed
  ultimately show ?thesis using make_rational_value[OF n(1) d(1)] dpos v by (auto simp: s_def)
qed

lemma rational_inverse_value:
  assumes r: "frac_ok r" "int_val (rat_num r) \<noteq> 0"
  shows "num_wide (rational_inverse neg r) \<and> num_val (rational_inverse neg r) = (if neg then - 1 else 1) / frac_val r \<and>
    (int_val (numerator (rational_inverse neg r)) \<noteq> - (2 ^ 62) \<longrightarrow> num_ok (rational_inverse neg r))"
proof -
  define n d where "n = rat_num r" and "d = rat_denom r"
  have ok: "int_ok n" "int_ok d" "1 \<le> int_val d" "int_val n \<noteq> 0" "coprime (int_val n) (int_val d)"
    using r by (simp_all add: frac_ok_def n_def d_def)
  note nd = negate_simple_value[OF ok(2)] and nn = negate_simple_value[OF ok(1)]
  have sign: "(case n of Int_Obj i \<Rightarrow> i < 0 | Big_Obj b \<Rightarrow> \<not> big_pos b) \<longleftrightarrow> int_val n < 0"
  proof (cases n)
    case (Big_Obj b)
    then show ?thesis using big_val_sign int_ok_big ok(1) by auto
  qed simp
  have one: "n = Int_Obj 1 \<longleftrightarrow> int_val n = 1" "n = Int_Obj (-1) \<longleftrightarrow> int_val n = -1"
    using one_obj[OF ok(1)] int_ok_inject[OF ok(1), of "Int_Obj (-1)"] by auto
  define neg_d where "neg_d \<longleftrightarrow> neg \<noteq> (int_val n < 0)"
  define d' where "d' = (if neg_d then negate_simple d else d)"
  define x where "x = (if \<bar>int_val n\<bar> = 1 then Whole d'
    else Ratio \<lparr>rat_num = d', rat_denom = (if int_val n < 0 then negate_simple n else n)\<rparr>)"
  have x: "rational_inverse neg r = x"
    unfolding rational_inverse_def n_def[symmetric] d_def[symmetric] sign one x_def d'_def neg_d_def by auto
  have dn: "int_wide d'" "int_val d' = (if neg_d then - int_val d else int_val d)"
    "int_val d' \<noteq> - (2 ^ 62) \<Longrightarrow> int_ok d'"
    using nd ok(2) by (auto simp: d'_def)
  have "int_val n \<noteq> 2 ^ 62" if "int_val n < 0" using that by simp
  then have nok: "int_ok (if int_val n < 0 then negate_simple n else n)"
    "int_val (if int_val n < 0 then negate_simple n else n) = \<bar>int_val n\<bar>" using nn ok(1) by auto
  have c: "coprime (int_val d') \<bar>int_val n\<bar>" using ok(5) by (auto simp: dn(2) coprime_commute)
  have "num_wide x" using dn(1) nok c ok(4) by (auto simp: x_def num_wide_def)
  moreover have "num_val x = (if neg then - 1 else 1) / frac_val r"
    using dn(2) nok(2) ok(4) unfolding x_def frac_val_def n_def[symmetric] d_def[symmetric] neg_d_def
    by (auto simp: frac_val_def abs_if split: if_splits)
  moreover have "numerator x = d'" by (simp add: x_def)
  ultimately show ?thesis unfolding x using num_wide_ok dn(3) by auto
qed

lemma rational_divide_value:
  assumes ra: "frac_ok ra" "int_val (rat_num ra) \<noteq> 0" and rb: "frac_ok rb" "int_val (rat_num rb) \<noteq> 0"
    and half: "int_val (rat_denom ra) < 2 ^ gcd_bits" "\<bar>int_val (rat_num rb)\<bar> < 2 ^ gcd_bits"
  shows "\<exists>x. scheme_rational_divide g ra rb = Inr x \<and> num_wide x \<and> num_val x = frac_val ra / frac_val rb \<and>
    (int_val (numerator x) \<noteq> - (2 ^ 62) \<longrightarrow> num_ok x)"
proof (cases "(rat_num ra = Int_Obj 1 \<or> rat_num ra = Int_Obj (-1)) \<and> rat_denom ra = Int_Obj 1")
  case True
  then show ?thesis using rational_inverse_value[OF rb, of "rat_num ra = Int_Obj (-1)"]
    by (auto simp: scheme_rational_divide_def frac_val_def[of ra])
next
  case False
  let ?i = "\<lparr>rat_num = rat_denom rb, rat_denom = rat_num rb\<rparr>"
  have "frac_val ra / frac_val rb = frac_val ra * frac_val ?i" by (simp add: frac_val_def)
  then show ?thesis using False rational_multiply_value[OF ra, of ?i] rb half
    by (auto simp: scheme_rational_divide_def frac_ok_def)
qed
subsection \<open>Comparison\<close>

lemma rational_lt_value:
  assumes ra: "frac_ok ra" and rb: "frac_ok rb"
  shows "rational_lt g ra rb or_eq \<longleftrightarrow> (if or_eq then frac_val ra \<le> frac_val rb else frac_val ra < frac_val rb)"
proof -
  define ma mb where "ma = scheme_bin_mult (mul_op g) (rat_num ra) (rat_denom rb)"
    and "mb = scheme_bin_mult (mul_op g) (rat_num rb) (rat_denom ra)"
  have ok: "int_ok (rat_num ra)" "int_ok (rat_denom ra)" "0 < int_val (rat_denom ra)"
    "int_ok (rat_num rb)" "int_ok (rat_denom rb)" "0 < int_val (rat_denom rb)"
    using ra rb by (simp_all add: frac_ok_def)
  have m: "int_ok ma" "int_val ma = int_val (rat_num ra) * int_val (rat_denom rb)"
    "int_ok mb" "int_val mb = int_val (rat_num rb) * int_val (rat_denom ra)"
    using product[OF ok(1,5)] product[OF ok(4,2)] by (simp_all add: ma_def mb_def)
  have "frac_val ra < frac_val rb \<longleftrightarrow> rat_of_int (int_val ma) < of_int (int_val mb)"
    "frac_val ra \<le> frac_val rb \<longleftrightarrow> rat_of_int (int_val ma) \<le> of_int (int_val mb)"
    unfolding frac_val_def m(2,4) of_int_mult using ok(3,6) by (intro cross_multiply; simp)+
  then have v: "frac_val ra < frac_val rb \<longleftrightarrow> int_val ma < int_val mb" "frac_val ra \<le> frac_val rb \<longleftrightarrow> int_val ma \<le> int_val mb"
    by simp_all
  show ?thesis unfolding v
    using exact_int_order[OF m(1,3)] by (simp only: rational_lt_def Let_def ma_def[symmetric] mb_def[symmetric])
qed

subsection \<open>Rounding\<close>

lemma truncate_value:
  assumes "frac_ok r"
  shows "\<exists>q. scheme_rational_truncate g r = Inr q \<and> represents q (int_val (rat_num r) sdiv int_val (rat_denom r))"
  unfolding scheme_rational_truncate_def using assms by (intro quotient_represents[OF tdiv]) (simp_all add: frac_ok_def)

lemma frac_parts:
  assumes "frac_ok r" "1 < int_val (rat_denom r)"
  obtains N q d where "int_val (rat_denom r) = d" "int_val (rat_num r) = (if scheme_is_rational_positive r then N else - N)"
    "scheme_is_rational_positive r \<longleftrightarrow> 0 < int_val (rat_num r)" "0 < N mod d" "N mod d < d" "0 < N" "1 < d"
    "int_val (rat_num r) sdiv d = (if scheme_is_rational_positive r then N div d else - (N div d))"
proof -
  define n d where "n = int_val (rat_num r)" and "d = int_val (rat_denom r)"
  have d: "1 < d" "coprime n d" using assms by (simp_all add: frac_ok_def n_def d_def)
  then have n: "n \<noteq> 0" by auto
  have pos: "scheme_is_rational_positive r \<longleftrightarrow> 0 < n"
  proof (cases "rat_num r")
    case (Big_Obj b)
    then show ?thesis using big_val_sign int_ok_big assms n by (auto simp: scheme_is_rational_positive_def frac_ok_def n_def)
  qed (simp add: scheme_is_rational_positive_def n_def)
  have "\<not> d dvd n" using d coprime_common_divisor[of n d d] by auto
  then have "\<bar>n\<bar> mod d \<noteq> 0" by (metis dvd_abs_iff dvd_eq_mod_eq_0)
  then have "0 < \<bar>n\<bar> mod d" "\<bar>n\<bar> mod d < d" using pos_mod_sign[of d "\<bar>n\<bar>"] pos_mod_bound[of d "\<bar>n\<bar>"] d by linarith+
  moreover have "n sdiv d = (if 0 < n then \<bar>n\<bar> div d else - (\<bar>n\<bar> div d))"
    using d n by (auto simp: signed_divide_int_def sgn_if)
  ultimately show thesis using that[of d "\<bar>n\<bar>"] pos d n by (auto simp: n_def d_def)
qed

lemma floor_value:
  assumes "frac_ok r" "1 < int_val (rat_denom r)"
  shows "\<exists>z. scheme_rational_floor g r = Inr z \<and> represents z \<lfloor>frac_val r\<rfloor>"
    "\<exists>z. scheme_rational_ceiling g r = Inr z \<and> represents z \<lceil>frac_val r\<rceil>"
proof -
  obtain N d where f: "int_val (rat_denom r) = d" "int_val (rat_num r) = (if scheme_is_rational_positive r then N else - N)"
    "0 < N mod d" "1 < d" "int_val (rat_num r) sdiv d = (if scheme_is_rational_positive r then N div d else - (N div d))"
    using frac_parts[OF assms] by metis
  have nd: "- N div d = - (N div d) - 1" using f(3,4) by (simp add: zdiv_zminus1_eq_if)
  have fl: "\<lfloor>frac_val r\<rfloor> = (if scheme_is_rational_positive r then N div d else - (N div d) - 1)"
    unfolding frac_val_def f(1,2) by (simp add: floor_divide_of_int_eq nd del: of_int_minus)
  have "\<lceil>frac_val r\<rceil> = - \<lfloor>of_int (- int_val (rat_num r)) / (of_int d :: rat)\<rfloor>"
    by (simp add: ceiling_def frac_val_def f(1))
  then have ce: "\<lceil>frac_val r\<rceil> = (if scheme_is_rational_positive r then N div d + 1 else - (N div d))"
    unfolding f(2) by (simp add: floor_divide_of_int_eq nd del: of_int_minus)
  obtain q where q: "scheme_rational_truncate g r = Inr q" "int_ok q"
    "int_val q = (if scheme_is_rational_positive r then N div d else - (N div d))"
    using truncate_value[OF assms(1)] f by (auto simp: represents_def)
  show "\<exists>z. scheme_rational_floor g r = Inr z \<and> represents z \<lfloor>frac_val r\<rfloor>"
    using q add1_sub1_represents[OF q(2)] unfolding fl by (auto simp: scheme_rational_floor_def represents_def)
  show "\<exists>z. scheme_rational_ceiling g r = Inr z \<and> represents z \<lceil>frac_val r\<rceil>"
    using q add1_sub1_represents[OF q(2)] unfolding ce by (auto simp: scheme_rational_ceiling_def represents_def)
qed

end

text \<open>Rounding to the nearest integer, to the even one of two.\<close>

definition round_half_even :: "rat \<Rightarrow> int" where
  "round_half_even x =
     (let f = \<lfloor>x\<rfloor>; rest = x - of_int f
      in if rest < 1 / 2 then f else if rest > 1 / 2 then f + 1 else if even f then f else f + 1)"

lemma round_half_even_quotient:
  fixes n d :: int
  assumes "0 < d"
  shows "round_half_even (of_int n / of_int d) =
    (if 2 * (n mod d) < d then n div d else if 2 * (n mod d) > d then n div d + 1
     else if even (n div d) then n div d else n div d + 1)"
proof -
  have f: "\<lfloor>(of_int n / of_int d :: rat)\<rfloor> = n div d" by (rule floor_divide_of_int_eq)
  have "(of_int n :: rat) = of_int d * of_int (n div d) + of_int (n mod d)"
    by (simp only: of_int_mult[symmetric] of_int_add[symmetric] mult_div_mod_eq)
  then have "(of_int n / of_int d - of_int (n div d) :: rat) = of_int (n mod d) / of_int d"
    using assms by (simp add: field_simps)
  moreover have "(of_int (n mod d) / of_int d :: rat) < 1 / 2 \<longleftrightarrow> 2 * (n mod d) < d"
    "(1 / 2 :: rat) < of_int (n mod d) / of_int d \<longleftrightarrow> d < 2 * (n mod d)"
  proof -
    have "(of_int (n mod d) / of_int d :: rat) < 1 / 2 \<longleftrightarrow> rat_of_int (2 * (n mod d)) < of_int d"
      "(1 / 2 :: rat) < of_int (n mod d) / of_int d \<longleftrightarrow> rat_of_int d < of_int (2 * (n mod d))"
      using cross_multiply(1)[of "of_int d" 2 "of_int (n mod d)" 1] cross_multiply(1)[of 2 "of_int d" 1 "of_int (n mod d)"] assms
      by (simp_all add: ac_simps)
    then show "(of_int (n mod d) / of_int d :: rat) < 1 / 2 \<longleftrightarrow> 2 * (n mod d) < d"
      "(1 / 2 :: rat) < of_int (n mod d) / of_int d \<longleftrightarrow> d < 2 * (n mod d)" by (simp_all only: of_int_less_iff)
  qed
  ultimately show ?thesis unfolding round_half_even_def Let_def f by simp
qed

lemma bignum_eq_value:
  assumes "big_ok a" "no_neg_zero a" "big_ok b" "no_neg_zero b"
  shows "bignum_eq a b \<longleftrightarrow> big_val a = big_val b"
proof -
  have d: "digs_ok (big_digs a)" "digs_ok (big_digs b)" using assms by (simp_all add: big_ok_def)
  note s = big_val_sign[OF assms(1,2)] big_val_sign[OF assms(3,4)]
  have z: "big_digs a = [] \<longleftrightarrow> big_val a = 0" "big_digs b = [] \<longleftrightarrow> big_val b = 0"
    using digs_ok_zero[OF d(1)] digs_ok_zero[OF d(2)] by (auto simp: big_val_def split: if_splits)
  have "big_val a = big_val b \<longleftrightarrow> big_pos a = big_pos b \<and> big_digs a = big_digs b"
  proof
    assume e: "big_val a = big_val b"
    then have p: "big_pos a = big_pos b" using s by simp
    then have "limbs_val (big_digs a) = limbs_val (big_digs b)" using e by (simp add: big_val_def split: if_splits)
    then show "big_pos a = big_pos b \<and> big_digs a = big_digs b" using p digs_ok_inject[OF d] by simp
  qed (simp add: big_val_def)
  moreover have "bignum_eq a b \<longleftrightarrow> big_pos a = big_pos b \<and> big_digs a = big_digs b"
  proof (cases "length (big_digs a) = length (big_digs b)")
    case True
    have c: "mpn_cmp (big_digs a) (big_digs b) (length (big_digs a)) = 0 \<longleftrightarrow> big_digs a = big_digs b"
      using mpn_cmp_value[of "big_digs b" "big_digs a"] True limbs_val_inject[OF True] by (simp add: sgn_0_0)
    show ?thesis
    proof (cases "big_digs a = []")
      case True
      then have "big_digs b = []" using \<open>length (big_digs a) = length (big_digs b)\<close> by simp
      then show ?thesis using True s z by (simp add: bignum_eq_def Let_def)
    next
      case False
      then show ?thesis using True c by (auto simp: bignum_eq_def Let_def)
    qed
  next
    case False
    then show ?thesis by (auto simp: bignum_eq_def Let_def)
  qed
  ultimately show ?thesis by simp
qed

lemma round_more_value:
  assumes "int_ok delta" "int_ok half" "int_ok q" "0 \<le> int_val delta" "0 \<le> int_val half"
  shows "round_more delta half can_eq_half q \<longleftrightarrow>
    (if int_val delta = int_val half then (if can_eq_half then odd (int_val q) else \<not> is_fixnum (int_val half))
     else int_val half < int_val delta)"
proof -
  have o: "scheme_odd_p q \<longleftrightarrow> odd (int_val q)" using odd_p_value[OF assms(3)] .
  have s: "2 ^ 62 \<le> big_val n \<or> big_val n < - (2 ^ 62)" if "int_ok (Big_Obj n)" for n
    using that by (auto simp: is_fixnum_def)
  show ?thesis
  proof (cases delta; cases half)
    fix i j assume "delta = Int_Obj i" "half = Int_Obj j"
    then show ?thesis using assms o by (auto simp: round_more_def)
  next
    fix i j assume "delta = Big_Obj i" "half = Big_Obj j"
    then show ?thesis using assms o int_ok_big by (auto simp: round_more_def bignum_eq_value lt_value)
  next
    fix i j assume "delta = Int_Obj i" "half = Big_Obj j"
    then show ?thesis using assms s[of j] by (auto simp: round_more_def is_fixnum_def)
  next
    fix i j assume "delta = Big_Obj i" "half = Int_Obj j"
    then show ?thesis using assms s[of i] by (auto simp: round_more_def is_fixnum_def)
  qed
qed

text \<open>The test of \<^verbatim>\<open>scheme_rational_round\<close> and the right decision, for a denominator \<open>d\<close> and the rest
  \<open>m\<close> of the numerator.\<close>

definition round_slip :: "rational \<Rightarrow> bool" where
  "round_slip r \<longleftrightarrow> (let d = int_val (rat_denom r)
     in odd d \<and> \<bar>int_val (rat_num r)\<bar> mod d = d div 2 \<and> \<not> is_fixnum (d div 2))"

lemma round_decision:
  fixes N d :: int
  assumes "1 < d" "0 < N mod d"
  defines "up \<equiv> (if N mod d = d div 2 then (if even d then odd (N div d) else \<not> is_fixnum (d div 2)) else d div 2 < N mod d)"
    and "slip \<equiv> odd d \<and> N mod d = d div 2 \<and> \<not> is_fixnum (d div 2)"
  shows "N div d + (if up then 1 else 0) = round_half_even (of_int N / of_int d) + (if slip then 1 else 0)"
    "- (N div d + (if up then 1 else 0)) = round_half_even (of_int (- N) / of_int d) - (if slip then 1 else 0)"
proof -
  have d: "0 < d" using assms by simp
  have n: "- N div d = - (N div d) - 1" "- N mod d = d - N mod d"
    using assms by (simp_all add: zdiv_zminus1_eq_if zmod_zminus1_eq_if)
  define k m h where "k = N div d" and "m = N mod d" and "h = d div 2"
  have c: "even d \<and> d = 2 * h \<or> odd d \<and> d = 2 * h + 1" unfolding h_def by presburger
  have m: "0 < m" "m < d" using assms(2) d by (simp_all add: m_def)
  show "N div d + (if up then 1 else 0) = round_half_even (of_int N / of_int d) + (if slip then 1 else 0)"
    unfolding round_half_even_quotient[OF d] up_def slip_def k_def[symmetric] m_def[symmetric] h_def[symmetric]
    using c m by (elim disjE) (auto simp del: even_mult_iff)
  show "- (N div d + (if up then 1 else 0)) = round_half_even (of_int (- N) / of_int d) - (if slip then 1 else 0)"
    unfolding round_half_even_quotient[OF d] up_def slip_def n k_def[symmetric] m_def[symmetric] h_def[symmetric]
    using c m by (elim disjE) (auto simp del: even_mult_iff)
qed

context gmp_laws
begin

lemma round_value:
  assumes "frac_ok r" "1 < int_val (rat_denom r)"
  shows "\<exists>z. scheme_rational_round g r = Inr z \<and>
    represents z (round_half_even (frac_val r) + (if round_slip r then sgn (int_val (rat_num r)) else 0))"
proof -
  define p where "p = scheme_is_rational_positive r"
  obtain N d where f: "int_val (rat_denom r) = d" "int_val (rat_num r) = (if p then N else - N)"
    "p \<longleftrightarrow> 0 < int_val (rat_num r)" "0 < N mod d" "N mod d < d" "0 < N" "1 < d"
    "int_val (rat_num r) sdiv d = (if p then N div d else - (N div d))"
    unfolding p_def using frac_parts[OF assms] by metis
  have ok: "int_ok (rat_num r)" "int_ok (rat_denom r)" using assms(1) by (simp_all add: frac_ok_def)
  obtain q where q: "bin_quotient (tdiv_op g) (rat_num r) (rat_denom r) = Inr q" "int_ok q"
    "int_val q = (if p then N div d else - (N div d))"
    using quotient_represents[OF tdiv ok] f(1,7,8) by (auto simp: represents_def)
  define qd where "qd = scheme_bin_mult (mul_op g) q (rat_denom r)"
  have qd: "int_ok qd" "int_val qd = int_val q * d" using product[OF q(2) ok(2)] by (simp_all add: qd_def f(1))
  define delta where "delta = (if \<not> p then scheme_bin_minus qd (rat_num r) else scheme_bin_minus (rat_num r) qd)"
  have "N - N div d * d = N mod d" by (simp add: minus_div_mult_eq_mod)
  then have delta: "int_ok delta" "int_val delta = N mod d"
    using minus_represents[OF qd(1) ok(1)] minus_represents[OF ok(1) qd(1)] f(2) qd(2) q(3)
    by (cases p; simp add: delta_def represents_def)+
  obtain half where half: "bin_quotient (tdiv_op g) (rat_denom r) (Int_Obj 2) = Inr half" "int_ok half" "int_val half = d div 2"
    using quotient_represents[OF tdiv ok(2), of "Int_Obj 2"] f(1,7) by (auto simp: represents_def signed_divide_int_def)
  have odd: "scheme_odd_p (rat_denom r) \<longleftrightarrow> odd d" using odd_p_value[OF ok(2)] f(1) by simp
  let ?more = "if N mod d = d div 2 then (if even d then odd (N div d) else \<not> is_fixnum (d div 2)) else d div 2 < N mod d"
  have more: "round_more delta half (\<not> scheme_odd_p (rat_denom r)) q \<longleftrightarrow> ?more"
    using round_more_value[OF delta(1) half(2) q(2)] f(4,7) delta(2) half(3) q(3) odd by simp
  have run: "scheme_rational_round g r =
    Inr (if ?more then (if \<not> p then scheme_sub1 q else scheme_add1 q) else q)"
    unfolding scheme_rational_round_def Let_def make_small_integer p_def[symmetric] q(1) half(1) or_error.simps
      qd_def[symmetric] delta_def[symmetric] more ..
  have "N = \<bar>int_val (rat_num r)\<bar>" using f(2,6) by simp
  then have slip: "round_slip r \<longleftrightarrow> odd d \<and> N mod d = d div 2 \<and> \<not> is_fixnum (d div 2)"
    by (simp add: round_slip_def Let_def f(1))
  have sgn: "sgn N = 1" "sgn (- N) = - 1" using f(6) by simp_all
  note dec = round_decision[OF f(7,4), folded slip]
  have "represents (if ?more then (if \<not> p then scheme_sub1 q else scheme_add1 q) else q)
    (if p then N div d + (if ?more then 1 else 0) else - (N div d + (if ?more then 1 else 0)))"
    using add1_sub1_represents[OF q(2)] q(2,3) by (auto simp: represents_def)
  moreover have "(if p then N div d + (if ?more then 1 else 0) else - (N div d + (if ?more then 1 else 0))) =
    round_half_even (frac_val r) + (if round_slip r then sgn (int_val (rat_num r)) else 0)"
    using dec by (cases p; cases "round_slip r";
      simp only: if_True if_False simp_thms sgn frac_val_def f(1,2) diff_conv_add_uminus minus_zero add_0_right)
  ultimately show ?thesis using run by auto
qed

end

subsection \<open>Generic operations\<close>

lemma as_rational_ok:
  assumes "num_ok a"
  shows "frac_ok (as_rational a)" "frac_val (as_rational a) = num_val a"
    "(\<exists>r. a = Ratio r) \<Longrightarrow> 1 < int_val (rat_denom (as_rational a))"
    "num_val a \<noteq> 0 \<Longrightarrow> int_val (rat_num (as_rational a)) \<noteq> 0"
proof -
  have tag: "scheme_make_integer i = Int_Obj i" if "is_fixnum i" for i
    using that by (simp add: scheme_make_integer_def is_fixnum_tag)
  show "frac_ok (as_rational a)" and v: "frac_val (as_rational a) = num_val a"
    using assms tag by (cases a rule: as_rational.cases;
      simp add: frac_ok_def frac_val_def scheme_make_small_rational_def scheme_integer_to_rational_def)+
  show "1 < int_val (rat_denom (as_rational a))" if "\<exists>r. a = Ratio r"
    using that assms by auto
  show "num_val a \<noteq> 0 \<Longrightarrow> int_val (rat_num (as_rational a)) \<noteq> 0"
    using v by (auto simp: frac_val_def)
qed

lemma num_zero: "num_ok a \<Longrightarrow> num_val a = 0 \<longleftrightarrow> a = Whole (Int_Obj 0)"
proof (cases a)
  case (Ratio r)
  assume ok: "num_ok a"
  then have "int_val (rat_num r) \<noteq> 0" using Ratio by (auto simp: frac_ok_def)
  then show ?thesis using ok Ratio by (simp add: frac_val_def)
qed (simp add: zero_obj)

lemma num_small [simp]: "num_ok (Whole (Int_Obj 0))" "num_ok (Whole (Int_Obj 1))"
  by simp_all

lemma lowest_terms_unique:
  fixes p q r s :: int
  assumes "0 < q" "0 < s" "coprime p q" "coprime r s" "(of_int p / of_int q :: rat) = of_int r / of_int s"
  shows "p = r \<and> q = s"
proof -
  have "(of_int p :: rat) * of_int s = of_int r * of_int q" using assms by (simp add: frac_eq_eq)
  then have e: "p * s = r * q" by (simp only: of_int_mult[symmetric] of_int_eq_iff)
  have "q dvd p * s" "s dvd r * q" using dvd_triv_right[of q r] dvd_triv_right[of s p] e by simp_all
  then have "q dvd s" "s dvd q" using assms by (simp_all add: coprime_commute coprime_dvd_mult_right_iff coprime_dvd_mult_left_iff)
  then have "q = s" using assms by (simp add: zdvd_antisym_nonneg)
  then show ?thesis using e assms by simp
qed

lemma same_int_value: "int_ok a \<Longrightarrow> int_ok b \<Longrightarrow> same_int a b \<longleftrightarrow> int_val a = int_val b"
  using bignum_eq_value int_ok_big int_ok_inject[of a b]
  by (cases a; cases b) (auto simp: same_int_def)

lemma frac_eq_value:
  assumes "frac_ok a" "frac_ok b"
  shows "same_int (rat_num a) (rat_num b) \<and> same_int (rat_denom a) (rat_denom b) \<longleftrightarrow> frac_val a = frac_val b"
proof -
  have "frac_val a = frac_val b \<longleftrightarrow> int_val (rat_num a) = int_val (rat_num b) \<and> int_val (rat_denom a) = int_val (rat_denom b)"
    using assms lowest_terms_unique[of "int_val (rat_denom a)" "int_val (rat_denom b)"] by (auto simp: frac_ok_def frac_val_def)
  then show ?thesis using assms by (simp add: frac_ok_def same_int_value)
qed

lemma num_eq_value:
  assumes "num_ok a" "num_ok b"
  shows "num_eq a b \<longleftrightarrow> num_val a = num_val b"
proof -
  have s: "int_ok (Int_Obj i) \<Longrightarrow> big_ok (scheme_make_small_bignum i) \<and> no_neg_zero (scheme_make_small_bignum i) \<and>
    big_val (scheme_make_small_bignum i) = i" for i using small_bignum_fixnum by simp
  have r: "same_int (rat_num (as_rational a)) (rat_num (as_rational b)) \<and> same_int (rat_denom (as_rational a)) (rat_denom (as_rational b))
    \<longleftrightarrow> num_val a = num_val b"
    using frac_eq_value[OF as_rational_ok(1)[OF assms(1)] as_rational_ok(1)[OF assms(2)]] as_rational_ok(2) assms by simp
  show ?thesis
    using assms r s int_ok_big by (cases "(a, b)" rule: num_eq.cases) (auto simp: bignum_eq_value Let_def)
qed

lemma as_rational_denominator: "num_ok a \<Longrightarrow> int_val (rat_denom (as_rational a)) = denominator a"
  by (cases a rule: as_rational.cases)
    (simp_all add: scheme_make_small_rational_def scheme_integer_to_rational_def)

lemma denominators_fit:
  assumes "num_ok a" "num_ok b" "denominator a < 2 ^ gcd_bits" "denominator b < 2 ^ gcd_bits"
  shows "fits_gcd (int_val (rat_denom (as_rational a)) * int_val (rat_denom (as_rational b)))"
proof -
  have "0 \<le> denominator x" if "num_ok x" for x using that by (cases x) auto
  then show ?thesis unfolding assms(1,2)[THEN as_rational_denominator]
    using assms by (intro fits_gcd_product) simp_all
qed

context gmp_laws
begin

lemma num_plus_value:
  assumes "num_ok a" "num_ok b" "denominator a < 2 ^ gcd_bits" "denominator b < 2 ^ gcd_bits"
  shows "\<exists>x. num_plus g a b = Inr x \<and> num_ok x \<and> num_val x = num_val a + num_val b"
proof -
  have r: "\<exists>x. scheme_rational_add g (as_rational a) (as_rational b) = Inr x \<and> num_ok x \<and> num_val x = num_val a + num_val b"
    if "(\<exists>r. a = Ratio r) \<or> (\<exists>r. b = Ratio r)"
    using rational_add_value[OF as_rational_ok(1)[OF assms(1)] as_rational_ok(1)[OF assms(2)] _ denominators_fit[OF assms]]
      as_rational_ok(2,3)[OF assms(1)] as_rational_ok(2,3)[OF assms(2)] that by auto
  show ?thesis
    using assms r sum by (cases "(g, a, b)" rule: num_plus.cases) auto
qed

lemma num_minus_value:
  assumes "num_ok a" "num_ok b" "denominator a < 2 ^ gcd_bits" "denominator b < 2 ^ gcd_bits"
  shows "\<exists>x. num_minus g a b = Inr x \<and> num_ok x \<and> num_val x = num_val a - num_val b"
proof -
  note n = rational_negate_ok[OF as_rational_ok(1)[OF assms(2)]]
  have "rat_denom (scheme_rational_negate r) = rat_denom r" for r by (simp add: scheme_rational_negate_def)
  then have r: "\<exists>x. scheme_rational_subtract g (as_rational a) (as_rational b) = Inr x \<and> num_ok x \<and> num_val x = num_val a - num_val b"
    if "(\<exists>r. a = Ratio r) \<or> (\<exists>r. b = Ratio r)"
    unfolding scheme_rational_subtract_def
    using rational_add_value[OF as_rational_ok(1)[OF assms(1)] conjunct1[OF n]] n denominators_fit[OF assms]
      as_rational_ok(2,3)[OF assms(1)] as_rational_ok(2,3)[OF assms(2)] that by auto
  show ?thesis
    using assms r minus_represents[unfolded represents_def] by (cases "(g, a, b)" rule: num_minus.cases) auto
qed

lemma num_mult_value:
  assumes "num_ok a" "num_ok b" "denominator a < 2 ^ gcd_bits" "denominator b < 2 ^ gcd_bits"
  shows "\<exists>x. num_mult g a b = Inr x \<and> num_ok x \<and> num_val x = num_val a * num_val b"
proof -
  have r: "\<exists>x. scheme_rational_multiply g (as_rational a) (as_rational b) = Inr x \<and> num_ok x \<and> num_val x = num_val a * num_val b"
    if "a \<noteq> Whole (Int_Obj 0)" "b \<noteq> Whole (Int_Obj 0)"
  proof -
    note f = as_rational_ok[OF assms(1)] as_rational_ok[OF assms(2)]
    have nz: "int_val (rat_num (as_rational a)) \<noteq> 0" "int_val (rat_num (as_rational b)) \<noteq> 0"
      using that num_zero[OF assms(1)] num_zero[OF assms(2)] f(4,8) by simp_all
    have "int_ok (rat_num (as_rational b))" "int_ok (rat_denom (as_rational b))" "0 < int_val (rat_denom (as_rational b))"
      using f(5) by (simp_all add: frac_ok_def)
    then show ?thesis using rational_multiply_value[OF f(1) nz(1) _ _ nz(2)] f(2,6)
        as_rational_denominator[OF assms(1)] as_rational_denominator[OF assms(2)] assms(3,4) by auto
  qed
  show ?thesis
    using assms r product by (cases "(g, a, b)" rule: num_mult.cases) auto
qed

lemma num_lt_value: "num_ok a \<Longrightarrow> num_ok b \<Longrightarrow> num_lt g a b \<longleftrightarrow> num_val a < num_val b"
  using rational_lt_value[of "as_rational a" "as_rational b" False] as_rational_ok bin_lt_value
  by (cases "(g, a, b)" rule: num_lt.cases) (auto simp: scheme_rational_lt_def)

lemma make_rational_normal:
  assumes "scheme_bignum_normalize n = n'" "scheme_bignum_normalize d = d'" "int_ok n'" "int_ok d'" "int_val d' \<noteq> 0"
    "fits_gcd (int_val d')"
  shows "\<exists>x. scheme_make_rational g n d = Inr x \<and> num_wide x \<and> num_val x = of_int (int_val n') / of_int (int_val d') \<and>
    (int_val (numerator x) \<noteq> - (2 ^ 62) \<longrightarrow> num_ok x)"
  using normalize_value[OF assms(3-6)] by (auto simp: scheme_make_rational_def make_rational_def assms)

lemma normalize_small: "is_fixnum i \<Longrightarrow> scheme_bignum_normalize (Big_Obj (scheme_make_small_bignum i)) = Int_Obj i"
  using normalize_represents[of "scheme_make_small_bignum i"] small_bignum_fixnum[of i] represents_fixnum[of i]
  by (auto intro: represents_unique)

lemma num_div_value:
  assumes "num_ok a" "num_ok b" "num_val b \<noteq> 0"
    and half: "denominator a < 2 ^ gcd_bits" "\<bar>int_val (numerator b)\<bar> < 2 ^ gcd_bits"
  shows "\<exists>x. num_div g a b = Inr x \<and> num_wide x \<and> num_val x = num_val a / num_val b \<and>
    (int_val (numerator x) \<noteq> - (2 ^ 62) \<longrightarrow> num_ok x)"
proof (cases "a = Whole (Int_Obj 0)")
  case True
  then show ?thesis using assms num_zero[OF assms(2)] by (auto simp: num_wide_def)
next
  case a0: False
  have b0: "b \<noteq> Whole (Int_Obj 0)" using assms num_zero[OF assms(2)] by simp
  have av: "num_val a \<noteq> 0" using a0 num_zero[OF assms(1)] by simp
  note f = as_rational_ok[OF assms(1)] as_rational_ok[OF assms(2)]
  have "int_val (rat_num (as_rational b)) = int_val (numerator b)"
    using assms(2) by (cases b rule: as_rational.cases)
      (simp_all add: scheme_make_small_rational_def scheme_integer_to_rational_def scheme_make_integer_def is_fixnum_tag)
  then have small: "\<bar>int_val (rat_num (as_rational b))\<bar> < 2 ^ gcd_bits" "int_val (rat_denom (as_rational a)) < 2 ^ gcd_bits"
    using half as_rational_denominator[OF assms(1)] by simp_all
  note divide = rational_divide_value[OF f(1) f(4)[OF av] f(5) f(8)[OF assms(3)] small(2,1), unfolded f(2,6)]
  have ratio: ?thesis if "(\<exists>r. a = Ratio r) \<or> (\<exists>r. b = Ratio r)"
  proof (cases "b = Whole (Int_Obj 1)")
    case True
    then show ?thesis using that a0 assms num_ok_wide[OF assms(1)] by auto
  next
    case False
    then have "num_div g a b = scheme_rational_divide g (as_rational a) (as_rational b)"
      using that a0 b0 by (cases a; cases b) (auto split: exact_int.split)
    then show ?thesis using divide by simp
  qed
  show ?thesis
  proof (cases "(\<exists>r. a = Ratio r) \<or> (\<exists>r. b = Ratio r)")
    case False
    then obtain n d where w: "a = Whole n" "b = Whole d" by (meson exact_num.exhaust)
    have ok: "int_ok n" "int_ok d" "int_val d \<noteq> 0" "fits_gcd (int_val d)"
      using assms w fits_gcd_half[OF half(2)] by simp_all
    have tag: "scheme_make_integer i = Int_Obj i" if "is_fixnum i" for i
      using that by (simp add: scheme_make_integer_def is_fixnum_tag)
    have norm: "scheme_bignum_normalize (Big_Obj (scheme_to_bignum m)) = m" if "int_ok m" for m
      using that normal_id normalize_small by (cases m) (simp_all add: scheme_make_bignum_def)
    note big = make_rational_normal[OF norm[OF ok(1)] norm[OF ok(2)] ok]
    show ?thesis
    proof (cases n; cases d)
      fix i j assume e: "n = Int_Obj i" "d = Int_Obj j"
      then show ?thesis using normalize_value[OF ok] a0 b0 w ok tag
        by (auto simp: scheme_make_fixnum_rational_def)
    next
      fix i j assume e: "n = Big_Obj i" "d = Int_Obj j"
      then show ?thesis using big a0 b0 w assms num_ok_wide[OF assms(1)] by (auto simp: scheme_make_bignum_def)
    qed (use big a0 b0 w in \<open>auto simp: scheme_make_bignum_def\<close>)
  qed (rule ratio)
qed

lemma num_rounding_value:
  assumes "num_ok a"
  shows "\<exists>z. num_floor g a = Inr z \<and> represents z \<lfloor>num_val a\<rfloor>"
    "\<exists>z. num_ceiling g a = Inr z \<and> represents z \<lceil>num_val a\<rceil>"
    "\<exists>z. num_round g a = Inr z \<and> represents z (round_half_even (num_val a) +
      (case a of Ratio r \<Rightarrow> if round_slip r then sgn (int_val (rat_num r)) else 0 | Whole n \<Rightarrow> 0))"
proof -
  have "round_half_even (of_int i) = i" for i by (simp add: round_half_even_def)
  then show "\<exists>z. num_floor g a = Inr z \<and> represents z \<lfloor>num_val a\<rfloor>"
    "\<exists>z. num_ceiling g a = Inr z \<and> represents z \<lceil>num_val a\<rceil>"
    "\<exists>z. num_round g a = Inr z \<and> represents z (round_half_even (num_val a) +
      (case a of Ratio r \<Rightarrow> if round_slip r then sgn (int_val (rat_num r)) else 0 | Whole n \<Rightarrow> 0))"
    using assms floor_value round_value represents_refl by (cases a; simp)+
qed

text \<open>A numerator \<open>2 ^ 62\<close> over a negative denominator.\<close>

lemma div_not_normal:
  assumes "odd d" "1 < d" "d < 2 ^ 62"
  shows "\<exists>x y. num_div g (Whole (Big_Obj \<lparr>big_pos = True, big_digs = [4611686018427387904]\<rparr>)) (Whole (Int_Obj (- d))) = Inr x \<and>
    num_div g (Whole (Int_Obj (- (2 ^ 62)))) (Whole (Int_Obj d)) = Inr y \<and> num_val x = num_val y \<and> \<not> num_eq x y"
proof -
  let ?b = "\<lparr>big_pos = True, big_digs = [4611686018427387904]\<rparr>" and ?m = "\<lparr>big_pos = False, big_digs = [4611686018427387904]\<rparr>"
  have fx: "is_fixnum d" "is_fixnum (- d)" "is_fixnum (- (2 ^ 62))" using assms by (simp_all add: is_fixnum_def)
  have tag: "scheme_make_integer i = Int_Obj i" if "is_fixnum i" for i
    using that by (simp add: scheme_make_integer_def is_fixnum_tag)
  have b: "int_ok (Big_Obj ?b)" by (simp add: big_ok_def digs_ok_def big_val_def is_fixnum_def)
  have m: "int_wide (Big_Obj ?m)" "int_val (Big_Obj ?m) = - (2 ^ 62)" "scheme_bignum_negate ?b = ?m"
    by (simp_all add: big_ok_def digs_ok_def big_val_def no_neg_zero_def scheme_bignum_negate_def)
  have "coprime (2 ^ 62) d" using assms(1) by (simp only: coprime_power_left_iff coprime_left_2_iff_odd simp_thms)
  then have c: "gcd (- (2 ^ 62)) d = 1" by (simp only: coprime_iff_gcd_eq_1 gcd_neg1_int)
  have one: "scheme_bin_gcd (gcd_op g) n (Int_Obj d) = Int_Obj 1" if "int_wide n" "int_val n = - (2 ^ 62)" for n
    using bin_gcd_represents[OF gcd that(1), of "Int_Obj d"] that(2) fx(1) assms(2) c one_obj
      fits_gcd_half[OF gcd_bits_small[of d]] assms by auto
  have d1: "Int_Obj d \<noteq> Int_Obj 1" "- d \<noteq> 0" "- d \<noteq> 1" "d \<noteq> 0" using assms by simp_all
  have neg: "negate_simple (Int_Obj (- d)) = Int_Obj d"
    using make_integer_value_represents[of d] fx(1) represents_fixnum[OF fx(1)] by (auto simp: is_fixnum_def intro: represents_unique)
  have "scheme_rational_normalize g \<lparr>rat_num = Big_Obj ?b, rat_denom = Int_Obj (- d)\<rparr> = Inr (Ratio \<lparr>rat_num = Big_Obj ?m, rat_denom = Int_Obj d\<rparr>)"
    using assms(2) d1 neg one[OF m(1,2)] m(3) by (simp add: scheme_rational_normalize_def Let_def del: negate_simple.simps(1))
  then have x: "num_div g (Whole (Big_Obj ?b)) (Whole (Int_Obj (- d))) = Inr (Ratio \<lparr>rat_num = Big_Obj ?m, rat_denom = Int_Obj d\<rparr>)"
    using d1 normal_id[OF b] normalize_small[OF fx(2)] by (simp add: scheme_make_rational_def make_rational_def)
  have "scheme_rational_normalize g \<lparr>rat_num = Int_Obj (- (2 ^ 62)), rat_denom = Int_Obj d\<rparr> = Inr (Ratio \<lparr>rat_num = Int_Obj (- (2 ^ 62)), rat_denom = Int_Obj d\<rparr>)"
    using assms(2) d1 one[of "Int_Obj (- (2 ^ 62))"] fx(3) by (simp add: scheme_rational_normalize_def Let_def)
  then have y: "num_div g (Whole (Int_Obj (- (2 ^ 62)))) (Whole (Int_Obj d)) = Inr (Ratio \<lparr>rat_num = Int_Obj (- (2 ^ 62)), rat_denom = Int_Obj d\<rparr>)"
    using d1 tag[OF fx(1)] tag[OF fx(3)] by (simp add: scheme_make_fixnum_rational_def)
  have "num_val (Ratio \<lparr>rat_num = Big_Obj ?m, rat_denom = Int_Obj d\<rparr>) = num_val (Ratio \<lparr>rat_num = Int_Obj (- (2 ^ 62)), rat_denom = Int_Obj d\<rparr>)"
    using m(2) by (simp add: frac_val_def)
  moreover have "\<not> num_eq (Ratio \<lparr>rat_num = Big_Obj ?m, rat_denom = Int_Obj d\<rparr>) (Ratio \<lparr>rat_num = Int_Obj (- (2 ^ 62)), rat_denom = Int_Obj d\<rparr>)"
    by (simp add: Let_def same_int_def)
  ultimately show ?thesis using x y by blast
qed

end

end
