(* ===== verification/Exact_Int_Spec.thy ===== *)
theory Exact_Int_Spec
  imports Exact_Int_Numeric Scheme_Object
begin

unbundle bit_operations_syntax

section \<open>Exact integer arithmetic: properties\<close>

text \<open>
  The properties of exact integers. \<open>int_ok\<close> says that an object is normalised, \<open>represents\<close> that
  it is the normalised object of a number. The product of digit vectors, \<^verbatim>\<open>mpn_mul\<close>, which takes the
  schoolbook method for factors of fewer than 32 digits and Karatsuba, Toom-3 or Fourier transforms beyond (\<^verbatim>\<open>gmp.c\<close>,
  line 4149), and the division \<^verbatim>\<open>mpn_tdiv_qr\<close> are parameters: the properties assume what the GMP
  manual says of them, \<open>limb_product\<close> and \<open>divides_limbs\<close>. The witnesses take the model's \<open>mpn_mul_basecase\<close> and a
  reference division.
\<close>

declare scheme_bignum_normalize.simps(2) [simp del]

subsection \<open>A reference division\<close>

fun limbs_of :: "nat \<Rightarrow> int \<Rightarrow> limb list" where
  "limbs_of 0 x = []"
| "limbs_of (Suc n) x = word_of_int x # limbs_of n (x div 2 ^ 64)"

lemma limbs_of_value: "0 \<le> x \<Longrightarrow> x < 2 ^ (64 * n) \<Longrightarrow> limbs_val (limbs_of n x) = x \<and> length (limbs_of n x) = n"
proof (induction n arbitrary: x)
  case (Suc n)
  have "x div 2 ^ 64 < 2 ^ (64 * n)" using Suc.prems by (simp add: div_less_iff_range power_add)
  then have "limbs_val (limbs_of n (x div 2 ^ 64)) = x div 2 ^ 64 \<and> length (limbs_of n (x div 2 ^ 64)) = n"
    using Suc.prems(1) by (intro Suc.IH) (simp_all add: pos_imp_zdiv_nonneg_iff)
  moreover have "uint (word_of_int x :: limb) = x mod 2 ^ 64" by (simp add: uint_word_of_int)
  ultimately show ?case by (simp del: unsigned_of_int)
qed simp

definition reference_tdiv :: "limb list \<Rightarrow> limb list \<Rightarrow> limb list \<times> limb list" where
  "reference_tdiv np dp =
     (limbs_of (length np - length dp + 1) (limbs_val np div limbs_val dp),
      limbs_of (length dp) (limbs_val np mod limbs_val dp))"

lemma reference_tdiv_divides: "divides_limbs reference_tdiv"
  unfolding divides_limbs_def
proof (intro allI impI)
  fix np dp q r
  assume a: "dp \<noteq> [] \<and> last dp \<noteq> 0 \<and> length dp \<le> length np \<and> reference_tdiv np dp = (q, r)"
  let ?N = "limbs_val np" and ?D = "limbs_val dp"
  have ok: "digs_ok dp" using a by (simp add: digs_ok_def)
  have low: "2 ^ (64 * (length dp - 1)) \<le> ?D" using digs_ok_lower[OF ok] a by simp
  then have D: "0 < ?D" by (rule order_less_le_trans[rotated]) simp
  have q: "0 \<le> ?N div ?D" using D by (simp add: pos_imp_zdiv_nonneg_iff)
  have "?N < 2 ^ (64 * length np)" by (rule limbs_val_less)
  also have "(2 :: int) ^ (64 * length np) = 2 ^ (64 * (length np - length dp + 1)) * 2 ^ (64 * (length dp - 1))"
  proof -
    have "64 * length np = 64 * (length np - length dp + 1) + 64 * (length dp - 1)"
    proof -
      have "1 \<le> length dp" using a by (cases dp) auto
      moreover have "length dp \<le> length np" using a by simp
      ultimately show ?thesis by simp
    qed
    then show ?thesis by (simp only: power_add)
  qed
  also have "\<dots> \<le> 2 ^ (64 * (length np - length dp + 1)) * ?D" using low by (intro mult_left_mono) simp_all
  finally have "?N div ?D < 2 ^ (64 * (length np - length dp + 1))" using D by (simp only: div_less_iff_range)
  note qv = limbs_of_value[OF q this]
  have m: "0 \<le> ?N mod ?D" "?N mod ?D < ?D" using D by (simp_all add: pos_mod_sign pos_mod_bound)
  then have rv: "limbs_val (limbs_of (length dp) (?N mod ?D)) = ?N mod ?D \<and> length (limbs_of (length dp) (?N mod ?D)) = length dp"
    using limbs_val_less[of dp] by (intro limbs_of_value) linarith+
  have "q = limbs_of (length np - length dp + 1) (?N div ?D)" "r = limbs_of (length dp) (?N mod ?D)"
    using a by (simp_all add: reference_tdiv_def)
  then show "?N = limbs_val q * ?D + limbs_val r \<and> limbs_val r < ?D \<and>
      length q = length np - length dp + 1 \<and> length r = length dp"
    using qv rv m by simp
qed

subsection \<open>Normal form\<close>




text \<open>C22. The sum, difference, product, successor, predecessor and absolute value of exact
  integers are those of the numbers, whether the fixnum paths or the bignum code computes them;
  the tests for fixnum overflow are exact. For the product this assumes that the product of digit vectors of any
  length, \<^verbatim>\<open>mpn_mul\<close>, is right.\<close>

theorem exact_int_arith:
  assumes "limb_product mul" "int_ok a" "int_ok b"
  shows "int_val (scheme_bin_plus a b) = int_val a + int_val b \<and>
    int_val (scheme_bin_minus a b) = int_val a - int_val b \<and>
    int_val (scheme_bin_mult mul a b) = int_val a * int_val b \<and>
    int_val (scheme_add1 a) = int_val a + 1 \<and> int_val (scheme_sub1 a) = int_val a - 1 \<and>
    int_val (scheme_abs a) = \<bar>int_val a\<bar>"
  using plus_represents[OF assms(2,3)] minus_represents[OF assms(2,3)] limb_product.mult_represents[OF assms]
    add1_sub1_represents[OF assms(2)] abs_represents[OF assms(2)]
  by (simp add: represents_def)

theorem exact_int_arith_witness:
  "let a = Int_Obj 4611686018427387903; b = Int_Obj 4611686018427387903
   in int_ok a \<and> int_ok b \<and> int_val (scheme_bin_plus a b) = 9223372036854775806 \<and>
      int_val (scheme_bin_mult mpn_mul_basecase a b) = 21267647932558653957237540927630737409"
  using exact_int_arith[OF basecase.limb_product_axioms, of "Int_Obj 4611686018427387903" "Int_Obj 4611686018427387903"]
  by (simp add: Let_def is_fixnum_def)

text \<open>The object of an exact integer, with the header of its allocation.\<close>

fun exact_obj :: "header \<Rightarrow> exact_int \<Rightarrow> obj" where
  "exact_obj h (Int_Obj i) = Real (Integer (Fixnum i))"
| "exact_obj h (Big_Obj b) = Real (Integer (Bignum h (big_pos b) (big_digs b)))"

text \<open>C23. For normalised exact integers \<open>eqv?\<close> is equality of the numbers, and the comparisons are
  those of the numbers.\<close>

theorem exact_int_eqv:
  assumes "int_ok a" "int_ok b"
  shows "(scheme_eqv (exact_obj ha a) (exact_obj hb b) \<longleftrightarrow> int_val a = int_val b) \<and>
    (scheme_bin_lt a b \<longleftrightarrow> int_val a < int_val b) \<and> (scheme_bin_lt_eq a b \<longleftrightarrow> int_val a \<le> int_val b)"
proof -
  have "big_digs n \<noteq> []" if "int_ok (Big_Obj n)" for n using that by (auto simp: big_val_def is_fixnum_def split: if_splits)
  then have "scheme_eqv (exact_obj ha a) (exact_obj hb b) \<longleftrightarrow> a = b"
    using assms by (cases a; cases b) (auto simp: scheme_eqv_def is_eqv_def is_eqv_real_def)
  then show ?thesis using int_ok_inject[OF assms] bin_lt_value[OF assms] by simp
qed

theorem exact_int_eqv_witness:
  "let h = \<lparr>address = 4096, keyex = 0, gc_allocated = True, hash_bits = 0\<rparr>;
       a = Int_Obj (-7); b = Big_Obj \<lparr>big_pos = False, big_digs = [5, 1]\<rparr>
   in int_ok a \<and> int_ok b \<and> \<not> scheme_eqv (exact_obj h a) (exact_obj h b) \<and> scheme_bin_lt b a"
  using exact_int_eqv[of "Int_Obj (-7)" "Big_Obj \<lparr>big_pos = False, big_digs = [5, 1]\<rparr>"]
    exact_int_eqv[of "Big_Obj \<lparr>big_pos = False, big_digs = [5, 1]\<rparr>" "Int_Obj (-7)"]
  by (simp add: Let_def is_fixnum_def big_ok_def digs_ok_def big_val_def)

subsection \<open>Bits\<close>

text \<open>C24. The bitwise operations are those of two's complement numbers of unbounded length,
  negative arguments included.\<close>

theorem exact_int_bitwise:
  assumes "int_ok a" "int_ok b"
  shows "int_val (bin_bitwise Bit_And a b) = int_val a AND int_val b \<and>
    int_val (bin_bitwise Bit_Or a b) = int_val a OR int_val b \<and>
    int_val (bin_bitwise Bit_Xor a b) = int_val a XOR int_val b \<and>
    int_val (bitwise_not a) = NOT (int_val a)"
  using bin_bitwise_represents[OF assms, of Bit_And] bin_bitwise_represents[OF assms, of Bit_Or]
    bin_bitwise_represents[OF assms, of Bit_Xor] bitwise_not_represents[OF assms(1)]
  by (simp add: represents_def)

theorem exact_int_bitwise_witness:
  "let a = Int_Obj (-2); b = Big_Obj \<lparr>big_pos = False, big_digs = [0, 1]\<rparr>
   in int_ok a \<and> int_ok b \<and> int_val (bin_bitwise Bit_And a b) = -2 AND -18446744073709551616"
  using exact_int_bitwise[of "Int_Obj (-2)" "Big_Obj \<lparr>big_pos = False, big_digs = [0, 1]\<rparr>"]
  by (simp add: Let_def is_fixnum_def big_ok_def digs_ok_def big_val_def)

text \<open>C25. \<^verbatim>\<open>arithmetic-shift\<close> by a fixnum multiplies by a power of two or divides by one, rounding
  down; by a bignum it fails or has only the sign left.\<close>

theorem exact_int_shift:
  assumes "int_ok v" "is_fixnum s"
  shows "(\<exists>r. scheme_bitwise_shift False v (Int_Obj s) = Inr r \<and> int_ok r \<and>
      int_val r = (if s < 0 then int_val v div 2 ^ nat (- s) else int_val v * 2 ^ nat s)) \<and>
    scheme_bitwise_shift const_fold v (Big_Obj n) =
      (if big_pos n then Inl Out_Of_Memory else Inr (Int_Obj (if int_val v < 0 then -1 else 0)))"
  using bitwise_shift_represents[OF assms] bin_lt_value(3)[OF assms(1) assms(1)]
  by (simp add: represents_def shifted_def scheme_make_integer_def)

theorem exact_int_shift_witness:
  "let v = Big_Obj \<lparr>big_pos = False, big_digs = [5, 1]\<rparr>
   in int_ok v \<and> is_fixnum (-64) \<and>
      (\<exists>r. scheme_bitwise_shift False v (Int_Obj (-64)) = Inr r \<and> int_ok r \<and> int_val r = -2)"
  using exact_int_shift[of "Big_Obj \<lparr>big_pos = False, big_digs = [5, 1]\<rparr>" "-64" False bignum_one]
  by (simp add: Let_def is_fixnum_def big_ok_def digs_ok_def big_val_def)

text \<open>C26. \<^verbatim>\<open>bitwise-bit-field\<close> returns the bits of the field, from the fast paths on a word or two
  digits as from the general one; \<^verbatim>\<open>bitwise-bit-set?\<close> tests one bit.\<close>

theorem exact_int_bit_field:
  assumes "int_ok so" "is_fixnum v1" "is_fixnum v2" "0 \<le> v1" "v1 \<le> v2"
  shows "(\<exists>r. bitwise_bit_field False so (Int_Obj v1) (Int_Obj v2) = Inr r \<and> int_ok r \<and>
      int_val r = take_bit (nat (v2 - v1)) (drop_bit (nat v1) (int_val so))) \<and>
    bitwise_bit_set_p so (Int_Obj v1) = Inr (bit (int_val so) (nat v1))"
  using bit_field_represents[OF assms] bit_set_p_value[OF assms(1,4,2)] by (simp add: represents_def)

theorem exact_int_bit_field_witness:
  "let so = Big_Obj \<lparr>big_pos = True, big_digs = [0xF000000000000000, 0xF]\<rparr>
   in int_ok so \<and> is_fixnum 60 \<and> is_fixnum 68 \<and>
     (\<exists>r. bitwise_bit_field False so (Int_Obj 60) (Int_Obj 68) = Inr r \<and> int_ok r \<and> int_val r = 255)"
  using exact_int_bit_field[of "Big_Obj \<lparr>big_pos = True, big_digs = [0xF000000000000000, 0xF]\<rparr>" 60 68]
  by (simp add: Let_def is_fixnum_def big_ok_def digs_ok_def big_val_def)

subsection \<open>Powers and division\<close>

text \<open>C27. Raising a fixnum to a fixnum power gives the power: the word loop ends with it, or finds
  out in time that a product does not fit and leaves the work to bignums, whose product of digit vectors, \<^verbatim>\<open>mpn_mul\<close>, is
  assumed to be right at every length.\<close>

theorem exact_int_expt:
  assumes "limb_product mul" "is_fixnum x" "is_fixnum y" "0 \<le> y"
  shows "\<exists>r. fixnum_expt mul False x y = Inr (Some r) \<and> int_ok r \<and> int_val r = x ^ nat y"
  using limb_product.fixnum_expt_represents[OF assms] by (simp add: represents_def)

theorem exact_int_expt_witness:
  "is_fixnum (-3) \<and> is_fixnum 41 \<and>
    (\<exists>r. fixnum_expt mpn_mul_basecase False (-3) 41 = Inr (Some r) \<and> int_ok r \<and> int_val r = -36472996377170786403)"
  using exact_int_expt[OF basecase.limb_product_axioms, of "-3" 41] by (simp add: is_fixnum_def)

text \<open>C28. For a division of digit vectors that does what the GMP manual says, quotient and
  remainder are those of truncating division, and dividing by zero is an error.\<close>

theorem exact_int_quotient_remainder:
  assumes "divides_limbs tdiv" "int_ok a" "int_ok b" "int_val b \<noteq> 0"
  shows "(\<exists>q. bin_quotient tdiv a b = Inr q \<and> int_ok q \<and> int_val q = int_val a sdiv int_val b) \<and>
    (\<exists>r. rem_mod tdiv True a b = Inr r \<and> int_ok r \<and> int_val r = int_val a smod int_val b) \<and>
    bin_quotient tdiv a (Int_Obj 0) = Inl Divide_By_Zero \<and> rem_mod tdiv fs a (Int_Obj 0) = Inl Divide_By_Zero"
  using quotient_represents[OF assms] remainder_represents[OF assms]
  by (simp add: represents_def bin_quotient_def rem_mod_def)

theorem exact_int_quotient_remainder_witness:
  "let a = Big_Obj \<lparr>big_pos = False, big_digs = [5, 1]\<rparr>; b = Int_Obj 7
   in divides_limbs reference_tdiv \<and> int_ok a \<and> int_ok b \<and>
     (\<exists>q. bin_quotient reference_tdiv a b = Inr q \<and> int_ok q \<and> int_val q = -2635249153387078803) \<and>
     (\<exists>r. rem_mod reference_tdiv True a b = Inr r \<and> int_ok r \<and> int_val r = 0)"
  using exact_int_quotient_remainder[OF reference_tdiv_divides, of "Big_Obj \<lparr>big_pos = False, big_digs = [5, 1]\<rparr>" "Int_Obj 7"]
    reference_tdiv_divides
  by (simp add: Let_def is_fixnum_def big_ok_def digs_ok_def big_val_def)

text \<open>C29. \<^verbatim>\<open>modulo\<close> is right except when the dividend is negative, the divisor positive and the
  remainder exactly the most negative fixnum: the code negates it in a fixnum, where it wraps, and
  the result is too large by \<open>2 ^ 63\<close>.\<close>

theorem exact_int_modulo:
  assumes "divides_limbs tdiv" "int_ok a" "int_ok b" "int_val b \<noteq> 0"
  shows "\<exists>r. rem_mod tdiv False a b = Inr r \<and> int_ok r \<and> int_val r =
    int_val a mod int_val b +
      (if int_val a < 0 \<and> 0 < int_val b \<and> int_val a smod int_val b = - (2 ^ 62) then 2 ^ 63 else 0)"
proof -
  let ?bad = "int_val a < 0 \<and> 0 < int_val b \<and> int_val a smod int_val b = - (2 ^ 62)"
  have "int_val a mod int_val b = int_val b - 2 ^ 62" if ?bad
    using mod_smod(1)[OF assms(4), of "int_val a"] that by simp
  then have "int_val b + 2 ^ 62 = int_val a mod int_val b + 2 ^ 63" if ?bad using that by simp
  then show ?thesis using modulo_represents[OF assms] by (auto simp: represents_def)
qed

theorem exact_int_modulo_witness:
  "let a = Int_Obj (-4611686018427387904); b = Big_Obj \<lparr>big_pos = True, big_digs = [4611686018427387909]\<rparr>
   in divides_limbs reference_tdiv \<and> int_ok a \<and> int_ok b \<and>
     (\<exists>r. rem_mod reference_tdiv False a b = Inr r \<and> int_ok r \<and> int_val r = 9223372036854775813) \<and>
     int_val a mod int_val b = 5"
  using exact_int_modulo[OF reference_tdiv_divides, of "Int_Obj (-4611686018427387904)"
      "Big_Obj \<lparr>big_pos = True, big_digs = [4611686018427387909]\<rparr>"] reference_tdiv_divides
  by (simp add: Let_def is_fixnum_def big_ok_def digs_ok_def big_val_def)

text \<open>C30. The greatest common divisor of two fixnums is right except when it is \<open>2 ^ 62\<close>, which is
  not a fixnum: the code then returns the most negative fixnum.\<close>

theorem exact_int_gcd:
  assumes "is_fixnum i" "is_fixnum j"
  shows "scheme_bin_gcd gcd_digs (Int_Obj i) (Int_Obj j) =
    Int_Obj (if gcd i j = 2 ^ 62 then - (2 ^ 62) else gcd i j)"
  by (rule fixnum_gcd_value[OF assms])

theorem exact_int_gcd_witness:
  "is_fixnum (-4611686018427387904) \<and> is_fixnum 0 \<and>
    scheme_bin_gcd (\<lambda>x y. x) (Int_Obj (-4611686018427387904)) (Int_Obj 0) = Int_Obj (-4611686018427387904)"
  using exact_int_gcd[of "-4611686018427387904" 0 "\<lambda>x y. x"] by (simp add: is_fixnum_def)

end
