(* ===== verification/Ratio_Spec.thy ===== *)
theory Ratio_Spec
  imports Ratio_Correct Exact_Int_Spec
begin

unbundle bit_operations_syntax

section \<open>Exact rational numbers: properties\<close>

text \<open>Routines on digit vectors that obey the laws of the GMP manual.\<close>

definition reference_gmp :: gmp_ops where
  "reference_gmp = \<lparr>mul_op = mpn_mul_basecase, tdiv_op = reference_tdiv,
     gcd_op = (\<lambda>u v. limbs_of (length v) (gcd (limbs_val u) (limbs_val v)))\<rparr>"

lemma reference_gcd: "gcd_limbs (\<lambda>u v. limbs_of (length v) (gcd (limbs_val u) (limbs_val v)))"
  unfolding gcd_limbs_def
proof (intro allI impI)
  fix u v :: "limb list"
  assume a: "u \<noteq> [] \<and> v \<noteq> [] \<and> last u \<noteq> 0 \<and> last v \<noteq> 0 \<and> odd (limbs_val v) \<and> limbs_val v \<le> limbs_val u"
  then have "limbs_val v \<noteq> 0" by auto
  then have "0 < limbs_val v" using limbs_val_nonneg[of v] by (simp add: order_less_le del: limbs_val_nonneg)
  then have "gcd (limbs_val u) (limbs_val v) \<le> limbs_val v" by (simp add: zdvd_imp_le)
  then have "gcd (limbs_val u) (limbs_val v) < 2 ^ (64 * length v)" using limbs_val_less[of v] by simp
  then show "limbs_val (limbs_of (length v) (gcd (limbs_val u) (limbs_val v))) = gcd (limbs_val u) (limbs_val v)"
    using limbs_of_value[OF gcd_ge_0_int] by blast
qed

lemmas coprime_numeral = coprime_iff_gcd_eq_1 gcd_non_0_int

interpretation reference: gmp_laws reference_gmp
  by unfold_locales (simp_all add: reference_gmp_def reference_tdiv_divides reference_gcd
    basecase.limb_product_axioms[unfolded limb_product_def, rule_format] limb_product_def)

text \<open>C31. The sum, difference and product of exact numbers, integers and fractions mixed, are those of the rational
  numbers, in lowest terms with a denominator above 1, or integers, for denominators of at most \<open>2 ^ 30\<close> bits, where no
  counter of \<^verbatim>\<open>scheme_bignum_gcd\<close>, a C \<^verbatim>\<open>int\<close>, overflows.\<close>

theorem exact_num_arith:
  assumes "gmp_laws g" "num_ok a" "num_ok b"
    and "denominator a < 2 ^ gcd_bits" "denominator b < 2 ^ gcd_bits"
  shows "(\<exists>x. num_plus g a b = Inr x \<and> num_ok x \<and> num_val x = num_val a + num_val b) \<and>
    (\<exists>x. num_minus g a b = Inr x \<and> num_ok x \<and> num_val x = num_val a - num_val b) \<and>
    (\<exists>x. num_mult g a b = Inr x \<and> num_ok x \<and> num_val x = num_val a * num_val b)"
  using gmp_laws.num_plus_value[OF assms] gmp_laws.num_minus_value[OF assms] gmp_laws.num_mult_value[OF assms]
  by blast

theorem exact_num_arith_witness:
  "let a = Ratio \<lparr>rat_num = Int_Obj 1, rat_denom = Int_Obj 6\<rparr>; b = Ratio \<lparr>rat_num = Int_Obj 1, rat_denom = Int_Obj 3\<rparr>
   in gmp_laws reference_gmp \<and> num_ok a \<and> num_ok b \<and>
     (\<exists>x. num_plus reference_gmp a b = Inr x \<and> num_ok x \<and> num_val x = 1 / 2)"
  using exact_num_arith[OF reference.gmp_laws_axioms, of "Ratio \<lparr>rat_num = Int_Obj 1, rat_denom = Int_Obj 6\<rparr>"
      "Ratio \<lparr>rat_num = Int_Obj 1, rat_denom = Int_Obj 3\<rparr>"] reference.gmp_laws_axioms
    gcd_bits_small[of 3] gcd_bits_small[of 6]
  by (simp add: Let_def frac_ok_def frac_val_def is_fixnum_def coprime_numeral del: num_plus.simps num_lt.simps)

text \<open>C32. Division gives the quotient, and an error for an exact zero. The result is in normal form
  except when its numerator is the most negative fixnum: the code negates a numerator \<open>2 ^ 62\<close> and leaves
  it a bignum. The numerator of the divisor and the denominator of the dividend, whose product becomes the
  denominator, have at most \<open>2 ^ 30\<close> bits, so that no counter of \<^verbatim>\<open>scheme_bignum_gcd\<close> overflows.\<close>

theorem exact_num_div:
  assumes "gmp_laws g" "num_ok a" "num_ok b" "num_val b \<noteq> 0"
    and "denominator a < 2 ^ gcd_bits" "\<bar>int_val (numerator b)\<bar> < 2 ^ gcd_bits"
  shows "(\<exists>x. num_div g a b = Inr x \<and> num_val x = num_val a / num_val b \<and>
      (int_val (numerator x) \<noteq> - (2 ^ 62) \<longrightarrow> num_ok x)) \<and>
    num_div g a (Whole (Int_Obj 0)) = Inl Divide_By_Zero"
proof (intro conjI)
  show "\<exists>x. num_div g a b = Inr x \<and> num_val x = num_val a / num_val b \<and>
      (int_val (numerator x) \<noteq> - (2 ^ 62) \<longrightarrow> num_ok x)"
    using gmp_laws.num_div_value[OF assms] by blast
qed simp

theorem exact_num_div_witness:
  "let a = Ratio \<lparr>rat_num = Int_Obj 3, rat_denom = Int_Obj 4\<rparr>; b = Whole (Int_Obj (-6))
   in gmp_laws reference_gmp \<and> num_ok a \<and> num_ok b \<and> num_val b \<noteq> 0 \<and>
     (\<exists>x. num_div reference_gmp a b = Inr x \<and> num_val x = - 1 / 8)"
  using exact_num_div[OF reference.gmp_laws_axioms, of "Ratio \<lparr>rat_num = Int_Obj 3, rat_denom = Int_Obj 4\<rparr>" "Whole (Int_Obj (-6))"]
    reference.gmp_laws_axioms gcd_bits_small[of 4] gcd_bits_small[of 6]
  by (simp add: Let_def frac_ok_def frac_val_def is_fixnum_def coprime_numeral del: num_div.simps) blast

text \<open>C33. Dividing \<open>2 ^ 62\<close> by a negative odd fixnum other than -1 gives a fraction that is not \<^verbatim>\<open>=\<close> to the same
  number computed from \<open>- (2 ^ 62)\<close> and the positive fixnum.\<close>

theorem exact_num_div_not_normal:
  assumes "gmp_laws g" "odd d" "1 < d" "d < 2 ^ 62"
  shows "\<exists>x y. num_div g (Whole (Big_Obj \<lparr>big_pos = True, big_digs = [4611686018427387904]\<rparr>)) (Whole (Int_Obj (- d))) = Inr x \<and>
    num_div g (Whole (Int_Obj (- (2 ^ 62)))) (Whole (Int_Obj d)) = Inr y \<and>
    num_val x = num_val y \<and> \<not> num_eq x y"
  using gmp_laws.div_not_normal[OF assms] .

theorem exact_num_div_not_normal_witness:
  "\<exists>x y. num_div reference_gmp (Whole (Big_Obj \<lparr>big_pos = True, big_digs = [4611686018427387904]\<rparr>)) (Whole (Int_Obj (-3))) = Inr x \<and>
    num_div reference_gmp (Whole (Int_Obj (- (2 ^ 62)))) (Whole (Int_Obj 3)) = Inr y \<and> \<not> num_eq x y"
  using exact_num_div_not_normal[OF reference.gmp_laws_axioms, of 3] by (simp del: num_div.simps num_eq.simps) blast

text \<open>C34. \<^verbatim>\<open>=\<close> and \<^verbatim>\<open><\<close> on numbers in normal form are those of the rational numbers.\<close>

theorem exact_num_compare:
  assumes "gmp_laws g" "num_ok a" "num_ok b"
  shows "(num_eq a b \<longleftrightarrow> num_val a = num_val b) \<and> (num_lt g a b \<longleftrightarrow> num_val a < num_val b)"
  using num_eq_value[OF assms(2,3)] gmp_laws.num_lt_value[OF assms] by blast

theorem exact_num_compare_witness:
  "let a = Ratio \<lparr>rat_num = Int_Obj (-1), rat_denom = Int_Obj 6\<rparr>; b = Whole (Int_Obj 0)
   in gmp_laws reference_gmp \<and> num_ok a \<and> num_ok b \<and> \<not> num_eq a b \<and> num_lt reference_gmp a b"
  using exact_num_compare[OF reference.gmp_laws_axioms, of "Ratio \<lparr>rat_num = Int_Obj (-1), rat_denom = Int_Obj 6\<rparr>" "Whole (Int_Obj 0)"]
    reference.gmp_laws_axioms
  by (simp add: Let_def frac_ok_def frac_val_def is_fixnum_def coprime_numeral del: num_plus.simps num_lt.simps)

text \<open>C35. \<^verbatim>\<open>floor\<close> and \<^verbatim>\<open>ceiling\<close> are right, and \<^verbatim>\<open>round\<close> rounds to the nearest integer and to the even one of
  two, except for fractions just below one half with an odd denominator above \<open>2 ^ 63\<close>, which it
  rounds away from zero.\<close>

theorem exact_num_round:
  assumes "gmp_laws g" "num_ok a"
  shows "(\<exists>z. num_floor g a = Inr z \<and> int_ok z \<and> int_val z = \<lfloor>num_val a\<rfloor>) \<and>
    (\<exists>z. num_ceiling g a = Inr z \<and> int_ok z \<and> int_val z = \<lceil>num_val a\<rceil>) \<and>
    (\<exists>z. num_round g a = Inr z \<and> int_ok z \<and> int_val z = round_half_even (num_val a) +
      (case a of Ratio r \<Rightarrow> if round_slip r then sgn (int_val (rat_num r)) else 0 | Whole n \<Rightarrow> 0))"
  using gmp_laws.num_rounding_value[OF assms] by (simp add: represents_def)

theorem exact_num_round_witness:
  "let r = \<lparr>rat_num = Big_Obj \<lparr>big_pos = True, big_digs = [4611686018427387904]\<rparr>,
            rat_denom = Big_Obj \<lparr>big_pos = True, big_digs = [9223372036854775809]\<rparr>\<rparr>
   in gmp_laws reference_gmp \<and> num_ok (Ratio r) \<and> num_val (Ratio r) < 1 / 2 \<and>
     (\<exists>z. num_round reference_gmp (Ratio r) = Inr z \<and> int_val z = 1)"
proof -
  let ?r = "\<lparr>rat_num = Big_Obj \<lparr>big_pos = True, big_digs = [4611686018427387904]\<rparr>,
    rat_denom = Big_Obj \<lparr>big_pos = True, big_digs = [9223372036854775809]\<rparr>\<rparr>"
  have v: "int_val (rat_num ?r) = 4611686018427387904" "int_val (rat_denom ?r) = 9223372036854775809"
    by (simp_all add: big_val_def)
  have "coprime (4611686018427387904 :: int) 9223372036854775809" by (simp add: coprime_numeral)
  then have ok: "num_ok (Ratio ?r)"
    using v by (simp add: frac_ok_def big_ok_def digs_ok_def is_fixnum_def)
  have x: "num_val (Ratio ?r) = of_int 4611686018427387904 / of_int 9223372036854775809"
    by (simp only: num_val.simps frac_val_def v)
  have slip: "round_slip ?r" by (simp only: round_slip_def v Let_def) (simp add: is_fixnum_def)
  have even: "round_half_even (num_val (Ratio ?r)) = 0" unfolding x by (subst round_half_even_quotient) simp_all
  obtain z where "num_round reference_gmp (Ratio ?r) = Inr z"
    "int_val z = round_half_even (num_val (Ratio ?r)) + (if round_slip ?r then sgn (int_val (rat_num ?r)) else 0)"
    using exact_num_round[OF reference.gmp_laws_axioms ok] by (simp only: exact_num.case) blast
  then have "num_round reference_gmp (Ratio ?r) = Inr z" "int_val z = 1" using even slip by (simp_all only: v) simp_all
  moreover have "num_val (Ratio ?r) < 1 / 2" unfolding x by simp
  ultimately show ?thesis using ok reference.gmp_laws_axioms unfolding Let_def by blast
qed

end
