(* ===== verification/Equal_Code.thy ===== *)
theory Equal_Code
  imports Scheme_Object Hash_Table
begin

unbundle bit_operations_syntax

section \<open>\<open>equal?\<close> and its hash codes on data (bool.c, hash.c, list.c)\<close>

text \<open>
  \<open>equal?\<close> looks into pairs, mutable pairs, vectors, boxes, structures, module paths and module path
  indices, which are objects \<open>Other\<close> with a type tag; what they refer to is in a
  \<open>heap\<close>, so data may be shared and cyclic. A structure has the number of its type, and
  \<open>visible\<close> says whether the structures of a type are transparent or seen by the current
  inspector, and \<open>has_procs\<close> whether they have the property \<^verbatim>\<open>prop:equal+hash\<close> or \<^verbatim>\<open>prop:impersonator-of\<close>. Loops
  and recursion take fuel. \<open>None\<close> stands for a run out of fuel and for one that meets what the model has no contents for:
  structures with such properties and the objects that are not \<open>modelled\<close>.
\<close>

record heap =
  parts :: "obj \<Rightarrow> obj list"
  struct_type :: "obj \<Rightarrow> nat"
  visible :: "nat \<Rightarrow> bool"
  has_procs :: "nat \<Rightarrow> bool"

abbreviation scheme_proc_struct_type :: nat where "scheme_proc_struct_type \<equiv> 44"
abbreviation scheme_structure_type :: nat where "scheme_structure_type \<equiv> 48"
abbreviation scheme_null_type :: nat where "scheme_null_type \<equiv> 63"
abbreviation scheme_pair_type :: nat where "scheme_pair_type \<equiv> 64"
abbreviation scheme_mutable_pair_type :: nat where "scheme_mutable_pair_type \<equiv> 65"
abbreviation scheme_vector_type :: nat where "scheme_vector_type \<equiv> 66"
abbreviation scheme_box_type :: nat where "scheme_box_type \<equiv> 76"
abbreviation scheme_module_index_type :: nat where "scheme_module_index_type \<equiv> 88"
abbreviation scheme_wrap_chunk_type :: nat where "scheme_wrap_chunk_type \<equiv> 102"
abbreviation scheme_resolved_module_path_type :: nat where "scheme_resolved_module_path_type \<equiv> 162"
abbreviation scheme_fxvector_type :: nat where "scheme_fxvector_type \<equiv> 173"

text \<open>The types whose contents \<open>equal?\<close> looks at and the model does not have: the two of chaperones, extflonums, Windows
  paths, mutable and immutable hash tables, regular expressions, tables of buckets, vectors of extflonums and the
  channels of places. No type is registered with \<^verbatim>\<open>scheme_set_type_equality\<close>.\<close>

definition outside_types :: "nat set" where
  "outside_types = {46, 47, 56, 60, 81, 82, 97, 99, 172, 177}"

definition modelled :: "obj \<Rightarrow> bool" where
  "modelled ob \<longleftrightarrow> scheme_type ob \<notin> outside_types"

definition SCHEME_PAIRP :: "obj \<Rightarrow> bool" where
  "SCHEME_PAIRP ob \<longleftrightarrow> scheme_type ob = scheme_pair_type"

definition SCHEME_NULLP :: "obj \<Rightarrow> bool" where
  "SCHEME_NULLP ob \<longleftrightarrow> scheme_type ob = scheme_null_type"

definition SCHEME_CAR :: "heap \<Rightarrow> obj \<Rightarrow> obj" where
  "SCHEME_CAR h ob = parts h ob ! 0"

definition SCHEME_CDR :: "heap \<Rightarrow> obj \<Rightarrow> obj" where
  "SCHEME_CDR h ob = parts h ob ! 1"

definition SCHEME_PTR_VAL :: "heap \<Rightarrow> obj \<Rightarrow> obj" where
  "SCHEME_PTR_VAL h ob = parts h ob ! 0"

subsection \<open>Lists\<close>

text \<open>
  A pair's \<^verbatim>\<open>keyex\<close> field caches whether it starts a list: bit 0 for a list, bit 1 for a pair
  that is none. The fields of the pairs are the state \<open>list_flags\<close>. The loop returns the flags to
  record and the pair to record them in, which it moves at half the speed.
\<close>

type_synonym list_flags = "obj \<Rightarrow> u16"

fun is_list_loop :: "heap \<Rightarrow> list_flags \<Rightarrow> nat \<Rightarrow> obj \<Rightarrow> obj \<Rightarrow> (u16 \<times> obj) option" where
  "is_list_loop h flags 0 obj1 obj2 = None"
| "is_list_loop h flags (Suc n) obj1 obj2 =
     (let obj1 = SCHEME_CDR h obj1
      in if SCHEME_NULLP obj1 then Some (1, obj2)
         else if \<not> SCHEME_PAIRP obj1 then Some (2, obj2)
         else if flags obj1 AND 3 \<noteq> 0 then Some (flags obj1, obj2)
         else
           (let obj1 = SCHEME_CDR h obj1
            in if SCHEME_NULLP obj1 then Some (1, obj2)
               else if \<not> SCHEME_PAIRP obj1 then Some (2, obj2)
               else if flags obj1 AND 3 \<noteq> 0 then Some (flags obj1, obj2)
               else is_list_loop h flags n obj1 (SCHEME_CDR h obj2)))"

definition scheme_is_list :: "heap \<Rightarrow> nat \<Rightarrow> obj \<Rightarrow> list_flags \<Rightarrow> (bool \<times> list_flags) option" where
  "scheme_is_list h fuel obj1 flags =
     (if SCHEME_PAIRP obj1 \<and> flags obj1 AND 3 \<noteq> 0 then Some (flags obj1 AND 1 \<noteq> 0, flags)
      else if SCHEME_PAIRP obj1 then
        (case is_list_loop h flags fuel obj1 obj1 of
           None \<Rightarrow> None
         | Some (f, obj2) \<Rightarrow> Some (f AND 1 \<noteq> 0, flags(obj2 := flags obj2 OR (f AND 3))))
      else Some (SCHEME_NULLP obj1, flags))"

subsection \<open>The objects assumed equal\<close>

text \<open>
  \<open>equal_info\<close> is the state of one comparison: counters, and from a depth of 50 on a table \<open>eq_ht\<close>
  in which each object that was assumed equal to another one points to it, directly or
  through others. The model keeps the flags of pairs with it.
\<close>

record equal_info =
  eq_depth :: int
  car_depth :: int
  eq_ht :: "(obj, obj) hash_table option"
  pair_flags :: list_flags

text \<open>The last object of the chain from \<open>prev\<close>, and the object before it.\<close>

fun find_last :: "'k table_ops \<Rightarrow> nat \<Rightarrow> ('k, 'k) hash_table \<Rightarrow> 'k \<Rightarrow> 'k \<Rightarrow> ('k \<times> 'k) option" where
  "find_last ops 0 ht prev prev_prev = None"
| "find_last ops (Suc n) ht prev prev_prev =
     (case scheme_hash_get ops ht prev of
        None \<Rightarrow> None
      | Some None \<Rightarrow> Some (prev, prev_prev)
      | Some (Some v) \<Rightarrow> find_last ops n ht v prev)"

fun point_to_last :: "'k table_ops \<Rightarrow> nat \<Rightarrow> ('k, 'k) hash_table \<Rightarrow> 'k \<Rightarrow> 'k \<Rightarrow> 'k \<Rightarrow> ('k, 'k) hash_table option" where
  "point_to_last ops 0 ht obj1 prev prev_prev = None"
| "point_to_last ops (Suc n) ht obj1 prev prev_prev =
     (if obj1 = prev_prev then Some ht
      else case scheme_hash_get ops ht obj1 of
        Some (Some v) \<Rightarrow>
          (case scheme_hash_set ops ht obj1 (Some prev) of
             None \<Rightarrow> None
           | Some ht \<Rightarrow> point_to_last ops n ht v prev prev_prev)
      | _ \<Rightarrow> None)"

definition union_find :: "'k table_ops \<Rightarrow> nat \<Rightarrow> 'k \<Rightarrow> ('k, 'k) hash_table \<Rightarrow> ('k \<times> ('k, 'k) hash_table) option" where
  "union_find ops fuel obj1 ht =
     (case find_last ops fuel ht obj1 obj1 of
        None \<Rightarrow> None
      | Some (prev, prev_prev) \<Rightarrow>
          map_option (\<lambda>ht. (prev, ht)) (point_to_last ops fuel ht obj1 prev prev_prev))"

definition union_check :: "obj table_ops \<Rightarrow> nat \<Rightarrow> obj \<Rightarrow> obj \<Rightarrow> equal_info \<Rightarrow> (bool \<times> equal_info) option" where
  "union_check ops fuel obj1 obj2 eql =
     (if eq_depth eql < 50 then Some (False, eql\<lparr>eq_depth := eq_depth eql + 2\<rparr>)
      else
        (let ht = (case eq_ht eql of None \<Rightarrow> scheme_make_hash_table | Some ht \<Rightarrow> ht)
         in case union_find ops fuel obj1 ht of
              None \<Rightarrow> None
            | Some (obj1, ht) \<Rightarrow>
          (case union_find ops fuel obj2 ht of
              None \<Rightarrow> None
            | Some (obj2, ht) \<Rightarrow>
               if obj1 = obj2 then Some (True, eql\<lparr>eq_ht := Some ht\<rparr>)
               else map_option (\<lambda>ht. (False, eql\<lparr>eq_ht := Some ht\<rparr>)) (scheme_hash_set ops ht obj2 (Some obj1)))))"

subsection \<open>\<open>is_equal\<close>\<close>

text \<open>What follows a test that decides a negative, or a positive, answer.\<close>

definition and_then :: "(bool \<times> 's) option \<Rightarrow> ('s \<Rightarrow> (bool \<times> 's) option) \<Rightarrow> (bool \<times> 's) option" where
  "and_then r k = (case r of None \<Rightarrow> None | Some (same, s) \<Rightarrow> if same then k s else Some (False, s))"

definition or_else :: "(bool \<times> 's) option \<Rightarrow> ('s \<Rightarrow> (bool \<times> 's) option) \<Rightarrow> (bool \<times> 's) option" where
  "or_else r k = (case r of None \<Rightarrow> None | Some (same, s) \<Rightarrow> if same then Some (True, s) else k s)"

type_synonym equal_rec = "obj \<Rightarrow> obj \<Rightarrow> equal_info \<Rightarrow> (bool \<times> equal_info) option"

fun elements_equal :: "equal_rec \<Rightarrow> obj list \<Rightarrow> obj list \<Rightarrow> equal_info \<Rightarrow> (bool \<times> equal_info) option" where
  "elements_equal rec (v1 # vs1) (v2 # vs2) eql = and_then (rec v1 v2 eql) (elements_equal rec vs1 vs2)"
| "elements_equal rec vs1 vs2 eql = Some (True, eql)"

definition vector_equal :: "heap \<Rightarrow> equal_rec \<Rightarrow> obj \<Rightarrow> obj \<Rightarrow> equal_info \<Rightarrow> (bool \<times> equal_info) option" where
  "vector_equal h rec vec1 vec2 eql =
     (if length (parts h vec1) \<noteq> length (parts h vec2) then Some (False, eql)
      else elements_equal rec (parts h vec1) (parts h vec2) eql)"

text \<open>The fields of structures are compared from the last to the first.\<close>

fun struct_equal :: "heap \<Rightarrow> equal_rec \<Rightarrow> obj \<Rightarrow> obj \<Rightarrow> nat \<Rightarrow> equal_info \<Rightarrow> (bool \<times> equal_info) option" where
  "struct_equal h rec s1 s2 0 eql = Some (True, eql)"
| "struct_equal h rec s1 s2 (Suc i) eql =
     and_then (rec (parts h s1 ! i) (parts h s2 ! i) eql) (struct_equal h rec s1 s2 i)"

text \<open>The cases of \<open>is_equal\<close> for two objects of the same type; \<open>rec\<close> is \<open>is_equal\<close> itself, for its
  calls and its jumps to the top.\<close>

definition equal_pair :: "heap \<Rightarrow> obj table_ops \<Rightarrow> nat \<Rightarrow> equal_rec \<Rightarrow> equal_rec" where
  "equal_pair h ops fuel rec obj1 obj2 eql =
     (let check =
        (if car_depth eql > 2 then Some (True, eql)
         else map_option (\<lambda>(is_list, flags). (\<not> is_list, eql\<lparr>pair_flags := flags\<rparr>))
                (scheme_is_list h fuel obj1 (pair_flags eql)))
      in or_else (and_then check (union_check ops fuel obj1 obj2)) (\<lambda>eql.
         and_then (rec (SCHEME_CAR h obj1) (SCHEME_CAR h obj2) (eql\<lparr>car_depth := car_depth eql + 2\<rparr>)) (\<lambda>eql.
           rec (SCHEME_CDR h obj1) (SCHEME_CDR h obj2) (eql\<lparr>car_depth := car_depth eql - 2\<rparr>))))"

definition equal_mutable_pair :: "heap \<Rightarrow> obj table_ops \<Rightarrow> nat \<Rightarrow> equal_rec \<Rightarrow> equal_rec" where
  "equal_mutable_pair h ops fuel rec obj1 obj2 eql =
     or_else (union_check ops fuel obj1 obj2 eql) (\<lambda>eql.
       and_then (rec (SCHEME_CAR h obj1) (SCHEME_CAR h obj2) eql)
         (rec (SCHEME_CDR h obj1) (SCHEME_CDR h obj2)))"

definition equal_structure :: "heap \<Rightarrow> obj table_ops \<Rightarrow> nat \<Rightarrow> equal_rec \<Rightarrow> equal_rec" where
  "equal_structure h ops fuel rec obj1 obj2 eql =
     (if has_procs h (struct_type h obj1) \<or> has_procs h (struct_type h obj2) then None
      else if struct_type h obj1 \<noteq> struct_type h obj2 then Some (False, eql)
      else if visible h (struct_type h obj1) then
        or_else (union_check ops fuel obj1 obj2 eql) (struct_equal h rec obj1 obj2 (length (parts h obj1)))
      else Some (False, eql))"

definition equal_module_index :: "heap \<Rightarrow> equal_rec \<Rightarrow> equal_rec" where
  "equal_module_index h rec obj1 obj2 eql =
     and_then (rec (parts h obj1 ! 0) (parts h obj2 ! 0) eql) (rec (parts h obj1 ! 1) (parts h obj2 ! 1))"

definition equal_same_type :: "heap \<Rightarrow> obj table_ops \<Rightarrow> nat \<Rightarrow> equal_rec \<Rightarrow> equal_rec" where
  "equal_same_type h ops fuel rec obj1 obj2 eql =
     (let t = scheme_type obj1
      in if t = scheme_pair_type then equal_pair h ops fuel rec obj1 obj2 eql
         else if t = scheme_mutable_pair_type then equal_mutable_pair h ops fuel rec obj1 obj2 eql
         else if t = scheme_vector_type \<or> t = scheme_fxvector_type then
           or_else (union_check ops fuel obj1 obj2 eql) (vector_equal h rec obj1 obj2)
         else if t = scheme_structure_type \<or> t = scheme_proc_struct_type then
           equal_structure h ops fuel rec obj1 obj2 eql
         else if t = scheme_box_type then
           or_else (union_check ops fuel obj1 obj2 eql) (rec (SCHEME_PTR_VAL h obj1) (SCHEME_PTR_VAL h obj2))
         else if t = scheme_wrap_chunk_type then vector_equal h rec obj1 obj2 eql
         else if t = scheme_resolved_module_path_type then rec (SCHEME_PTR_VAL h obj1) (SCHEME_PTR_VAL h obj2) eql
         else if t = scheme_module_index_type then equal_module_index h rec obj1 obj2 eql
         else Some (False, eql))"

fun is_equal :: "heap \<Rightarrow> obj table_ops \<Rightarrow> nat \<Rightarrow> equal_rec" where
  "is_equal h ops 0 obj1 obj2 eql = None"
| "is_equal h ops (Suc n) obj1 obj2 eql =
     (let cmp = is_fast_equal obj1 obj2 False
      in if cmp > -1 then Some (cmp \<noteq> 0, eql)
         else if \<not> modelled obj1 \<or> \<not> modelled obj2 then None
         else if scheme_type obj1 \<noteq> scheme_type obj2 then Some (False, eql)
         else equal_same_type h ops n (is_equal h ops n) obj1 obj2 eql)"

definition is_slow_equal :: "heap \<Rightarrow> obj table_ops \<Rightarrow> nat \<Rightarrow> list_flags \<Rightarrow> obj \<Rightarrow> obj \<Rightarrow> (bool \<times> list_flags) option" where
  "is_slow_equal h ops fuel flags obj1 obj2 =
     map_option (\<lambda>(same, eql). (same, pair_flags eql))
       (is_equal h ops fuel obj1 obj2 \<lparr>eq_depth = 1, car_depth = 1, eq_ht = None, pair_flags = flags\<rparr>)"

definition scheme_equal :: "heap \<Rightarrow> obj table_ops \<Rightarrow> nat \<Rightarrow> list_flags \<Rightarrow> obj \<Rightarrow> obj \<Rightarrow> (bool \<times> list_flags) option" where
  "scheme_equal h ops fuel flags obj1 obj2 =
     (let v = is_fast_equal obj1 obj2 False
      in if v > -1 then Some (v \<noteq> 0, flags) else is_slow_equal h ops fuel flags obj1 obj2)"

end
