(* ===== verification/Equal_Hash_Code.thy ===== *)
theory Equal_Hash_Code
  imports Equal_Code
begin

unbundle bit_operations_syntax

section \<open>Hash codes of data (hash.c)\<close>

text \<open>
  \<open>equal_hash_key\<close> and \<open>equal_hash_key2\<close>, the two hash codes that go with \<open>equal?\<close>, for the
  objects of \<open>Equal_Code\<close>. \<open>hash_info\<close> counts the depth, beyond which an object contributes only its type;
  the model keeps the flags of pairs with it. \<open>ptr\<close> stands for \<open>PTR_TO_LONG\<close> once each object has its code.
  The lengths of vectors go into variables of C type \<^verbatim>\<open>int\<close>: \<open>None\<close> also stands for the accesses out of bounds
  that follow for longer ones.
\<close>

record hash_info =
  hash_depth :: int
  hash_flags :: list_flags

type_synonym hash_rec = "obj \<Rightarrow> uintptr \<Rightarrow> hash_info \<Rightarrow> (uintptr \<times> hash_info) option"

definition MAX_HASH_DEPTH :: int where
  "MAX_HASH_DEPTH = 128"

abbreviation deeper :: "hash_info \<Rightarrow> hash_info" where
  "deeper hi \<equiv> hi\<lparr>hash_depth := hash_depth hi + 2\<rparr>"

subsection \<open>The first code\<close>

text \<open>The cases of \<open>equal_hash_key\<close>; \<open>rec\<close> is the function itself, for its calls and its jumps to the top.\<close>

definition hash_pair :: "heap \<Rightarrow> nat \<Rightarrow> hash_rec \<Rightarrow> hash_rec" where
  "hash_pair h fuel rec ob k hi =
     (case rec (SCHEME_CAR h ob) 0 (deeper hi) of
        None \<Rightarrow> None
      | Some (v, hi) \<Rightarrow>
          (case scheme_is_list h fuel ob (hash_flags hi) of
             None \<Rightarrow> None
           | Some (is_list, flags) \<Rightarrow>
               rec (SCHEME_CDR h ob) (MZ_MIX (push_bit 3 k + k + v))
                 (hi\<lparr>hash_depth := (if is_list then hash_depth hi - 2 else hash_depth hi), hash_flags := flags\<rparr>)))"

definition hash_mutable_pair :: "heap \<Rightarrow> hash_rec \<Rightarrow> hash_rec" where
  "hash_mutable_pair h rec ob k hi =
     (case rec (SCHEME_CAR h ob) 0 (deeper hi) of
        None \<Rightarrow> None
      | Some (v, hi) \<Rightarrow> rec (SCHEME_CDR h ob) (MZ_MIX (push_bit 3 k + k + v)) hi)"

text \<open>The code of an element goes through an \<^verbatim>\<open>int\<close>.\<close>

fun hash_elements :: "hash_rec \<Rightarrow> obj list \<Rightarrow> uintptr \<Rightarrow> hash_info \<Rightarrow> (uintptr \<times> hash_info) option" where
  "hash_elements rec [] k hi = Some (k, hi)"
| "hash_elements rec (elem # elems) k hi =
     (case rec elem 0 hi of
        None \<Rightarrow> None
      | Some (v, hi) \<Rightarrow> hash_elements rec elems (push_bit 5 k + k + scast (ucast v :: 32 word)) hi)"

definition hash_vector :: "heap \<Rightarrow> hash_rec \<Rightarrow> hash_rec" where
  "hash_vector h rec ob k hi =
     (if 2 ^ 31 \<le> length (parts h ob) then None
      else if parts h ob = [] then Some (k + 1, hi)
      else
        (case hash_elements rec (butlast (parts h ob)) k (deeper hi) of
           None \<Rightarrow> None
         | Some (k, hi) \<Rightarrow> rec (last (parts h ob)) (MZ_MIX k) hi))"

definition hash_flvector :: "(uintptr \<Rightarrow> uintptr) \<Rightarrow> uintptr list \<Rightarrow> uintptr \<Rightarrow> uintptr" where
  "hash_flvector dbl_val ds k =
     (if ds = [] then k + 1 else foldl (\<lambda>k d. push_bit 5 k + k + dbl_val d) k ds)"

fun hash_slots :: "heap \<Rightarrow> hash_rec \<Rightarrow> obj \<Rightarrow> nat \<Rightarrow> uintptr \<Rightarrow> hash_info \<Rightarrow> (uintptr \<times> hash_info) option" where
  "hash_slots h rec ob 0 k hi = Some (k, hi)"
| "hash_slots h rec ob (Suc i) k hi =
     (case rec (parts h ob ! i) 0 hi of
        None \<Rightarrow> None
      | Some (v, hi) \<Rightarrow> hash_slots h rec ob i (MZ_MIX (k + v)) hi)"

definition hash_structure :: "heap \<Rightarrow> (obj \<Rightarrow> uintptr) \<Rightarrow> hash_rec \<Rightarrow> hash_rec" where
  "hash_structure h ptr rec ob k hi =
     (if has_procs h (struct_type h ob) then None
      else if visible h (struct_type h ob) then hash_slots h rec ob (length (parts h ob)) k (deeper hi)
      else Some (k + ptr ob, hi))"

definition hash_module_index :: "heap \<Rightarrow> hash_rec \<Rightarrow> hash_rec" where
  "hash_module_index h rec ob k hi =
     (let k = k + 1; k = push_bit 3 k + k
      in case rec (parts h ob ! 0) 0 (deeper hi) of
           None \<Rightarrow> None
         | Some (v, hi) \<Rightarrow> rec (parts h ob ! 1) (MZ_MIX (k + v)) hi)"

definition hash_by_type :: "heap \<Rightarrow> (obj \<Rightarrow> uintptr) \<Rightarrow> nat \<Rightarrow> hash_rec \<Rightarrow> hash_rec" where
  "hash_by_type h ptr fuel rec ob k hi =
     (let t = scheme_type ob
      in case ob of
           Flvector _ ds \<Rightarrow> Some (hash_flvector dbl_hash_val ds k, hi)
         | _ \<Rightarrow>
           if t = scheme_pair_type then hash_pair h fuel rec ob k hi
           else if t = scheme_mutable_pair_type then hash_mutable_pair h rec ob k hi
           else if t \<in> {scheme_vector_type, scheme_fxvector_type, scheme_wrap_chunk_type} then hash_vector h rec ob k hi
           else if t = scheme_structure_type \<or> t = scheme_proc_struct_type then hash_structure h ptr rec ob k hi
           else if t = scheme_box_type then rec (SCHEME_PTR_VAL h ob) (MZ_MIX (k + 1)) (deeper hi)
           else if t = scheme_resolved_module_path_type then rec (SCHEME_PTR_VAL h ob) (MZ_MIX (k + 7)) hi
           else if t = scheme_module_index_type then hash_module_index h rec ob k hi
           else Some (k + ptr ob, hi))"

fun equal_hash_key :: "heap \<Rightarrow> (obj \<Rightarrow> uintptr) \<Rightarrow> nat \<Rightarrow> hash_rec" where
  "equal_hash_key h ptr 0 ob k hi = None"
| "equal_hash_key h ptr (Suc n) ob k hi =
     (let k = k + of_nat (scheme_type ob)
      in if hash_depth hi > 2 * MAX_HASH_DEPTH then Some (k, hi)
         else if \<not> modelled ob then None
         else case fast_equal_hash_key ob k True of
           (k2, done) \<Rightarrow>
             if done then Some (k2, hi) else hash_by_type h ptr n (equal_hash_key h ptr n) ob k hi)"

definition slow_equal_hash_key ::
  "heap \<Rightarrow> (obj \<Rightarrow> uintptr) \<Rightarrow> nat \<Rightarrow> list_flags \<Rightarrow> obj \<Rightarrow> (uintptr \<times> list_flags) option" where
  "slow_equal_hash_key h ptr fuel flags ob =
     map_option (\<lambda>(k, hi). (k, hash_flags hi)) (equal_hash_key h ptr fuel ob 0 \<lparr>hash_depth = 1, hash_flags = flags\<rparr>)"

subsection \<open>The second code\<close>

definition dbl_hash2_val :: "uintptr \<Rightarrow> uintptr" where
  "dbl_hash2_val d = word_of_int (if MZ_IS_NAN d \<or> MZ_IS_INFINITY d then 1 else snd (dbl_frexp30 d))"

fun int_hash_key2 :: "int_obj \<Rightarrow> uintptr" where
  "int_hash_key2 (Fixnum i) = 49 - word_of_int i"
| "int_hash_key2 (Bignum _ _ ds) = ds ! 0"

fun real_hash_key2 :: "real_obj \<Rightarrow> uintptr" where
  "real_hash_key2 (Integer i) = int_hash_key2 i"
| "real_hash_key2 (Rational _ n d) = int_hash_key2 n"
| "real_hash_key2 (Double _ d) = dbl_hash2_val d"

text \<open>The sum of the characters of a string is an \<^verbatim>\<open>int\<close>.\<close>

definition chars_sum :: "32 word list \<Rightarrow> uintptr" where
  "chars_sum s = scast (foldr (\<lambda>c k. k + c) s 0)"

type_synonym hash2_rec = "obj \<Rightarrow> hash_info \<Rightarrow> (uintptr \<times> hash_info) option"

definition hash2_both :: "hash2_rec \<Rightarrow> obj \<Rightarrow> obj \<Rightarrow> hash_info \<Rightarrow> (uintptr \<times> hash_info) option" where
  "hash2_both rec o1 o2 hi =
     (case rec o1 hi of
        None \<Rightarrow> None
      | Some (v1, hi) \<Rightarrow> (case rec o2 hi of None \<Rightarrow> None | Some (v2, hi) \<Rightarrow> Some (v1 + v2, hi)))"

fun hash2_elements :: "hash2_rec \<Rightarrow> obj list \<Rightarrow> uintptr \<Rightarrow> hash_info \<Rightarrow> (uintptr \<times> hash_info) option" where
  "hash2_elements rec [] k hi = Some (k, hi)"
| "hash2_elements rec (elem # elems) k hi =
     (case rec elem hi of None \<Rightarrow> None | Some (v, hi) \<Rightarrow> hash2_elements rec elems (k + v) hi)"

fun equal_hash_key2 :: "heap \<Rightarrow> nat \<Rightarrow> hash2_rec" where
  "equal_hash_key2 h 0 ob hi = None"
| "equal_hash_key2 h (Suc n) ob hi =
     (let t = scheme_type ob
      in if hash_depth hi > 2 * MAX_HASH_DEPTH then Some (of_nat t, hi)
         else if \<not> modelled ob then None
         else case ob of
           Real r \<Rightarrow> Some (real_hash_key2 r, hi)
         | Complex _ r i \<Rightarrow> Some (real_hash_key2 r + real_hash_key2 i, hi)
         | Char _ _ \<Rightarrow> Some (of_nat t, hi)
         | Char_String _ s \<Rightarrow> Some (chars_sum s, hi)
         | Byte_String _ s \<Rightarrow> Some (chars_sum (map scast s), hi)
         | Unix_Path _ s \<Rightarrow> Some (chars_sum (map scast s), hi)
         | Cpointer _ v off \<Rightarrow> Some (v + off, hi)
         | Flvector _ ds \<Rightarrow> Some (hash_flvector dbl_hash2_val ds 0, hi)
         | Other _ _ \<Rightarrow>
           if t = scheme_pair_type \<or> t = scheme_mutable_pair_type then
             hash2_both (equal_hash_key2 h n) (SCHEME_CAR h ob) (SCHEME_CDR h ob) (deeper hi)
           else if t \<in> {scheme_vector_type, scheme_fxvector_type, scheme_wrap_chunk_type} then
             (if 2 ^ 31 \<le> length (parts h ob) then None
              else hash2_elements (equal_hash_key2 h n) (parts h ob) 0 (deeper hi))
           else if t = scheme_structure_type \<or> t = scheme_proc_struct_type then
             (if has_procs h (struct_type h ob) then None
              else if visible h (struct_type h ob) then hash2_elements (equal_hash_key2 h n) (rev (parts h ob)) 0 (deeper hi)
              else Some (of_nat t, hi))
           else if t = scheme_box_type then equal_hash_key2 h n (SCHEME_PTR_VAL h ob) (deeper hi)
           else if t = scheme_resolved_module_path_type then equal_hash_key2 h n (SCHEME_PTR_VAL h ob) hi
           else if t = scheme_module_index_type then
             hash2_both (equal_hash_key2 h n) (parts h ob ! 0) (parts h ob ! 1) (deeper hi)
           else Some (of_nat t, hi))"

definition scheme_equal_hash_key2 :: "heap \<Rightarrow> nat \<Rightarrow> obj \<Rightarrow> uintptr option" where
  "scheme_equal_hash_key2 h fuel ob =
     map_option fst (equal_hash_key2 h fuel ob \<lparr>hash_depth = 1, hash_flags = (\<lambda>x. 0)\<rparr>)"

definition scheme_eqv_hash_key2 :: "heap \<Rightarrow> (obj \<Rightarrow> uintptr) \<Rightarrow> nat \<Rightarrow> obj \<Rightarrow> uintptr option" where
  "scheme_eqv_hash_key2 h ptr fuel ob =
     (if \<not> SCHEME_INTP ob \<and> (SCHEME_NUMBERP ob \<or> SCHEME_CHARP ob) then scheme_equal_hash_key2 h fuel ob
      else Some (drop_bit 1 (ptr ob)))"

end
