(* ===== verification/Equal_Forest.thy ===== *)
theory Equal_Forest
  imports Equal_Code Hash_Table_Correct
begin

section \<open>The objects assumed equal: union-find over a hash table\<close>

text \<open>
  \<open>union_find\<close> of bool.c keeps parents in a mutable hash table keyed by address. The locale
  \<open>union_table\<close> is what it needs of the table; its interpretation rests on the laws of
  \<^verbatim>\<open>scheme_hash_get\<close> and \<^verbatim>\<open>scheme_hash_set\<close>. Inside the locale the loops end, path compression
  changes no root, and a union joins two classes.
\<close>

subsection \<open>Forests of parents\<close>

text \<open>\<open>root p x r\<close>: the chain of parents from \<open>x\<close> ends at \<open>r\<close>.\<close>

inductive root :: "('k \<Rightarrow> 'k option) \<Rightarrow> 'k \<Rightarrow> 'k \<Rightarrow> bool" for p where
  here: "p x = None \<Longrightarrow> root p x x"
| up: "p x = Some y \<Longrightarrow> root p y r \<Longrightarrow> root p x r"

inductive_cases root_noneE: "root p x r"

definition forest :: "('k \<Rightarrow> 'k option) \<Rightarrow> bool" where
  "forest p \<longleftrightarrow> (\<forall>x. \<exists>r. root p x r)"

lemma root_none [simp]: "p x = None \<Longrightarrow> root p x r \<longleftrightarrow> r = x"
  by (auto elim: root_noneE intro: root.here)

lemma root_some: "p x = Some y \<Longrightarrow> root p x r \<longleftrightarrow> root p y r"
  by (auto elim: root_noneE intro: root.up)

lemma root_unique: "root p x r \<Longrightarrow> root p x r' \<Longrightarrow> r' = r"
  by (induction rule: root.induct) (auto simp: root_some)

lemma root_end: "root p x r \<Longrightarrow> p r = None"
  by (induction rule: root.induct) auto

lemma root_of_root: "root p x r \<Longrightarrow> root p r r"
  by (rule root.here) (rule root_end)

lemma root_closed: "root p x r \<Longrightarrow> x \<in> N \<Longrightarrow> ran p \<subseteq> N \<Longrightarrow> r \<in> N"
  by (induction rule: root.induct) (auto simp: ran_def)

text \<open>The classes of a forest.\<close>

definition joined :: "('k \<Rightarrow> 'k option) \<Rightarrow> ('k \<times> 'k) set" where
  "joined p = {(x, y). \<exists>r. root p x r \<and> root p y r}"

lemma joined_root: "root p x r \<Longrightarrow> (x, r) \<in> joined p"
  unfolding joined_def using root_of_root by fastforce

lemma joined_equiv: "forest p \<Longrightarrow> equiv UNIV (joined p)"
proof (rule equivI)
  assume f: "forest p"
  then show "refl_on UNIV (joined p)" by (auto simp: refl_on_def joined_def forest_def)
  show "sym (joined p)" by (auto simp: sym_def joined_def)
  show "trans (joined p)" unfolding trans_def joined_def by clarsimp (metis root_unique)
qed (simp add: joined_def)

lemma joined_empty: "joined (\<lambda>x. None) = Id"
  by (auto simp: joined_def)

text \<open>Linking a root to another object of the same class, or pointing an object at its root.\<close>

lemma link_root:
  assumes "root p x r" "root p b rb" "root p a ra" "ra \<noteq> rb"
  shows "root (p(rb \<mapsto> ra)) x (if r = rb then ra else r)"
  using assms(1)
proof (induction rule: root.induct)
  case (here x)
  have "root (p(rb \<mapsto> ra)) ra ra" using root_end[OF assms(3)] assms(4) by (intro root.here) simp
  moreover have "(p(rb \<mapsto> ra)) rb = Some ra" by simp
  ultimately have up: "root (p(rb \<mapsto> ra)) rb ra" by (metis root.up)
  have "root (p(rb \<mapsto> ra)) x x" if "x \<noteq> rb" using here that by (intro root.here) simp
  with up show ?case by (cases "x = rb"; simp only: if_True if_False simp_thms)
next
  case (up x y r)
  have "x \<noteq> rb" using up(1) root_end[OF assms(2)] by auto
  then have "(p(rb \<mapsto> ra)) x = Some y" using up(1) by simp
  from this up(3) show ?case by (rule root.up)
qed

lemma compress_root:
  assumes "root p y s" "root p x r" "x \<noteq> r"
  shows "root (p(x \<mapsto> r)) y s"
  using assms(1)
proof (induction rule: root.induct)
  case (here y)
  then have "y \<noteq> x" using assms(2,3) by auto
  with here show ?case by (intro root.here) simp
next
  case (up y z s)
  show ?case
  proof (cases "y = x")
    case True
    have "s = r" using root_unique[OF assms(2)] root.up[OF up(1,2)] True by simp
    moreover have "root (p(x \<mapsto> r)) r r" using root_end[OF assms(2)] assms(3) by (intro root.here) simp
    moreover have "(p(x \<mapsto> r)) y = Some r" using True by simp
    ultimately show ?thesis by (metis root.up)
  next
    case False
    then have "(p(x \<mapsto> r)) y = Some z" using up(1) by simp
    from this up(3) show ?thesis by (rule root.up)
  qed
qed

lemma link_forest:
  assumes "forest p" "root p b rb" "root p a ra" "ra \<noteq> rb"
  shows "forest (p(rb \<mapsto> ra))"
  using link_root[OF _ assms(2-4)] assms(1) unfolding forest_def by blast

lemma link_joined:
  assumes f: "forest p" and r: "root p b rb" "root p a ra" "ra \<noteq> rb"
    and R: "equiv UNIV R" "joined p \<subseteq> R" "(a, b) \<in> R"
  shows "joined (p(rb \<mapsto> ra)) \<subseteq> R" "(a, b) \<in> joined (p(rb \<mapsto> ra))" "joined p \<subseteq> joined (p(rb \<mapsto> ra))"
proof -
  note link = link_root[OF _ r]
  have roots: "\<exists>s. root p x s \<and> root (p(rb \<mapsto> ra)) x (if s = rb then ra else s)" for x
  proof -
    from f obtain s where "root p x s" unfolding forest_def by blast
    from this link[OF this] show ?thesis by (intro exI conjI)
  qed
  have sym: "(y, x) \<in> R" if "(x, y) \<in> R" for x y using R(1) that unfolding equiv_def sym_def by blast
  have tr: "(x, z) \<in> R" if "(x, y) \<in> R" "(y, z) \<in> R" for x y z using R(1) that unfolding equiv_def trans_def by blast
  note up = subsetD[OF R(2) joined_root]
  have ab: "(rb, ra) \<in> R" by (rule tr[OF sym[OF up[OF r(1)]] tr[OF sym[OF R(3)] up[OF r(2)]]])
  show "joined (p(rb \<mapsto> ra)) \<subseteq> R"
  proof (clarsimp simp: joined_def)
    fix x y t assume t: "root (p(rb \<mapsto> ra)) x t" "root (p(rb \<mapsto> ra)) y t"
    from roots[of x] obtain s where s: "root p x s" "root (p(rb \<mapsto> ra)) x (if s = rb then ra else s)" by blast
    from roots[of y] obtain u where u: "root p y u" "root (p(rb \<mapsto> ra)) y (if u = rb then ra else u)" by blast
    have e: "(if s = rb then ra else s) = (if u = rb then ra else u)"
      using root_unique[OF t(1) s(2)] root_unique[OF t(2) u(2)] by simp
    have su: "(s, u) \<in> R"
    proof -
      have "(s, s) \<in> R" using R(1) by (auto simp: equiv_def refl_on_def)
      with e ab sym[OF ab] show ?thesis by (auto split: if_splits)
    qed
    show "(x, y) \<in> R" by (rule tr[OF up[OF s(1)] tr[OF su sym[OF up[OF u(1)]]]])
  qed
  have "root (p(rb \<mapsto> ra)) a ra" "root (p(rb \<mapsto> ra)) b ra"
    using link[OF r(2)] link[OF r(1)] r(3) by simp_all
  then show "(a, b) \<in> joined (p(rb \<mapsto> ra))" by (auto simp: joined_def)
  show "joined p \<subseteq> joined (p(rb \<mapsto> ra))" using link by (fastforce simp: joined_def)
qed

lemma compress_joined:
  assumes f: "forest p" and "root p x r" "x \<noteq> r"
  shows "forest (p(x \<mapsto> r))" "joined (p(x \<mapsto> r)) = joined p"
proof -
  note keep = compress_root[OF _ assms(2,3)]
  show "forest (p(x \<mapsto> r))" using f keep unfolding forest_def by blast
  have iff: "root (p(x \<mapsto> r)) y s \<longleftrightarrow> root p y s" for y s
  proof
    assume a: "root (p(x \<mapsto> r)) y s"
    from f obtain t where t: "root p y t" unfolding forest_def by blast
    from root_unique[OF keep[OF t] a] t show "root p y s" by simp
  qed (rule keep)
  show "joined (p(x \<mapsto> r)) = joined p" by (simp add: joined_def iff)
qed

text \<open>The chain from \<open>x\<close> has \<open>n\<close> further steps up to \<open>b\<close>, the object below the root \<open>r\<close>.\<close>

fun chain :: "('k \<Rightarrow> 'k option) \<Rightarrow> nat \<Rightarrow> 'k \<Rightarrow> 'k \<Rightarrow> 'k \<Rightarrow> bool" where
  "chain p 0 x b r \<longleftrightarrow> x = b \<and> p x = Some r \<and> p r = None"
| "chain p (Suc n) x b r \<longleftrightarrow> (\<exists>y. p x = Some y \<and> chain p n y b r)"

lemma root_chain: "root p x r \<Longrightarrow> p x \<noteq> None \<Longrightarrow> \<exists>n b. chain p n x b r"
proof (induction rule: root.induct)
  case (up x y r)
  show ?case
  proof (cases "p y")
    case None
    with up have "chain p 0 x x r" by simp
    then show ?thesis by blast
  next
    case (Some z)
    with up obtain n b where "chain p n y b r" by auto
    with up(1) have "chain p (Suc n) x b r" by simp
    then show ?thesis by blast
  qed
qed simp

lemma chain_root: "chain p n x b r \<Longrightarrow> root p x r"
  by (induction n arbitrary: x) (auto simp: root_some)

lemma chain_end: "chain p n x b r \<Longrightarrow> p b = Some r \<and> p r = None"
  by (induction n arbitrary: x) auto

lemma chain_unique: "chain p n x b r \<Longrightarrow> chain p m x b' r' \<Longrightarrow> n = m"
proof (induction n arbitrary: x m)
  case 0
  then show ?case by (cases m) (auto dest: chain_root simp: root_some, metis chain.elims(2) option.distinct(1))
next
  case (Suc n)
  then obtain y where y: "p x = Some y" "chain p n y b r" by auto
  show ?case
  proof (cases m)
    case 0
    then have "p y = None" using Suc(3) y(1) by auto
    with y(2) have False by (cases n) auto
    then show ?thesis ..
  next
    case (Suc k)
    then show ?thesis using Suc.prems(2) y Suc.IH[OF y(2)] by auto
  qed
qed

lemma chain_update:
  assumes "chain p n y b r" "\<And>m b' r'. m \<le> n \<Longrightarrow> \<not> chain p m x b' r'" "r \<noteq> x"
  shows "chain (p(x \<mapsto> s)) n y b r"
  using assms
proof (induction n arbitrary: y)
  case 0
  from 0(2)[of 0 b r] 0(1,3) have "y \<noteq> x" by auto
  with 0 show ?case by auto
next
  case (Suc n)
  then obtain z where z: "p y = Some z" "chain p n z b r" by auto
  have "y \<noteq> x" using Suc.prems(2)[of "Suc n" b r] Suc.prems(1) by auto
  moreover have "chain (p(x \<mapsto> s)) n z b r" by (rule Suc.IH[OF z(2)]) (use Suc.prems(2,3) in auto)
  moreover have "(p(x \<mapsto> s)) y = Some z" using z(1) \<open>y \<noteq> x\<close> by simp
  ultimately show ?case unfolding chain.simps by blast
qed

subsection \<open>The operations on the table\<close>

text \<open>A computation with fuel ends with a value if that is its value from some amount of fuel on.\<close>

definition ends :: "(nat \<Rightarrow> 'a option) \<Rightarrow> 'a \<Rightarrow> bool" where
  "ends f r \<longleftrightarrow> (\<exists>K. \<forall>n\<ge>K. f n = Some r)"

lemma endsI: "(\<And>n. K \<le> n \<Longrightarrow> f n = Some r) \<Longrightarrow> ends f r"
  unfolding ends_def by blast

lemma ends_const [simp]: "ends (\<lambda>n. Some r) r"
  by (simp add: ends_def)

lemma ends_bind:
  assumes "ends f r" "ends (g r) s"
  shows "ends (\<lambda>n. case f n of None \<Rightarrow> None | Some r \<Rightarrow> g r n) s"
proof -
  from assms obtain K L where "\<forall>n\<ge>K. f n = Some r" "\<forall>n\<ge>L. g r n = Some s" unfolding ends_def by blast
  then show ?thesis by (intro endsI[of "max K L"]) simp
qed

lemma ends_bind_pair:
  assumes "ends f (a, b)" "ends (g a b) s"
  shows "ends (\<lambda>n. case f n of None \<Rightarrow> None | Some (a, b) \<Rightarrow> g a b n) s"
  using ends_bind[OF assms(1), of "\<lambda>r n. case r of (a, b) \<Rightarrow> g a b n"] assms(2) by simp

lemma ends_map: "ends f r \<Longrightarrow> ends (\<lambda>n. map_option g (f n)) (g r)"
  unfolding ends_def by fastforce

lemma ends_unique: "ends f r \<Longrightarrow> ends f s \<Longrightarrow> r = s"
  unfolding ends_def by (metis max.cobounded1 max.cobounded2 option.inject)

lemma ends_Suc: "ends (\<lambda>n. f (Suc n)) r \<Longrightarrow> ends f r"
proof -
  assume "ends (\<lambda>n. f (Suc n)) r"
  then obtain K where K: "\<forall>n\<ge>K. f (Suc n) = Some r" unfolding ends_def by blast
  show ?thesis
  proof (rule endsI[of "Suc K"])
    fix n assume "Suc K \<le> n"
    then obtain m where "n = Suc m" "K \<le> m" by (cases n) auto
    with K show "f n = Some r" by blast
  qed
qed

definition parent :: "'k table_ops \<Rightarrow> ('k, 'k) hash_table \<Rightarrow> 'k \<Rightarrow> 'k option" where
  "parent ops t k = the (scheme_hash_get ops t k)"

text \<open>\<open>room n t\<close>: the table \<open>t\<close> is in order and takes \<open>n\<close> more keys.\<close>

locale union_table =
  fixes ops :: "'k table_ops" and room :: "nat \<Rightarrow> ('k, 'k) hash_table \<Rightarrow> bool" and limit :: nat
  assumes room_make: "n \<le> limit \<Longrightarrow> room n scheme_make_hash_table"
    and parent_make: "parent ops scheme_make_hash_table k = None"
    and room_get: "room n t \<Longrightarrow> scheme_hash_get ops t k \<noteq> None"
    and room_new: "room (Suc n) t \<Longrightarrow> \<exists>t'. scheme_hash_set ops t k (Some v) = Some t' \<and>
      room n t' \<and> parent ops t' = (parent ops t)(k \<mapsto> v)"
    and room_old: "room n t \<Longrightarrow> parent ops t k \<noteq> None \<Longrightarrow> \<exists>t'. scheme_hash_set ops t k (Some v) = Some t' \<and>
      room n t' \<and> parent ops t' = (parent ops t)(k \<mapsto> v)"
begin

lemma get_parent: "room n t \<Longrightarrow> scheme_hash_get ops t k = Some (parent ops t k)"
  using room_get by (fastforce simp: parent_def)

lemma find_last_ends:
  assumes "room n t"
  shows "parent ops t x = None \<Longrightarrow> ends (\<lambda>k. find_last ops k t x b) (x, b)"
    and "chain (parent ops t) m x b r \<Longrightarrow> ends (\<lambda>k. find_last ops k t x b') (r, b)"
proof -
  show none: "parent ops t x = None \<Longrightarrow> ends (\<lambda>k. find_last ops k t x b) (x, b)" for x b
    by (rule ends_Suc) (simp add: get_parent[OF assms])
  show "chain (parent ops t) m x b r \<Longrightarrow> ends (\<lambda>k. find_last ops k t x b') (r, b)"
  proof (induction m arbitrary: x b')
    case 0
    then have x: "x = b" "parent ops t b = Some r" "parent ops t r = None" by auto
    show ?case by (rule ends_Suc) (use none[OF x(3), of b] x in \<open>simp add: get_parent[OF assms]\<close>)
  next
    case (Suc m)
    then obtain y where y: "parent ops t x = Some y" "chain (parent ops t) m y b r" by auto
    show ?case by (rule ends_Suc) (use Suc.IH[OF y(2), of x] y(1) in \<open>simp add: get_parent[OF assms]\<close>)
  qed
qed

text \<open>The table \<open>t'\<close> has the classes of \<open>t\<close>.\<close>

definition kept :: "('k, 'k) hash_table \<Rightarrow> ('k, 'k) hash_table \<Rightarrow> bool" where
  "kept t t' \<longleftrightarrow> forest (parent ops t') \<and> joined (parent ops t') = joined (parent ops t) \<and>
     dom (parent ops t') = dom (parent ops t) \<and> ran (parent ops t') \<subseteq> ran (parent ops t) \<and>
     (\<forall>x r. root (parent ops t) x r \<longrightarrow> root (parent ops t') x r)"

lemma kept_refl: "forest (parent ops t) \<Longrightarrow> kept t t"
  by (simp add: kept_def)

lemma kept_trans: "kept t t' \<Longrightarrow> kept t' t'' \<Longrightarrow> kept t t''"
  by (simp add: kept_def) blast

lemma point_to_last_ends:
  assumes "chain (parent ops t) m x b r" "room n t" "forest (parent ops t)"
  shows "\<exists>t'. ends (\<lambda>k. point_to_last ops k t x r b) t' \<and> room n t' \<and> kept t t'"
  using assms
proof (induction m arbitrary: x t)
  case 0
  have "ends (\<lambda>k. point_to_last ops k t x r b) t" by (rule ends_Suc) (use 0 in simp)
  with 0 show ?case using kept_refl by blast
next
  case (Suc m)
  let ?p = "parent ops t"
  from Suc.prems obtain y where y: "?p x = Some y" "chain ?p m y b r" by auto
  note last = chain_end[OF y(2)]
  have xr: "r \<noteq> x" using last y(1) by auto
  have xb: "x \<noteq> b" using chain_unique[OF Suc.prems(1), of 0 b r] last by auto
  from room_old[OF Suc.prems(2), of x r] y(1) obtain t1
    where t1: "scheme_hash_set ops t x (Some r) = Some t1" "room n t1" "parent ops t1 = ?p(x \<mapsto> r)" by auto
  note rx = chain_root[OF Suc.prems(1)]
  from compress_joined[OF Suc.prems(3) rx] xr have c: "forest (?p(x \<mapsto> r))" "joined (?p(x \<mapsto> r)) = joined ?p" by simp_all
  have "r \<in> ran ?p" using last by (auto simp: ran_def)
  then have "ran (?p(x \<mapsto> r)) \<subseteq> ran ?p" by (auto simp: ran_def split: if_splits)
  then have k1: "kept t t1" using c y(1) compress_root[OF _ rx] xr by (auto simp: kept_def t1(3))
  have "chain (?p(x \<mapsto> r)) m y b r"
    using chain_unique[OF Suc.prems(1)] by (intro chain_update[OF y(2) _ xr]) fastforce
  then have "chain (parent ops t1) m y b r" unfolding t1(3) .
  moreover have "forest (parent ops t1)" unfolding t1(3) by (rule c(1))
  ultimately obtain t'
    where t': "ends (\<lambda>k. point_to_last ops k t1 y r b) t'" "room n t'" "kept t1 t'" using Suc.IH t1(2) by blast
  have "ends (\<lambda>k. point_to_last ops k t x r b) t'"
    by (rule ends_Suc) (use t'(1) in \<open>simp add: xb get_parent[OF Suc.prems(2)] y(1) t1(1)\<close>)
  with t' kept_trans[OF k1] show ?case by blast
qed

lemma union_find_ends:
  assumes "room n t" "forest (parent ops t)" "root (parent ops t) x r"
  shows "\<exists>t'. ends (\<lambda>k. union_find ops k x t) (r, t') \<and> room n t' \<and> kept t t'"
proof (cases "parent ops t x")
  case None
  with assms(3) have "r = x" by simp
  have "ends (\<lambda>k. point_to_last ops k t x x x) t" by (rule ends_Suc) simp
  from ends_bind_pair[where g = "\<lambda>a b n. map_option (\<lambda>ht. (a, ht)) (point_to_last ops n t x a b)", OF find_last_ends(1)[OF assms(1) None, of x] ends_map[OF this, of "\<lambda>ht. (x, ht)"]]
  have "ends (\<lambda>k. union_find ops k x t) (r, t)" unfolding \<open>r = x\<close> by (simp add: union_find_def)
  with assms kept_refl show ?thesis by blast
next
  case (Some y)
  with root_chain[OF assms(3)] obtain m b where c: "chain (parent ops t) m x b r" by auto
  from point_to_last_ends[OF c assms(1,2)] obtain t'
    where t': "ends (\<lambda>k. point_to_last ops k t x r b) t'" "room n t'" "kept t t'" by blast
  from ends_bind_pair[where g = "\<lambda>a b n. map_option (\<lambda>ht. (a, ht)) (point_to_last ops n t x a b)", OF find_last_ends(2)[OF assms(1) c, of x] ends_map[OF t'(1), of "\<lambda>ht. (r, ht)"]]
  have "ends (\<lambda>k. union_find ops k x t) (r, t')" by (simp add: union_find_def)
  with t' show ?thesis by blast
qed

end

subsection \<open>Tables keyed by address\<close>

lemma address_same [simp]: "tab_same (address_ops ptr) = (=)"
  by (simp add: address_ops_def)

lemma count_card:
  assumes "table_ok (address_ops ptr) t"
  shows "finite {k. \<exists>v. holds (address_ops ptr) t k v}"
    and "tab_count t = card {k. \<exists>v. holds (address_ops ptr) t k v}"
proof -
  let ?I = "{i. i < length (tab_keys t) \<and> is_key (tab_keys t ! i)}"
  have ok: "inj_on (\<lambda>i. cell_key (tab_keys t ! i)) ?I \<and> tab_count t = card ?I \<and>
      (\<forall>i < length (tab_keys t). tab_vals t ! i \<noteq> None \<longleftrightarrow> is_key (tab_keys t ! i))"
  proof (cases "tab_vals t = []")
    case True
    with assms show ?thesis by (simp add: table_ok_def)
  next
    case False
    note d = address_table.table_okD[OF assms False]
    have "inj_on (\<lambda>i. cell_key (tab_keys t ! i)) ?I"
    proof (rule inj_onI)
      fix i j assume ij: "i \<in> ?I" "j \<in> ?I" "cell_key (tab_keys t ! i) = cell_key (tab_keys t ! j)"
      then obtain k k' where "tab_keys t ! i = Key k" "tab_keys t ! j = Key k'" by (auto elim!: is_keyE)
      with ij d(1) show "i = j" unfolding arrays_ok_def by auto
    qed
    with d(1,3) show ?thesis by (simp add: length_filter_conv_card arrays_ok_def)
  qed
  have image: "{k. \<exists>v. holds (address_ops ptr) t k v} = (\<lambda>i. cell_key (tab_keys t ! i)) ` ?I"
  proof (intro set_eqI iffI)
    fix k assume "k \<in> (\<lambda>i. cell_key (tab_keys t ! i)) ` ?I"
    then obtain i where i: "i < length (tab_keys t)" "is_key (tab_keys t ! i)" "k = cell_key (tab_keys t ! i)" by blast
    then have "tab_keys t ! i = Key k" by (cases "tab_keys t ! i") auto
    moreover have "tab_vals t ! i \<noteq> None" using ok i by blast
    ultimately show "k \<in> {k. \<exists>v. holds (address_ops ptr) t k v}" using i(1) by (auto simp: holds_def)
  qed (force simp: holds_def)
  show "finite {k. \<exists>v. holds (address_ops ptr) t k v}" unfolding image by simp
  show "tab_count t = card {k. \<exists>v. holds (address_ops ptr) t k v}"
    unfolding image using ok by (simp add: card_image)
qed

definition table_room :: "('k \<Rightarrow> uintptr) \<Rightarrow> nat \<Rightarrow> ('k, 'k) hash_table \<Rightarrow> bool" where
  "table_room ptr n t \<longleftrightarrow> table_ok (address_ops ptr) t \<and> 5 * tab_size t \<le> 28 * tab_count t + 40 \<and>
     tab_count t + n \<le> 2 ^ 27"

lemma table_room_set:
  assumes "table_room ptr n t"
  shows "\<exists>t' m. scheme_hash_set (address_ops ptr) t k (Some v) = Some t' \<and> table_ok (address_ops ptr) t' \<and>
    parent (address_ops ptr) t' = (parent (address_ops ptr) t)(k \<mapsto> v) \<and>
    5 * tab_size t' \<le> 28 * tab_count t' + 40 \<and>
    tab_count t' = (if parent (address_ops ptr) t k = None then Suc (tab_count t) else tab_count t)"
proof -
  let ?o = "address_ops ptr" and ?H = "{k. \<exists>v. holds (address_ops ptr) t k v}"
  from assms have ok: "table_ok ?o t" and size: "5 * tab_size t \<le> 28 * tab_count t + 40" "tab_count t \<le> 2 ^ 27"
    by (auto simp: table_room_def)
  have "tab_size t < 2 ^ 30" using size by simp
  from address_table.scheme_hash_set_updated[OF ok this, of k "Some v"] obtain t'
    where t': "scheme_hash_set ?o t k (Some v) = Some t'" "address_table.updated ptr t k (Some v) t'"
      "if tab_vals t = [] then tab_size t' = 8 else address_table.grown t t'" by blast
  then have tok: "table_ok ?o t'" and same: "\<And>k' w. holds ?o t' k' w \<longleftrightarrow> (if k = k' then v = w else holds ?o t k' w)"
    by (auto simp: address_table.updated_def)
  have get: "parent ?o s k' = Some w \<longleftrightarrow> holds ?o s k' w" if "table_ok ?o s" for s :: "('a, 'a) hash_table" and k' w
  proof -
    from address_table.scheme_hash_get_holds[OF that, of k'] obtain r
      where "scheme_hash_get ?o s k' = Some r" "\<forall>v. r = Some v \<longleftrightarrow> holds ?o s k' v" by blast
    then show ?thesis by (simp only: parent_def option.sel)
  qed
  have "parent ?o t' k' = ((parent ?o t)(k \<mapsto> v)) k'" for k'
  proof -
    have "parent ?o t' k' = Some w \<longleftrightarrow> ((parent ?o t)(k \<mapsto> v)) k' = Some w" for w
      using get[OF tok, of k' w] get[OF ok, of k' w] same[of k' w] by auto
    then show ?thesis by (metis not_Some_eq)
  qed
  then have p: "parent ?o t' = (parent ?o t)(k \<mapsto> v)" by blast
  have "{k. \<exists>v. holds ?o t' k v} = insert k ?H" using same by auto
  with count_card[OF ok] count_card[OF tok] have "tab_count t' = (if k \<in> ?H then tab_count t else Suc (tab_count t))"
    by (simp add: insert_absorb)
  moreover have "k \<in> ?H \<longleftrightarrow> parent ?o t k \<noteq> None" using get[OF ok] by auto
  ultimately have c: "tab_count t' = (if parent ?o t k = None then Suc (tab_count t) else tab_count t)" by auto
  have "5 * tab_size t' \<le> 28 * tab_count t' + 40"
  proof (cases "tab_vals t = []")
    case False
    with t'(3) have "tab_size t' = tab_size t \<or> needs_rehash t \<and> tab_size t' = grown_size t"
      by (simp add: address_table.grown_def)
    with size(1) c show ?thesis by (auto simp: needs_rehash_def grown_size_def split: if_splits)
  qed (use t'(3) in simp)
  with t'(1) tok p c show ?thesis by blast
qed

interpretation address_forest: union_table "address_ops ptr" "table_room ptr" "2 ^ 27" for ptr
proof
  show "table_room ptr n scheme_make_hash_table" if "n \<le> 2 ^ 27" for n
    using that by (simp add: table_room_def table_ok_make) (simp add: scheme_make_hash_table_def)
  show "parent (address_ops ptr) scheme_make_hash_table k = None" for k
    by (simp add: parent_def scheme_hash_get_def scheme_make_hash_table_def)
  show "scheme_hash_get (address_ops ptr) t k \<noteq> None" if "table_room ptr n t" for n t k
    using that address_table.scheme_hash_get_holds[of ptr t k] by (auto simp: table_room_def)
  show "\<exists>t'. scheme_hash_set (address_ops ptr) t k (Some v) = Some t' \<and> table_room ptr n t' \<and>
      parent (address_ops ptr) t' = (parent (address_ops ptr) t)(k \<mapsto> v)" if "table_room ptr (Suc n) t" for n t k v
    using table_room_set[OF that, of k v] that by (auto simp: table_room_def)
  show "\<exists>t'. scheme_hash_set (address_ops ptr) t k (Some v) = Some t' \<and> table_room ptr n t' \<and>
      parent (address_ops ptr) t' = (parent (address_ops ptr) t)(k \<mapsto> v)"
    if "table_room ptr n t" "parent (address_ops ptr) t k \<noteq> None" for n t k v
    using table_room_set[OF that(1), of k v] that by (auto simp: table_room_def)
qed

end
