(* ===== verification/Equal_Data.thy ===== *)
theory Equal_Data
  imports Equal_Forest Hash_Keys
begin

unbundle bit_operations_syntax

section \<open>What \<open>equal?\<close> means on data\<close>

text \<open>
  The abstract relation \<open>same_data\<close>: two objects are the same data if no finite inspection tells
  them apart, so cyclic data is compared by its infinite unfolding. \<open>local_eq\<close> is one step of it, and
  \<open>same_by_relation\<close> the proof rule for a relation closed up to the equivalence it generates. The
  second half is \<open>scheme_is_list\<close>, whose answers do not depend on which flags are cached.
\<close>

subsection \<open>Objects without parts\<close>

datatype content = Eqv_Content obj_view | Chars "u32 list" | Bytes "u8 list" | Path "u8 list" | Pointer uintptr
  | Flonums "uintptr option list"

definition dbl_content :: "uintptr \<Rightarrow> uintptr option" where
  "dbl_content d = (if MZ_IS_NAN d then None else Some d)"

fun content_of :: "obj \<Rightarrow> content" where
  "content_of (Char_String _ s) = Chars s"
| "content_of (Byte_String _ s) = Bytes s"
| "content_of (Unix_Path _ s) = Path s"
| "content_of (Cpointer _ v f) = Pointer (v + f)"
| "content_of (Flvector _ ds) = Flonums (map dbl_content ds)"
| "content_of ob = Eqv_Content (eqv_obj ob)"

lemma flvector_content:
  "length xs = length ys \<Longrightarrow> flvector_eqv xs ys \<longleftrightarrow> map dbl_content xs = map dbl_content ys"
  by (induction xs ys rule: list_induct2) (auto simp: double_eqv_iff dbl_content_def)

lemma flonums_content:
  "(if length xs = length ys then of_bool (flvector_eqv xs ys) else 0) =
   (of_bool (map dbl_content xs = map dbl_content ys) :: int)"
  using flvector_content[of xs ys] map_eq_imp_length_eq[of dbl_content xs dbl_content ys] by auto

text \<open>\<open>is_fast_equal\<close> where \<open>is_eqv\<close> is undecided.\<close>

lemma fast_undecided_eqv:
  assumes "\<not> is_eqv a b > -1"
  shows "is_fast_equal a b False =
    (case (a, b) of
       (Flvector _ _, Flvector _ _) \<Rightarrow> of_bool (content_of a = content_of b)
     | (Byte_String _ _, Byte_String _ _) \<Rightarrow> of_bool (content_of a = content_of b)
     | (Unix_Path _ _, Unix_Path _ _) \<Rightarrow> of_bool (content_of a = content_of b)
     | (Char_String _ _, Char_String _ _) \<Rightarrow> of_bool (content_of a = content_of b)
     | (Cpointer _ _ _, Cpointer _ _ _) \<Rightarrow> of_bool (content_of a = content_of b)
     | _ \<Rightarrow> -1)"
proof -
  have "is_fast_equal a b False = (case (a, b) of
           (Flvector _ l1, Flvector _ l2) \<Rightarrow>
             (if length l1 = length l2 then of_bool (flvector_eqv l1 l2) else 0)
         | (Byte_String _ s1, Byte_String _ s2) \<Rightarrow> of_bool (length s1 = length s2 \<and> s1 = s2)
         | (Unix_Path _ s1, Unix_Path _ s2) \<Rightarrow> of_bool (length s1 = length s2 \<and> s1 = s2)
         | (Char_String _ s1, Char_String _ s2) \<Rightarrow> of_bool (length s1 = length s2 \<and> s1 = s2)
         | (Cpointer _ v1 o1, Cpointer _ v2 o2) \<Rightarrow> of_bool (v1 + o1 = v2 + o2)
         | _ \<Rightarrow> -1)"
    using assms unfolding is_fast_equal_def Let_def by (simp only: if_False)
  then show ?thesis by (cases a; cases b) (auto simp: flonums_content)
qed

lemma eqv_decides:
  "is_eqv a b > -1 \<Longrightarrow> is_eqv a b \<in> {0, 1}"
  by (auto simp: is_eqv_def is_eqv_real_def split: obj.splits real_obj.splits int_obj.splits if_splits)

text \<open>The objects with parts that \<open>equal?\<close> visits.\<close>

definition compound :: "obj \<Rightarrow> bool" where
  "compound ob \<longleftrightarrow> scheme_type ob \<in> {scheme_proc_struct_type, scheme_structure_type, scheme_pair_type,
     scheme_mutable_pair_type, scheme_vector_type, scheme_fxvector_type, scheme_box_type,
     scheme_module_index_type, scheme_wrap_chunk_type, scheme_resolved_module_path_type}"

lemma compound_other: "compound ob \<Longrightarrow> \<exists>t hdr. ob = Other t hdr"
proof (cases ob)
  case (Real r)
  moreover assume "compound ob"
  ultimately have False by (cases r) (auto simp: compound_def elim: int_type.elims)
  then show ?thesis ..
qed (auto simp: compound_def)

lemma fast_other: "is_fast_equal (Other t hdr) ob False = (if ob = Other t hdr then 1 else -1)"
  by (auto simp: is_fast_equal_def is_eqv_def)

lemma content_compound: "compound a \<Longrightarrow> content_of a = content_of b \<Longrightarrow> b = a"
proof -
  assume "compound a" "content_of a = content_of b"
  moreover from compound_other[OF this(1)] obtain t hdr where "a = Other t hdr" by blast
  ultimately show "b = a" by (cases b) auto
qed

lemma content_compound_right: "compound b \<Longrightarrow> content_of a = content_of b \<Longrightarrow> b = a"
  using content_compound[of b a] by simp

lemma eqv_content:
  assumes "is_eqv a b > -1"
  shows "(is_eqv a b = 1 \<longleftrightarrow> content_of a = content_of b) \<and> (is_eqv a b = 0 \<longrightarrow> \<not> compound a)"
proof -
  have one: "is_eqv a b = 1 \<longleftrightarrow> eqv_obj a = eqv_obj b"
    using scheme_eqv_iff[of a b] eqv_decides[OF assms] by (auto simp: scheme_eqv_def)
  have "content_of a = content_of b \<longleftrightarrow> eqv_obj a = eqv_obj b"
    using assms by (cases a; cases b) (auto simp: is_eqv_def split: if_splits)
  moreover have "is_eqv a b = 0 \<Longrightarrow> \<not> compound a"
  proof
    assume "is_eqv a b = 0" "compound a"
    with compound_other[OF this(2)] show False by (auto simp: is_eqv_def split: if_splits)
  qed
  ultimately show ?thesis using one by blast
qed

lemma fast_decides:
  assumes "is_fast_equal a b False > -1"
  shows "(is_fast_equal a b False \<noteq> 0 \<longleftrightarrow> content_of a = content_of b) \<and>
    (is_fast_equal a b False = 0 \<longrightarrow> \<not> compound a)"
proof (cases "is_eqv a b > -1")
  case True
  then have "is_fast_equal a b False = is_eqv a b" by (simp add: is_fast_equal_def)
  with eqv_content[OF True] eqv_decides[OF True] show ?thesis by auto
next
  case False
  with assms show ?thesis
    by (cases a; cases b) (simp_all add: fast_undecided_eqv compound_def)
qed

lemma fast_undecided:
  assumes "\<not> is_fast_equal a b False > -1"
  shows "content_of a \<noteq> content_of b"
proof
  assume c: "content_of a = content_of b"
  have "\<not> is_eqv a b > -1" using assms by (auto simp: is_fast_equal_def)
  then have "eqv_obj a \<noteq> eqv_obj b" using scheme_eqv_iff[of a b] by (simp add: scheme_eqv_def)
  with c assms \<open>\<not> is_eqv a b > -1\<close> show False
    by (cases a; cases b) (simp_all add: fast_undecided_eqv)
qed

subsection \<open>The same data\<close>

definition is_struct :: "obj \<Rightarrow> bool" where
  "is_struct ob \<longleftrightarrow> scheme_type ob \<in> {scheme_proc_struct_type, scheme_structure_type}"

text \<open>Two objects of one type, with the same structure type seen by the inspector for structures.\<close>

definition same_shape :: "heap \<Rightarrow> obj \<Rightarrow> obj \<Rightarrow> bool" where
  "same_shape h a b \<longleftrightarrow> compound a \<and> scheme_type a = scheme_type b \<and>
     (is_struct a \<longrightarrow> struct_type h a = struct_type h b \<and> visible h (struct_type h a))"

coinductive same_data :: "heap \<Rightarrow> obj \<Rightarrow> obj \<Rightarrow> bool" for h where
  same_content: "content_of a = content_of b \<Longrightarrow> same_data h a b"
| same_parts: "same_shape h a b \<Longrightarrow> list_all2 (same_data h) (parts h a) (parts h b) \<Longrightarrow> same_data h a b"

definition local_eq :: "heap \<Rightarrow> (obj \<times> obj) set \<Rightarrow> obj \<Rightarrow> obj \<Rightarrow> bool" where
  "local_eq h R a b \<longleftrightarrow> content_of a = content_of b \<or>
     same_shape h a b \<and> list_all2 (\<lambda>x y. (x, y) \<in> R) (parts h a) (parts h b)"

definition same_set :: "heap \<Rightarrow> (obj \<times> obj) set" where
  "same_set h = {(a, b). same_data h a b}"

lemma same_local: "same_data h a b \<longleftrightarrow> local_eq h (same_set h) a b"
  unfolding same_data.simps[of h a b] local_eq_def same_set_def by simp

lemma local_mono: "local_eq h R a b \<Longrightarrow> R \<subseteq> S \<Longrightarrow> local_eq h S a b"
  unfolding local_eq_def by (auto elim: list_all2_mono)

lemma same_coinduct:
  assumes "\<And>a b. (a, b) \<in> R \<Longrightarrow> local_eq h R a b"
  shows "R \<subseteq> same_set h"
proof -
  have "same_data h a b" if "(a, b) \<in> R" for a b
    using that
  proof (coinduction arbitrary: a b)
    case same_data
    from assms[OF this] show ?case unfolding local_eq_def by (auto elim: list_all2_mono)
  qed
  then show ?thesis by (auto simp: same_set_def)
qed

text \<open>The equivalence that a relation generates.\<close>

definition cl :: "('a \<times> 'a) set \<Rightarrow> ('a \<times> 'a) set" where
  "cl R = (R \<union> R\<inverse>)\<^sup>*"

lemma cl_equiv: "equiv UNIV (cl R)"
  unfolding cl_def equiv_def
  by (auto intro!: refl_rtrancl trans_rtrancl sym_rtrancl simp: sym_Un_converse refl_on_def)

lemma cl_base: "R \<subseteq> cl R"
  by (auto simp: cl_def)

lemma cl_least:
  assumes "equiv UNIV S" "R \<subseteq> S"
  shows "cl R \<subseteq> S"
proof -
  have "sym S" "trans S" "Id \<subseteq> S" using assms(1) by (auto simp: equiv_def refl_on_def)
  have sub: "R \<union> R\<inverse> \<subseteq> S" using assms(2) \<open>sym S\<close> by (auto simp: sym_def)
  have "(x, y) \<in> S" if "(x, y) \<in> (R \<union> R\<inverse>)\<^sup>*" for x y
    using that
  proof (induction rule: rtrancl_induct)
    case base
    then show ?case using \<open>Id \<subseteq> S\<close> by auto
  next
    case (step y z)
    then have "(x, y) \<in> S" "(y, z) \<in> S" using sub by blast+
    with \<open>trans S\<close> show ?case by (meson transD)
  qed
  then show ?thesis unfolding cl_def by auto
qed

lemma cl_mono: "R \<subseteq> S \<Longrightarrow> cl R \<subseteq> cl S"
  by (rule cl_least[OF cl_equiv]) (use cl_base in blast)

lemma cl_cut: "R \<subseteq> cl S \<Longrightarrow> cl R \<subseteq> cl S"
  by (rule cl_least[OF cl_equiv])

lemma same_shape_sym: "same_shape h a b \<Longrightarrow> same_shape h b a"
  by (auto simp: same_shape_def compound_def is_struct_def)

lemma same_shape_trans: "same_shape h a b \<Longrightarrow> same_shape h b c \<Longrightarrow> same_shape h a c"
  by (auto simp: same_shape_def is_struct_def)

lemma local_equiv:
  assumes "equiv UNIV R"
  shows "equiv UNIV {(a, b). local_eq h R a b}"
proof (rule equivI)
  have rs: "sym R" "trans R" using assms by (auto simp: equiv_def)
  show "refl_on UNIV {(a, b). local_eq h R a b}" by (auto simp: refl_on_def local_eq_def)
  show "sym {(a, b). local_eq h R a b}"
  proof (rule symI, clarsimp)
    fix a b assume "local_eq h R a b"
    moreover have "list_all2 (\<lambda>x y. (x, y) \<in> R) (parts h b) (parts h a)"
      if "list_all2 (\<lambda>x y. (x, y) \<in> R) (parts h a) (parts h b)"
      using that rs(1) by (auto simp: list_all2_conv_all_nth dest: symD)
    ultimately show "local_eq h R b a" unfolding local_eq_def using same_shape_sym by auto
  qed
  show "trans {(a, b). local_eq h R a b}"
  proof (rule transI, clarsimp)
    fix a b c assume ab: "local_eq h R a b" and bc: "local_eq h R b c"
    have "list_all2 (\<lambda>x y. (x, y) \<in> R) (parts h a) (parts h c)"
      if "list_all2 (\<lambda>x y. (x, y) \<in> R) (parts h a) (parts h b)"
        "list_all2 (\<lambda>x y. (x, y) \<in> R) (parts h b) (parts h c)"
      by (rule list_all2_trans[OF _ that]) (rule transD[OF rs(2)])
    moreover have "b = a" if "content_of a = content_of b" "same_shape h b c"
      using that content_compound_right[of b a] by (simp add: same_shape_def)
    moreover have "c = b" if "content_of b = content_of c" "same_shape h a b"
      using content_compound[OF _ that(1)] same_shape_sym[OF that(2)] by (simp add: same_shape_def)
    ultimately show "local_eq h R a c"
      using ab bc same_shape_trans[of h a b c] unfolding local_eq_def by auto
  qed
qed simp

text \<open>If the pairs of \<open>W\<close> agree up to the equivalence that \<open>W\<close> and pairs of the same data generate, then
  all of it is pairs of the same data.\<close>

lemma same_by_relation:
  assumes "E \<subseteq> same_set h" "\<And>a b. (a, b) \<in> W \<Longrightarrow> local_eq h (cl (E \<union> W)) a b"
  shows "cl (E \<union> W) \<subseteq> same_set h"
proof -
  let ?R = "cl (same_set h \<union> W)"
  have "same_set h \<union> W \<subseteq> {(a, b). local_eq h ?R a b}"
  proof clarify
    fix a b assume "(a, b) \<in> same_set h \<union> W"
    then show "local_eq h ?R a b"
    proof
      assume "(a, b) \<in> same_set h"
      then have "same_data h a b" by (simp add: same_set_def)
      then have "local_eq h (same_set h) a b" by (simp only: same_local)
      then show ?thesis by (rule local_mono) (use cl_base in blast)
    next
      assume "(a, b) \<in> W"
      from assms(2)[OF this] show ?thesis by (rule local_mono) (rule cl_mono, use assms(1) in blast)
    qed
  qed
  from cl_least[OF local_equiv[OF cl_equiv] this] have "?R \<subseteq> same_set h" by (intro same_coinduct) auto
  moreover have "cl (E \<union> W) \<subseteq> ?R" by (rule cl_mono) (use assms(1) in blast)
  ultimately show ?thesis by blast
qed

lemma same_equiv: "equiv UNIV (same_set h)"
proof -
  from same_by_relation[of "same_set h" h "{}"] cl_base[of "same_set h"]
  have "cl (same_set h) = same_set h" by auto
  with cl_equiv[of "same_set h"] show ?thesis by simp
qed

lemma same_data_refl: "same_data h a a"
  by (rule same_data.same_content) simp

lemma same_data_sym: "same_data h a b \<Longrightarrow> same_data h b a"
  using same_equiv[of h] by (auto simp: equiv_def sym_def same_set_def)

lemma same_data_trans: "same_data h a b \<Longrightarrow> same_data h b c \<Longrightarrow> same_data h a c"
  using same_equiv[of h] unfolding equiv_def trans_def same_set_def by blast

subsection \<open>Lists and their flags\<close>

inductive proper_list :: "heap \<Rightarrow> obj \<Rightarrow> bool" for h where
  null: "SCHEME_NULLP ob \<Longrightarrow> proper_list h ob"
| pair: "SCHEME_PAIRP ob \<Longrightarrow> proper_list h (SCHEME_CDR h ob) \<Longrightarrow> proper_list h ob"

inductive_cases proper_listE: "proper_list h ob"

lemma null_not_pair: "SCHEME_NULLP ob \<Longrightarrow> \<not> SCHEME_PAIRP ob"
  by (simp add: SCHEME_NULLP_def SCHEME_PAIRP_def)

lemma proper_list_simps:
  "SCHEME_PAIRP ob \<Longrightarrow> proper_list h ob \<longleftrightarrow> proper_list h (SCHEME_CDR h ob)"
  "\<not> SCHEME_PAIRP ob \<Longrightarrow> proper_list h ob \<longleftrightarrow> SCHEME_NULLP ob"
  using null_not_pair by (auto elim: proper_listE intro: proper_list.intros)

text \<open>A walk along the \<^verbatim>\<open>cdr\<close> fields from \<open>ob\<close> meets an object that is no pair, or a flag, after \<open>m\<close> steps.\<close>

fun cdrs_stop :: "heap \<Rightarrow> list_flags \<Rightarrow> nat \<Rightarrow> obj \<Rightarrow> bool" where
  "cdrs_stop h flags 0 ob \<longleftrightarrow> \<not> SCHEME_PAIRP ob \<or> flags ob AND 3 \<noteq> 0"
| "cdrs_stop h flags (Suc m) ob \<longleftrightarrow> cdrs_stop h flags m (SCHEME_CDR h ob)"

text \<open>The cached flags are right, and one is on every cycle of pairs (the reader sets it).\<close>

definition flags_ok :: "heap \<Rightarrow> obj set \<Rightarrow> list_flags \<Rightarrow> bool" where
  "flags_ok h N flags \<longleftrightarrow> (\<forall>x\<in>N. SCHEME_PAIRP x \<longrightarrow>
     (flags x AND 3 \<noteq> 0 \<longrightarrow> (flags x AND 1 \<noteq> 0 \<longleftrightarrow> proper_list h x)) \<and> (\<exists>m. cdrs_stop h flags m x))"

lemma odd_or: "odd (f OR (g AND 3)) \<longleftrightarrow> odd f \<or> odd g" for f g :: u16
  by (simp only: bit_0[symmetric] bit_or_iff bit_and_iff) (simp add: bit_0)

lemma flag_bits:
  fixes f g :: u16
  shows "f AND 1 \<noteq> 0 \<longleftrightarrow> odd f" "(f OR (g AND 3)) AND 1 \<noteq> 0 \<longleftrightarrow> odd f \<or> odd g"
    "g AND 3 \<noteq> 0 \<Longrightarrow> (f OR (g AND 3)) AND 3 \<noteq> 0" "f AND 3 \<noteq> 0 \<Longrightarrow> (f OR (g AND 3)) AND 3 \<noteq> 0"
    "f AND 3 = 0 \<Longrightarrow> even f"
proof -
  show "f AND 3 = 0 \<Longrightarrow> even f" using even_and_iff[of f 3] by simp
  have one: "f AND 1 \<noteq> 0 \<longleftrightarrow> odd f" for f :: u16 by (simp add: and_one_eq odd_iff_mod_2_eq_one)
  then show "f AND 1 \<noteq> 0 \<longleftrightarrow> odd f" .
  show "(f OR (g AND 3)) AND 1 \<noteq> 0 \<longleftrightarrow> odd f \<or> odd g" unfolding one by (rule odd_or)
  have d: "(f OR (g AND 3)) AND 3 = (f AND 3) OR (g AND 3)"
    by (simp add: bit_eq_iff bit_and_iff bit_or_iff) blast
  show "g AND 3 \<noteq> 0 \<Longrightarrow> (f OR (g AND 3)) AND 3 \<noteq> 0" "f AND 3 \<noteq> 0 \<Longrightarrow> (f OR (g AND 3)) AND 3 \<noteq> 0"
    unfolding d by (auto simp: or_eq_0_iff)
qed

text \<open>\<open>ahead h x y\<close>: \<open>y\<close> is reached from \<open>x\<close> along \<^verbatim>\<open>cdr\<close> fields of pairs.\<close>

inductive ahead :: "heap \<Rightarrow> obj \<Rightarrow> obj \<Rightarrow> bool" for h where
  here: "ahead h x x"
| along: "SCHEME_PAIRP x \<Longrightarrow> ahead h (SCHEME_CDR h x) y \<Longrightarrow> ahead h x y"

lemma ahead_next: "ahead h x y \<Longrightarrow> SCHEME_PAIRP y \<Longrightarrow> ahead h x (SCHEME_CDR h y)"
  by (induction rule: ahead.induct) (auto intro: ahead.intros)

lemma ahead_step: "ahead h x y \<Longrightarrow> SCHEME_PAIRP y \<Longrightarrow> ahead h (SCHEME_CDR h x) (SCHEME_CDR h y)"
  by (induction rule: ahead.cases) (auto intro: ahead.intros ahead_next)

lemma ahead_pair: "ahead h x y \<Longrightarrow> SCHEME_PAIRP y \<Longrightarrow> SCHEME_PAIRP x"
  by (induction rule: ahead.cases) auto

lemma ahead_proper: "ahead h x y \<Longrightarrow> proper_list h x \<longleftrightarrow> proper_list h y"
  by (induction rule: ahead.induct) (auto simp: proper_list_simps)

lemma is_list_loop_ends:
  assumes closed: "\<And>x. x \<in> N \<Longrightarrow> SCHEME_PAIRP x \<Longrightarrow> SCHEME_CDR h x \<in> N" and ok: "flags_ok h N flags"
    and "cdrs_stop h flags m (SCHEME_CDR h x)" "x \<in> N" "y \<in> N" "SCHEME_PAIRP x" "ahead h y x"
  shows "\<exists>f z. (\<forall>n>m. is_list_loop h flags n x y = Some (f, z)) \<and> f AND 3 \<noteq> 0 \<and>
    (f AND 1 \<noteq> 0 \<longleftrightarrow> proper_list h x) \<and> z \<in> N \<and> SCHEME_PAIRP z \<and> (proper_list h z \<longleftrightarrow> proper_list h x)"
  using assms(3-)
proof (induction m arbitrary: x y rule: less_induct)
  case (less m)
  let ?a = "SCHEME_CDR h x" and ?b = "SCHEME_CDR h (SCHEME_CDR h x)"
  have aN: "?a \<in> N" using closed less.prems by blast
  have y: "SCHEME_PAIRP y" "proper_list h y \<longleftrightarrow> proper_list h x"
    using ahead_pair ahead_proper less.prems by blast+
  have flagged: "flags z AND 3 \<noteq> 0 \<Longrightarrow> z \<in> N \<Longrightarrow> SCHEME_PAIRP z \<Longrightarrow> flags z AND 1 \<noteq> 0 \<longleftrightarrow> proper_list h z" for z
    using ok by (simp add: flags_ok_def)
  have xa: "proper_list h x \<longleftrightarrow> proper_list h ?a" using less.prems proper_list_simps by blast
  have stop: ?case if "\<And>n. is_list_loop h flags (Suc n) x y = Some (f, y)" "f AND 3 \<noteq> 0"
    "f AND 1 \<noteq> 0 \<longleftrightarrow> proper_list h x" for f
  proof -
    have "is_list_loop h flags n x y = Some (f, y)" if "n > m" for n
      using that \<open>\<And>n. is_list_loop h flags (Suc n) x y = Some (f, y)\<close> by (cases n) auto
    with that(2,3) y less.prems(3) show ?thesis by blast
  qed
  consider "SCHEME_NULLP ?a" | "\<not> SCHEME_NULLP ?a" "\<not> SCHEME_PAIRP ?a" | "SCHEME_PAIRP ?a" "flags ?a AND 3 \<noteq> 0"
    | "SCHEME_PAIRP ?a" "flags ?a AND 3 = 0" by blast
  then show ?case
  proof cases
    case 1
    with xa show ?thesis by (intro stop[of 1]) (auto intro: proper_list.intros)
  next
    case 2
    with xa show ?thesis by (intro stop[of 2]) (auto simp: proper_list_simps)
  next
    case 3
    then have "\<not> SCHEME_NULLP ?a" using null_not_pair by blast
    with 3 xa flagged[OF 3(2) aN 3(1)] show ?thesis by (intro stop[of "flags ?a"]) (simp_all add: Let_def)
  next
    case 4
    then have na: "\<not> SCHEME_NULLP ?a" using null_not_pair by blast
    have bN: "?b \<in> N" using closed aN 4 by blast
    have ab: "proper_list h ?a \<longleftrightarrow> proper_list h ?b" using 4 proper_list_simps by blast
    from less.prems(1) 4 obtain k where k: "m = Suc k" "cdrs_stop h flags k ?b" by (cases m) auto
    consider "SCHEME_NULLP ?b" | "\<not> SCHEME_NULLP ?b" "\<not> SCHEME_PAIRP ?b" | "SCHEME_PAIRP ?b" "flags ?b AND 3 \<noteq> 0"
      | "SCHEME_PAIRP ?b" "flags ?b AND 3 = 0" by blast
    then show ?thesis
    proof cases
      case 1
      with xa ab 4 na show ?thesis by (intro stop[of 1]) (auto intro: proper_list.intros)
    next
      case 2
      with xa ab 4 na show ?thesis by (intro stop[of 2]) (auto simp: proper_list_simps)
    next
      case 3
      then have "\<not> SCHEME_NULLP ?b" using null_not_pair by blast
      with 3 xa ab 4 na flagged[OF 3(2) bN 3(1)] show ?thesis by (intro stop[of "flags ?b"]) (simp_all add: Let_def)
    next
      case b: 4
      then have nb: "\<not> SCHEME_NULLP ?b" using null_not_pair by blast
      from k b obtain j where j: "k = Suc j" "cdrs_stop h flags j (SCHEME_CDR h ?b)" by (cases k) auto
      have ah: "ahead h (SCHEME_CDR h y) ?b"
        using ahead_next[OF ahead_step[OF less.prems(5,4)] 4(1)] .
      have "SCHEME_CDR h y \<in> N" using closed less.prems(3) y(1) by blast
      from less.IH[OF _ j(2) bN this b(1) ah] j(1) k(1) obtain f z
        where fz: "\<forall>n>j. is_list_loop h flags n ?b (SCHEME_CDR h y) = Some (f, z)" "f AND 3 \<noteq> 0"
          "f AND 1 \<noteq> 0 \<longleftrightarrow> proper_list h ?b" "z \<in> N" "SCHEME_PAIRP z" "proper_list h z \<longleftrightarrow> proper_list h ?b" by auto
      have "is_list_loop h flags n x y = Some (f, z)" if "n > m" for n
      proof -
        from that obtain i where i: "n = Suc i" "i > j" using j(1) k(1) by (cases n) auto
        with 4 na b nb fz(1) show ?thesis by (simp add: Let_def)
      qed
      with fz xa ab show ?thesis by (intro exI[of _ f] exI[of _ z]) auto
    qed
  qed
qed

text \<open>\<open>scheme_is_list\<close> ends with the right answer and leaves the flags right.\<close>

lemma scheme_is_list_ends:
  assumes closed: "\<And>x. x \<in> N \<Longrightarrow> SCHEME_PAIRP x \<Longrightarrow> SCHEME_CDR h x \<in> N" and ok: "flags_ok h N flags"
    and x: "x \<in> N"
  shows "\<exists>flags'. ends (\<lambda>n. scheme_is_list h n x flags) (proper_list h x, flags') \<and> flags_ok h N flags'"
proof (cases "SCHEME_PAIRP x \<and> flags x AND 3 = 0")
  case False
  have "scheme_is_list h n x flags = Some (proper_list h x, flags)" for n
    using False ok x proper_list_simps(2)[of x h] by (auto simp: scheme_is_list_def flags_ok_def)
  with ok show ?thesis by (intro exI[of _ flags]) simp
next
  case True
  with ok x obtain m where "cdrs_stop h flags m x" unfolding flags_ok_def by blast
  with True obtain k where "cdrs_stop h flags k (SCHEME_CDR h x)" by (cases m) auto
  from is_list_loop_ends[OF closed ok this x x _ ahead.here] True obtain f z
    where fz: "\<forall>n>k. is_list_loop h flags n x x = Some (f, z)" "f AND 3 \<noteq> 0"
      "f AND 1 \<noteq> 0 \<longleftrightarrow> proper_list h x" "z \<in> N" "SCHEME_PAIRP z" "proper_list h z \<longleftrightarrow> proper_list h x" by blast
  let ?flags = "flags(z := flags z OR (f AND 3))"
  have fin: "ends (\<lambda>n. scheme_is_list h n x flags) (proper_list h x, ?flags)"
    by (rule endsI[of "Suc k"]) (use True fz(1,3) in \<open>simp add: scheme_is_list_def Suc_le_eq\<close>)
  have "cdrs_stop h ?flags m y" if "cdrs_stop h flags m y" for m y
    using that by (induction m arbitrary: y) (auto simp: flag_bits)
  moreover have "?flags y AND 1 \<noteq> 0 \<longleftrightarrow> proper_list h y"
    if y: "y \<in> N" "SCHEME_PAIRP y" "?flags y AND 3 \<noteq> 0" for y
  proof (cases "y = z")
    case True
    have "flags z AND 3 \<noteq> 0 \<Longrightarrow> odd (flags z) \<longleftrightarrow> proper_list h z"
      using ok fz(4,5) flag_bits(1) unfolding flags_ok_def by blast
    with fz(3,6) flag_bits(5)[of "flags z"] show ?thesis unfolding True by (auto simp: flag_bits(1) odd_or)
  next
    case False
    with ok y show ?thesis unfolding flags_ok_def by simp
  qed
  ultimately have "flags_ok h N ?flags" using ok unfolding flags_ok_def by blast
  with fin show ?thesis by blast
qed

end
