(* ===== verification/Equal_Correct.thy ===== *)
theory Equal_Correct
  imports Equal_Data
begin

section \<open>\<open>is_equal\<close> decides the same data\<close>

text \<open>
  The proof is one induction for termination, soundness and completeness. \<open>good\<close> is the contract of a
  computation that returns an answer and a state: it ends; a positive answer for the pairs \<open>Q\<close> rests on
  pairs \<open>W\<close> that agree up to the classes of the state; and pairs of the same data get a
  positive answer. The measure is the free depth plus the number of objects that are not yet in
  the union table, then whether \<open>car_depth\<close> still lets lists pass without a check, then a rank of the
  first object.
\<close>

definition parts_ok :: "heap \<Rightarrow> obj \<Rightarrow> bool" where
  "parts_ok h x \<longleftrightarrow>
     (scheme_type x \<in> {scheme_pair_type, scheme_mutable_pair_type, scheme_module_index_type} \<longrightarrow>
        length (parts h x) = 2) \<and>
     (scheme_type x \<in> {scheme_box_type, scheme_resolved_module_path_type} \<longrightarrow> length (parts h x) = 1)"

text \<open>What the model has all contents of, with lengths that fit the \<^verbatim>\<open>int\<close> variables of the hash codes.\<close>

definition in_model :: "heap \<Rightarrow> obj \<Rightarrow> bool" where
  "in_model h x \<longleftrightarrow> modelled x \<and> (is_struct x \<longrightarrow> \<not> has_procs h (struct_type h x)) \<and>
     (compound x \<longrightarrow> length (parts h x) < 2 ^ 31) \<and>
     (case x of Char_String _ s \<Rightarrow> length s < 2 ^ 31 | Byte_String _ s \<Rightarrow> length s < 2 ^ 31
      | Unix_Path _ s \<Rightarrow> length s < 2 ^ 31 | _ \<Rightarrow> True)"

text \<open>\<open>N\<close> is a finite part of the heap that is closed under references. The types that \<open>is_equal\<close> follows
  without \<open>union_check\<close> (the \<^verbatim>\<open>cdr\<close> of lists, module paths) must not be cyclic: \<open>rank\<close> decreases.\<close>

definition heap_ok :: "heap \<Rightarrow> obj set \<Rightarrow> (obj \<Rightarrow> nat) \<Rightarrow> bool" where
  "heap_ok h N rank \<longleftrightarrow> finite N \<and> (\<forall>x\<in>N. in_model h x) \<and>
     (\<forall>x\<in>N. compound x \<longrightarrow> set (parts h x) \<subseteq> N \<and> parts_ok h x) \<and>
     (\<forall>x\<in>N. \<forall>y\<in>N. is_struct x \<longrightarrow> is_struct y \<longrightarrow> struct_type h x = struct_type h y \<longrightarrow>
        length (parts h x) = length (parts h y)) \<and>
     (\<forall>x\<in>N. SCHEME_PAIRP x \<longrightarrow> proper_list h x \<longrightarrow> rank (SCHEME_CDR h x) < rank x) \<and>
     (\<forall>x\<in>N. scheme_type x \<in> {scheme_wrap_chunk_type, scheme_resolved_module_path_type, scheme_module_index_type} \<longrightarrow>
        (\<forall>y \<in> set (parts h x). rank y < rank x))"

definition eq_table :: "equal_info \<Rightarrow> (obj, obj) hash_table" where
  "eq_table e = (case eq_ht e of None \<Rightarrow> scheme_make_hash_table | Some t \<Rightarrow> t)"

lemma eq_table_simps [simp]:
  "eq_table (e\<lparr>eq_depth := d\<rparr>) = eq_table e" "eq_table (e\<lparr>car_depth := c\<rparr>) = eq_table e"
  "eq_table (e\<lparr>pair_flags := f\<rparr>) = eq_table e" "eq_table (e\<lparr>eq_ht := Some t\<rparr>) = t"
  by (simp_all add: eq_table_def)

locale data_heap =
  fixes h :: heap and N :: "obj set" and rank :: "obj \<Rightarrow> nat"
  assumes heap: "heap_ok h N rank"
begin

lemma finite_N: "finite N"
  using heap by (simp add: heap_ok_def)

lemma in_heap:
  assumes "x \<in> N"
  shows "modelled x" "is_struct x \<Longrightarrow> \<not> has_procs h (struct_type h x)"
    "compound x \<Longrightarrow> \<not> 2 ^ 31 \<le> length (parts h x)"
  using heap assms by (auto simp: heap_ok_def in_model_def)

lemma parts_closed: "x \<in> N \<Longrightarrow> compound x \<Longrightarrow> i < length (parts h x) \<Longrightarrow> parts h x ! i \<in> N"
  using heap unfolding heap_ok_def by (meson nth_mem subset_eq)

lemma pair_parts:
  assumes "x \<in> N" "SCHEME_PAIRP x"
  shows "compound x" "length (parts h x) = 2" "SCHEME_CAR h x \<in> N" "SCHEME_CDR h x \<in> N"
proof -
  show c: "compound x" using assms(2) by (simp add: SCHEME_PAIRP_def compound_def)
  show l: "length (parts h x) = 2"
    using heap assms c unfolding heap_ok_def parts_ok_def SCHEME_PAIRP_def by blast
  show "SCHEME_CAR h x \<in> N" "SCHEME_CDR h x \<in> N"
    unfolding SCHEME_CAR_def SCHEME_CDR_def by (rule parts_closed[OF assms(1) c]; simp add: l)+
qed

lemma part_N: "a \<in> N \<Longrightarrow> compound a \<Longrightarrow> x \<in> set (parts h a) \<Longrightarrow> x \<in> N"
  using heap unfolding heap_ok_def by blast

end

locale equal_heap = union_table ops room limit + data_heap h N rank
  for ops :: "obj table_ops" and room and limit and h and N and rank +
  assumes small: "card N \<le> limit"
begin

subsection \<open>The state\<close>

abbreviation par :: "equal_info \<Rightarrow> obj \<Rightarrow> obj option" where
  "par e \<equiv> parent ops (eq_table e)"

definition classes :: "equal_info \<Rightarrow> (obj \<times> obj) set" where
  "classes e = joined (par e)"

definition fresh :: "equal_info \<Rightarrow> nat" where
  "fresh e = card (N - dom (par e))"

definition state_ok :: "equal_info \<Rightarrow> bool" where
  "state_ok e \<longleftrightarrow> room (fresh e) (eq_table e) \<and> forest (par e) \<and> dom (par e) \<subseteq> N \<and> ran (par e) \<subseteq> N \<and>
     flags_ok h N (pair_flags e) \<and> 1 \<le> car_depth e"

definition left :: "equal_info \<Rightarrow> nat" where
  "left e = nat (50 - eq_depth e) + fresh e"

lemma state_simps [simp]:
  "classes (e\<lparr>car_depth := c\<rparr>) = classes e" "classes (e\<lparr>pair_flags := f\<rparr>) = classes e"
  "classes (e\<lparr>eq_depth := d\<rparr>) = classes e"
  "fresh (e\<lparr>car_depth := c\<rparr>) = fresh e" "fresh (e\<lparr>pair_flags := f\<rparr>) = fresh e"
  "fresh (e\<lparr>eq_depth := d\<rparr>) = fresh e"
  "left (e\<lparr>car_depth := c\<rparr>) = left e" "left (e\<lparr>pair_flags := f\<rparr>) = left e"
  "1 \<le> c \<Longrightarrow> state_ok e \<Longrightarrow> state_ok (e\<lparr>car_depth := c\<rparr>)"
  "state_ok (e\<lparr>eq_depth := d\<rparr>) = state_ok e"
  "flags_ok h N f \<Longrightarrow> state_ok e \<Longrightarrow> state_ok (e\<lparr>pair_flags := f\<rparr>)"
  by (simp_all add: classes_def fresh_def left_def state_ok_def)

lemma classes_equiv: "state_ok e \<Longrightarrow> equiv UNIV (classes e)"
  unfolding classes_def state_ok_def by (rule joined_equiv) simp

subsection \<open>The contract\<close>

definition sound :: "equal_info \<Rightarrow> equal_info \<Rightarrow> (obj \<times> obj) set \<Rightarrow> bool" where
  "sound e e' Q \<longleftrightarrow> (\<exists>W. Q \<union> classes e' \<subseteq> cl (classes e \<union> W) \<and>
     (\<forall>a b. (a, b) \<in> W \<longrightarrow> local_eq h (cl (classes e \<union> W)) a b))"

definition good :: "equal_info \<Rightarrow> (nat \<Rightarrow> (bool \<times> equal_info) option) \<Rightarrow> (obj \<times> obj) set \<Rightarrow> bool" where
  "good e f Q \<longleftrightarrow> (\<exists>r e'. ends f (r, e') \<and> state_ok e' \<and> left e' \<le> left e \<and>
     (r \<longrightarrow> car_depth e' = car_depth e \<and> sound e e' Q) \<and>
     (classes e \<subseteq> same_set h \<longrightarrow> Q \<subseteq> same_set h \<longrightarrow> r))"

lemma goodE:
  assumes "good e f Q"
  obtains r e' where "ends f (r, e')" "state_ok e'" "left e' \<le> left e"
    "r \<longrightarrow> car_depth e' = car_depth e \<and> sound e e' Q" "classes e \<subseteq> same_set h \<longrightarrow> Q \<subseteq> same_set h \<longrightarrow> r"
  using assms unfolding good_def by blast

lemma sound_car [simp]: "sound (e\<lparr>car_depth := c\<rparr>) e' Q = sound e e' Q" "sound (e\<lparr>pair_flags := f\<rparr>) e' Q = sound e e' Q"
  "sound (e\<lparr>eq_depth := d\<rparr>) e' Q = sound e e' Q"
  by (simp_all add: sound_def)

lemma car_depth_set: "car_depth (e\<lparr>car_depth := c\<rparr>) = c"
  by simp

lemmas good_simps = state_simps(1-8) sound_car car_depth_set

lemma sound_same:
  assumes "sound e e' Q" "classes e \<subseteq> same_set h"
  shows "Q \<subseteq> same_set h" "classes e' \<subseteq> same_set h"
proof -
  from assms(1) obtain W where "Q \<union> classes e' \<subseteq> cl (classes e \<union> W)"
    "\<And>a b. (a, b) \<in> W \<Longrightarrow> local_eq h (cl (classes e \<union> W)) a b" unfolding sound_def by blast
  with same_by_relation[OF assms(2), of W] show "Q \<subseteq> same_set h" "classes e' \<subseteq> same_set h" by blast+
qed

lemma sound_trans:
  assumes "sound e e1 P" "sound e1 e' Q"
  shows "sound e e' (P \<union> Q)"
proof -
  from assms(1) obtain V where V: "P \<union> classes e1 \<subseteq> cl (classes e \<union> V)"
    "\<And>a b. (a, b) \<in> V \<Longrightarrow> local_eq h (cl (classes e \<union> V)) a b" unfolding sound_def by blast
  from assms(2) obtain W where W: "Q \<union> classes e' \<subseteq> cl (classes e1 \<union> W)"
    "\<And>a b. (a, b) \<in> W \<Longrightarrow> local_eq h (cl (classes e1 \<union> W)) a b" unfolding sound_def by blast
  let ?R = "cl (classes e \<union> (V \<union> W))"
  have v: "cl (classes e \<union> V) \<subseteq> ?R" by (rule cl_mono) blast
  have "classes e1 \<union> W \<subseteq> ?R" using V(1) v cl_base[of "classes e \<union> (V \<union> W)"] by blast
  then have w: "cl (classes e1 \<union> W) \<subseteq> ?R" by (rule cl_cut)
  have "local_eq h ?R a b" if "(a, b) \<in> V \<union> W" for a b
    using that V(2) W(2) local_mono v w by blast
  moreover have "P \<union> Q \<union> classes e' \<subseteq> ?R" using V(1) W(1) v w by blast
  ultimately show ?thesis unfolding sound_def by blast
qed

text \<open>A pair agrees if its parts do.\<close>

definition reduces :: "obj \<Rightarrow> obj \<Rightarrow> (obj \<times> obj) set \<Rightarrow> bool" where
  "reduces a b Q \<longleftrightarrow> (\<forall>R. Q \<subseteq> R \<longrightarrow> local_eq h R a b) \<and> (same_data h a b \<longrightarrow> Q \<subseteq> same_set h)"

lemma sound_reduce:
  assumes "sound e e' Q" "reduces a b Q"
  shows "sound e e' {(a, b)}"
proof -
  from assms(1) obtain W where W: "Q \<union> classes e' \<subseteq> cl (classes e \<union> W)"
    "\<And>a b. (a, b) \<in> W \<Longrightarrow> local_eq h (cl (classes e \<union> W)) a b" unfolding sound_def by blast
  let ?W = "insert (a, b) W"
  have m: "cl (classes e \<union> W) \<subseteq> cl (classes e \<union> ?W)" by (rule cl_mono) blast
  have "local_eq h (cl (classes e \<union> ?W)) a b" using assms(2) W(1) m unfolding reduces_def by blast
  then have "\<forall>x y. (x, y) \<in> ?W \<longrightarrow> local_eq h (cl (classes e \<union> ?W)) x y"
    using W(2) local_mono m by blast
  moreover have "{(a, b)} \<union> classes e' \<subseteq> cl (classes e \<union> ?W)" using W(1) m cl_base[of "classes e \<union> ?W"] by blast
  ultimately show ?thesis unfolding sound_def by blast
qed

lemma good_reduce: "good e f Q \<Longrightarrow> reduces a b Q \<Longrightarrow> good e f {(a, b)}"
proof -
  assume "good e f Q" "reduces a b Q"
  from this(1) obtain r e' where "ends f (r, e')" "state_ok e'" "left e' \<le> left e"
    "r \<longrightarrow> car_depth e' = car_depth e \<and> sound e e' Q" "classes e \<subseteq> same_set h \<longrightarrow> Q \<subseteq> same_set h \<longrightarrow> r"
    by (rule goodE)
  moreover have "{(a, b)} \<subseteq> same_set h \<longrightarrow> Q \<subseteq> same_set h"
    using \<open>reduces a b Q\<close> by (simp add: reduces_def same_set_def)
  ultimately show ?thesis using sound_reduce[OF _ \<open>reduces a b Q\<close>] unfolding good_def by blast
qed

lemma good_yes: "state_ok e \<Longrightarrow> Q \<subseteq> classes e \<Longrightarrow> good e (\<lambda>n. Some (True, e)) Q"
proof -
  assume "state_ok e" "Q \<subseteq> classes e"
  then have "sound e e Q" unfolding sound_def using cl_base[of "classes e"] by (intro exI[of _ "{}"]) auto
  with \<open>state_ok e\<close> show ?thesis unfolding good_def by (intro exI[of _ True] exI[of _ e]) simp
qed

lemma good_no: "state_ok e \<Longrightarrow> \<not> Q \<subseteq> same_set h \<Longrightarrow> good e (\<lambda>n. Some (False, e)) Q"
  unfolding good_def by (intro exI[of _ False] exI[of _ e]) simp

lemma good_nothing: "state_ok e \<Longrightarrow> good e (\<lambda>n. Some (True, e)) {}"
  by (rule good_yes) simp_all

lemma good_mono: "good e g Q \<Longrightarrow> (\<And>r. ends g r \<Longrightarrow> ends f r) \<Longrightarrow> good e f Q"
  unfolding good_def by blast

lemma good_content: "state_ok e \<Longrightarrow> content_of a = content_of b \<Longrightarrow> good e (\<lambda>n. Some (True, e)) {(a, b)}"
proof -
  assume "state_ok e" "content_of a = content_of b"
  then have "reduces a b {}" by (simp add: reduces_def local_eq_def)
  from good_reduce[OF good_nothing[OF \<open>state_ok e\<close>] this] show ?thesis .
qed

lemma good_cong:
  assumes "\<And>n. K \<le> n \<Longrightarrow> f n = g n" "good e g Q"
  shows "good e f Q"
proof (rule good_mono[OF assms(2)])
  fix r assume "ends g r"
  then obtain L where "\<forall>n\<ge>L. g n = Some r" unfolding ends_def by blast
  then show "ends f r" using assms(1) by (intro endsI[of "max K L"]) simp
qed

lemma good_Suc: "good e (\<lambda>n. f (Suc n)) Q \<Longrightarrow> good e f Q"
  by (erule good_mono) (rule ends_Suc)

text \<open>Two computations in sequence; the first runs with \<open>car_depth\<close> increased by \<open>d\<close>.\<close>

lemma good_then:
  assumes f: "good (e\<lparr>car_depth := car_depth e + d\<rparr>) f P" and e: "state_ok e"
    and g: "\<And>e1. state_ok e1 \<Longrightarrow> left e1 \<le> left e \<Longrightarrow> car_depth e1 = car_depth e \<Longrightarrow> good e1 (g e1) Q"
  shows "good e (\<lambda>n. and_then (f n) (\<lambda>e1. g (e1\<lparr>car_depth := car_depth e1 - d\<rparr>) n)) (P \<union> Q)"
proof -
  from f obtain r e1 where r0: "ends f (r, e1)" "state_ok e1" "left e1 \<le> left (e\<lparr>car_depth := car_depth e + d\<rparr>)"
    "r \<longrightarrow> car_depth e1 = car_depth (e\<lparr>car_depth := car_depth e + d\<rparr>) \<and> sound (e\<lparr>car_depth := car_depth e + d\<rparr>) e1 P"
    "classes (e\<lparr>car_depth := car_depth e + d\<rparr>) \<subseteq> same_set h \<longrightarrow> P \<subseteq> same_set h \<longrightarrow> r" by (rule goodE)
  note r = r0[unfolded good_simps]
  note run = ends_bind_pair[OF r(1), of "\<lambda>a e1 n. if a then g (e1\<lparr>car_depth := car_depth e1 - d\<rparr>) n else Some (False, e1)",
      folded and_then_def]
  show ?thesis
  proof (cases r)
    case False
    have "ends (\<lambda>n. and_then (f n) (\<lambda>e1. g (e1\<lparr>car_depth := car_depth e1 - d\<rparr>) n)) (False, e1)"
      by (rule run) (simp add: False)
    with r False show ?thesis unfolding good_def by blast
  next
    case True
    let ?e = "e1\<lparr>car_depth := car_depth e1 - d\<rparr>"
    have ce: "car_depth ?e = car_depth e" unfolding car_depth_set using r(4) True by arith
    have "1 \<le> car_depth e" using e by (simp add: state_ok_def)
    then have "state_ok ?e" using r(2) ce by simp
    from g[OF this _ ce] r(3) have "good ?e (g ?e) Q" by simp
    then obtain r' e'
      where r0: "ends (g ?e) (r', e')" "state_ok e'" "left e' \<le> left ?e"
        "r' \<longrightarrow> car_depth e' = car_depth ?e \<and> sound ?e e' Q"
        "classes ?e \<subseteq> same_set h \<longrightarrow> Q \<subseteq> same_set h \<longrightarrow> r'" by (rule goodE)
    note r' = r0(1,2) r0(3-5)[unfolded ce sound_car state_simps(1-8)]
    have "ends (\<lambda>n. and_then (f n) (\<lambda>e1. g (e1\<lparr>car_depth := car_depth e1 - d\<rparr>) n)) (r', e')"
      by (rule run) (simp add: True r'(1))
    moreover have "r' \<longrightarrow> sound e e' (P \<union> Q)" using sound_trans r(4) r'(4) True by blast
    moreover have "classes e \<subseteq> same_set h \<longrightarrow> P \<union> Q \<subseteq> same_set h \<longrightarrow> r'"
      using r(4) True r'(5) sound_same(2) by blast
    moreover have "left e' \<le> left e" using r(3) r'(3) by simp
    ultimately show ?thesis using r'(2,4) unfolding good_def by blast
  qed
qed

lemma good_seq:
  assumes "good e f P" "state_ok e"
    and "\<And>e1. state_ok e1 \<Longrightarrow> left e1 \<le> left e \<Longrightarrow> car_depth e1 = car_depth e \<Longrightarrow> good e1 (g e1) Q"
  shows "good e (\<lambda>n. and_then (f n) (\<lambda>e1. g e1 n)) (P \<union> Q)"
  using good_then[of e 0 f P g Q] assms by simp

lemma good_elements:
  assumes "length xs = length ys" "state_ok e"
    and "\<And>x y e1. (x, y) \<in> set (zip xs ys) \<Longrightarrow> state_ok e1 \<Longrightarrow> left e1 \<le> left e \<Longrightarrow> car_depth e1 = car_depth e \<Longrightarrow>
      good e1 (\<lambda>n. rec n x y e1) {(x, y)}"
  shows "good e (\<lambda>n. elements_equal (rec n) xs ys e) (set (zip xs ys))"
  using assms
proof (induction xs ys arbitrary: e rule: list_induct2)
  case (Cons x xs y ys)
  have one: "good e (\<lambda>n. rec n x y e) {(x, y)}" by (rule Cons.prems(2)) (use Cons.prems in simp_all)
  have "good e (\<lambda>n. and_then (rec n x y e) (\<lambda>e1. elements_equal (rec n) xs ys e1)) ({(x, y)} \<union> set (zip xs ys))"
    by (rule good_seq[OF one Cons.prems(1), of "\<lambda>e1 n. elements_equal (rec n) xs ys e1"], rule Cons.IH)
      (use Cons.prems(2) in auto)
  then show ?case by simp
qed (simp add: good_nothing)

lemma good_struct:
  assumes "state_ok e"
    and "\<And>j e1. j < i \<Longrightarrow> state_ok e1 \<Longrightarrow> left e1 \<le> left e \<Longrightarrow> car_depth e1 = car_depth e \<Longrightarrow>
      good e1 (\<lambda>n. rec n (parts h a ! j) (parts h b ! j) e1) {(parts h a ! j, parts h b ! j)}"
  shows "good e (\<lambda>n. struct_equal h (rec n) a b i e) {(parts h a ! j, parts h b ! j) |j. j < i}"
  using assms
proof (induction i arbitrary: e)
  case (Suc i)
  have one: "good e (\<lambda>n. rec n (parts h a ! i) (parts h b ! i) e) {(parts h a ! i, parts h b ! i)}"
    by (rule Suc.prems(2)) (use Suc.prems in simp_all)
  have "good e (\<lambda>n. and_then (rec n (parts h a ! i) (parts h b ! i) e) (\<lambda>e1. struct_equal h (rec n) a b i e1))
      ({(parts h a ! i, parts h b ! i)} \<union> {(parts h a ! j, parts h b ! j) |j. j < i})"
    by (rule good_seq[OF one Suc.prems(1), of "\<lambda>e1 n. struct_equal h (rec n) a b i e1"], rule Suc.IH)
      (use Suc.prems(2) in auto)
  moreover have "{(parts h a ! i, parts h b ! i)} \<union> {(parts h a ! j, parts h b ! j) |j. j < i} =
      {(parts h a ! j, parts h b ! j) |j. j < Suc i}" by (auto simp: less_Suc_eq)
  ultimately show ?case by simp
qed (simp add: good_nothing)

subsection \<open>\<open>union_check\<close>\<close>

lemma union_check_ends:
  assumes e: "state_ok e" and N: "a \<in> N" "b \<in> N" and deep: "\<not> eq_depth e < 50"
  obtains (known) e1 where "ends (\<lambda>n. union_check ops n a b e) (True, e1)" "state_ok e1" "left e1 \<le> left e"
      "car_depth e1 = car_depth e" "classes e1 = classes e" "(a, b) \<in> classes e"
    | (assumed) e1 where "ends (\<lambda>n. union_check ops n a b e) (False, e1)" "state_ok e1" "left e1 < left e"
      "car_depth e1 = car_depth e" "classes e1 \<subseteq> cl (classes e \<union> {(a, b)})"
proof -
  let ?p = "par e"
  from e have st: "room (fresh e) (eq_table e)" "forest ?p" "dom ?p \<subseteq> N" "ran ?p \<subseteq> N"
    "flags_ok h N (pair_flags e)" "1 \<le> car_depth e" by (auto simp: state_ok_def)
  from st(2) obtain ra rb where r: "root ?p a ra" "root ?p b rb" unfolding forest_def by blast
  from union_find_ends[OF st(1,2) r(1)] obtain t1
    where t1: "ends (\<lambda>k. union_find ops k a (eq_table e)) (ra, t1)" "room (fresh e) t1" "kept (eq_table e) t1" by blast
  have "forest (parent ops t1)" "root (parent ops t1) b rb" using t1(3) r(2) by (simp_all add: kept_def)
  from union_find_ends[OF t1(2) this] obtain t2
    where t2: "ends (\<lambda>k. union_find ops k b t1) (rb, t2)" "room (fresh e) t2" "kept t1 t2" by blast
  let ?q = "parent ops t2"
  from kept_trans[OF t1(3) t2(3)] have q: "forest ?q" "joined ?q = classes e" "dom ?q = dom ?p" "ran ?q \<subseteq> N"
    "root ?q a ra" "root ?q b rb" using st(4) r by (auto simp: kept_def classes_def)
  have run: "ends (\<lambda>n. union_check ops n a b e) res"
    if "ends (\<lambda>n. if ra = rb then Some (True, e\<lparr>eq_ht := Some t2\<rparr>)
         else map_option (\<lambda>ht. (False, e\<lparr>eq_ht := Some ht\<rparr>)) (scheme_hash_set ops t2 rb (Some ra))) res" for res
    unfolding union_check_def eq_table_def[symmetric] Let_def if_not_P[OF deep]
    by (rule ends_bind_pair[OF t1(1)], rule ends_bind_pair[OF t2(1)], rule that)
  show thesis
  proof (cases "ra = rb")
    case True
    let ?e = "e\<lparr>eq_ht := Some t2\<rparr>"
    have f: "fresh ?e = fresh e" by (simp add: fresh_def q(3))
    have "ends (\<lambda>n. union_check ops n a b e) (True, ?e)" by (rule run) (simp add: True)
    moreover have "state_ok ?e" using st t2(2) q by (simp add: state_ok_def f)
    moreover have "left ?e \<le> left e" by (simp add: left_def f)
    moreover have "classes ?e = classes e" using q(2) by (simp add: classes_def)
    moreover have "(a, b) \<in> classes e" using r True by (auto simp: classes_def joined_def)
    ultimately show thesis by (intro known[of ?e]) simp_all
  next
    case False
    have rN: "ra \<in> N" "rb \<in> N" using root_closed[OF r(1) N(1) st(4)] root_closed[OF r(2) N(2) st(4)] .
    have nd: "rb \<notin> dom ?p" using root_end[OF r(2)] by auto
    then have mem: "rb \<in> N - dom ?p" using rN(2) by blast
    then have "card (N - dom ?p) \<noteq> 0" using finite_N by (metis card_eq_0_iff empty_iff finite_Diff)
    then have "fresh e \<noteq> 0" by (simp add: fresh_def)
    then obtain m where m: "fresh e = Suc m" by (cases "fresh e") auto
    from room_new[OF t2(2)[unfolded m], of rb ra] obtain t3
      where t3: "scheme_hash_set ops t2 rb (Some ra) = Some t3" "room m t3" "parent ops t3 = ?q(rb \<mapsto> ra)" by blast
    let ?e = "e\<lparr>eq_ht := Some t3\<rparr>"
    have par: "par ?e = ?q(rb \<mapsto> ra)" by (simp add: t3(3))
    have d: "dom (par ?e) = insert rb (dom ?p)" unfolding par by (simp add: q(3))
    have "N - dom (par ?e) = N - dom ?p - {rb}" unfolding d by blast
    then have "fresh ?e = fresh e - 1" unfolding fresh_def by (simp only: card_Diff_singleton[OF mem])
    then have f: "fresh ?e = m" using m by simp
    note lf = link_forest[OF q(1) q(6,5) False]
    note lj = link_joined[OF q(1) q(6,5) False cl_equiv, of "classes e \<union> {(a, b)}", unfolded q(2)]
    have base: "classes e \<subseteq> cl (classes e \<union> {(a, b)})" "(a, b) \<in> cl (classes e \<union> {(a, b)})"
      using cl_base[of "classes e \<union> {(a, b)}"] by auto
    have "ran (par ?e) \<subseteq> N" unfolding par using q(4) rN(1) by (auto simp: ran_def split: if_splits)
    then have "state_ok ?e" unfolding state_ok_def
      using st t3(2) lf d rN(2) by (simp add: f par[symmetric] del: eq_table_simps(4)) (simp add: eq_table_def)
    moreover have "ends (\<lambda>n. union_check ops n a b e) (False, ?e)" by (rule run) (simp add: False t3(1))
    moreover have "left ?e < left e" by (simp add: left_def f m)
    moreover have "classes ?e \<subseteq> cl (classes e \<union> {(a, b)})" unfolding classes_def par
      by (rule lj(1)[unfolded classes_def]) (use base in \<open>simp_all add: classes_def\<close>)
    ultimately show thesis by (intro assumed[of ?e]) simp_all
  qed
qed

text \<open>Objects are assumed equal while their parts are compared.\<close>

lemma good_assume:
  assumes f: "ends f (False, e1)" and k: "good e1 (k e1) Q" and red: "reduces a b Q"
    and e1: "left e1 \<le> left e" "car_depth e1 = car_depth e" "classes e1 \<subseteq> cl (classes e \<union> {(a, b)})"
  shows "good e (\<lambda>n. or_else (f n) (\<lambda>e1. k e1 n)) {(a, b)}"
proof -
  from k obtain r e' where r: "ends (k e1) (r, e')" "state_ok e'" "left e' \<le> left e1"
    "r \<longrightarrow> car_depth e' = car_depth e1 \<and> sound e1 e' Q" "classes e1 \<subseteq> same_set h \<longrightarrow> Q \<subseteq> same_set h \<longrightarrow> r" by (rule goodE)
  have "ends (\<lambda>n. or_else (f n) (\<lambda>e1. k e1 n)) (r, e')" unfolding or_else_def
    by (rule ends_bind_pair[OF f, of "\<lambda>same s n. if same then Some (True, s) else k s n"]) (simp add: r(1))
  moreover have "sound e e' {(a, b)}" if r
  proof -
    from r(4) that have "sound e1 e' {(a, b)}" using sound_reduce[OF _ red] by blast
    from r(4) that obtain W where W: "Q \<union> classes e' \<subseteq> cl (classes e1 \<union> W)"
      "\<And>a b. (a, b) \<in> W \<Longrightarrow> local_eq h (cl (classes e1 \<union> W)) a b" unfolding sound_def by blast
    let ?R = "cl (classes e \<union> insert (a, b) W)"
    have "cl (classes e \<union> {(a, b)}) \<subseteq> ?R" by (rule cl_mono) blast
    then have "classes e1 \<union> W \<subseteq> ?R" using e1(3) cl_base[of "classes e \<union> insert (a, b) W"] by blast
    then have m: "cl (classes e1 \<union> W) \<subseteq> ?R" by (rule cl_cut)
    have "local_eq h ?R a b" using red W(1) m unfolding reduces_def by blast
    then have "\<forall>x y. (x, y) \<in> insert (a, b) W \<longrightarrow> local_eq h ?R x y" using W(2) local_mono m by blast
    moreover have "{(a, b)} \<union> classes e' \<subseteq> ?R" using W(1) m cl_base[of "classes e \<union> insert (a, b) W"] by blast
    ultimately show ?thesis unfolding sound_def by blast
  qed
  moreover have r if "classes e \<subseteq> same_set h" "{(a, b)} \<subseteq> same_set h"
  proof -
    have "cl (classes e \<union> {(a, b)}) \<subseteq> same_set h" by (rule cl_least[OF same_equiv]) (use that in blast)
    then have "classes e1 \<subseteq> same_set h" using e1(3) by blast
    moreover have "Q \<subseteq> same_set h" using red that(2) by (simp add: reduces_def same_set_def)
    ultimately show r using r(5) by blast
  qed
  moreover have "left e' \<le> left e" using r(3) e1(1) by simp
  ultimately show ?thesis using r(2,4) e1(2) unfolding good_def by auto
qed

lemma good_union:
  assumes e: "state_ok e" and N: "a \<in> N" "b \<in> N" and red: "reduces a b Q"
    and k: "\<And>e1. state_ok e1 \<Longrightarrow> left e1 < left e \<Longrightarrow> car_depth e1 = car_depth e \<Longrightarrow> good e1 (k e1) Q"
  shows "good e (\<lambda>n. or_else (union_check ops n a b e) (\<lambda>e1. k e1 n)) {(a, b)}"
proof (cases "eq_depth e < 50")
  case True
  let ?e = "e\<lparr>eq_depth := eq_depth e + 2\<rparr>"
  have l: "left ?e < left e" using True by (simp add: left_def fresh_def)
  show ?thesis
  proof (rule good_assume[OF _ _ red])
    show "ends (\<lambda>n. union_check ops n a b e) (False, ?e)" by (simp add: union_check_def True)
    show "good ?e (k ?e) Q" by (rule k) (use e l in simp_all)
    show "classes ?e \<subseteq> cl (classes e \<union> {(a, b)})" using cl_base[of "classes e \<union> {(a, b)}"] by auto
  qed (use l in simp_all)
next
  case False
  show ?thesis
  proof (cases rule: union_check_ends[OF e N False, case_names known assumed])
    case (known e1)
    have "ends (\<lambda>n. or_else (union_check ops n a b e) (\<lambda>e1. k e1 n)) (True, e1)" unfolding or_else_def
      by (rule ends_bind_pair[OF known(1), of "\<lambda>same s n. if same then Some (True, s) else k s n"]) simp
    moreover have "sound e e1 {(a, b)}" unfolding sound_def
      using known(5,6) cl_base[of "classes e"] by (intro exI[of _ "{}"]) auto
    ultimately show ?thesis using known(2-4) unfolding good_def by blast
  next
    case (assumed e1)
    show ?thesis by (rule good_assume[where k = k, OF assumed(1) k[OF assumed(2-4)] red]) (use assumed in simp_all)
  qed
qed

text \<open>A negative answer after the check: only the state matters.\<close>

lemma good_union_no:
  assumes e: "state_ok e" and N: "a \<in> N" "b \<in> N" and no: "\<not> {(a, b)} \<subseteq> same_set h"
  shows "good e (\<lambda>n. or_else (union_check ops n a b e) (\<lambda>e1. Some (False, e1))) {(a, b)}"
proof (cases "eq_depth e < 50")
  case True
  let ?e = "e\<lparr>eq_depth := eq_depth e + 2\<rparr>"
  have "or_else (union_check ops n a b e) (\<lambda>e1. Some (False, e1)) = Some (False, ?e)" for n
    by (simp add: union_check_def True or_else_def)
  moreover have "state_ok ?e" "left ?e \<le> left e" using e by (simp_all add: left_def fresh_def)
  ultimately show ?thesis using no unfolding good_def by (intro exI[of _ False] exI[of _ ?e]) simp
next
  case False
  show ?thesis
  proof (cases rule: union_check_ends[OF e N False, case_names known assumed])
    case (known e1)
    have "ends (\<lambda>n. or_else (union_check ops n a b e) (\<lambda>e1. Some (False, e1))) (True, e1)" unfolding or_else_def
      by (rule ends_bind_pair[OF known(1), of "\<lambda>same s n. if same then Some (True, s) else Some (False, s)"]) simp
    moreover have "sound e e1 {(a, b)}" unfolding sound_def
      using known(5,6) cl_base[of "classes e"] by (intro exI[of _ "{}"]) auto
    ultimately show ?thesis using known(2-4) unfolding good_def by blast
  next
    case (assumed e1)
    have "ends (\<lambda>n. or_else (union_check ops n a b e) (\<lambda>e1. Some (False, e1))) (False, e1)" unfolding or_else_def
      by (rule ends_bind_pair[OF assumed(1), of "\<lambda>same s n. if same then Some (True, s) else Some (False, s)"]) simp
    with assumed(2,3) no show ?thesis unfolding good_def by (intro exI[of _ False] exI[of _ e1]) simp
  qed
qed

subsection \<open>The cases of \<open>is_equal\<close>\<close>

definition smaller :: "equal_info \<Rightarrow> obj \<Rightarrow> equal_info \<Rightarrow> obj \<Rightarrow> bool" where
  "smaller e1 x e a \<longleftrightarrow>
     ((left e1, of_bool (car_depth e1 \<le> 2) :: nat, rank x), (left e, of_bool (car_depth e \<le> 2), rank a))
       \<in> less_than <*lex*> less_than <*lex*> less_than"

text \<open>The induction hypothesis for \<open>is_equal\<close> on objects \<open>a\<close> and \<open>b\<close> in the state \<open>e\<close>.\<close>

definition recurs :: "(nat \<Rightarrow> equal_rec) \<Rightarrow> equal_info \<Rightarrow> obj \<Rightarrow> bool" where
  "recurs rec e a \<longleftrightarrow> (\<forall>e1 x y. state_ok e1 \<longrightarrow> x \<in> N \<longrightarrow> y \<in> N \<longrightarrow> smaller e1 x e a \<longrightarrow>
     good e1 (\<lambda>n. rec n x y e1) {(x, y)})"

lemma recursD:
  "recurs rec e a \<Longrightarrow> state_ok e1 \<Longrightarrow> x \<in> N \<Longrightarrow> y \<in> N \<Longrightarrow> smaller e1 x e a \<Longrightarrow> good e1 (\<lambda>n. rec n x y e1) {(x, y)}"
  by (simp add: recurs_def)

lemma smaller_left: "left e1 < left e \<Longrightarrow> smaller e1 x e a"
  by (simp add: smaller_def)

lemma smaller_rank: "left e1 \<le> left e \<Longrightarrow> car_depth e1 = car_depth e \<Longrightarrow> rank x < rank a \<Longrightarrow> smaller e1 x e a"
  by (auto simp: smaller_def)

lemma good_state:
  "good e1 f Q \<Longrightarrow> left e1 = left e \<Longrightarrow> car_depth e1 = car_depth e \<Longrightarrow> classes e1 = classes e \<Longrightarrow> good e f Q"
  unfolding good_def sound_def by simp

lemma reduces_parts:
  assumes "same_shape h a b" "content_of a \<noteq> content_of b" "length (parts h a) = length (parts h b)"
  shows "reduces a b {(parts h a ! i, parts h b ! i) |i. i < length (parts h a)}"
proof -
  have "same_data h a b \<Longrightarrow> list_all2 (same_data h) (parts h a) (parts h b)"
    using assms(2) by (auto elim: same_data.cases)
  then show ?thesis using assms(1,3) unfolding reduces_def local_eq_def same_set_def
    by (auto simp: list_all2_conv_all_nth)
qed

lemma reduces_zip:
  assumes "same_shape h a b" "content_of a \<noteq> content_of b" "length (parts h a) = length (parts h b)"
  shows "reduces a b (set (zip (parts h a) (parts h b)))"
  using reduces_parts[OF assms] assms(3) by (simp add: set_zip)

lemma reduces_two:
  assumes "same_shape h a b" "content_of a \<noteq> content_of b" "length (parts h a) = 2" "length (parts h b) = 2"
  shows "reduces a b ({(parts h a ! 0, parts h b ! 0)} \<union> {(parts h a ! 1, parts h b ! 1)})"
proof -
  have "{(parts h a ! i, parts h b ! i) |i. i < (2::nat)} =
      {(parts h a ! 0, parts h b ! 0)} \<union> {(parts h a ! 1, parts h b ! 1)}" by (auto simp: less_2_cases_iff)
  with reduces_parts[of a b] assms show ?thesis by simp
qed

lemma reduces_one:
  assumes "same_shape h a b" "content_of a \<noteq> content_of b" "length (parts h a) = 1" "length (parts h b) = 1"
  shows "reduces a b {(parts h a ! 0, parts h b ! 0)}"
  using reduces_parts[of a b] assms by simp

lemma not_same: "content_of a \<noteq> content_of b \<Longrightarrow>
    \<not> same_shape h a b \<or> length (parts h a) \<noteq> length (parts h b) \<Longrightarrow> \<not> {(a, b)} \<subseteq> same_set h"
  by (auto simp: same_set_def elim: same_data.cases dest: list_all2_lengthD)

lemma good_vector:
  assumes "state_ok e" "a \<in> N" "b \<in> N" "compound a" "compound b" "length (parts h a) = length (parts h b)"
    and "\<And>x y e1. state_ok e1 \<Longrightarrow> x \<in> set (parts h a) \<Longrightarrow> y \<in> N \<Longrightarrow> left e1 \<le> left e \<Longrightarrow> car_depth e1 = car_depth e \<Longrightarrow>
      good e1 (\<lambda>n. rec n x y e1) {(x, y)}"
  shows "good e (\<lambda>n. vector_equal h (rec n) a b e) (set (zip (parts h a) (parts h b)))"
proof -
  have "good e (\<lambda>n. elements_equal (rec n) (parts h a) (parts h b) e) (set (zip (parts h a) (parts h b)))"
  proof (rule good_elements[OF assms(6,1)])
    fix x y e1 assume xy: "(x, y) \<in> set (zip (parts h a) (parts h b))"
      and e1: "state_ok e1" "left e1 \<le> left e" "car_depth e1 = car_depth e"
    have "y \<in> N" using set_zip_rightD[OF xy] heap assms(3,5) unfolding heap_ok_def by blast
    with assms(7)[OF e1(1) set_zip_leftD[OF xy]] e1 show "good e1 (\<lambda>n. rec n x y e1) {(x, y)}" by blast
  qed
  with assms(6) show ?thesis by (simp add: vector_equal_def)
qed

lemma good_pair_parts:
  assumes ab: "a \<in> N" "b \<in> N" "SCHEME_PAIRP a" "SCHEME_PAIRP b" and r: "recurs rec e a" and e1: "state_ok e1"
    and l: "left e1 < left e \<or> left e1 \<le> left e \<and> car_depth e \<le> 2 \<and> car_depth e1 = car_depth e \<and> rank (SCHEME_CDR h a) < rank a"
  shows "good e1 (\<lambda>n. and_then (rec n (SCHEME_CAR h a) (SCHEME_CAR h b) (e1\<lparr>car_depth := car_depth e1 + 2\<rparr>)) (\<lambda>e2.
      rec n (SCHEME_CDR h a) (SCHEME_CDR h b) (e2\<lparr>car_depth := car_depth e2 - 2\<rparr>)))
    ({(SCHEME_CAR h a, SCHEME_CAR h b)} \<union> {(SCHEME_CDR h a, SCHEME_CDR h b)})"
proof (rule good_then[of e1 2 "\<lambda>n. rec n (SCHEME_CAR h a) (SCHEME_CAR h b) (e1\<lparr>car_depth := car_depth e1 + 2\<rparr>)" _
    "\<lambda>e n. rec n (SCHEME_CDR h a) (SCHEME_CDR h b) e"])
  have c: "1 \<le> car_depth e1" using e1 by (simp add: state_ok_def)
  show "good (e1\<lparr>car_depth := car_depth e1 + 2\<rparr>)
     (\<lambda>n. rec n (SCHEME_CAR h a) (SCHEME_CAR h b) (e1\<lparr>car_depth := car_depth e1 + 2\<rparr>)) {(SCHEME_CAR h a, SCHEME_CAR h b)}"
  proof (rule recursD[OF r])
    show "smaller (e1\<lparr>car_depth := car_depth e1 + 2\<rparr>) (SCHEME_CAR h a) e a" using l c by (auto simp: smaller_def)
  qed (use e1 c pair_parts ab in simp_all)
next
  fix e2 assume e2: "state_ok e2" "left e2 \<le> left e1" "car_depth e2 = car_depth e1"
  show "good e2 (\<lambda>n. rec n (SCHEME_CDR h a) (SCHEME_CDR h b) e2) {(SCHEME_CDR h a, SCHEME_CDR h b)}"
  proof (rule recursD[OF r e2(1)])
    show "smaller e2 (SCHEME_CDR h a) e a" using l e2(2,3) by (auto simp: smaller_def)
  qed (use pair_parts ab in simp_all)
qed (rule e1)

lemma good_pair:
  assumes ab: "a \<in> N" "b \<in> N" "SCHEME_PAIRP a" "SCHEME_PAIRP b" "content_of a \<noteq> content_of b"
    and r: "recurs rec e a" and e: "state_ok e"
  shows "good e (\<lambda>n. equal_pair h ops n (rec n) a b e) {(a, b)}"
proof -
  let ?Q = "{(SCHEME_CAR h a, SCHEME_CAR h b)} \<union> {(SCHEME_CDR h a, SCHEME_CDR h b)}"
  define k where "k e1 n = and_then (rec n (SCHEME_CAR h a) (SCHEME_CAR h b) (e1\<lparr>car_depth := car_depth e1 + 2\<rparr>)) (\<lambda>e2.
      rec n (SCHEME_CDR h a) (SCHEME_CDR h b) (e2\<lparr>car_depth := car_depth e2 - 2\<rparr>))" for e1 n
  define chk where "chk n = (if car_depth e > 2 then Some (True, e)
     else map_option (\<lambda>(is_list, flags). (\<not> is_list, e\<lparr>pair_flags := flags\<rparr>)) (scheme_is_list h n a (pair_flags e)))" for n
  have eq: "equal_pair h ops n (rec n) a b e = or_else (and_then (chk n) (union_check ops n a b)) (\<lambda>e1. k e1 n)" for n
    by (simp add: equal_pair_def chk_def k_def)
  have shape: "same_shape h a b" using ab(3,4) pair_parts[OF ab(1,3)]
    by (simp add: same_shape_def SCHEME_PAIRP_def is_struct_def)
  have red: "reduces a b ?Q"
    using reduces_two[OF shape ab(5)] pair_parts[OF ab(1,3)] pair_parts[OF ab(2,4)]
    by (simp add: SCHEME_CAR_def SCHEME_CDR_def)
  have closed: "\<And>x. x \<in> N \<Longrightarrow> SCHEME_PAIRP x \<Longrightarrow> SCHEME_CDR h x \<in> N" using pair_parts by blast
  have union: "good e1 (\<lambda>n. or_else (union_check ops n a b e1) (\<lambda>e1. k e1 n)) {(a, b)}"
    if "state_ok e1" "left e1 = left e" for e1
  proof (rule good_union[OF that(1) ab(1,2) red])
    fix e2 assume "state_ok e2" "left e2 < left e1"
    then show "good e2 (k e2) ?Q" unfolding k_def using good_pair_parts[OF ab(1-4) r, of e2] that(2) by simp
  qed
  show ?thesis unfolding eq
  proof (cases "car_depth e > 2")
    case True
    then have "chk n = Some (True, e)" for n by (simp add: chk_def)
    with union[OF e] show "good e (\<lambda>n. or_else (and_then (chk n) (union_check ops n a b)) (\<lambda>e1. k e1 n)) {(a, b)}"
      by (simp add: and_then_def)
  next
    case False
    have "flags_ok h N (pair_flags e)" using e by (simp add: state_ok_def)
    from scheme_is_list_ends[OF closed this ab(1)] obtain fl
      where fl: "ends (\<lambda>n. scheme_is_list h n a (pair_flags e)) (proper_list h a, fl)" "flags_ok h N fl" by blast
    let ?e = "e\<lparr>pair_flags := fl\<rparr>"
    from ends_map[OF fl(1), of "\<lambda>(is_list, flags). (\<not> is_list, e\<lparr>pair_flags := flags\<rparr>)"]
    have chk: "ends chk (\<not> proper_list h a, ?e)" using False by (simp add: chk_def[abs_def])
    have e': "state_ok ?e" using e fl(2) by simp
    show "good e (\<lambda>n. or_else (and_then (chk n) (union_check ops n a b)) (\<lambda>e1. k e1 n)) {(a, b)}"
    proof (cases "proper_list h a")
      case True
      then have "rank (SCHEME_CDR h a) < rank a" using heap ab(1,3) unfolding heap_ok_def by blast
      then have "good ?e (k ?e) ?Q" unfolding k_def using False by (intro good_pair_parts[OF ab(1-4) r e']) auto
      moreover have "ends (\<lambda>n. and_then (chk n) (union_check ops n a b)) (False, ?e)" unfolding and_then_def
        by (rule ends_bind_pair[OF chk, of "\<lambda>same s n. if same then union_check ops n a b s else Some (False, s)"]) (simp add: True)
      moreover have "classes ?e \<subseteq> cl (classes e \<union> {(a, b)})" using cl_base[of "classes e \<union> {(a, b)}"] by auto
      ultimately show ?thesis
        by (intro good_assume[where k = k and Q = ?Q and ?e1.0 = ?e] red) (simp_all only: good_simps order_refl, simp)
    next
      case improper: False
      from chk improper obtain K where "\<forall>n\<ge>K. chk n = Some (True, ?e)" unfolding ends_def by auto
      then show ?thesis
        by (intro good_state[OF good_cong[OF _ union[OF e']], of K]) (simp_all add: and_then_def)
    qed
  qed
qed

text \<open>One level of \<open>is_equal\<close>, on objects that \<open>is_fast_equal\<close> does not decide.\<close>

lemma good_mutable_pair:
  assumes ab: "a \<in> N" "b \<in> N" "compound a" "compound b" "length (parts h a) = 2" "length (parts h b) = 2"
    and r: "recurs rec e a" and e1: "state_ok e1" "left e1 < left e"
  shows "good e1 (\<lambda>n. and_then (rec n (parts h a ! 0) (parts h b ! 0) e1) (\<lambda>e1. rec n (parts h a ! 1) (parts h b ! 1) e1))
    ({(parts h a ! 0, parts h b ! 0)} \<union> {(parts h a ! 1, parts h b ! 1)})"
proof -
  have p: "parts h a ! i \<in> N" "parts h b ! i \<in> N" if "i < 2" for i
    using parts_closed[of a i] parts_closed[of b i] ab that by simp_all
  have one: "good e1 (\<lambda>n. rec n (parts h a ! 0) (parts h b ! 0) e1) {(parts h a ! 0, parts h b ! 0)}"
    by (rule recursD[OF r]) (use e1 p in \<open>simp_all add: smaller_left\<close>)
  show ?thesis
    by (rule good_seq[OF one e1(1), of "\<lambda>e n. rec n (parts h a ! 1) (parts h b ! 1) e"], rule recursD[OF r])
      (use e1 p in \<open>simp_all add: smaller_left\<close>)
qed

lemma good_module_index:
  assumes ab: "a \<in> N" "b \<in> N" "scheme_type a = scheme_module_index_type" "scheme_type b = scheme_module_index_type"
    and r: "recurs rec e a" and e: "state_ok e"
  shows "good e (\<lambda>n. equal_module_index h (rec n) a b e)
    ({(parts h a ! 0, parts h b ! 0)} \<union> {(parts h a ! 1, parts h b ! 1)})"
proof -
  have c: "compound a" "compound b" using ab(3,4) by (simp_all add: compound_def)
  have l: "length (parts h a) = 2" "length (parts h b) = 2"
    using heap ab c unfolding heap_ok_def parts_ok_def by auto
  have p: "parts h a ! i \<in> N" "parts h b ! i \<in> N" if "i < 2" for i
    using parts_closed[of a i] parts_closed[of b i] ab c l that by simp_all
  have rk: "rank (parts h a ! i) < rank a" if "i < 2" for i
    using heap ab(1,3) l that unfolding heap_ok_def by simp
  have sm: "smaller e1 (parts h a ! i) e a" if "i < 2" "left e1 \<le> left e" "car_depth e1 = car_depth e" for e1 i
    using smaller_rank[OF that(2,3) rk[OF that(1)]] .
  have one: "good e (\<lambda>n. rec n (parts h a ! 0) (parts h b ! 0) e) {(parts h a ! 0, parts h b ! 0)}"
    by (rule recursD[OF r]) (use e p sm in simp_all)
  show ?thesis unfolding equal_module_index_def
    by (rule good_seq[OF one e, of "\<lambda>e n. rec n (parts h a ! 1) (parts h b ! 1) e"], rule recursD[OF r])
      (use e p sm in simp_all)
qed

lemma good_structure:
  assumes ab: "a \<in> N" "b \<in> N" "is_struct a" "scheme_type b = scheme_type a" "content_of a \<noteq> content_of b"
    and r: "recurs rec e a" and e: "state_ok e"
  shows "good e (\<lambda>n. equal_structure h ops n (rec n) a b e) {(a, b)}"
proof -
  have np: "\<not> has_procs h (struct_type h a)" "\<not> has_procs h (struct_type h b)"
    using in_heap(2)[OF ab(1,3)] in_heap(2)[OF ab(2)] ab(3,4) by (simp_all add: is_struct_def)
  show ?thesis
proof (cases "struct_type h a = struct_type h b \<and> visible h (struct_type h a)")
  case False
  then have "\<not> same_shape h a b" using ab(3) by (auto simp: same_shape_def)
  with not_same[OF ab(5)] have "good e (\<lambda>n. Some (False, e)) {(a, b)}" by (intro good_no e) simp
  moreover have "equal_structure h ops n (rec n) a b e = Some (False, e)" for n
    using False np by (auto simp: equal_structure_def)
  ultimately show ?thesis by simp
next
  case True
  have st: "is_struct b" and c: "compound a" "compound b" using ab(3,4) by (auto simp: is_struct_def compound_def)
  then have shape: "same_shape h a b" using conjunct1[OF True] conjunct2[OF True] ab(4) unfolding same_shape_def by simp
  have l: "length (parts h a) = length (parts h b)" using heap ab(1-3) st True unfolding heap_ok_def by blast
  have "good e (\<lambda>n. or_else (union_check ops n a b e) (\<lambda>e1. struct_equal h (rec n) a b (length (parts h a)) e1)) {(a, b)}"
  proof (rule good_union[OF e ab(1,2) reduces_parts[OF shape ab(5) l], of "\<lambda>e1 n. struct_equal h (rec n) a b (length (parts h a)) e1"])
    fix e1 assume e1: "state_ok e1" "left e1 < left e" "car_depth e1 = car_depth e"
    show "good e1 (\<lambda>n. struct_equal h (rec n) a b (length (parts h a)) e1)
      {(parts h a ! i, parts h b ! i) |i. i < length (parts h a)}"
    proof (rule good_struct[OF e1(1)])
      fix j e2 assume "j < length (parts h a)" "state_ok e2" "left e2 \<le> left e1"
      with e1(2) l show "good e2 (\<lambda>n. rec n (parts h a ! j) (parts h b ! j) e2) {(parts h a ! j, parts h b ! j)}"
        by (intro recursD[OF r] parts_closed ab(1,2) c smaller_left) simp_all
    qed
  qed
  with conjunct1[OF True] conjunct2[OF True] np show ?thesis by (simp add: equal_structure_def)
qed
qed

lemma good_same_type:
  assumes ab: "a \<in> N" "b \<in> N" "scheme_type b = scheme_type a" "content_of a \<noteq> content_of b"
    and r: "recurs rec e a" and e: "state_ok e"
  shows "good e (\<lambda>n. equal_same_type h ops n (rec n) a b e) {(a, b)}"
proof -
  let ?t = "scheme_type a"
  have cb: "compound b" if "compound a" using that ab(3) by (simp add: compound_def)
  have shape: "same_shape h a b" if "compound a" "\<not> is_struct a" using that ab(3) by (simp add: same_shape_def)
  have len: "length (parts h x) = 2" if "x \<in> N" "scheme_type x \<in> {scheme_mutable_pair_type, scheme_module_index_type}" for x
    using heap that unfolding heap_ok_def parts_ok_def compound_def by auto
  have len1: "length (parts h x) = 1" if "x \<in> N" "scheme_type x \<in> {scheme_box_type, scheme_resolved_module_path_type}" for x
    using heap that unfolding heap_ok_def parts_ok_def compound_def by auto
  have no: "good e (\<lambda>n. Some (False, e)) {(a, b)}" if "\<not> same_shape h a b \<or> length (parts h a) \<noteq> length (parts h b)"
    by (rule good_no[OF e not_same[OF ab(4) that]])
  consider "?t = scheme_pair_type" | "?t = scheme_mutable_pair_type" | "?t = scheme_vector_type \<or> ?t = scheme_fxvector_type"
    | "?t = scheme_structure_type \<or> ?t = scheme_proc_struct_type" | "?t = scheme_box_type" | "?t = scheme_wrap_chunk_type"
    | "?t = scheme_resolved_module_path_type" | "?t = scheme_module_index_type" | "\<not> compound a"
    by (auto simp: compound_def)
  then show ?thesis
  proof cases
    case 1
    then show ?thesis using good_pair[OF ab(1,2) _ _ ab(4) r e] ab(3) by (simp add: equal_same_type_def SCHEME_PAIRP_def)
  next
    case 2
    then have c: "compound a" "\<not> is_struct a" by (simp_all add: compound_def is_struct_def)
    have l: "length (parts h a) = 2" "length (parts h b) = 2" using len ab 2 by simp_all
    have "good e (\<lambda>n. or_else (union_check ops n a b e) (\<lambda>e1. and_then (rec n (parts h a ! 0) (parts h b ! 0) e1)
        (\<lambda>e1. rec n (parts h a ! 1) (parts h b ! 1) e1))) {(a, b)}"
      by (rule good_union[OF e ab(1,2) reduces_two[OF shape[OF c] ab(4) l],
            of "\<lambda>e1 n. and_then (rec n (parts h a ! 0) (parts h b ! 0) e1) (\<lambda>e1. rec n (parts h a ! 1) (parts h b ! 1) e1)"])
        (rule good_mutable_pair[OF ab(1,2) c(1) cb[OF c(1)] l r])
    with 2 show ?thesis by (simp add: equal_same_type_def equal_mutable_pair_def SCHEME_CAR_def SCHEME_CDR_def)
  next
    case 3
    then have c: "compound a" "\<not> is_struct a" by (auto simp: compound_def is_struct_def)
    have eq: "equal_same_type h ops n (rec n) a b e = or_else (union_check ops n a b e) (\<lambda>e1. vector_equal h (rec n) a b e1)" for n
      using 3 by (auto simp: equal_same_type_def)
    show ?thesis
    proof (cases "length (parts h a) = length (parts h b)")
      case True
      show ?thesis unfolding eq
      proof (rule good_union[OF e ab(1,2) reduces_zip[OF shape[OF c] ab(4) True], of "\<lambda>e1 n. vector_equal h (rec n) a b e1"])
        fix e1 assume e1: "state_ok e1" "left e1 < left e"
        show "good e1 (\<lambda>n. vector_equal h (rec n) a b e1) (set (zip (parts h a) (parts h b)))"
          by (rule good_vector[OF e1(1) ab(1,2) c(1) cb[OF c(1)] True], rule recursD[OF r])
            (use e1(2) part_N[OF ab(1) c(1)] in \<open>simp_all add: smaller_left\<close>)
      qed
    next
      case False
      have "good e (\<lambda>n. or_else (union_check ops n a b e) (\<lambda>e1. Some (False, e1))) {(a, b)}"
        by (rule good_union_no[OF e ab(1,2) not_same[OF ab(4)]]) (use False in simp)
      with False show ?thesis unfolding eq vector_equal_def by simp
    qed
  next
    case 4
    then have "is_struct a" by (auto simp: is_struct_def)
    moreover have "equal_same_type h ops n (rec n) a b e = equal_structure h ops n (rec n) a b e" for n
      using 4 by (auto simp: equal_same_type_def)
    ultimately show ?thesis using good_structure[OF ab(1,2) _ ab(3,4) r e] by simp
  next
    case 5
    then have c: "compound a" "\<not> is_struct a" by (simp_all add: compound_def is_struct_def)
    have l: "length (parts h a) = 1" "length (parts h b) = 1" using len1 ab 5 by simp_all
    have "good e (\<lambda>n. or_else (union_check ops n a b e) (\<lambda>e1. rec n (parts h a ! 0) (parts h b ! 0) e1)) {(a, b)}"
    proof (rule good_union[OF e ab(1,2) reduces_one[OF shape[OF c] ab(4) l], of "\<lambda>e1 n. rec n (parts h a ! 0) (parts h b ! 0) e1"])
      fix e1 assume "state_ok e1" "left e1 < left e"
      then show "good e1 (\<lambda>n. rec n (parts h a ! 0) (parts h b ! 0) e1) {(parts h a ! 0, parts h b ! 0)}"
        using l by (intro recursD[OF r] parts_closed ab(1,2) c(1) cb[OF c(1)] smaller_left) simp_all
    qed
    with 5 show ?thesis by (simp add: equal_same_type_def SCHEME_PTR_VAL_def)
  next
    case 6
    then have c: "compound a" "\<not> is_struct a" by (simp_all add: compound_def is_struct_def)
    have eq: "equal_same_type h ops n (rec n) a b e = vector_equal h (rec n) a b e" for n
      using 6 by (simp add: equal_same_type_def)
    show ?thesis
    proof (cases "length (parts h a) = length (parts h b)")
      case True
      have rk: "rank x < rank a" if "x \<in> set (parts h a)" for x using heap ab(1) 6 that unfolding heap_ok_def by blast
      show ?thesis unfolding eq
        by (rule good_reduce[OF good_vector[OF e ab(1,2) c(1) cb[OF c(1)] True] reduces_zip[OF shape[OF c] ab(4) True]],
            rule recursD[OF r])
          (use part_N[OF ab(1) c(1)] rk in \<open>simp_all add: smaller_rank\<close>)
    next
      case False
      with no show ?thesis unfolding eq vector_equal_def by simp
    qed
  next
    case 7
    then have c: "compound a" "\<not> is_struct a" by (simp_all add: compound_def is_struct_def)
    have l: "length (parts h a) = 1" "length (parts h b) = 1" using len1 ab 7 by simp_all
    have "rank (parts h a ! 0) < rank a" using heap ab(1) 7 l unfolding heap_ok_def by simp
    then have "good e (\<lambda>n. rec n (parts h a ! 0) (parts h b ! 0) e) {(parts h a ! 0, parts h b ! 0)}"
      using l by (intro recursD[OF r] e parts_closed ab(1,2) c(1) cb[OF c(1)] smaller_rank) simp_all
    from good_reduce[OF this reduces_one[OF shape[OF c] ab(4) l]] 7 show ?thesis
      by (simp add: equal_same_type_def SCHEME_PTR_VAL_def)
  next
    case 8
    then have c: "compound a" "\<not> is_struct a" by (simp_all add: compound_def is_struct_def)
    have l: "length (parts h a) = 2" "length (parts h b) = 2" using len ab 8 by simp_all
    from good_reduce[OF good_module_index[OF ab(1,2) 8 _ r e] reduces_two[OF shape[OF c] ab(4) l]] 8 ab(3)
    show ?thesis by (simp add: equal_same_type_def)
  next
    case 9
    then have "equal_same_type h ops n (rec n) a b e = Some (False, e)" for n
      by (auto simp: equal_same_type_def compound_def)
    with no 9 show ?thesis by (simp add: same_shape_def)
  qed
qed

text \<open>\<open>is_equal\<close> keeps the contract for every pair of objects of the heap.\<close>

lemma is_equal_good:
  "state_ok e \<Longrightarrow> a \<in> N \<Longrightarrow> b \<in> N \<Longrightarrow> good e (\<lambda>n. is_equal h ops n a b e) {(a, b)}"
proof (induction "(left e, of_bool (car_depth e \<le> 2) :: nat, rank a)" arbitrary: e a b
    rule: wf_induct_rule[OF wf_lex_prod[OF wf_less_than wf_lex_prod[OF wf_less_than wf_less_than]]])
  case (1 e a b)
  have r: "recurs (is_equal h ops) e a" unfolding recurs_def smaller_def using 1(1) by blast
  let ?c = "is_fast_equal a b False"
  note m = in_heap(1)[OF 1(3)] in_heap(1)[OF 1(4)]
  show ?case
  proof (rule good_Suc, cases "?c > -1")
    case True
    note d = fast_decides[OF True]
    show "good e (\<lambda>n. is_equal h ops (Suc n) a b e) {(a, b)}"
    proof (cases "?c = 0")
      case zero: True
      with d have "content_of a \<noteq> content_of b" "\<not> compound a" by auto
      then have "\<not> {(a, b)} \<subseteq> same_set h" by (intro not_same) (simp_all add: same_shape_def)
      with good_no[OF 1(2) this] True zero show ?thesis by simp
    next
      case False
      with d have "content_of a = content_of b" by auto
      with good_content[OF 1(2) this] True False show ?thesis by simp
    qed
  next
    case False
    have c: "content_of a \<noteq> content_of b" using fast_undecided[OF False] .
    show "good e (\<lambda>n. is_equal h ops (Suc n) a b e) {(a, b)}"
    proof (cases "scheme_type a = scheme_type b")
      case True
      from good_same_type[OF 1(3,4) True[symmetric] c r 1(2)] True False m show ?thesis by simp
    next
      case dif: False
      have "\<not> {(a, b)} \<subseteq> same_set h" using dif by (intro not_same c) (simp add: same_shape_def)
      from good_no[OF 1(2) this] dif False m show ?thesis by simp
    qed
  qed
qed

text \<open>\<open>scheme_equal\<close> ends, decides \<open>same_data\<close>, and leaves the flags of pairs right.\<close>

lemma scheme_equal_ends:
  assumes fl: "flags_ok h N flags" and ab: "a \<in> N" "b \<in> N"
  shows "\<exists>flags'. ends (\<lambda>n. scheme_equal h ops n flags a b) (same_data h a b, flags') \<and> flags_ok h N flags'"
proof (cases "is_fast_equal a b False > -1")
  case True
  note d = fast_decides[OF True]
  have "same_data h a b \<longleftrightarrow> content_of a = content_of b"
    using d by (auto simp: same_shape_def intro: same_content elim: same_data.cases)
  with d True fl show ?thesis by (intro exI[of _ flags]) (simp add: scheme_equal_def)
next
  case False
  let ?e = "\<lparr>eq_depth = 1, car_depth = 1, eq_ht = None, pair_flags = flags\<rparr>"
  have p: "par ?e = (\<lambda>k. None)" by (simp add: fun_eq_iff eq_table_def parent_make)
  have t: "eq_table ?e = scheme_make_hash_table" by (simp add: eq_table_def)
  have c: "classes ?e \<subseteq> same_set h"
    by (simp only: classes_def p joined_empty) (auto simp: same_set_def same_data_refl)
  have "state_ok ?e" unfolding state_ok_def fresh_def p unfolding t
    using room_make[OF small] fl by (simp add: forest_def)
  from is_equal_good[OF this ab] obtain r e' where r: "ends (\<lambda>n. is_equal h ops n a b ?e) (r, e')" "state_ok e'" "left e' \<le> left ?e"
    "r \<longrightarrow> car_depth e' = car_depth ?e \<and> sound ?e e' {(a, b)}" "classes ?e \<subseteq> same_set h \<longrightarrow> {(a, b)} \<subseteq> same_set h \<longrightarrow> r"
    by (rule goodE)
  have "r \<longleftrightarrow> same_data h a b" using r(4,5) c sound_same(1)[OF _ c, of e' "{(a, b)}"] by (auto simp: same_set_def)
  moreover have "ends (\<lambda>n. scheme_equal h ops n flags a b) (r, pair_flags e')"
    using ends_map[OF r(1), of "\<lambda>(same, eql). (same, pair_flags eql)"] False by (simp add: scheme_equal_def is_slow_equal_def)
  moreover have "flags_ok h N (pair_flags e')" using r(2) by (simp add: state_ok_def)
  ultimately show ?thesis by blast
qed

end

subsection \<open>The interpretation\<close>

text \<open>The parts of heaps on which \<open>equal?\<close> works, for tables keyed by address.\<close>

typedef heap_part = "{(h, N, rank). heap_ok h N rank \<and> card N \<le> 2 ^ 27}"
  by (rule exI[of _ "(undefined, {}, \<lambda>x. 0)"]) (simp add: heap_ok_def)

definition heap_of :: "heap_part \<Rightarrow> heap" where "heap_of w = fst (Rep_heap_part w)"
definition nodes_of :: "heap_part \<Rightarrow> obj set" where "nodes_of w = fst (snd (Rep_heap_part w))"
definition rank_of :: "heap_part \<Rightarrow> obj \<Rightarrow> nat" where "rank_of w = snd (snd (Rep_heap_part w))"

interpretation data: equal_heap "address_ops ptr" "table_room ptr" "2 ^ 27" "heap_of w" "nodes_of w" "rank_of w" for ptr w
  using Rep_heap_part[of w] by unfold_locales (auto simp: heap_of_def nodes_of_def rank_of_def split: prod.splits)

lemma heap_part_of:
  assumes "heap_ok h N rank" "card N \<le> 2 ^ 27"
  obtains w where "heap_of w = h" "nodes_of w = N" "rank_of w = rank"
proof -
  have "Rep_heap_part (Abs_heap_part (h, N, rank)) = (h, N, rank)"
    by (rule Abs_heap_part_inverse) (use assms in auto)
  then show thesis using that[of "Abs_heap_part (h, N, rank)"] by (simp add: heap_of_def nodes_of_def rank_of_def)
qed

end
