(* ===== verification/Equal_Hash.thy ===== *)
theory Equal_Hash
  imports Equal_Hash_Code Equal_Correct
begin

unbundle bit_operations_syntax

section \<open>The same data has the same hash codes\<close>

text \<open>
  \<open>agree\<close> relates two runs of a hash function, on objects of the same data: both end, with the same code
  and depth, and with right flags of pairs. One induction, over the depth that is left and the rank of
  the object, shows it for \<open>equal_hash_key\<close> and another for \<open>equal_hash_key2\<close>.
\<close>

subsection \<open>Objects without parts\<close>

lemma content_other: "content_of (Other t hdr) = content_of b \<Longrightarrow> b = Other t hdr"
  by (cases b) auto

lemma real_type_view: "eqv_real a = eqv_real b \<Longrightarrow> real_type a = real_type b"
proof (cases a)
  case (Integer i)
  moreover assume "eqv_real a = eqv_real b"
  ultimately obtain j where "b = Integer j" "eqv_int i = eqv_int j" by (cases b) auto
  with Integer show ?thesis by (cases i; cases j) auto
qed (cases b; auto)+

lemma content_type: "content_of a = content_of b \<Longrightarrow> scheme_type a = scheme_type b"
  by (cases a; cases b) (auto dest: real_type_view)

lemma real_hash_view_fun: "eqv_real a = eqv_real b \<Longrightarrow> real_hash_key a = real_hash_key b"
  by (rule ext) (rule real_hash_view)

lemma content_fast:
  assumes c: "content_of a = content_of b"
  shows "fast_equal_hash_key a k dn = fast_equal_hash_key b k dn"
proof (cases a)
  case (Complex hdr r i)
  with c obtain hdr' r' i' where "b = Complex hdr' r' i'" "eqv_real r = eqv_real r'" "eqv_real i = eqv_real i'"
    by (cases b) auto
  then show ?thesis using Complex by (simp add: fast_equal_hash_key_def real_hash_view_fun[of r r'] real_hash_view_fun[of i i'])
next
  case (Real r)
  with c obtain r' where "b = Real r'" "eqv_real r = eqv_real r'" by (cases b) auto
  then show ?thesis using Real by (simp add: fast_equal_hash_key_def real_hash_view_fun[of r r'])
qed (use c in \<open>cases b; simp add: fast_equal_hash_key_def Let_def\<close>)+

lemma flvector_hash:
  assumes "\<And>d. MZ_IS_NAN d \<Longrightarrow> v d = c" "map dbl_content xs = map dbl_content ys"
  shows "hash_flvector v xs k = hash_flvector v ys k"
proof -
  have v: "v x = v y" if "dbl_content x = dbl_content y" for x y
    using that assms(1)[of x] assms(1)[of y] by (cases "MZ_IS_NAN x"; cases "MZ_IS_NAN y") (simp_all add: dbl_content_def)
  from assms(2) have "list_all2 (\<lambda>x y. dbl_content x = dbl_content y) xs ys"
    by (simp add: list_all2_conv_all_nth list_eq_iff_nth_eq)
  then have "foldl (\<lambda>k d. push_bit 5 k + k + v d) k xs = foldl (\<lambda>k d. push_bit 5 k + k + v d) k ys" for k
  proof (induction arbitrary: k rule: list_all2_induct)
    case (Cons x xs y ys)
    then show ?case using v[of x y] by simp
  qed simp
  moreover have "xs = [] \<longleftrightarrow> ys = []" using assms(2) by (metis map_is_Nil_conv)
  ultimately show ?thesis by (simp add: hash_flvector_def)
qed

subsection \<open>Agreeing runs\<close>

definition like :: "heap \<Rightarrow> obj set \<Rightarrow> hash_info \<Rightarrow> hash_info \<Rightarrow> bool" where
  "like h N hi1 hi2 \<longleftrightarrow> hash_depth hi1 = hash_depth hi2 \<and>
     flags_ok h N (hash_flags hi1) \<and> flags_ok h N (hash_flags hi2)"

definition agree :: "(hash_info \<Rightarrow> hash_info \<Rightarrow> bool) \<Rightarrow> int \<Rightarrow> (nat \<Rightarrow> ('v \<times> hash_info) option) \<Rightarrow>
    (nat \<Rightarrow> ('v \<times> hash_info) option) \<Rightarrow> bool" where
  "agree L d f g \<longleftrightarrow> (\<exists>k hi1 hi2. ends f (k, hi1) \<and> ends g (k, hi2) \<and> L hi1 hi2 \<and> d \<le> hash_depth hi1)"

lemma agreeE:
  assumes "agree L d f g"
  obtains k hi1 hi2 where "ends f (k, hi1)" "ends g (k, hi2)" "L hi1 hi2" "d \<le> hash_depth hi1"
  using assms unfolding agree_def by blast

lemma agree_return: "L hi1 hi2 \<Longrightarrow> d \<le> hash_depth hi1 \<Longrightarrow> agree L d (\<lambda>n. Some (k, hi1)) (\<lambda>n. Some (k, hi2))"
  unfolding agree_def by (intro exI[of _ k] exI[of _ hi1] exI[of _ hi2]) simp

lemma agree_bind:
  assumes "agree L d f g"
    and "\<And>v hi1 hi2. L hi1 hi2 \<Longrightarrow> d \<le> hash_depth hi1 \<Longrightarrow> agree L d' (F v hi1) (G v hi2)"
  shows "agree L d' (\<lambda>n. case f n of None \<Rightarrow> None | Some (v, hi) \<Rightarrow> F v hi n)
    (\<lambda>n. case g n of None \<Rightarrow> None | Some (v, hi) \<Rightarrow> G v hi n)"
proof -
  from assms(1) obtain v hi1 hi2 where f: "ends f (v, hi1)" "ends g (v, hi2)" "L hi1 hi2" "d \<le> hash_depth hi1"
    by (rule agreeE)
  from assms(2)[OF f(3,4), of v] obtain k hi1' hi2' where g: "ends (F v hi1) (k, hi1')" "ends (G v hi2) (k, hi2')"
    "L hi1' hi2'" "d' \<le> hash_depth hi1'" by (rule agreeE)
  from ends_bind_pair[of f v hi1 F, OF f(1) g(1)] ends_bind_pair[of g v hi2 G, OF f(2) g(2)] g(3,4)
  show ?thesis unfolding agree_def by blast
qed

lemma agree_Suc: "agree L d (\<lambda>n. f (Suc n)) (\<lambda>n. g (Suc n)) \<Longrightarrow> agree L d f g"
  unfolding agree_def by (blast intro: ends_Suc)

lemma agree_mono: "agree L d f g \<Longrightarrow> d' \<le> d \<Longrightarrow> agree L d' f g"
  unfolding agree_def by fastforce

lemma like_deeper: "like h N hi1 hi2 \<Longrightarrow> like h N (deeper hi1) (deeper hi2)"
  by (simp add: like_def)

context data_heap
begin

lemma same_compound:
  assumes "same_data h a b" "compound a"
  shows "scheme_type b = scheme_type a" "compound b" "list_all2 (same_data h) (parts h a) (parts h b)"
    "is_struct a \<Longrightarrow> struct_type h b = struct_type h a" "is_struct a \<Longrightarrow> \<not> visible h (struct_type h a) \<Longrightarrow> b = a"
proof -
  consider "b = a" | "same_shape h a b" "list_all2 (same_data h) (parts h a) (parts h b)"
    using assms content_compound by (auto elim: same_data.cases)
  then have "scheme_type b = scheme_type a \<and> list_all2 (same_data h) (parts h a) (parts h b) \<and>
    (is_struct a \<longrightarrow> struct_type h b = struct_type h a) \<and> (is_struct a \<longrightarrow> \<not> visible h (struct_type h a) \<longrightarrow> b = a)"
    by cases (auto simp: same_shape_def same_data_refl list_all2_same)
  then show "scheme_type b = scheme_type a" "list_all2 (same_data h) (parts h a) (parts h b)"
    "is_struct a \<Longrightarrow> struct_type h b = struct_type h a" "is_struct a \<Longrightarrow> \<not> visible h (struct_type h a) \<Longrightarrow> b = a"
    by blast+
  then show "compound b" using assms(2) by (simp add: compound_def)
qed

lemma same_part:
  assumes "same_data h a b" "compound a" "i < length (parts h a)"
  shows "same_data h (parts h a ! i) (parts h b ! i)"
  using same_compound(3)[OF assms(1,2)] assms(3) by (auto dest: list_all2_nthD)

lemma same_simple: "same_data h a b \<Longrightarrow> \<not> compound a \<Longrightarrow> content_of a = content_of b"
  by (erule same_data.cases) (simp_all add: same_shape_def)

lemma same_type: "same_data h a b \<Longrightarrow> scheme_type b = scheme_type a"
proof (cases "compound a")
  case False
  assume "same_data h a b"
  from content_type[OF same_simple[OF this False]] show ?thesis by simp
qed (rule same_compound(1))

lemma same_proper:
  assumes "proper_list h a" "same_data h a b" "a \<in> N" "b \<in> N"
  shows "proper_list h b"
  using assms
proof (induction arbitrary: b rule: proper_list.induct)
  case (null a)
  then have "\<not> compound a" by (simp add: SCHEME_NULLP_def compound_def)
  from content_type[OF same_simple[OF null(2) this]] null(1) show ?case
    by (intro proper_list.null) (simp add: SCHEME_NULLP_def)
next
  case (pair a)
  note p = pair_parts[OF pair.prems(2) pair(1)] and c = same_compound[OF pair.prems(1)]
  have b: "SCHEME_PAIRP b" using c(1) p(1) pair(1) by (simp add: SCHEME_PAIRP_def)
  have "same_data h (SCHEME_CDR h a) (SCHEME_CDR h b)"
    using same_part[OF pair.prems(1) p(1), of 1] p(2) by (simp add: SCHEME_CDR_def)
  from proper_list.pair[OF b pair.IH[OF this p(4) pair_parts(4)[OF pair.prems(3) b]]] show ?case .
qed

lemma same_proper_iff: "same_data h a b \<Longrightarrow> a \<in> N \<Longrightarrow> b \<in> N \<Longrightarrow> proper_list h a \<longleftrightarrow> proper_list h b"
  using same_proper[of a b] same_proper[of b a] same_data_sym by blast

lemma is_list_agree:
  assumes "same_data h a b" "a \<in> N" "b \<in> N" "like h N hi1 hi2"
  shows "\<exists>f1 f2. ends (\<lambda>n. scheme_is_list h n a (hash_flags hi1)) (proper_list h a, f1) \<and>
    ends (\<lambda>n. scheme_is_list h n b (hash_flags hi2)) (proper_list h a, f2) \<and> flags_ok h N f1 \<and> flags_ok h N f2"
proof -
  have closed: "\<And>x. x \<in> N \<Longrightarrow> SCHEME_PAIRP x \<Longrightarrow> SCHEME_CDR h x \<in> N" using pair_parts by blast
  have "flags_ok h N (hash_flags hi1)" "flags_ok h N (hash_flags hi2)" using assms(4) by (simp_all add: like_def)
  from scheme_is_list_ends[OF closed this(1) assms(2)] scheme_is_list_ends[OF closed this(2) assms(3)]
    same_proper_iff[OF assms(1-3)] show ?thesis by auto
qed

subsection \<open>The first code\<close>

text \<open>Calls on the same data in \<open>X\<close> agree from the depth \<open>d\<close> on.\<close>

definition ready :: "(nat \<Rightarrow> hash_rec) \<Rightarrow> int \<Rightarrow> obj set \<Rightarrow> bool" where
  "ready rec d X \<longleftrightarrow> (\<forall>x y k hi1 hi2. x \<in> X \<longrightarrow> x \<in> N \<longrightarrow> y \<in> N \<longrightarrow> same_data h x y \<longrightarrow> like h N hi1 hi2 \<longrightarrow>
     d \<le> hash_depth hi1 \<longrightarrow> agree (like h N) (hash_depth hi1) (\<lambda>n. rec n x k hi1) (\<lambda>n. rec n y k hi2))"

lemma readyD:
  "ready rec d X \<Longrightarrow> x \<in> X \<Longrightarrow> x \<in> N \<Longrightarrow> y \<in> N \<Longrightarrow> same_data h x y \<Longrightarrow> like h N hi1 hi2 \<Longrightarrow> d \<le> hash_depth hi1 \<Longrightarrow>
   agree (like h N) (hash_depth hi1) (\<lambda>n. rec n x k hi1) (\<lambda>n. rec n y k hi2)"
  unfolding ready_def by blast

lemma agree_bind_ready:
  assumes "ready rec d X" "x \<in> X" "x \<in> N" "y \<in> N" "same_data h x y" "like h N hi1 hi2" "d \<le> hash_depth hi1"
    and "\<And>v hi1' hi2'. like h N hi1' hi2' \<Longrightarrow> hash_depth hi1 \<le> hash_depth hi1' \<Longrightarrow> agree (like h N) e (F v hi1') (G v hi2')"
  shows "agree (like h N) e (\<lambda>n. case rec n x k hi1 of None \<Rightarrow> None | Some (v, hi) \<Rightarrow> F v hi n)
    (\<lambda>n. case rec n y k hi2 of None \<Rightarrow> None | Some (v, hi) \<Rightarrow> G v hi n)"
  by (rule agree_bind[OF readyD[OF assms(1-7)] assms(8)])

lemma elements_agree:
  assumes "list_all2 (same_data h) xs ys" "set xs \<subseteq> N" "set ys \<subseteq> N" "set xs \<subseteq> X" "ready rec d X"
    "like h N hi1 hi2" "d \<le> hash_depth hi1"
  shows "agree (like h N) (hash_depth hi1) (\<lambda>n. hash_elements (rec n) xs k hi1) (\<lambda>n. hash_elements (rec n) ys k hi2)"
  using assms
proof (induction arbitrary: k hi1 hi2 rule: list_all2_induct)
  case Nil
  then show ?case by (simp add: agree_return)
next
  case (Cons x xs y ys)
  show ?case unfolding hash_elements.simps
  proof (rule agree_bind_ready[OF Cons.prems(4) _ _ _ Cons.hyps(1) Cons.prems(5,6)])
    fix v hi1' hi2' assume "like h N hi1' hi2'" "hash_depth hi1 \<le> hash_depth hi1'"
    with Cons show "agree (like h N) (hash_depth hi1)
        (\<lambda>n. hash_elements (rec n) xs (push_bit 5 k + k + scast (ucast v :: 32 word)) hi1')
        (\<lambda>n. hash_elements (rec n) ys (push_bit 5 k + k + scast (ucast v :: 32 word)) hi2')"
      by (intro agree_mono[OF Cons.IH]) auto
  qed (use Cons.prems in auto)
qed

lemma slots_agree:
  assumes "\<And>j. j < i \<Longrightarrow> same_data h (parts h a ! j) (parts h b ! j) \<and> parts h a ! j \<in> N \<and> parts h b ! j \<in> N"
    and "ready rec d N" "like h N hi1 hi2" "d \<le> hash_depth hi1"
  shows "agree (like h N) (hash_depth hi1) (\<lambda>n. hash_slots h (rec n) a i k hi1) (\<lambda>n. hash_slots h (rec n) b i k hi2)"
  using assms
proof (induction i arbitrary: k hi1 hi2)
  case 0
  then show ?case by (simp add: agree_return)
next
  case (Suc i)
  have p: "same_data h (parts h a ! i) (parts h b ! i)" "parts h a ! i \<in> N" "parts h b ! i \<in> N" using Suc.prems(1) by simp_all
  show ?case unfolding hash_slots.simps
  proof (rule agree_bind_ready[OF Suc.prems(2) p(2,2,3,1) Suc.prems(3,4)])
    fix v hi1' hi2' assume l: "like h N hi1' hi2'" "hash_depth hi1 \<le> hash_depth hi1'"
    show "agree (like h N) (hash_depth hi1) (\<lambda>n. hash_slots h (rec n) a i (MZ_MIX (k + v)) hi1')
        (\<lambda>n. hash_slots h (rec n) b i (MZ_MIX (k + v)) hi2')"
      by (rule agree_mono[OF Suc.IH l(2)]) (use Suc.prems l in auto)
  qed
qed

lemma parts_same:
  assumes "same_data h a b" "a \<in> N" "b \<in> N" "compound a"
  shows "length (parts h b) = length (parts h a)" "set (parts h a) \<subseteq> N" "set (parts h b) \<subseteq> N"
    "\<And>i. i < length (parts h a) \<Longrightarrow> same_data h (parts h a ! i) (parts h b ! i) \<and> parts h a ! i \<in> N \<and> parts h b ! i \<in> N"
proof -
  note c = same_compound[OF assms(1,4)]
  show l: "length (parts h b) = length (parts h a)" using c(3) by (simp add: list_all2_lengthD)
  show s: "set (parts h a) \<subseteq> N" "set (parts h b) \<subseteq> N" using part_N assms c(2) by blast+
  show "same_data h (parts h a ! i) (parts h b ! i) \<and> parts h a ! i \<in> N \<and> parts h b ! i \<in> N" if "i < length (parts h a)" for i
    using that same_part[OF assms(1,4) that] s l by (metis nth_mem subset_eq)
qed

lemma pair_same:
  assumes "same_data h a b" "a \<in> N" "b \<in> N" "compound a" "length (parts h a) = 2"
  shows "same_data h (parts h a ! 0) (parts h b ! 0)" "same_data h (parts h a ! 1) (parts h b ! 1)"
    "parts h a ! 0 \<in> N" "parts h b ! 0 \<in> N" "parts h a ! 1 \<in> N" "parts h b ! 1 \<in> N"
  using parts_same(4)[OF assms(1-4)] assms(5) by simp_all

lemma hash_pair_agree:
  assumes ab: "same_data h a b" "a \<in> N" "b \<in> N" "SCHEME_PAIRP a" and l: "like h N hi1 hi2"
    and r: "ready rec (hash_depth hi1 + 2) N" "ready rec (hash_depth hi1) {x. rank x < rank a}"
  shows "agree (like h N) (hash_depth hi1) (\<lambda>n. hash_pair h n (rec n) a k hi1) (\<lambda>n. hash_pair h n (rec n) b k hi2)"
proof -
  note p = pair_parts[OF ab(2,4)]
  note s = pair_same[OF ab(1-3) p(1,2), folded SCHEME_CAR_def SCHEME_CDR_def]
  show ?thesis unfolding hash_pair_def
  proof (rule agree_bind_ready[OF r(1) s(3,3,4,1) like_deeper[OF l]])
    fix v i1 i2 assume i: "like h N i1 i2" "hash_depth (deeper hi1) \<le> hash_depth i1"
    from is_list_agree[OF ab(1-3) i(1)] obtain f1 f2
      where f: "ends (\<lambda>n. scheme_is_list h n a (hash_flags i1)) (proper_list h a, f1)"
        "ends (\<lambda>n. scheme_is_list h n b (hash_flags i2)) (proper_list h a, f2)" "flags_ok h N f1" "flags_ok h N f2" by blast
    let ?d = "if proper_list h a then hash_depth i1 - 2 else hash_depth i1"
    let ?j1 = "i1\<lparr>hash_depth := ?d, hash_flags := f1\<rparr>" and ?j2 = "i2\<lparr>hash_depth := ?d, hash_flags := f2\<rparr>"
    have jl: "like h N ?j1 ?j2" using f(3,4) by (simp add: like_def)
    have d2: "hash_depth i2 = hash_depth i1" using i(1) by (simp add: like_def)
    have dd: "hash_depth hi1 \<le> ?d" using i(2) by simp
    let ?k = "MZ_MIX (push_bit 3 k + k + v)"
    have "agree (like h N) (hash_depth ?j1) (\<lambda>n. rec n (SCHEME_CDR h a) ?k ?j1) (\<lambda>n. rec n (SCHEME_CDR h b) ?k ?j2)"
    proof (cases "proper_list h a")
      case True
      then have "rank (SCHEME_CDR h a) < rank a" using heap ab(2,4) unfolding heap_ok_def by blast
      then show ?thesis using dd by (intro readyD[OF r(2) _ s(5,6,2) jl]) simp_all
    next
      case False
      then show ?thesis using i(2) by (intro readyD[OF r(1) s(5,5,6,2) jl]) simp
    qed
    then obtain w e1 e2 where e: "ends (\<lambda>n. rec n (SCHEME_CDR h a) ?k ?j1) (w, e1)" "ends (\<lambda>n. rec n (SCHEME_CDR h b) ?k ?j2) (w, e2)"
      "like h N e1 e2" "hash_depth ?j1 \<le> hash_depth e1" by (rule agreeE)
    have le: "hash_depth hi1 \<le> hash_depth e1" using dd e(4) by simp
    have "ends (\<lambda>n. case scheme_is_list h n a (hash_flags i1) of None \<Rightarrow> None | Some (is_list, flags) \<Rightarrow>
         rec n (SCHEME_CDR h a) ?k (i1\<lparr>hash_depth := if is_list then hash_depth i1 - 2 else hash_depth i1, hash_flags := flags\<rparr>)) (w, e1)"
      by (rule ends_bind_pair[OF f(1)]) (rule e(1))
    moreover have "ends (\<lambda>n. case scheme_is_list h n b (hash_flags i2) of None \<Rightarrow> None | Some (is_list, flags) \<Rightarrow>
         rec n (SCHEME_CDR h b) ?k (i2\<lparr>hash_depth := if is_list then hash_depth i2 - 2 else hash_depth i2, hash_flags := flags\<rparr>)) (w, e2)"
      by (rule ends_bind_pair[OF f(2)]) (simp only: d2 e(2))
    ultimately show "agree (like h N) (hash_depth hi1)
       (\<lambda>n. case scheme_is_list h n a (hash_flags i1) of None \<Rightarrow> None | Some (is_list, flags) \<Rightarrow>
         rec n (SCHEME_CDR h a) ?k (i1\<lparr>hash_depth := if is_list then hash_depth i1 - 2 else hash_depth i1, hash_flags := flags\<rparr>))
       (\<lambda>n. case scheme_is_list h n b (hash_flags i2) of None \<Rightarrow> None | Some (is_list, flags) \<Rightarrow>
         rec n (SCHEME_CDR h b) ?k (i2\<lparr>hash_depth := if is_list then hash_depth i2 - 2 else hash_depth i2, hash_flags := flags\<rparr>))"
      using e(3) le unfolding agree_def by blast
  qed simp
qed

lemma hash_two_agree:
  assumes ab: "same_data h a b" "a \<in> N" "b \<in> N" "compound a" "length (parts h a) = 2" and l: "like h N hi1 hi2"
    and r: "ready rec (hash_depth hi1 + 2) N"
  shows "agree (like h N) (hash_depth hi1)
    (\<lambda>n. case rec n (parts h a ! 0) 0 (deeper hi1) of None \<Rightarrow> None | Some (v, hi) \<Rightarrow> rec n (parts h a ! 1) (F v) hi)
    (\<lambda>n. case rec n (parts h b ! 0) 0 (deeper hi2) of None \<Rightarrow> None | Some (v, hi) \<Rightarrow> rec n (parts h b ! 1) (F v) hi)"
proof -
  note s = pair_same[OF ab]
  show ?thesis
  proof (rule agree_bind_ready[OF r s(3,3,4,1) like_deeper[OF l]])
    fix v i1 i2 assume i: "like h N i1 i2" "hash_depth (deeper hi1) \<le> hash_depth i1"
    then show "agree (like h N) (hash_depth hi1) (\<lambda>n. rec n (parts h a ! 1) (F v) i1) (\<lambda>n. rec n (parts h b ! 1) (F v) i2)"
      by (intro agree_mono[OF readyD[OF r s(5,5,6,2)]]) simp_all
  qed simp
qed

lemma hash_vector_agree:
  assumes ab: "same_data h a b" "a \<in> N" "b \<in> N" "compound a" and l: "like h N hi1 hi2"
    and r: "ready rec (hash_depth hi1 + 2) N"
  shows "agree (like h N) (hash_depth hi1) (\<lambda>n. hash_vector h (rec n) a k hi1) (\<lambda>n. hash_vector h (rec n) b k hi2)"
proof (cases "parts h a = []")
  case True
  with parts_same(1)[OF ab] l show ?thesis by (simp add: hash_vector_def agree_return)
next
  case False
  note p = parts_same[OF ab]
  have ne: "parts h b \<noteq> []" using False p(1) by auto
  have but: "list_all2 (same_data h) (butlast (parts h a)) (butlast (parts h b))"
    using p(1,4) by (auto simp: list_all2_conv_all_nth nth_butlast)
  have lst: "same_data h (last (parts h a)) (last (parts h b))" "last (parts h a) \<in> N" "last (parts h b) \<in> N"
    using p(1) p(4)[of "length (parts h a) - 1"] False ne by (simp_all add: last_conv_nth)
  have sub: "set (butlast (parts h a)) \<subseteq> N" "set (butlast (parts h b)) \<subseteq> N"
    using p(2,3) by (auto dest: in_set_butlastD)
  have short: "\<not> 2 ^ 31 \<le> length (parts h a)" "\<not> 2 ^ 31 \<le> length (parts h b)"
    using in_heap(3)[OF ab(2,4)] p(1) by simp_all
  show ?thesis unfolding hash_vector_def if_not_P[OF short(1)] if_not_P[OF short(2)] if_not_P[OF False] if_not_P[OF ne]
  proof (rule agree_bind)
    show "agree (like h N) (hash_depth (deeper hi1)) (\<lambda>n. hash_elements (rec n) (butlast (parts h a)) k (deeper hi1))
        (\<lambda>n. hash_elements (rec n) (butlast (parts h b)) k (deeper hi2))"
      by (rule elements_agree[OF but sub sub(1) r like_deeper[OF l]]) simp
  next
    fix v i1 i2 assume "like h N i1 i2" "hash_depth (deeper hi1) \<le> hash_depth i1"
    then show "agree (like h N) (hash_depth hi1) (\<lambda>n. rec n (last (parts h a)) (MZ_MIX v) i1) (\<lambda>n. rec n (last (parts h b)) (MZ_MIX v) i2)"
      by (intro agree_mono[OF readyD[OF r lst(2,2,3,1)]]) simp_all
  qed
qed

lemma hash_structure_agree:
  assumes ab: "same_data h a b" "a \<in> N" "b \<in> N" "compound a" "is_struct a" and l: "like h N hi1 hi2"
    and r: "ready rec (hash_depth hi1 + 2) N"
  shows "agree (like h N) (hash_depth hi1) (\<lambda>n. hash_structure h ptr (rec n) a k hi1) (\<lambda>n. hash_structure h ptr (rec n) b k hi2)"
proof (cases "visible h (struct_type h a)")
  case True
  note p = parts_same[OF ab(1-4)]
  have "visible h (struct_type h b)" "\<not> has_procs h (struct_type h b)" "\<not> has_procs h (struct_type h a)"
    using True same_compound(4)[OF ab(1,4,5)] in_heap(2)[OF ab(2,5)] by simp_all
  moreover have "agree (like h N) (hash_depth hi1) (\<lambda>n. hash_slots h (rec n) a (length (parts h a)) k (deeper hi1))
      (\<lambda>n. hash_slots h (rec n) b (length (parts h a)) k (deeper hi2))"
    by (rule agree_mono[OF slots_agree[OF p(4) r like_deeper[OF l]]]) simp_all
  ultimately show ?thesis using True p(1) by (simp add: hash_structure_def)
next
  case False
  with same_compound(5)[OF ab(1,4,5)] in_heap(2)[OF ab(2,5)] l show ?thesis by (simp add: hash_structure_def agree_return)
qed

lemma hash_by_type_agree:
  assumes ab: "same_data h a b" "a \<in> N" "b \<in> N" and slow: "fast_equal_hash_key a k True = (k2, False)"
    and l: "like h N hi1 hi2"
    and r: "ready rec (hash_depth hi1 + 2) N" "ready rec (hash_depth hi1) {x. rank x < rank a}"
  shows "agree (like h N) (hash_depth hi1) (\<lambda>n. hash_by_type h ptr n (rec n) a k hi1) (\<lambda>n. hash_by_type h ptr n (rec n) b k hi2)"
proof (cases "compound a")
  case False
  note c = same_simple[OF ab(1) False]
  consider ds hdr where "a = Flvector hdr ds" | t hdr where "a = Other t hdr"
    using slow by (cases a) (auto simp: fast_equal_hash_key_def Let_def)
  then show ?thesis
  proof cases
    case (1 ds hdr)
    with c obtain ds' hdr' where b: "b = Flvector hdr' ds'" "map dbl_content ds = map dbl_content ds'" by (cases b) auto
    have "hash_flvector dbl_hash_val ds k = hash_flvector dbl_hash_val ds' k"
      by (rule flvector_hash[OF dbl_hash_nan b(2)])
    with 1 b(1) l show ?thesis by (simp add: hash_by_type_def agree_return)
  next
    case (2 t hdr)
    with c content_other have "b = a" by metis
    moreover have "hash_by_type h ptr n (rec n) a k hi = Some (k + ptr a, hi)" for n hi
      using False 2 by (auto simp: hash_by_type_def compound_def)
    ultimately show ?thesis using l by (simp add: agree_return)
  qed
next
  case True
  note c = same_compound[OF ab(1) True]
  obtain t hdr t' hdr' where o: "a = Other t hdr" "b = Other t' hdr'" using compound_other True c(2) by metis
  have t: "t' = t" using c(1) o by simp
  have p: "parts_ok h a" using heap ab(2) True unfolding heap_ok_def by blast
  note r0 = readyD[OF r(2)]
  consider "t = scheme_pair_type" | "t = scheme_mutable_pair_type"
    | "t \<in> {scheme_vector_type, scheme_fxvector_type, scheme_wrap_chunk_type}"
    | "t = scheme_structure_type \<or> t = scheme_proc_struct_type" | "t = scheme_box_type"
    | "t = scheme_resolved_module_path_type" | "t = scheme_module_index_type"
    using True o by (auto simp: compound_def)
  then show ?thesis
  proof cases
    case 1
    then show ?thesis using hash_pair_agree[OF ab _ l r] o t by (simp add: hash_by_type_def SCHEME_PAIRP_def)
  next
    case 2
    then have "length (parts h a) = 2" using p o by (simp add: parts_ok_def)
    note two = hash_two_agree[OF ab True this l r(1), of "\<lambda>v. MZ_MIX (push_bit 3 k + k + v)"]
    have "hash_by_type h ptr n (rec n) a k hi = hash_mutable_pair h (rec n) a k hi"
      "hash_by_type h ptr n (rec n) b k hi = hash_mutable_pair h (rec n) b k hi" for n hi
      using 2 o t by (simp_all add: hash_by_type_def)
    then show ?thesis unfolding hash_mutable_pair_def SCHEME_CAR_def SCHEME_CDR_def using two by simp
  next
    case 3
    then show ?thesis using hash_vector_agree[OF ab True l r(1)] o t by (auto simp: hash_by_type_def)
  next
    case 4
    then have "is_struct a" using o by (auto simp: is_struct_def)
    from hash_structure_agree[OF ab True this l r(1)] 4 o t show ?thesis by (auto simp: hash_by_type_def)
  next
    case 5
    then have "length (parts h a) = 1" using p o by (simp add: parts_ok_def)
    with parts_same(4)[OF ab True] have s: "same_data h (parts h a ! 0) (parts h b ! 0)" "parts h a ! 0 \<in> N" "parts h b ! 0 \<in> N"
      by simp_all
    have "agree (like h N) (hash_depth hi1) (\<lambda>n. rec n (parts h a ! 0) (MZ_MIX (k + 1)) (deeper hi1))
        (\<lambda>n. rec n (parts h b ! 0) (MZ_MIX (k + 1)) (deeper hi2))"
      by (rule agree_mono[OF readyD[OF r(1) s(2,2,3,1) like_deeper[OF l]]]) simp_all
    with 5 o t show ?thesis by (simp add: hash_by_type_def SCHEME_PTR_VAL_def)
  next
    case 6
    then have n: "length (parts h a) = 1" using p o by (simp add: parts_ok_def)
    with parts_same(4)[OF ab True] have s: "same_data h (parts h a ! 0) (parts h b ! 0)" "parts h a ! 0 \<in> N" "parts h b ! 0 \<in> N"
      by simp_all
    have "rank (parts h a ! 0) < rank a" using heap ab(2) 6 o n unfolding heap_ok_def by simp
    then have "agree (like h N) (hash_depth hi1) (\<lambda>n. rec n (parts h a ! 0) (MZ_MIX (k + 7)) hi1)
        (\<lambda>n. rec n (parts h b ! 0) (MZ_MIX (k + 7)) hi2)"
      by (intro r0 s l) simp_all
    with 6 o t show ?thesis by (simp add: hash_by_type_def SCHEME_PTR_VAL_def)
  next
    case 7
    then have "length (parts h a) = 2" using p o by (simp add: parts_ok_def)
    note two = hash_two_agree[OF ab True this l r(1), of "\<lambda>v. MZ_MIX (push_bit 3 (k + 1) + (k + 1) + v)"]
    have "hash_by_type h ptr n (rec n) a k hi = hash_module_index h (rec n) a k hi"
      "hash_by_type h ptr n (rec n) b k hi = hash_module_index h (rec n) b k hi" for n hi
      using 7 o t by (simp_all add: hash_by_type_def)
    then show ?thesis unfolding hash_module_index_def Let_def using two by simp
  qed
qed

text \<open>\<open>equal_hash_key\<close> ends, with the same code for the same data.\<close>

lemma equal_hash_key_agree:
  "same_data h a b \<Longrightarrow> a \<in> N \<Longrightarrow> b \<in> N \<Longrightarrow> like h N hi1 hi2 \<Longrightarrow>
   agree (like h N) (hash_depth hi1) (\<lambda>n. equal_hash_key h ptr n a k hi1) (\<lambda>n. equal_hash_key h ptr n b k hi2)"
proof (induction "(nat (257 - hash_depth hi1), rank a)" arbitrary: a b k hi1 hi2
    rule: wf_induct_rule[OF wf_lex_prod[OF wf_less_than wf_less_than]])
  case (1 a hi1 b k hi2)
  have t: "scheme_type b = scheme_type a"
    using 1(2) by (rule same_type)
  have d: "hash_depth hi2 = hash_depth hi1" using 1(5) by (simp add: like_def)
  let ?k = "k + of_nat (scheme_type a)"
  note m = in_heap(1)[OF 1(3)] in_heap(1)[OF 1(4)]
  show ?case
  proof (rule agree_Suc, cases "hash_depth hi1 > 256")
    case True
    then show "agree (like h N) (hash_depth hi1) (\<lambda>n. equal_hash_key h ptr (Suc n) a k hi1) (\<lambda>n. equal_hash_key h ptr (Suc n) b k hi2)"
      using d t 1(5) by (simp add: MAX_HASH_DEPTH_def agree_return)
  next
    case False
    have r2: "ready (equal_hash_key h ptr) (hash_depth hi1 + 2) N" unfolding ready_def
    proof (intro allI impI)
      fix x y k i1 i2 assume x: "x \<in> N" "y \<in> N" "same_data h x y" "like h N i1 i2" "hash_depth hi1 + 2 \<le> hash_depth i1"
      show "agree (like h N) (hash_depth i1) (\<lambda>n. equal_hash_key h ptr n x k i1) (\<lambda>n. equal_hash_key h ptr n y k i2)"
        by (rule 1(1)[OF _ x(3,1,2,4)]) (use x(5) False in simp)
    qed
    have r0: "ready (equal_hash_key h ptr) (hash_depth hi1) {x. rank x < rank a}" unfolding ready_def
    proof (intro allI impI)
      fix x y k i1 i2 assume x: "x \<in> {x. rank x < rank a}" "x \<in> N" "y \<in> N" "same_data h x y" "like h N i1 i2"
        "hash_depth hi1 \<le> hash_depth i1"
      have "nat (257 - hash_depth i1) < nat (257 - hash_depth hi1) \<or>
          nat (257 - hash_depth i1) = nat (257 - hash_depth hi1) \<and> rank x < rank a" using x(1,6) False by auto
      then show "agree (like h N) (hash_depth i1) (\<lambda>n. equal_hash_key h ptr n x k i1) (\<lambda>n. equal_hash_key h ptr n y k i2)"
        by (intro 1(1)[OF _ x(4,2,3,5)]) simp
    qed
    obtain k2 dn where f: "fast_equal_hash_key a ?k True = (k2, dn)" by fastforce
    have fb: "fast_equal_hash_key b ?k True = (k2, dn)"
    proof (cases "compound a")
      case True
      then obtain ta ha tb hb where "a = Other ta ha" "b = Other tb hb"
        using compound_other same_compound(2)[OF 1(2)] by metis
      with f show ?thesis by (simp add: fast_equal_hash_key_def)
    next
      case False
      from content_fast[OF same_simple[OF 1(2) False]] f show ?thesis by simp
    qed
    show "agree (like h N) (hash_depth hi1) (\<lambda>n. equal_hash_key h ptr (Suc n) a k hi1) (\<lambda>n. equal_hash_key h ptr (Suc n) b k hi2)"
    proof (cases dn)
      case True
      with f fb t d False 1(5) m show ?thesis by (simp add: MAX_HASH_DEPTH_def agree_return)
    next
      case slow: False
      then have "fast_equal_hash_key a ?k True = (k2, False)" using f by simp
      from hash_by_type_agree[OF 1(2-4) this 1(5) r2 r0, of ptr] slow f fb t d False m
      show ?thesis by (simp add: MAX_HASH_DEPTH_def)
    qed
  qed
qed

subsection \<open>The second code\<close>

definition same_depth :: "hash_info \<Rightarrow> hash_info \<Rightarrow> bool" where
  "same_depth hi1 hi2 \<longleftrightarrow> hash_depth hi1 = hash_depth hi2"

lemma same_depth_deeper: "same_depth hi1 hi2 \<Longrightarrow> same_depth (deeper hi1) (deeper hi2)"
  by (simp add: same_depth_def)

definition ready2 :: "(nat \<Rightarrow> hash2_rec) \<Rightarrow> int \<Rightarrow> obj set \<Rightarrow> bool" where
  "ready2 rec d X \<longleftrightarrow> (\<forall>x y hi1 hi2. x \<in> X \<longrightarrow> x \<in> N \<longrightarrow> y \<in> N \<longrightarrow> same_data h x y \<longrightarrow> same_depth hi1 hi2 \<longrightarrow>
     d \<le> hash_depth hi1 \<longrightarrow> agree same_depth (hash_depth hi1) (\<lambda>n. rec n x hi1) (\<lambda>n. rec n y hi2))"

lemma ready2D:
  "ready2 rec d X \<Longrightarrow> x \<in> X \<Longrightarrow> x \<in> N \<Longrightarrow> y \<in> N \<Longrightarrow> same_data h x y \<Longrightarrow> same_depth hi1 hi2 \<Longrightarrow> d \<le> hash_depth hi1 \<Longrightarrow>
   agree same_depth (hash_depth hi1) (\<lambda>n. rec n x hi1) (\<lambda>n. rec n y hi2)"
  unfolding ready2_def by blast

lemma elements2_agree:
  assumes "list_all2 (same_data h) xs ys" "set xs \<subseteq> N" "set ys \<subseteq> N" "ready2 rec d N"
    "same_depth hi1 hi2" "d \<le> hash_depth hi1"
  shows "agree same_depth (hash_depth hi1) (\<lambda>n. hash2_elements (rec n) xs k hi1) (\<lambda>n. hash2_elements (rec n) ys k hi2)"
  using assms
proof (induction arbitrary: k hi1 hi2 rule: list_all2_induct)
  case Nil
  then show ?case by (simp add: agree_return)
next
  case (Cons x xs y ys)
  have one: "agree same_depth (hash_depth hi1) (\<lambda>n. rec n x hi1) (\<lambda>n. rec n y hi2)"
    by (rule ready2D[OF Cons.prems(3) _ _ _ Cons.hyps(1) Cons.prems(4,5)]) (use Cons.prems(1,2) in auto)
  show ?case unfolding hash2_elements.simps
  proof (rule agree_bind[OF one])
    fix v hi1' hi2' assume "same_depth hi1' hi2'" "hash_depth hi1 \<le> hash_depth hi1'"
    with Cons show "agree same_depth (hash_depth hi1) (\<lambda>n. hash2_elements (rec n) xs (k + v) hi1')
        (\<lambda>n. hash2_elements (rec n) ys (k + v) hi2')"
      by (intro agree_mono[OF Cons.IH]) auto
  qed
qed

lemma both2_agree:
  assumes ab: "same_data h a b" "a \<in> N" "b \<in> N" "compound a" "length (parts h a) = 2"
    and l: "same_depth hi1 hi2" and r: "ready2 rec (hash_depth hi1 + 2) N"
  shows "agree same_depth (hash_depth hi1) (\<lambda>n. hash2_both (rec n) (parts h a ! 0) (parts h a ! 1) (deeper hi1))
    (\<lambda>n. hash2_both (rec n) (parts h b ! 0) (parts h b ! 1) (deeper hi2))"
proof -
  note s = pair_same[OF ab]
  have one: "agree same_depth (hash_depth (deeper hi1)) (\<lambda>n. rec n (parts h a ! 0) (deeper hi1)) (\<lambda>n. rec n (parts h b ! 0) (deeper hi2))"
    by (rule ready2D[OF r s(3,3,4,1) same_depth_deeper[OF l]]) simp
  show ?thesis unfolding hash2_both_def
  proof (rule agree_bind[OF one])
    fix v i1 i2 assume i: "same_depth i1 i2" "hash_depth (deeper hi1) \<le> hash_depth i1"
    have two: "agree same_depth (hash_depth i1) (\<lambda>n. rec n (parts h a ! 1) i1) (\<lambda>n. rec n (parts h b ! 1) i2)"
      by (rule ready2D[OF r s(5,5,6,2) i(1)]) (use i(2) in simp)
    show "agree same_depth (hash_depth hi1)
        (\<lambda>n. case rec n (parts h a ! 1) i1 of None \<Rightarrow> None | Some (v2, hi) \<Rightarrow> Some (v + v2, hi))
        (\<lambda>n. case rec n (parts h b ! 1) i2 of None \<Rightarrow> None | Some (v2, hi) \<Rightarrow> Some (v + v2, hi))"
      by (rule agree_bind[OF two], rule agree_return) (use i(2) in auto)
  qed
qed

lemma dbl_hash2_nan: "MZ_IS_NAN d \<Longrightarrow> dbl_hash2_val d = 1"
  by (simp add: dbl_hash2_val_def)

lemma real_hash2_view: "eqv_real a = eqv_real b \<Longrightarrow> real_hash_key2 a = real_hash_key2 b"
proof -
  have i: "int_hash_key2 m = int_hash_key2 n" if "eqv_int m = eqv_int n" for m n
    using that by (cases m; cases n) auto
  assume v: "eqv_real a = eqv_real b"
  show ?thesis
  proof (cases a)
    case (Integer m)
    with v obtain n where b: "b = Integer n" "eqv_int m = eqv_int n" by (cases b) auto
    show ?thesis using i[OF b(2)] by (simp add: Integer b(1))
  next
    case (Rational hdr m d)
    with v obtain hdr' n d' where b: "b = Rational hdr' n d'" "eqv_int m = eqv_int n" by (cases b) auto
    show ?thesis using i[OF b(2)] by (simp add: Rational b(1))
  next
    case (Double hdr d)
    with v obtain hdr' d' where b: "b = Double hdr' d'"
      "(if MZ_IS_NAN d then None else Some d) = (if MZ_IS_NAN d' then None else Some d')" by (cases b) auto
    then show ?thesis using Double by (cases "MZ_IS_NAN d"; cases "MZ_IS_NAN d'") (simp_all add: dbl_hash2_nan)
  qed
qed

lemma hash2_simple:
  assumes same: "same_data h a b" and simple: "\<not> compound a" "modelled a" "modelled b" and d: "\<not> hash_depth hi1 > 256" "hash_depth hi2 = hash_depth hi1"
  shows "\<exists>k. \<forall>n. equal_hash_key2 h (Suc n) a hi1 = Some (k, hi1) \<and> equal_hash_key2 h (Suc n) b hi2 = Some (k, hi2)"
proof -
  note c = same_simple[OF same simple(1)]
  show ?thesis
  proof (cases a)
      case (Real r)
      with c obtain r' where b: "b = Real r'" "eqv_real r = eqv_real r'" by (cases b) auto
      show ?thesis using real_hash2_view[OF b(2)] Real b(1) d simple(2,3) by (simp add: MAX_HASH_DEPTH_def)
    next
      case (Complex hdr r i)
      with c obtain hdr' r' i' where b: "b = Complex hdr' r' i'" "eqv_real r = eqv_real r'" "eqv_real i = eqv_real i'"
        by (cases b) auto
      show ?thesis using real_hash2_view[OF b(2)] real_hash2_view[OF b(3)] Complex b(1) d simple(2,3)
        by (simp add: MAX_HASH_DEPTH_def)
    next
      case (Flvector hdr ds)
      with c obtain ds' hdr' where b: "b = Flvector hdr' ds'" "map dbl_content ds = map dbl_content ds'" by (cases b) auto
      have "hash_flvector dbl_hash2_val ds 0 = hash_flvector dbl_hash2_val ds' 0"
        by (rule flvector_hash[OF dbl_hash2_nan b(2)])
      then show ?thesis using Flvector b(1) d simple(2,3) by (simp add: MAX_HASH_DEPTH_def)
    next
      case (Other t hdr)
      then have "b = a" using c content_other by metis
      then show ?thesis using Other simple d by (auto simp: MAX_HASH_DEPTH_def compound_def Let_def)
    next
      case (Char hdr x)
      with c obtain hdr' where b: "b = Char hdr' x" by (cases b) auto
      show ?thesis using Char b d simple(2,3) by (simp add: MAX_HASH_DEPTH_def)
    next
      case (Char_String hdr x)
      with c obtain hdr' where b: "b = Char_String hdr' x" by (cases b) auto
      show ?thesis using Char_String b d simple(2,3) by (simp add: MAX_HASH_DEPTH_def)
    next
      case (Byte_String hdr x)
      with c obtain hdr' where b: "b = Byte_String hdr' x" by (cases b) auto
      show ?thesis using Byte_String b d simple(2,3) by (simp add: MAX_HASH_DEPTH_def)
    next
      case (Unix_Path hdr x)
      with c obtain hdr' where b: "b = Unix_Path hdr' x" by (cases b) auto
      show ?thesis using Unix_Path b d simple(2,3) by (simp add: MAX_HASH_DEPTH_def)
    next
      case (Cpointer hdr v f)
      with c obtain hdr' v' f' where b: "b = Cpointer hdr' v' f'" "v + f = v' + f'" by (cases b) auto
      show ?thesis using Cpointer b d simple(2,3) by (simp add: MAX_HASH_DEPTH_def)
    qed
qed

lemma hash2_compound_agree:
  assumes ab: "same_data h a b" "a \<in> N" "b \<in> N" and True: "compound a" and l: "same_depth hi1 hi2"
    and d: "\<not> hash_depth hi1 > 256" "hash_depth hi2 = hash_depth hi1"
    and r2: "ready2 (equal_hash_key2 h) (hash_depth hi1 + 2) N"
    and r0: "ready2 (equal_hash_key2 h) (hash_depth hi1) {x. rank x < rank a}"
  shows "agree same_depth (hash_depth hi1) (\<lambda>n. equal_hash_key2 h (Suc n) a hi1) (\<lambda>n. equal_hash_key2 h (Suc n) b hi2)"
proof -
  let ?f = "equal_hash_key2 h"
  note cc = same_compound[OF ab(1) True] and ps = parts_same[OF ab True]
  have mo: "modelled a" "modelled b" "\<not> 2 ^ 31 \<le> length (parts h a)" "\<not> 2 ^ 31 \<le> length (parts h b)"
    using in_heap(1)[OF ab(2)] in_heap(1)[OF ab(3)] in_heap(3)[OF ab(2) True] ps(1) by simp_all
  obtain ty hdr ty' hdr' where o: "a = Other ty hdr" "b = Other ty' hdr'" using compound_other True cc(2) by metis
  have ty: "ty' = ty" using cc(1) o by simp
  have p: "parts_ok h a" using heap ab(2) True unfolding heap_ok_def by blast
  note sd = same_depth_deeper[OF l]
  have els: "agree same_depth (hash_depth hi1) (\<lambda>n. hash2_elements (?f n) (parts h a) 0 (deeper hi1))
      (\<lambda>n. hash2_elements (?f n) (parts h b) 0 (deeper hi2))"
    by (rule agree_mono[OF elements2_agree[OF cc(3) ps(2,3) r2 sd]]) simp_all
  have rels: "agree same_depth (hash_depth hi1) (\<lambda>n. hash2_elements (?f n) (rev (parts h a)) 0 (deeper hi1))
      (\<lambda>n. hash2_elements (?f n) (rev (parts h b)) 0 (deeper hi2))"
    by (rule agree_mono[OF elements2_agree[OF _ _ _ r2 sd]]) (use cc(3) ps(2,3) in simp_all)
  consider "ty = scheme_pair_type \<or> ty = scheme_mutable_pair_type"
    | "ty \<in> {scheme_vector_type, scheme_fxvector_type, scheme_wrap_chunk_type}"
    | "ty = scheme_structure_type \<or> ty = scheme_proc_struct_type" | "ty = scheme_box_type"
    | "ty = scheme_resolved_module_path_type" | "ty = scheme_module_index_type"
    using True o by (auto simp: compound_def)
  then show ?thesis
  proof cases
    case c1: 1
    then have "length (parts h a) = 2" using p o by (auto simp: parts_ok_def)
    note two = both2_agree[OF ab True this l r2]
    have "?f (Suc n) a hi1 = hash2_both (?f n) (parts h a ! 0) (parts h a ! 1) (deeper hi1)"
      "?f (Suc n) b hi2 = hash2_both (?f n) (parts h b ! 0) (parts h b ! 1) (deeper hi2)" for n
      using c1 o ty d mo by (auto simp: MAX_HASH_DEPTH_def SCHEME_CAR_def SCHEME_CDR_def)
    with two show ?thesis by presburger
  next
    case c2: 2
    then have "?f (Suc n) a hi1 = hash2_elements (?f n) (parts h a) 0 (deeper hi1)"
      "?f (Suc n) b hi2 = hash2_elements (?f n) (parts h b) 0 (deeper hi2)" for n
      using o ty d mo by (auto simp: MAX_HASH_DEPTH_def)
    with els show ?thesis by presburger
  next
    case c3: 3
    then have st: "is_struct a" using o by (auto simp: is_struct_def)
    show ?thesis
    proof (cases "visible h (struct_type h a)")
      case vis: True
      have "?f (Suc n) a hi1 = hash2_elements (?f n) (rev (parts h a)) 0 (deeper hi1)"
        "?f (Suc n) b hi2 = hash2_elements (?f n) (rev (parts h b)) 0 (deeper hi2)" for n
        using c3 vis cc(4)[OF st] in_heap(2)[OF ab(2) st] o ty d mo by (auto simp: MAX_HASH_DEPTH_def)
      with rels show ?thesis by presburger
    next
      case invis: False
      have "b = a" by (rule cc(5)[OF st invis])
      then have "?f (Suc n) a hi1 = Some (of_nat ty, hi1)" "?f (Suc n) b hi2 = Some (of_nat ty, hi2)" for n
        using c3 invis in_heap(2)[OF ab(2) st] o ty d mo by (auto simp: MAX_HASH_DEPTH_def)
      with l show ?thesis by (simp only: agree_return order_refl)
    qed
  next
    case c4: 4
    then have "length (parts h a) = 1" using p o by (simp add: parts_ok_def)
    with ps(4) have s: "same_data h (parts h a ! 0) (parts h b ! 0)" "parts h a ! 0 \<in> N" "parts h b ! 0 \<in> N" by simp_all
    have one: "agree same_depth (hash_depth hi1) (\<lambda>n. ?f n (parts h a ! 0) (deeper hi1)) (\<lambda>n. ?f n (parts h b ! 0) (deeper hi2))"
      by (rule agree_mono[OF ready2D[OF r2 s(2,2,3,1) sd]]) simp_all
    have "?f (Suc n) a hi1 = ?f n (parts h a ! 0) (deeper hi1)" "?f (Suc n) b hi2 = ?f n (parts h b ! 0) (deeper hi2)" for n
      using c4 o ty d mo by (auto simp: MAX_HASH_DEPTH_def SCHEME_PTR_VAL_def)
    with one show ?thesis by presburger
  next
    case c5: 5
    then have l1: "length (parts h a) = 1" using p o by (simp add: parts_ok_def)
    with ps(4) have s: "same_data h (parts h a ! 0) (parts h b ! 0)" "parts h a ! 0 \<in> N" "parts h b ! 0 \<in> N" by simp_all
    have "rank (parts h a ! 0) < rank a" using heap ab(2) c5 o l1 unfolding heap_ok_def by simp
    then have one: "agree same_depth (hash_depth hi1) (\<lambda>n. ?f n (parts h a ! 0) hi1) (\<lambda>n. ?f n (parts h b ! 0) hi2)"
      by (intro ready2D[OF r0] s l) simp_all
    have "?f (Suc n) a hi1 = ?f n (parts h a ! 0) hi1" "?f (Suc n) b hi2 = ?f n (parts h b ! 0) hi2" for n
      using c5 o ty d mo by (auto simp: MAX_HASH_DEPTH_def SCHEME_PTR_VAL_def)
    with one show ?thesis by presburger
  next
    case c6: 6
    then have "length (parts h a) = 2" using p o by (simp add: parts_ok_def)
    note two = both2_agree[OF ab True this l r2]
    have "?f (Suc n) a hi1 = hash2_both (?f n) (parts h a ! 0) (parts h a ! 1) (deeper hi1)"
      "?f (Suc n) b hi2 = hash2_both (?f n) (parts h b ! 0) (parts h b ! 1) (deeper hi2)" for n
      using c6 o ty d mo by (auto simp: MAX_HASH_DEPTH_def)
    with two show ?thesis by presburger
  qed
qed

lemma equal_hash_key2_agree:
  "same_data h a b \<Longrightarrow> a \<in> N \<Longrightarrow> b \<in> N \<Longrightarrow> same_depth hi1 hi2 \<Longrightarrow>
   agree same_depth (hash_depth hi1) (\<lambda>n. equal_hash_key2 h n a hi1) (\<lambda>n. equal_hash_key2 h n b hi2)"
proof (induction "(nat (257 - hash_depth hi1), rank a)" arbitrary: a b hi1 hi2
    rule: wf_induct_rule[OF wf_lex_prod[OF wf_less_than wf_less_than]])
  case (1 a hi1 b hi2)
  let ?f = "equal_hash_key2 h"
  let ?goal = "agree same_depth (hash_depth hi1) (\<lambda>n. equal_hash_key2 h (Suc n) a hi1) (\<lambda>n. equal_hash_key2 h (Suc n) b hi2)"
  have t: "scheme_type b = scheme_type a" using 1(2) by (rule same_type)
  have d: "hash_depth hi2 = hash_depth hi1" using 1(5) by (simp add: same_depth_def)
  show ?case
  proof (rule agree_Suc, cases "hash_depth hi1 > 256")
    case True
    then show ?goal using d t 1(5) by (simp add: MAX_HASH_DEPTH_def agree_return)
  next
    case False
    have r2: "ready2 ?f (hash_depth hi1 + 2) N" unfolding ready2_def
    proof (intro allI impI)
      fix x y i1 i2 assume x: "x \<in> N" "y \<in> N" "same_data h x y" "same_depth i1 i2" "hash_depth hi1 + 2 \<le> hash_depth i1"
      show "agree same_depth (hash_depth i1) (\<lambda>n. ?f n x i1) (\<lambda>n. ?f n y i2)"
        by (rule 1(1)[OF _ x(3,1,2,4)]) (use x(5) False in simp)
    qed
    have r0: "ready2 ?f (hash_depth hi1) {x. rank x < rank a}" unfolding ready2_def
    proof (intro allI impI)
      fix x y i1 i2 assume x: "x \<in> {x. rank x < rank a}" "x \<in> N" "y \<in> N" "same_data h x y" "same_depth i1 i2"
        "hash_depth hi1 \<le> hash_depth i1"
      have "nat (257 - hash_depth i1) < nat (257 - hash_depth hi1) \<or>
          nat (257 - hash_depth i1) = nat (257 - hash_depth hi1) \<and> rank x < rank a" using x(1,6) False by auto
      then show "agree same_depth (hash_depth i1) (\<lambda>n. ?f n x i1) (\<lambda>n. ?f n y i2)"
        by (intro 1(1)[OF _ x(4,2,3,5)]) simp
    qed
    show ?goal
    proof (cases "compound a")
      case simple: False
      from hash2_simple[OF 1(2) simple in_heap(1)[OF 1(3)] in_heap(1)[OF 1(4)] False d] obtain k
        where "\<And>n. ?f (Suc n) a hi1 = Some (k, hi1)" "\<And>n. ?f (Suc n) b hi2 = Some (k, hi2)" by blast
      with 1(5) show ?thesis by (simp only: agree_return order_refl)
    next
      case True
      show ?thesis by (rule hash2_compound_agree[OF 1(2-4) True 1(5) False d r2 r0])
    qed
  qed
qed

end

end
