(* ===== verification/Equal_Spec.thy ===== *)
theory Equal_Spec
  imports Equal_Hash
begin

unbundle bit_operations_syntax

section \<open>Properties of \<open>equal?\<close> on data\<close>

text \<open>
  What the operations of \<open>Equal_Code\<close> and \<open>Equal_Hash_Code\<close> promise on a finite part \<open>N\<close> of a heap: they end, \<open>equal?\<close>
  decides \<open>same_data\<close>, and hash codes respect it; so \<open>equal?\<close> tables are an instance of \<open>hash_keys\<close>.
\<close>

subsection \<open>\<open>equal?\<close> tables\<close>

text \<open>The comparison and the hash code of an \<open>equal?\<close> table as runs of the code with the flags \<open>flags\<close>. Keys outside
  \<open>N\<close> are only the same as themselves.\<close>

definition table_equal :: "heap \<Rightarrow> (obj \<Rightarrow> uintptr) \<Rightarrow> obj set \<Rightarrow> list_flags \<Rightarrow> nat \<Rightarrow> obj \<Rightarrow> obj \<Rightarrow> bool" where
  "table_equal h ptr N flags fuel a b \<longleftrightarrow> a = b \<or> a \<in> N \<and> b \<in> N \<and>
     (case scheme_equal h (address_ops ptr) fuel flags a b of Some (same, _) \<Rightarrow> same | None \<Rightarrow> False)"

definition table_slow_hash :: "heap \<Rightarrow> (obj \<Rightarrow> uintptr) \<Rightarrow> obj set \<Rightarrow> list_flags \<Rightarrow> nat \<Rightarrow> obj \<Rightarrow> uintptr" where
  "table_slow_hash h ptr N flags fuel ob =
     (if ob \<in> N then case slow_equal_hash_key h ptr fuel flags ob of Some (k, _) \<Rightarrow> k | None \<Rightarrow> 0 else 0)"

definition data_keys :: "heap \<Rightarrow> obj set \<Rightarrow> list_flags \<Rightarrow> uintptr \<Rightarrow> nat \<Rightarrow> obj key_ops" where
  "data_keys h N flags kg fuel = scheme_keys (table_equal h (ptr_code kg) N flags fuel)
     (table_slow_hash h (ptr_code kg) N flags fuel) kg"

text \<open>Their values once the fuel is enough.\<close>

definition same_key :: "heap \<Rightarrow> obj set \<Rightarrow> obj \<Rightarrow> obj \<Rightarrow> bool" where
  "same_key h N a b \<longleftrightarrow> a = b \<or> a \<in> N \<and> b \<in> N \<and> same_data h a b"

definition hash_value :: "heap \<Rightarrow> (obj \<Rightarrow> uintptr) \<Rightarrow> obj set \<Rightarrow> obj \<Rightarrow> uintptr" where
  "hash_value h ptr N ob = (if ob \<in> N then THE k. \<forall>flags. flags_ok h N flags \<longrightarrow>
     (\<exists>flags'. ends (\<lambda>n. slow_equal_hash_key h ptr n flags ob) (k, flags')) else 0)"

context data_heap
begin

lemma slow_hash_same:
  assumes "same_data h a b" "a \<in> N" "b \<in> N" "flags_ok h N fl1" "flags_ok h N fl2"
  shows "\<exists>k fl1' fl2'. ends (\<lambda>n. slow_equal_hash_key h ptr n fl1 a) (k, fl1') \<and>
    ends (\<lambda>n. slow_equal_hash_key h ptr n fl2 b) (k, fl2') \<and> flags_ok h N fl1' \<and> flags_ok h N fl2'"
proof -
  let ?i = "\<lambda>fl. \<lparr>hash_depth = 1, hash_flags = fl\<rparr>"
  have "like h N (?i fl1) (?i fl2)" using assms(4,5) by (simp add: like_def)
  from equal_hash_key_agree[OF assms(1-3) this, of ptr 0] obtain k i1 i2
    where r: "ends (\<lambda>n. equal_hash_key h ptr n a 0 (?i fl1)) (k, i1)"
      "ends (\<lambda>n. equal_hash_key h ptr n b 0 (?i fl2)) (k, i2)" "like h N i1 i2" by (rule agreeE)
  let ?g = "\<lambda>(k, hi). (k, hash_flags hi)"
  from ends_map[OF r(1), of ?g] ends_map[OF r(2), of ?g] r(3) show ?thesis
    unfolding slow_equal_hash_key_def like_def by auto
qed

lemma hash_value_ends:
  assumes x: "x \<in> N" and ok: "flags_ok h N flags"
  shows "\<exists>flags'. ends (\<lambda>n. slow_equal_hash_key h ptr n flags x) (hash_value h ptr N x, flags')"
proof -
  let ?P = "\<lambda>k. \<forall>flags. flags_ok h N flags \<longrightarrow> (\<exists>flags'. ends (\<lambda>n. slow_equal_hash_key h ptr n flags x) (k, flags'))"
  from slow_hash_same[OF same_data_refl x x ok ok] obtain k fl
    where k: "ends (\<lambda>n. slow_equal_hash_key h ptr n flags x) (k, fl)" by blast
  have "?P k"
  proof (intro allI impI)
    fix fl' assume "flags_ok h N fl'"
    from slow_hash_same[OF same_data_refl x x ok this, of ptr] k
    show "\<exists>flags'. ends (\<lambda>n. slow_equal_hash_key h ptr n fl' x) (k, flags')"
      using ends_unique by (metis prod.inject)
  qed
  moreover have "j = k" if "?P j" for j using that ok ends_unique[OF k] by (metis prod.inject)
  ultimately have "?P (THE k. ?P k)" by (rule theI)
  then show ?thesis using x ok by (simp add: hash_value_def)
qed

lemma hash_value_same:
  assumes "same_data h a b" "a \<in> N" "b \<in> N" "flags_ok h N flags"
  shows "hash_value h ptr N a = hash_value h ptr N b"
  using slow_hash_same[OF assms(1-3) assms(4,4), of ptr] hash_value_ends[OF assms(2,4), of ptr]
    hash_value_ends[OF assms(3,4), of ptr] ends_unique by (metis prod.inject)

lemma equal_hash_same:
  assumes "same_key h N a b" "flags_ok h N flags"
  shows "scheme_equal_hash_key (hash_value h ptr N) a = scheme_equal_hash_key (hash_value h ptr N) b"
proof (cases "a = b")
  case False
  with assms(1) have s: "same_data h a b" "a \<in> N" "b \<in> N" by (simp_all add: same_key_def)
  have "fast_equal_hash_key a 0 True = fast_equal_hash_key b 0 True"
  proof (cases "compound a")
    case True
    then have "compound b" using same_type[OF s(1)] by (simp add: compound_def)
    with True compound_other show ?thesis by (auto simp: fast_equal_hash_key_def dest!: compound_other)
  next
    case False
    from content_fast[OF same_simple[OF s(1) this]] show ?thesis .
  qed
  with hash_value_same[OF s assms(2), of ptr] show ?thesis
    by (simp add: scheme_equal_hash_key_def split: prod.split)
qed simp

lemma hash2_ends:
  assumes "same_data h a b" "a \<in> N" "b \<in> N"
  shows "\<exists>k. ends (\<lambda>n. scheme_equal_hash_key2 h n a) k \<and> ends (\<lambda>n. scheme_equal_hash_key2 h n b) k"
proof -
  let ?i = "\<lparr>hash_depth = 1, hash_flags = (\<lambda>x. 0)\<rparr>"
  have "same_depth ?i ?i" by (simp add: same_depth_def)
  from equal_hash_key2_agree[OF assms this] obtain k i1 i2
    where "ends (\<lambda>n. equal_hash_key2 h n a ?i) (k, i1)" "ends (\<lambda>n. equal_hash_key2 h n b ?i) (k, i2)"
    by (rule agreeE)
  from ends_map[OF this(1), of fst] ends_map[OF this(2), of fst] show ?thesis
    by (auto simp: scheme_equal_hash_key2_def)
qed

end

text \<open>Some flags are right on every heap: with every list and every other pair marked.\<close>

lemma marked_ok: "flags_ok h N (\<lambda>x. if proper_list h x then 1 else 2)"
  unfolding flags_ok_def by (auto intro!: exI[of _ 0])

interpretation equal_keys: hash_keys
    "scheme_keys (same_key (heap_of w) (nodes_of w)) (hash_value (heap_of w) (ptr_code kg) (nodes_of w)) kg" 1 for w kg
proof (unfold_locales, goal_cases)
  case (4 a b)
  then have "same_key (heap_of w) (nodes_of w) a b" by (simp add: key_same_def scheme_keys_def)
  from data.equal_hash_same[OF this marked_ok] show ?case by (simp add: key_hash_def scheme_keys_def)
qed (auto simp: key_same_def scheme_keys_def same_key_def same_data_refl intro: same_data_sym same_data_trans)

text \<open>Enough fuel for one comparison or hash code is enough for all objects of a finite part.\<close>

lemma all_end:
  assumes "finite A" "\<And>x. x \<in> A \<Longrightarrow> ends (f x) (g x)"
  shows "\<exists>K. \<forall>n\<ge>K. \<forall>x\<in>A. f x n = Some (g x)"
proof -
  from assms(2) have "\<forall>x\<in>A. \<exists>K. \<forall>n\<ge>K. f x n = Some (g x)" unfolding ends_def by blast
  then obtain K where K: "\<And>x n. x \<in> A \<Longrightarrow> K x \<le> n \<Longrightarrow> f x n = Some (g x)" by metis
  have "K x \<le> Max (insert 0 (K ` A))" if "x \<in> A" for x using that assms(1) by (intro Max_ge) auto
  with K show ?thesis by (metis order_trans)
qed

lemma equal_ends:
  assumes "heap_ok h N rank" "card N \<le> 2 ^ 27" "flags_ok h N flags" "a \<in> N" "b \<in> N"
  shows "\<exists>flags'. ends (\<lambda>n. scheme_equal h (address_ops ptr) n flags a b) (same_data h a b, flags')"
proof -
  from heap_part_of[OF assms(1,2)] obtain w where w: "heap_of w = h" "nodes_of w = N" .
  from data.scheme_equal_ends[of w, unfolded w, OF assms(3-5), of ptr] show ?thesis by blast
qed

lemma hash_ends:
  assumes "heap_ok h N rank" "x \<in> N" "flags_ok h N flags"
  shows "\<exists>flags'. ends (\<lambda>n. slow_equal_hash_key h ptr n flags x) (hash_value h ptr N x, flags')"
  using data_heap.hash_value_ends[OF data_heap.intro[OF assms(1)] assms(2,3)] .

lemma data_keys_enough:
  assumes heap: "heap_ok h N rank" "card N \<le> 2 ^ 27" and ok: "flags_ok h N flags"
  shows "\<exists>K. \<forall>fuel\<ge>K. data_keys h N flags kg fuel = scheme_keys (same_key h N) (hash_value h (ptr_code kg) N) kg"
proof -
  let ?p = "ptr_code kg"
  let ?E = "\<lambda>(a, b) n. scheme_equal h (address_ops ?p) n flags a b" and ?H = "\<lambda>x n. slow_equal_hash_key h ?p n flags x"
  have fin: "finite N" "finite (N \<times> N)" using heap(1) by (simp_all add: heap_ok_def)
  have "\<forall>ab \<in> N \<times> N. \<exists>fl. ends (?E ab) (same_data h (fst ab) (snd ab), fl)"
    using equal_ends[OF heap ok, of _ _ ?p] by auto
  then obtain e where "\<And>ab. ab \<in> N \<times> N \<Longrightarrow> ends (?E ab) (same_data h (fst ab) (snd ab), e ab)" by metis
  from all_end[OF fin(2) this] obtain K1
    where K1: "\<And>n a b. K1 \<le> n \<Longrightarrow> a \<in> N \<Longrightarrow> b \<in> N \<Longrightarrow> ?E (a, b) n = Some (same_data h a b, e (a, b))" by fastforce
  have "\<forall>x \<in> N. \<exists>fl. ends (?H x) (hash_value h ?p N x, fl)" using hash_ends[OF heap(1) _ ok] by blast
  then obtain f where "\<And>x. x \<in> N \<Longrightarrow> ends (?H x) (hash_value h ?p N x, f x)" by metis
  from all_end[of N ?H, OF fin(1) this] obtain K2 where K2: "\<And>n x. K2 \<le> n \<Longrightarrow> x \<in> N \<Longrightarrow> ?H x n = Some (hash_value h ?p N x, f x)" by blast
  have "table_equal h ?p N flags n = same_key h N" if "K1 \<le> n" for n
    using K1[OF that] by (auto simp: fun_eq_iff table_equal_def same_key_def)
  moreover have "table_slow_hash h ?p N flags n = hash_value h ?p N" if "K2 \<le> n" for n
    using K2[OF that] by (auto simp: fun_eq_iff table_slow_hash_def) (simp add: hash_value_def)
  ultimately have "data_keys h N flags kg n = scheme_keys (same_key h N) (hash_value h ?p N) kg" if "max K1 K2 \<le> n" for n
    using that by (simp add: data_keys_def)
  then show ?thesis by blast
qed

lemma same_key_iff:
  "key_same (scheme_keys (same_key h N) slow kg) 1 a b \<longleftrightarrow> a = b \<or> a \<in> N \<and> b \<in> N \<and> same_data h a b"
  by (simp add: key_same_def scheme_keys_def same_key_def)

lemma cl_closed: "equiv UNIV R \<Longrightarrow> cl R = R"
  using cl_least[of R R] cl_base[of R] by blast

text \<open>Linking two classes generates exactly the consequences of the new pair.\<close>

lemma link_classes:
  assumes "forest p" "root p b rb" "root p a ra" "ra \<noteq> rb"
  shows "joined (p(rb \<mapsto> ra)) = cl (insert (a, b) (joined p))"
proof
  have base: "insert (a, b) (joined p) \<subseteq> cl (insert (a, b) (joined p))" by (rule cl_base)
  then have "joined p \<subseteq> cl (insert (a, b) (joined p))" "(a, b) \<in> cl (insert (a, b) (joined p))" by simp_all
  note lj = link_joined[OF assms cl_equiv this]
  show "joined (p(rb \<mapsto> ra)) \<subseteq> cl (insert (a, b) (joined p))" by (rule lj(1))
  have "insert (a, b) (joined p) \<subseteq> joined (p(rb \<mapsto> ra))" using lj(2,3) by simp
  then show "cl (insert (a, b) (joined p)) \<subseteq> joined (p(rb \<mapsto> ra))"
    by (rule cl_least[OF joined_equiv[OF link_forest[OF assms]]])
qed

subsection \<open>The properties\<close>

text \<open>C36. \<open>equal?\<close> ends on every finite part of a heap, cyclic data and long lists included, with the right answer:
  whether the two objects are the same data. The flags of pairs it leaves are right again. \<open>heap_ok\<close> says what is
  left out: chaperones, extflonums, Windows paths, hash tables, regular expressions and the channels of places
  (\<open>modelled\<close>), and structures with \<^verbatim>\<open>prop:equal+hash\<close> or \<^verbatim>\<open>prop:impersonator-of\<close>; at most \<open>2 ^ 27\<close> objects keep the
  union table below the size where its \<^verbatim>\<open>int\<close> overflows.\<close>

theorem scheme_equal_decides:
  assumes "heap_ok h N rank" "card N \<le> 2 ^ 27" "flags_ok h N flags" "a \<in> N" "b \<in> N"
  shows "\<exists>flags'. flags_ok h N flags' \<and>
    (\<exists>K. \<forall>fuel\<ge>K. scheme_equal h (address_ops ptr) fuel flags a b = Some (same_data h a b, flags'))"
proof -
  from heap_part_of[OF assms(1,2)] obtain w where w: "heap_of w = h" "nodes_of w = N" .
  from data.scheme_equal_ends[of w, unfolded w, OF assms(3-5), of ptr] show ?thesis unfolding ends_def by blast
qed

text \<open>C37. The two hash codes end as well and are equal for the same data, whatever flags of pairs are cached: both
  go only to a bounded depth, but along a list the depth does not grow. \<open>heap_ok\<close> leaves out the types the model has no
  contents of, and vectors, structures and strings of \<open>2 ^ 31\<close> or more elements, whose length does not fit the code's \<^verbatim>\<open>int\<close>.\<close>

theorem equal_hash_codes:
  assumes "heap_ok h N rank" "flags_ok h N flags1" "flags_ok h N flags2" "a \<in> N" "b \<in> N" "same_data h a b"
  shows "\<exists>k k2 K. \<forall>fuel\<ge>K.
    map_option fst (slow_equal_hash_key h ptr fuel flags1 a) = Some k \<and>
    map_option fst (slow_equal_hash_key h ptr fuel flags2 b) = Some k \<and>
    scheme_equal_hash_key2 h fuel a = Some k2 \<and> scheme_equal_hash_key2 h fuel b = Some k2"
proof -
  from data_heap.slow_hash_same[OF data_heap.intro[OF assms(1)] assms(6,4,5,2,3), of ptr] obtain k fl1 fl2
    where "ends (\<lambda>n. slow_equal_hash_key h ptr n flags1 a) (k, fl1)" "ends (\<lambda>n. slow_equal_hash_key h ptr n flags2 b) (k, fl2)"
    by blast
  from ends_map[OF this(1), of fst] ends_map[OF this(2), of fst]
  have one: "ends (\<lambda>n. map_option fst (slow_equal_hash_key h ptr n flags1 a)) k"
    "ends (\<lambda>n. map_option fst (slow_equal_hash_key h ptr n flags2 b)) k" by simp_all
  from data_heap.hash2_ends[OF data_heap.intro[OF assms(1)] assms(6,4,5)] obtain k2
    where two: "ends (\<lambda>n. scheme_equal_hash_key2 h n a) k2" "ends (\<lambda>n. scheme_equal_hash_key2 h n b) k2" by blast
  from one two obtain K1 K2 K3 K4
    where "\<forall>n\<ge>K1. map_option fst (slow_equal_hash_key h ptr n flags1 a) = Some k"
      "\<forall>n\<ge>K2. map_option fst (slow_equal_hash_key h ptr n flags2 b) = Some k"
      "\<forall>n\<ge>K3. scheme_equal_hash_key2 h n a = Some k2" "\<forall>n\<ge>K4. scheme_equal_hash_key2 h n b = Some k2"
    unfolding ends_def by blast
  then show ?thesis by (intro exI[of _ k] exI[of _ k2] exI[of _ "max (max K1 K2) (max K3 K4)"]) simp
qed

text \<open>C38. The get/set law for immutable \<open>equal?\<close> tables, whose comparison and hash code are the runs of the code with
  enough fuel: a key finds what was stored under any key of the same data, and no other key is affected. The keys are those of a
  heap with \<open>heap_ok\<close>, of at most \<open>2 ^ 27\<close> objects.\<close>

theorem equal_table_get_set:
  assumes "heap_ok h N rank" "card N \<le> 2 ^ 27" "flags_ok h N flags"
  shows "\<exists>K. \<forall>fuel\<ge>K. \<forall>t key val key'.
    ht_kind t = 1 \<longrightarrow> hash_tree_ok (data_keys h N flags kg fuel) t \<longrightarrow> ht_count t < 2 ^ 31 \<longrightarrow>
    scheme_hash_tree_get (data_keys h N flags kg fuel) (scheme_hash_tree_set (data_keys h N flags kg fuel) t key val) key' =
      (if key = key' \<or> key \<in> N \<and> key' \<in> N \<and> same_data h key key' then val
       else scheme_hash_tree_get (data_keys h N flags kg fuel) t key')"
proof -
  from heap_part_of[OF assms(1,2)] obtain w where w: "heap_of w = h" "nodes_of w = N" .
  let ?o = "scheme_keys (same_key h N) (hash_value h (ptr_code kg) N) kg"
  from data_keys_enough[OF assms] obtain K where K: "\<forall>fuel\<ge>K. data_keys h N flags kg fuel = ?o" by blast
  show ?thesis
  proof (intro exI[of _ K] allI impI, goal_cases)
    case (1 fuel t key val key')
    from K 1(1) have op: "data_keys h N flags kg fuel = ?o" by blast
    from equal_keys.get_set(2)[of t w kg key val key', unfolded w] 1(2-4) show ?case unfolding op same_key_iff by blast
  qed
qed

text \<open>C39. \<^verbatim>\<open>scheme_is_list\<close> ends with the right answer, whichever flags are cached, and the flag it records is
  right: the loop may record the list flag only in a pair that the answer holds for.\<close>

theorem scheme_is_list_answer:
  assumes "heap_ok h N rank" "flags_ok h N flags" "x \<in> N"
  shows "\<exists>flags'. flags_ok h N flags' \<and>
    (\<exists>K. \<forall>fuel\<ge>K. scheme_is_list h fuel x flags = Some (proper_list h x, flags'))"
  using scheme_is_list_ends[OF data_heap.pair_parts(4)[OF data_heap.intro[OF assms(1)]] assms(2,3)]
  unfolding ends_def by blast

text \<open>The pairs assumed equal in a state.\<close>

definition assumed_equal :: "(obj \<Rightarrow> uintptr) \<Rightarrow> equal_info \<Rightarrow> (obj \<times> obj) set" where
  "assumed_equal ptr e = joined (parent (address_ops ptr) (eq_table e))"

text \<open>C40. From depth 50 on, \<^verbatim>\<open>union_check\<close> is union-find: it answers whether the two objects were assumed equal, directly
  or through others, and afterwards exactly the consequences of their equality are assumed as well. \<open>table_room\<close> bounds the entries by
  \<open>2 ^ 27\<close>, which keeps the table's size below \<open>2 ^ 30\<close>, so that no rehash overflows.\<close>

theorem union_check_classes:
  assumes "50 \<le> eq_depth e" "table_room ptr (Suc n) (eq_table e)" "forest (parent (address_ops ptr) (eq_table e))"
  shows "\<exists>e'. (\<exists>K. \<forall>fuel\<ge>K. union_check (address_ops ptr) fuel a b e = Some ((a, b) \<in> assumed_equal ptr e, e')) \<and>
    assumed_equal ptr e' = cl (insert (a, b) (assumed_equal ptr e)) \<and>
    table_room ptr n (eq_table e') \<and> forest (parent (address_ops ptr) (eq_table e'))"
proof -
  let ?o = "address_ops ptr" and ?t = "eq_table e"
  have deep: "\<not> eq_depth e < 50" using assms(1) by simp
  from assms(3) obtain ra rb where r: "root (parent ?o ?t) a ra" "root (parent ?o ?t) b rb" unfolding forest_def by blast
  from address_forest.union_find_ends[OF assms(2,3) r(1)] obtain t1
    where t1: "ends (\<lambda>k. union_find ?o k a ?t) (ra, t1)" "table_room ptr (Suc n) t1" "address_forest.kept ptr ?t t1" by blast
  have "forest (parent ?o t1)" "root (parent ?o t1) b rb" using t1(3) r(2) by (simp_all add: address_forest.kept_def)
  from address_forest.union_find_ends[OF t1(2) this] obtain t2
    where t2: "ends (\<lambda>k. union_find ?o k b t1) (rb, t2)" "table_room ptr (Suc n) t2" "address_forest.kept ptr t1 t2" by blast
  from address_forest.kept_trans[OF t1(3) t2(3)] r
  have q: "forest (parent ?o t2)" "joined (parent ?o t2) = assumed_equal ptr e" "root (parent ?o t2) a ra" "root (parent ?o t2) b rb"
    by (auto simp: address_forest.kept_def assumed_equal_def)
  have eqv: "equiv UNIV (assumed_equal ptr e)" unfolding assumed_equal_def by (rule joined_equiv[OF assms(3)])
  have mem: "(a, b) \<in> assumed_equal ptr e \<longleftrightarrow> ra = rb"
  proof
    assume "(a, b) \<in> assumed_equal ptr e"
    then obtain s where "root (parent ?o ?t) a s" "root (parent ?o ?t) b s" by (auto simp: assumed_equal_def joined_def)
    from root_unique[OF r(1) this(1)] root_unique[OF r(2) this(2)] show "ra = rb" by simp
  next
    assume "ra = rb"
    with r show "(a, b) \<in> assumed_equal ptr e" unfolding assumed_equal_def joined_def by blast
  qed
  have run: "ends (\<lambda>n. union_check ?o n a b e) res"
    if "ends (\<lambda>n. if ra = rb then Some (True, e\<lparr>eq_ht := Some t2\<rparr>)
         else map_option (\<lambda>ht. (False, e\<lparr>eq_ht := Some ht\<rparr>)) (scheme_hash_set ?o t2 rb (Some ra))) res" for res
    unfolding union_check_def eq_table_def[symmetric] Let_def if_not_P[OF deep]
    by (rule ends_bind_pair[OF t1(1)], rule ends_bind_pair[OF t2(1)], rule that)
  show ?thesis
  proof (cases "ra = rb")
    case True
    let ?e = "e\<lparr>eq_ht := Some t2\<rparr>"
    have "ends (\<lambda>n. union_check ?o n a b e) (True, ?e)" by (rule run) (simp add: True)
    moreover have "insert (a, b) (assumed_equal ptr e) = assumed_equal ptr e" using mem True by blast
    moreover have "cl (assumed_equal ptr e) = assumed_equal ptr e" by (rule cl_closed[OF eqv])
    moreover have "table_room ptr n t2" using t2(2) by (simp add: table_room_def)
    ultimately show ?thesis using mem True q(1,2) unfolding ends_def
      by (intro exI[of _ ?e]) (simp add: assumed_equal_def)
  next
    case False
    from address_forest.room_new[OF t2(2), of rb ra] root_end[OF q(4)] obtain t3
      where t3: "scheme_hash_set ?o t2 rb (Some ra) = Some t3" "table_room ptr n t3"
        "parent ?o t3 = (parent ?o t2)(rb \<mapsto> ra)" by blast
    let ?e = "e\<lparr>eq_ht := Some t3\<rparr>"
    have "ends (\<lambda>n. union_check ?o n a b e) (False, ?e)" by (rule run) (simp add: False t3(1))
    moreover have "assumed_equal ptr ?e = cl (insert (a, b) (assumed_equal ptr e))"
      using link_classes[OF q(1) q(4,3) False, unfolded q(2)] by (simp add: assumed_equal_def t3(3))
    moreover have "forest (parent ?o (eq_table ?e))" using link_forest[OF q(1) q(4,3) False] by (simp add: t3(3))
    ultimately show ?thesis using mem False t3(2) unfolding ends_def by (intro exI[of _ ?e]) simp
  qed
qed

section \<open>Witnesses\<close>

text \<open>Two vectors that each hold themselves, and a list of the first one.\<close>

abbreviation e_object :: "nat \<Rightarrow> nat \<Rightarrow> obj" where
  "e_object t a \<equiv> Other t \<lparr>address = a, keyex = 0, gc_allocated = True, hash_bits = 0\<rparr>"

abbreviation e_vec1 :: obj where "e_vec1 \<equiv> e_object 66 20"
abbreviation e_vec2 :: obj where "e_vec2 \<equiv> e_object 66 21"
abbreviation e_pair :: obj where "e_pair \<equiv> e_object 64 22"
abbreviation e_null :: obj where "e_null \<equiv> e_object 63 23"

definition e_heap :: heap where
  "e_heap = \<lparr>parts = (\<lambda>x. if x = e_vec1 then [e_vec1] else if x = e_vec2 then [e_vec2]
     else if x = e_pair then [e_vec1, e_null] else []), struct_type = (\<lambda>x. 0), visible = (\<lambda>t. True), has_procs = (\<lambda>t. False)\<rparr>"

definition e_nodes :: "obj set" where
  "e_nodes = {e_vec1, e_vec2, e_pair, e_null}"

lemma e_parts [simp]: "parts e_heap e_vec1 = [e_vec1]" "parts e_heap e_vec2 = [e_vec2]" "parts e_heap e_pair = [e_vec1, e_null]"
  "parts e_heap e_null = []"
  by (simp_all add: e_heap_def)

lemma e_in [simp]: "e_vec1 \<in> e_nodes" "e_vec2 \<in> e_nodes" "e_pair \<in> e_nodes"
  by (simp_all add: e_nodes_def)

lemma e_list: "proper_list e_heap e_pair"
  by (simp add: proper_list_simps SCHEME_PAIRP_def SCHEME_NULLP_def SCHEME_CDR_def)

lemma e_heap_ok: "heap_ok e_heap e_nodes (\<lambda>x. if x = e_pair then 1 else 0)"
  unfolding heap_ok_def e_nodes_def
  by (simp add: compound_def parts_ok_def is_struct_def SCHEME_PAIRP_def SCHEME_CDR_def in_model_def modelled_def
    outside_types_def)

lemma e_small: "card e_nodes \<le> 2 ^ 27"
  by (simp add: e_nodes_def)

lemma e_flags_ok: "flags_ok e_heap e_nodes (\<lambda>x. 0)"
proof -
  have "cdrs_stop e_heap (\<lambda>x. 0) 1 e_pair" by (simp add: SCHEME_PAIRP_def SCHEME_CDR_def)
  then have "\<exists>m. cdrs_stop e_heap (\<lambda>x. 0) m e_pair" ..
  then show ?thesis unfolding flags_ok_def e_nodes_def by (simp add: SCHEME_PAIRP_def)
qed

lemma e_same: "same_data e_heap e_vec1 e_vec2"
proof (coinduction rule: same_data.coinduct)
  case same_data
  show ?case by (simp add: same_shape_def compound_def is_struct_def)
qed

lemma e_other: "\<not> same_data e_heap e_vec1 e_pair"
  by (auto elim: same_data.cases simp: same_shape_def)

theorem scheme_equal_decides_witness:
  "\<exists>K flags'. \<forall>fuel\<ge>K. scheme_equal e_heap (address_ops (ptr_code 4)) fuel (\<lambda>x. 0) e_vec1 e_vec2 = Some (True, flags')"
  using scheme_equal_decides[OF e_heap_ok e_small e_flags_ok e_in(1,2), of "ptr_code 4"] e_same by auto

theorem equal_hash_codes_witness:
  "\<exists>k K. \<forall>fuel\<ge>K. scheme_equal_hash_key2 e_heap fuel e_vec1 = Some k \<and> scheme_equal_hash_key2 e_heap fuel e_vec2 = Some k"
  using equal_hash_codes[OF e_heap_ok e_flags_ok e_flags_ok e_in(1,2) e_same] by blast

theorem scheme_is_list_answer_witness:
  "\<exists>K flags'. \<forall>fuel\<ge>K. scheme_is_list e_heap fuel e_pair (\<lambda>x. 0) = Some (True, flags')"
  using scheme_is_list_answer[OF e_heap_ok e_flags_ok e_in(3)] e_list by auto

lemma e_tree_ok: "hash_tree_ok (data_keys e_heap e_nodes (\<lambda>x. 0) 4 fuel) (scheme_make_hash_tree 1 :: (obj, nat) hash_tree)"
  by (simp add: hash_tree_ok_def scheme_make_hash_tree_def tree_ok_def entries_def)

theorem equal_table_get_set_witness:
  "\<exists>K. \<forall>fuel\<ge>K. let ops = data_keys e_heap e_nodes (\<lambda>x. 0) 4 fuel;
       t = scheme_hash_tree_set ops (scheme_make_hash_tree 1 :: (obj, nat) hash_tree) e_vec1 (Some 7)
     in scheme_hash_tree_get ops t e_vec2 = Some 7 \<and> scheme_hash_tree_get ops t e_pair = None"
proof -
  let ?t = "scheme_make_hash_tree 1 :: (obj, nat) hash_tree" and ?o = "data_keys e_heap e_nodes (\<lambda>x. 0) 4"
  have none: "scheme_hash_tree_get (?o fuel) ?t e_pair = None" for fuel
    by (simp add: scheme_make_hash_tree_def get_unfold)
  have kind: "ht_kind ?t = 1" "ht_count ?t < 2 ^ 31" by (simp_all add: scheme_make_hash_tree_def)
  from equal_table_get_set[OF e_heap_ok e_small e_flags_ok, of 4] obtain K
    where "\<And>fuel (t :: (obj, nat) hash_tree) key val key'. K \<le> fuel \<Longrightarrow> ht_kind t = 1 \<Longrightarrow> hash_tree_ok (?o fuel) t \<Longrightarrow>
      ht_count t < 2 ^ 31 \<Longrightarrow> scheme_hash_tree_get (?o fuel) (scheme_hash_tree_set (?o fuel) t key val) key' =
        (if key = key' \<or> key \<in> e_nodes \<and> key' \<in> e_nodes \<and> same_data e_heap key key' then val
         else scheme_hash_tree_get (?o fuel) t key')" by blast
  note law = this[OF _ kind(1) e_tree_ok kind(2), of _ e_vec1 "Some 7"]
  have "scheme_hash_tree_get (?o n) (scheme_hash_tree_set (?o n) ?t e_vec1 (Some 7)) e_vec2 = Some 7"
    "scheme_hash_tree_get (?o n) (scheme_hash_tree_set (?o n) ?t e_vec1 (Some 7)) e_pair = None" if "K \<le> n" for n
    using law[OF that] e_same e_other none by simp_all
  then show ?thesis by (auto simp: Let_def)
qed

theorem union_check_classes_witness:
  "\<exists>K e'. \<forall>fuel\<ge>K. union_check (address_ops (ptr_code 4)) fuel e_vec1 e_vec2
     \<lparr>eq_depth = 50, car_depth = 1, eq_ht = None, pair_flags = (\<lambda>x. 0)\<rparr> = Some (False, e')"
proof -
  let ?e = "\<lparr>eq_depth = 50, car_depth = 1, eq_ht = None, pair_flags = (\<lambda>x. 0)\<rparr> :: equal_info"
  have p: "parent (address_ops (ptr_code 4)) (eq_table ?e) = (\<lambda>x. None)"
    by (simp add: fun_eq_iff eq_table_def address_forest.parent_make)
  have "table_room (ptr_code 4) (Suc 0) (eq_table ?e)"
    using address_forest.room_make[of "Suc 0" "ptr_code 4"] by (simp add: eq_table_def)
  moreover have "forest (parent (address_ops (ptr_code 4)) (eq_table ?e))" unfolding p by (simp add: forest_def)
  moreover have "(e_vec1, e_vec2) \<notin> assumed_equal (ptr_code 4) ?e" by (simp add: assumed_equal_def p joined_empty)
  ultimately show ?thesis using union_check_classes[of ?e "ptr_code 4" 0 e_vec1 e_vec2] by auto
qed

end
