(* ===== verification/Spec2Isabelle.thy ===== *)
theory Spec2Isabelle
  imports Hash_Tree_Iter Hash_Keys Key_Gen Hash_Table_Correct Utf8_Spec Sema_Spec Ratio_Spec Equal_Spec
begin

text \<open>
  The C run-time system of Racket (\<^verbatim>\<open>src/racket/src/racket/\<close>), the parts of it that are algorithms
  on data of their own: hash tables, text conversion, thread synchronisation and exact numbers.
  The model is that of the 64-bit build with the precise collector, without single-precision
  and extended flonums, on a platform that is not Windows. All paths below are relative to
  \<^verbatim>\<open>src/racket/src/racket/src/\<close>.

  \<^bold>\<open>Parts and theories.\<close>

  \<^item> Immutable hash tables, \<^verbatim>\<open>hash.c\<close> from line 2141 on. \<open>Avl\<close> has the balanced trees of
    \<^verbatim>\<open>AVLNode\<close>; \<open>Hash_Tree\<close> the tables \<^verbatim>\<open>Scheme_Hash_Tree\<close>, which keep keys with the same hash
    code in an inner tree; \<open>Hash_Tree_Correct\<close> the table invariant and the get/set laws, in the locale
    \<open>hash_keys\<close> of the laws that the key comparison and hash code must have; \<open>Hash_Tree_Iter\<close>
    the positions of \<^verbatim>\<open>scheme_hash_tree_next\<close> as bit paths and the comparison of tables.
  \<^item> Objects as keys. \<open>Scheme_Object\<close> has the objects \<^verbatim>\<open>eqv?\<close> looks into (\<^verbatim>\<open>bool.c\<close>,
    \<^verbatim>\<open>rational.c\<close>, \<^verbatim>\<open>bignum.c\<close>) with flonums as their bits; \<open>Key_Gen\<close> the codes that
    \<^verbatim>\<open>PTR_TO_LONG\<close> hands out; \<open>Hash_Keys\<close> the hash codes, and the interpretations of
    \<open>hash_keys\<close> for \<^verbatim>\<open>eq?\<close> and \<^verbatim>\<open>eqv?\<close> tables.
  \<^item> \<^verbatim>\<open>equal?\<close> on data, \<^verbatim>\<open>bool.c\<close> and \<^verbatim>\<open>hash.c\<close>: \<open>Equal_Code\<close> has \<^verbatim>\<open>is_equal\<close> over a \<open>heap\<close> of pairs, vectors,
    boxes and structures, which may be shared and cyclic, with its union-find on a mutable hash table and with
    \<^verbatim>\<open>scheme_is_list\<close>, which caches its answers in the pairs; \<open>Equal_Hash_Code\<close> the hash codes
    \<^verbatim>\<open>equal_hash_key\<close> and \<^verbatim>\<open>equal_hash_key2\<close>. \<open>Equal_Forest\<close> shows the union-find correct, in the locale
    \<open>union_table\<close>, interpreted on the address tables of \<open>Hash_Table\<close>. \<open>Equal_Data\<close> says, coinductively, what it is to
    be the same data, \<open>Equal_Correct\<close> (locales \<open>data_heap\<close> and \<open>equal_heap\<close>) that \<open>equal?\<close> ends and decides it,
    \<open>Equal_Hash\<close> that the hash codes respect it; \<open>Equal_Spec\<close> interprets \<open>hash_keys\<close> for \<^verbatim>\<open>equal?\<close> tables and holds
    the properties.
  \<^item> Mutable hash tables, \<^verbatim>\<open>hash.c\<close> up to line 616: \<open>Hash_Table\<close> has the open addressing of
    \<^verbatim>\<open>do_hash\<close>, with the marks of removed keys and the growth; \<open>Hash_Table_Correct\<close> its invariant and
    laws in the locale \<open>table_keys\<close>, interpreted for string tables and address tables.
  \<^item> Text, \<^verbatim>\<open>string.c\<close>: \<open>Utf8\<close> has the decoder \<^verbatim>\<open>utf8_decode_x\<close> in all its modes, the two
    passes of the encoder and UTF-16; \<open>Utf8_Correct\<close> relates it to sequences of scalar
    values; \<open>Utf8_Spec\<close> holds the properties.
  \<^item> Synchronisation, \<^verbatim>\<open>sema.c\<close> and what it calls in \<^verbatim>\<open>thread.c\<close>: \<open>Sema\<close> has the lines of waiters
    as doubly linked lists in a store, posting and waiting, channels, and thread mailboxes as chains of pairs in a store;
    \<open>Sema_Correct\<close> the lines as abstract queues; \<open>Sema_Spec\<close> the properties, and mailboxes as queues. A thread
    that waits is the sequence of steps between two thread switches (\<open>wait_begin\<close>,
    \<open>wait_resumed\<close>, \<open>wait_again\<close>).
  \<^item> Exact integers: \<open>Limbs\<close> has the vectors of 64-bit digits (\<^verbatim>\<open>gmp/gmp.c\<close>, \<^verbatim>\<open>gmp/gmp.h\<close>), \<open>Bignum\<close> the
    signed integers of \<^verbatim>\<open>bignum.c\<close> over them, \<open>Exact_Int\<close> the integer cases of the generic operations
    of \<^verbatim>\<open>numarith.c\<close>, \<^verbatim>\<open>number.c\<close>, \<^verbatim>\<open>numcomp.c\<close> and \<^verbatim>\<open>nummacs.h\<close>, with the fast paths on
    fixnums. \<open>Limbs_Correct\<close>, \<open>Bignum_Correct\<close>, \<open>Exact_Int_Correct\<close> and \<open>Exact_Int_Numeric\<close>
    show, layer by layer, that each result \<open>represents\<close> the number it should: it has that value and is in
    normal form. \<open>Exact_Int_Spec\<close> holds the properties.
  \<^item> Exact rational numbers: \<open>Ratio\<close> has the fractions of \<^verbatim>\<open>rational.c\<close> over exact integers and the cases of
    the generic operations with fractions; \<open>Ratio_Correct\<close> shows in the locale \<open>gmp_laws\<close> that the
    results are those of the field of rational numbers, in lowest terms, and where the code
    leaves the normal form; \<open>Ratio_Spec\<close> interprets the locale and holds the properties.

  The hash codes and \<^verbatim>\<open>eqv?\<close> read the digits of bignums, so the normal form of exact integers is
  what makes integers usable as keys; property \<open>exact_int_eqv\<close> joins the two parts.

  \<^bold>\<open>Code that is a parameter.\<close> \<open>scheme_keys\<close> takes \<^verbatim>\<open>equal?\<close> and its hash code as arguments, which \<open>Equal_Spec\<close>
  supplies for data; the chaperone traversals of tables are arguments too. The product, division and gcd of digit
  vectors in the GMP library (\<^verbatim>\<open>mpn_mul\<close>, which changes from the schoolbook method to Karatsuba, Toom-3 and Fourier
  transforms with growing length, \<^verbatim>\<open>mpn_tdiv_qr\<close> and \<^verbatim>\<open>mpn_gcd\<close>) are arguments \<open>mul\<close>, \<open>tdiv\<close> and \<open>gcd_digs\<close>, and every
  property that depends on them assumes what the GMP manual says of them: \<open>limb_product\<close>, \<open>divides_limbs\<close>, \<open>gcd_limbs\<close>. The
  locale \<open>limb_product\<close> is interpreted on the schoolbook product \<open>mpn_mul_basecase\<close> of the
  source, and the laws are shown to hold for a concrete division and gcd.

  \<^bold>\<open>Fuel and bounds.\<close> Loops are structural recursions where their bound is plain. Fuel is
  the table's size in the probes of \<open>do_hash\<close> (the probes visit every slot, property
  \<open>probe_permutation\<close>), 64 for the loops over the bits of a word, the number of bits for the search
  of the lowest one bit in \<open>scheme_bignum_gcd\<close>; the iteration over a hash tree
  (\<open>hash_tree_walk\<close>) has an argument for it and the property says how much is enough.
  \<open>equal?\<close> and the hash codes take fuel for all their loops and recursion, and the properties say that from some
  amount on the result is the same. \<open>do_big_power\<close>, whose loop runs for ages, is a \<^verbatim>\<open>partial_function\<close>. Machine integers are words,
  or integers with the wrap-around of \<^verbatim>\<open>intptr_t\<close> and of a fixnum written out (\<open>intptr\<close>,
  \<open>scheme_make_integer\<close>). Where the code keeps a size in a C \<^verbatim>\<open>int\<close>, the model shows where it overflows and the properties
  stay below: the size of a mutable table from \<open>2 ^ 30\<close> slots on (\<open>new_size\<close>), the counters of low zero bits in
  \<open>scheme_bignum_gcd\<close> (the properties of fractions bound denominators by \<open>2 ^ gcd_bits\<close>), the lengths of vectors
  and strings in the hash codes; the positions in an immutable table are 64-bit \<open>mzlonglong\<close>s. One such \<^verbatim>\<open>int\<close> is not shown: \<open>bignum_divide\<close> counts the low zero
  digits of the divisor, of which there would have to be 16 GB.

  \<^bold>\<open>Not modelled.\<close> The expander, compiler, optimizer and JIT, the reader and printer, ports, files and
  sockets, modules and environments, the thread scheduler, the collectors and the foreign interface
  are outside: most of their code is state shared with the whole run-time system or calls to
  the operating system. Within the parts above: chaperones, structures with
  properties that override \<^verbatim>\<open>equal?\<close>, and hash tables, regular expressions, extflonums, Windows paths and the channels
  of places as data of \<^verbatim>\<open>equal?\<close>, where the model's \<open>is_equal\<close> has no result; weak tables, the locks and breaks of
  waits, negative acknowledgements; Karatsuba, Toom-Cook and FFT products and the division of GMP; the square
  root of bignums and the flonum and complex cases of the generic operations.
\<close>

unbundle bit_operations_syntax

section \<open>Properties of immutable hash tables\<close>

text \<open>C1. Looking a key up after an insertion or removal (a missing value) gives the new value
  for the same key and the old one for every other key, for \<open>eq?\<close> and \<open>eqv?\<close> tables whose
  hash codes may collide.\<close>

theorem hash_tree_get_set:
  assumes "ht_kind t = 0 \<or> ht_kind t = 2" "hash_tree_ok (scheme_keys equal slow kg) t"
    and "ht_count t < 2 ^ 31"
  shows "scheme_hash_tree_get (scheme_keys equal slow kg)
      (scheme_hash_tree_set (scheme_keys equal slow kg) t key val) key' =
    (if key_same (scheme_keys equal slow kg) (ht_kind t) key key' then val
     else scheme_hash_tree_get (scheme_keys equal slow kg) t key')"
  using assms eq_keys.get_set(2)[of t equal slow kg] eqv_keys.get_set(2)[of t equal slow kg] by auto

text \<open>C2. Insertion and removal keep the table's invariant: the tree is a balanced search tree,
  every entry lies under its key's hash code, keys with equal codes are in an inner tree and
  distinct, and the count is the number of entries.\<close>

theorem hash_tree_set_invariant:
  assumes "ht_kind t = 0 \<or> ht_kind t = 2" "hash_tree_ok (scheme_keys equal slow kg) t"
    and "ht_count t < 2 ^ 31"
  shows "hash_tree_ok (scheme_keys equal slow kg)
      (scheme_hash_tree_set (scheme_keys equal slow kg) t key val) \<and>
    ht_kind (scheme_hash_tree_set (scheme_keys equal slow kg) t key val) = ht_kind t"
  using assms eq_keys.get_set(1,3)[of t equal slow kg] eqv_keys.get_set(1,3)[of t equal slow kg]
  by auto

text \<open>C3. Iteration, which starts with \<open>-1\<close> and ends with \<open>-1\<close>, returns every entry exactly
  once, in the order of the tree, as long as the positions of the tree, of which the code shifts one or two bits per
  level into a 64-bit \<^verbatim>\<open>mzlonglong\<close>, fit its 63 bits.\<close>

theorem hash_tree_iteration:
  assumes "hash_tree_ok (scheme_keys equal slow kg) t" "path_bits (ht_root t) \<le> 63" "ht_count t < int fuel"
  shows "hash_tree_walk fuel t (-1) = map Some (entries (ht_root t))"
  using assms by (intro walk_entries[of "scheme_keys equal slow kg" "ht_kind t"]) (auto simp: hash_tree_ok_def)

text \<open>C4. Comparing two tables looks up every key of the first in the second, and ends within
  as many iterations as the first has entries, when the positions fit the \<^verbatim>\<open>int\<close>
  loop variable.\<close>

theorem hash_tree_equal_rec_spec:
  assumes "hash_tree_ok (scheme_keys equal slow kg) t1" "path_bits (ht_root t1) \<le> 31"
  shows "scheme_hash_tree_equal_rec (scheme_keys equal slow kg) None None recur_equal t1 t2
      (Suc (nat (ht_count t1))) =
    Some (ht_count t1 = ht_count t2 \<and> ht_kind t1 = ht_kind t2 \<and>
      (\<forall>(k, v) \<in> set (entries (ht_root t1)).
         \<exists>v2. scheme_hash_tree_get (scheme_keys equal slow kg) t2 k = Some v2 \<and> recur_equal v v2))"
proof -
  have start: "equal_rec_loop (scheme_keys equal slow kg) None None recur_equal t1 t2 (Suc (nat (ht_count t1)))
      (to_int32 (scheme_hash_tree_next t1 (-1))) =
    Some (\<forall>(k, v) \<in> set (entries (ht_root t1)).
      \<exists>v2. scheme_hash_tree_get (scheme_keys equal slow kg) t2 k = Some v2 \<and> recur_equal v v2)"
    using assms by (intro equal_rec_start[of _ "ht_kind t1"]) (simp_all add: hash_tree_ok_def)
  show ?thesis unfolding scheme_hash_tree_equal_rec_def start
    by (simp split: if_split) blast
qed

text \<open>\<open>avl_ins\<close> keeps a tree balanced and ordered, adds the node unless its code is
  already there, and loses nothing.\<close>

theorem avl_ins_correct:
  assumes "avl_bal t" "avl_bst t"
  shows "avl_bal (avl_ins c k v t) \<and> avl_bst (avl_ins c k v t) \<and>
    mset (avl_items (avl_ins c k v t)) =
      (if c \<in> avl_codes t then mset (avl_items t) else add_mset (c, k, v) (mset (avl_items t)))"
  using avl_ins_bal[OF assms(1)] avl_ins_items[OF assms] by auto

text \<open>C5. \<open>avl_del\<close> keeps a tree balanced and ordered and removes exactly the node with the
  given code.\<close>

theorem avl_del_correct:
  assumes "avl_bal t" "avl_bst t"
  shows "avl_bal (avl_del t c) \<and> avl_bst (avl_del t c) \<and>
    mset (avl_items (avl_del t c)) = filter_mset (\<lambda>x. fst x \<noteq> c) (mset (avl_items t))"
  using avl_del_bal[OF assms(1), of c] avl_del_bst[OF assms, of c] by auto

text \<open>The tree of a table is shallow: its height is at most twice the binary logarithm of
  its number of entries, plus one.\<close>

theorem hash_tree_height:
  assumes "hash_tree_ok (scheme_keys equal slow kg) t"
  shows "2 ^ (get_height (ht_root t) div 2) \<le> ht_count t + 1"
proof -
  have ok: "avl_bal (ht_root t)" "\<forall>x \<in> set (avl_items (ht_root t)). item_ok (scheme_keys equal slow kg) (ht_kind t) x"
    and c: "ht_count t = int (length (entries (ht_root t)))"
    using assms by (auto simp: hash_tree_ok_def tree_ok_def)
  have "2 ^ (get_height (ht_root t) div 2) \<le> length (entries (ht_root t)) + 1"
    using avl_height_items[OF ok(1)] items_le_entries[OF ok(2)] by simp
  then have "int (2 ^ (get_height (ht_root t) div 2)) \<le> int (length (entries (ht_root t)) + 1)"
    by (simp only: of_nat_le_iff)
  then show ?thesis by (simp add: c)
qed

section \<open>Properties of keys and their hash codes\<close>

text \<open>C6. \<open>eqv?\<close> is an equivalence on all objects, and the \<open>eqv?\<close> hash code is the same for
  equivalent objects: bignums, rationals and complex numbers made apart, and every NaN.\<close>

theorem scheme_eqv_equivalence:
  "equivp scheme_eqv \<and>
   (\<forall>a b. scheme_eqv a b \<longrightarrow> scheme_eqv_hash_key slow kg a = scheme_eqv_hash_key slow kg b)"
proof (intro conjI allI impI equivpI reflpI sympI transpI)
  fix a b
  assume "scheme_eqv a b"
  then show "scheme_eqv_hash_key slow kg a = scheme_eqv_hash_key slow kg b"
    by (intro eqv_hash_view) (simp add: scheme_eqv_iff)
qed (simp_all add: scheme_eqv_iff)

text \<open>\<open>eqv?\<close> on doubles is equality of their bits, but for NaNs, which are all the same:
  the two zeros differ.\<close>

theorem double_eqv_bits: "double_eqv a b = (MZ_IS_NAN a \<and> MZ_IS_NAN b \<or> a = b)"
  by (rule double_eqv_iff)

text \<open>C7. An object's address hash code is stable: asking again, whatever the counter is by
  then, gives the same code and changes nothing, if the object is the collector's, or the
  two low bits of its \<open>keyex\<close> are clear, or the counter's low bits were not.\<close>

theorem PTR_TO_LONG_stable:
  assumes "obj_header ob = Some h" "keygen_ok keygen"
    and "gc_allocated h \<or> keyex h AND 3 = 0 \<or> (ucast keygen :: u16) AND 0xFFF8 \<noteq> 0"
    and "PTR_TO_LONG keygen ob = (code, ob', keygen')"
  shows "PTR_TO_LONG keygen2 ob' = (code, ob', keygen2) \<and> keygen_ok keygen'"
proof (cases "keyex h AND 0xFFFC = 0")
  case True
  with assms(4) have r: "code = code_of (new_header h keygen) (scheme_type ob)"
    "ob' = set_header (new_header h keygen) ob" "keygen' = keygen + 8"
    by (simp_all add: PTR_TO_LONG_header[OF assms(1)])
  have "keyex (new_header h keygen) AND 0xFFFC \<noteq> 0"
    unfolding new_header_simps by (rule new_keyex_set[OF assms(2,3)])
  with r show ?thesis
    by (simp add: PTR_TO_LONG_header[OF obj_header_set_header[OF assms(1)]] scheme_type_set_header
        keygen_step[OF assms(2)])
next
  case False
  with assms(4) have r: "code = code_of h (scheme_type ob)" "ob' = ob" "keygen' = keygen"
    by (auto simp: PTR_TO_LONG_header[OF assms(1)])
  show ?thesis unfolding r using False by (simp add: PTR_TO_LONG_header[OF assms(1)] assms(2))
qed

text \<open>A new object of the collector gets as its code the counter without its three low
  bits, so \<open>2 ^ 56\<close> objects in a row get different codes.\<close>

theorem PTR_TO_LONG_counter:
  assumes "obj_header ob = Some h" "gc_allocated h" "keyex h AND 0xFFFC = 0" "keygen_ok keygen"
  shows "fst (PTR_TO_LONG keygen ob) = take_bit 56 (drop_bit 3 keygen) \<and>
    snd (snd (PTR_TO_LONG keygen ob)) = keygen + 8"
  using assms code_of_new by (simp add: PTR_TO_LONG_header)

text \<open>C8. Without that condition the code is never stable. Take any object outside the collector's
  heap that has no code yet and has one of its two low \<open>keyex\<close> bits set, and let it be hashed
  when the 13 bits of the counter above the three low ones are all clear. Then its code is its type shifted, the
  object is left as it was, still without a code, and hashing it again with the counter as it is then
  gives a different code.\<close>

theorem PTR_TO_LONG_unstable:
  assumes "obj_header ob = Some h" "\<not> gc_allocated h" "keyex h AND 3 \<noteq> 0" "keyex h AND 0xFFFC = 0"
    and "keygen_ok keygen" "(ucast keygen :: u16) AND 0xFFF8 = 0"
    and "PTR_TO_LONG keygen ob = (code, ob', keygen')"
  shows "ob' = ob \<and> keygen' = keygen + 8 \<and> code = push_bit 13 (of_nat (scheme_type ob)) \<and>
    fst (PTR_TO_LONG keygen' ob') = code OR 1 \<and> code OR 1 \<noteq> code"
proof -
  have n: "new_header h keygen = h"
    using new_keyex_lost[OF assms(3-6)] assms(2) by (simp add: new_header_def)
  from assms(7) have r: "code = code_of h (scheme_type ob)" "ob' = ob" "keygen' = keygen + 8"
    by (auto simp: PTR_TO_LONG_header[OF assms(1)] assms(4) n set_own_header[OF assms(1)])
  have c: "code = push_bit 13 (of_nat (scheme_type ob))"
    unfolding r by (rule code_of_type[OF assms(4)])
  have "fst (PTR_TO_LONG keygen' ob') = code_of (new_header h (keygen + 8)) (scheme_type ob)"
    by (simp add: r PTR_TO_LONG_header[OF assms(1)] assms(4))
  also have "\<dots> = code OR 1"
    unfolding c by (rule code_of_next[OF assms(2,4-6)])
  finally have next_code: "fst (PTR_TO_LONG keygen' ob') = code OR 1" .
  have "code OR 1 \<noteq> code"
  proof
    assume "code OR 1 = code"
    from arg_cong[OF this, of "\<lambda>w. bit w 0"] show False by (simp add: c bit_push_bit_iff bit_or_iff bit_1_iff)
  qed
  with r c next_code show ?thesis by blast
qed

section \<open>Witnesses\<close>

text \<open>Three doubles as keys: two NaNs with different bits, which are \<open>eqv?\<close>, and zero.\<close>

abbreviation w_header :: "nat \<Rightarrow> header" where
  "w_header a \<equiv> \<lparr>address = a, keyex = 0, gc_allocated = True, hash_bits = 0\<rparr>"

abbreviation nan1 :: obj where "nan1 \<equiv> Real (Double (w_header 10) 0x7FF8000000000000)"
abbreviation nan2 :: obj where "nan2 \<equiv> Real (Double (w_header 11) 0x7FF8000000000001)"
abbreviation zero1 :: obj where "zero1 \<equiv> Real (Double (w_header 12) 0)"

abbreviation w_keys :: "obj key_ops" where
  "w_keys \<equiv> scheme_keys (=) (\<lambda>_. 0) 4"

definition w_tree :: "(obj, nat) hash_tree" where
  "w_tree = scheme_hash_tree_set w_keys (scheme_make_hash_tree 2) nan1 (Some 7)"

lemma h1: "key_hash w_keys 2 nan1 = 1053"
  by (simp add: key_hash_def scheme_keys_def eqv_hash_num real_hash_key_def dbl_hash_nan MZ_IS_NAN_def dbl_exp_def dbl_frac_def)

lemma h2: "key_hash w_keys 2 zero1 = 53"
  by (simp add: key_hash_def scheme_keys_def eqv_hash_num real_hash_key_def MZ_IS_NAN_def dbl_exp_def dbl_frac_def
    dbl_hash_val_def MZ_IS_INFINITY_def dbl_neg_def scheme_minus_zero_p_def dbl_frexp30_def dbl_zero_def)

lemma nan_simps: "MZ_IS_NAN 0x7FF8000000000000" "MZ_IS_NAN 0x7FF8000000000001" "\<not> MZ_IS_NAN 0"
  by (simp_all add: MZ_IS_NAN_def dbl_exp_def dbl_frac_def)

lemma h3: "key_hash w_keys 2 nan2 = 1053"
  by (simp add: key_hash_def scheme_keys_def eqv_hash_num real_hash_key_def dbl_hash_nan nan_simps)

lemma w_tree_val: "w_tree = \<lparr>ht_count = 1, ht_root = AVLNode 1 1053 (Some nan1) (Value 7) Null Null, ht_kind = 2\<rparr>"
  by (simp add: w_tree_def scheme_hash_tree_set_def scheme_make_hash_tree_def h1 hash_tree_set.simps)


lemma w_tree_ok: "hash_tree_ok w_keys w_tree"
proof -
  have "hash_tree_ok w_keys (scheme_make_hash_tree 2 :: (obj, nat) hash_tree)" by (rule eqv_keys.make_ok)
  then show ?thesis unfolding w_tree_def
    by (intro eqv_keys.get_set(1)) (simp_all add: scheme_make_hash_tree_def)
qed

theorem hash_tree_get_set_witness:
  "scheme_hash_tree_get w_keys (scheme_hash_tree_set w_keys w_tree zero1 (Some 8)) nan2 = Some 7"
proof -
  have "scheme_hash_tree_get w_keys w_tree nan2 = Some 7"
    by (simp add: w_tree_val get_unfold h3) (simp add: key_same_def scheme_keys_def scheme_eqv_iff nan_simps)
  moreover have "\<not> key_same w_keys 2 zero1 nan2"
    by (simp add: key_same_def scheme_keys_def scheme_eqv_iff nan_simps)
  ultimately show ?thesis
    using hash_tree_get_set[of w_tree "(=)" "\<lambda>_. 0" 4 zero1 "Some 8" nan2] w_tree_ok by (simp add: w_tree_val)
qed

theorem hash_tree_set_invariant_witness:
  "hash_tree_ok w_keys (scheme_hash_tree_set w_keys w_tree nan2 None)"
  using hash_tree_set_invariant[of w_tree "(=)" "\<lambda>_. 0" 4 nan2 None] w_tree_ok by (simp add: w_tree_val)

theorem hash_tree_iteration_witness:
  "hash_tree_walk 2 w_tree (-1) = [Some (nan1, 7)]"
  using hash_tree_iteration[of "(=)" "\<lambda>_. 0" 4 w_tree 2] w_tree_ok by (simp add: w_tree_val entries_def)

theorem hash_tree_equal_rec_spec_witness:
  "scheme_hash_tree_equal_rec w_keys None None (=) w_tree w_tree 2 = Some True"
proof -
  have "scheme_hash_tree_get w_keys w_tree nan1 = Some 7"
    by (simp add: w_tree_val get_unfold h1) (simp add: key_same_def scheme_keys_def scheme_eqv_iff nan_simps)
  then show ?thesis
    using hash_tree_equal_rec_spec[of "(=)" "\<lambda>_. 0" 4 w_tree "(=)" w_tree] w_tree_ok
    by (simp add: w_tree_val entries_def numeral_2_eq_2)
qed

theorem avl_ins_correct_witness:
  "avl_bal (avl_ins 5 (Some nan1) (Value (1::nat)) (ht_root w_tree)) \<and>
   mset (avl_items (avl_ins 5 (Some nan1) (Value (1::nat)) (ht_root w_tree))) =
     {#(5, Some nan1, Value 1), (1053, Some nan1, Value 7)#}"
  using avl_ins_correct[of "ht_root w_tree" 5 "Some nan1" "Value 1"] by (simp add: w_tree_val)

theorem avl_del_correct_witness:
  "mset (avl_items (avl_del (ht_root w_tree) 1053)) = {#}"
  using avl_del_correct[of "ht_root w_tree" 1053] by (simp add: w_tree_val)

theorem hash_tree_height_witness: "2 ^ (get_height (ht_root w_tree) div 2) \<le> ht_count w_tree + 1"
  by (rule hash_tree_height[OF w_tree_ok])

theorem scheme_eqv_equivalence_witness:
  "scheme_eqv nan1 nan2 \<and> scheme_eqv_hash_key (\<lambda>_. 0) 4 nan1 = scheme_eqv_hash_key (\<lambda>_. 0) 4 nan2"
proof -
  have "scheme_eqv nan1 nan2" by (simp add: scheme_eqv_def is_eqv_def is_eqv_real_def double_eqv_iff nan_simps)
  with scheme_eqv_equivalence[of "\<lambda>_. 0" 4] show ?thesis by blast
qed

theorem PTR_TO_LONG_stable_witness:
  "PTR_TO_LONG 4 zero1 = (0, set_header (new_header (w_header 12) 4) zero1, 12) \<and>
   PTR_TO_LONG 100 (set_header (new_header (w_header 12) 4) zero1) =
     (0, set_header (new_header (w_header 12) 4) zero1, 100)"
proof -
  have r: "PTR_TO_LONG 4 zero1 = (0, set_header (new_header (w_header 12) 4) zero1, 12)"
    by (simp add: PTR_TO_LONG_header code_of_def new_header_def new_keyex_def)
  have "PTR_TO_LONG 100 (set_header (new_header (w_header 12) 4) zero1) =
     (0, set_header (new_header (w_header 12) 4) zero1, 100)"
    using PTR_TO_LONG_stable[OF _ _ _ r, of "w_header 12" 100] by (simp add: keygen_ok_def)
  with r show ?thesis by blast
qed

theorem PTR_TO_LONG_counter_witness: "fst (PTR_TO_LONG 28 zero1) = 3"
  using PTR_TO_LONG_counter[of zero1 "w_header 12" 28] by (simp add: keygen_ok_def)

theorem PTR_TO_LONG_unstable_witness:
  "fst (PTR_TO_LONG 4 (Other 61 \<lparr>address = 10, keyex = 1, gc_allocated = False, hash_bits = 0\<rparr>)) = 61 * 2 ^ 13 \<and>
   fst (PTR_TO_LONG 12 (Other 61 \<lparr>address = 10, keyex = 1, gc_allocated = False, hash_bits = 0\<rparr>)) = 61 * 2 ^ 13 + 1"
proof -
  let ?ob = "Other 61 \<lparr>address = 10, keyex = 1, gc_allocated = False, hash_bits = 0\<rparr>"
  have r: "PTR_TO_LONG 4 ?ob = (61 * 2 ^ 13, ?ob, 12)"
    by (simp add: PTR_TO_LONG_header code_of_def new_header_def new_keyex_def)
  show ?thesis
    using PTR_TO_LONG_unstable[OF _ _ _ _ _ _ r, of "\<lparr>address = 10, keyex = 1, gc_allocated = False, hash_bits = 0\<rparr>"] r
    by (simp add: keygen_ok_def)
qed

end
